(* ===== verification/Prelude.thy ===== *)
theory Prelude
  imports Main "HOL-Library.Word"
begin

unbundle bit_operations_syntax

text \<open>
  Shared vocabulary of the DarwinCore development: names for the machine integers of the C++
  sources, the little-endian image of an integer in memory (what a \<open>memcpy\<close> of a packed struct
  writes on the x86-64 and arm64 targets), in-place overwriting of a byte range, and the interfaces
  that several components provide: fixed-width codecs, bounded FIFO queues and invariant-preserving
  transition systems. Each interface is a locale; every component that provides one interprets it.
\<close>

section \<open>Names and collections\<close>

type_synonym u8 = "8 word"
type_synonym u16 = "16 word"
type_synonym u32 = "32 word"
type_synonym u64 = "64 word"
type_synonym bytes = "u8 list"

named_theorems layout_simps \<open>sizes and field offsets of the packed wire structures\<close>
named_theorems size_simps \<open>length equations of the model's operations\<close>

section \<open>Lists\<close>

lemma take_drop_split: "i \<le> j \<Longrightarrow> take (j - i) (drop i xs) @ drop j xs = drop i xs"
  by (metis append_take_drop_id drop_drop le_add_diff_inverse2)

lemma drop_eq_nth_tl: "i < length xs \<Longrightarrow> drop i xs = xs ! i # drop (Suc i) xs"
  by (rule Cons_nth_drop_Suc [symmetric])

text \<open>\<open>std::memcpy(buf + pos, ys, ys.size())\<close> on a buffer that is long enough.\<close>

definition blit :: "'a list \<Rightarrow> nat \<Rightarrow> 'a list \<Rightarrow> 'a list" where
  "blit buf pos ys = take pos buf @ ys @ drop (pos + length ys) buf"

lemma length_blit [simp, size_simps]:
  "pos + length ys \<le> length buf \<Longrightarrow> length (blit buf pos ys) = length buf"
  by (simp add: blit_def)

lemma take_blit [simp]: "pos \<le> length buf \<Longrightarrow> take pos (blit buf pos ys) = take pos buf"
  by (simp add: blit_def)

lemma blit_window:
  "pos + length ys \<le> length buf \<Longrightarrow> take (length ys) (drop pos (blit buf pos ys)) = ys"
  by (simp add: blit_def)

section \<open>Errors as sums\<close>

text \<open>A loop that pushes one result per element and stops at the first exception.\<close>

fun traverse :: "('a \<Rightarrow> 'e + 'b) \<Rightarrow> 'a list \<Rightarrow> 'e + 'b list" where
  "traverse f [] = Inr []"
| "traverse f (x # xs) =
     (case f x of Inl e \<Rightarrow> Inl e
      | Inr y \<Rightarrow> (case traverse f xs of Inl e \<Rightarrow> Inl e | Inr ys \<Rightarrow> Inr (y # ys)))"

lemma traverse_Inr: "(\<And>x. x \<in> set xs \<Longrightarrow> f x = Inr (g x)) \<Longrightarrow> traverse f xs = Inr (map g xs)"
  by (induction xs) auto

section \<open>Machine integers\<close>

lemma unat_word_of_nat: "n < 2 ^ LENGTH('a) \<Longrightarrow> unat (word_of_nat n :: 'a::len word) = n"
  by (simp add: unsigned_of_nat take_bit_nat_eq_self)

lemma unat_plus_one:
  assumes "x < y"
  shows "unat (x + 1) = Suc (unat (x :: 'a::len word))"
proof -
  have "Suc (unat x) < 2 ^ LENGTH('a)"
    using assms unsigned_less [of y, where ?'a = nat] unfolding word_less_nat_alt by linarith
  then show ?thesis by (simp add: unat_word_ariths(1))
qed

section \<open>Little-endian images of machine integers\<close>

definition to_le :: "nat \<Rightarrow> 'a::len word \<Rightarrow> bytes" where
  "to_le n w = map (\<lambda>i. ucast (drop_bit (8 * i) w)) [0..<n]"

primrec from_le :: "bytes \<Rightarrow> 'a::len word" where
  "from_le [] = 0"
| "from_le (b # bs) = ucast b OR push_bit 8 (from_le bs)"

lemma length_to_le [simp, size_simps]: "length (to_le n w) = n"
  by (simp add: to_le_def)

lemma bit_from_le:
  "bit (from_le bs :: 'a::len word) n \<longleftrightarrow>
     n < LENGTH('a) \<and> n div 8 < length bs \<and> bit (bs ! (n div 8)) (n mod 8)"
proof (induction bs arbitrary: n)
  case Nil
  then show ?case by simp
next
  case (Cons b bs)
  show ?case
  proof (cases "n < 8")
    case True
    then show ?thesis by (auto simp: bit_simps)
  next
    case False
    then obtain m where n: "n = m + 8" by (metis add.commute le_add_diff_inverse not_less)
    have "\<not> bit b n" using False by (auto dest: bit_imp_le_length)
    then show ?thesis
      using Cons.IH [of m] by (auto simp: n bit_simps div_add1_eq)
  qed
qed

lemma from_le_to_le:
  fixes w :: "'a::len word"
  assumes "LENGTH('a) \<le> 8 * n"
  shows "from_le (to_le n w) = w"
proof (rule bit_word_eqI)
  fix k assume k: "k < LENGTH('a)"
  with assms have "k div 8 < n" by linarith
  then show "bit (from_le (to_le n w) :: 'a word) k = bit w k"
    using k by (auto simp: bit_from_le to_le_def bit_simps)
qed

lemma from_le_to_le_std [simp]:
  "from_le (to_le 1 (a :: u8)) = a"
  "from_le (to_le 2 (b :: u16)) = b"
  "from_le (to_le 4 (c :: u32)) = c"
  "from_le (to_le 8 (d :: u64)) = d"
  by (simp_all add: from_le_to_le)

lemma to_le_from_le:
  assumes "length bs = n" and "8 * n \<le> LENGTH('a)"
  shows "to_le n (from_le bs :: 'a::len word) = bs"
proof (rule nth_equalityI)
  show "length (to_le n (from_le bs :: 'a word)) = length bs" using assms by simp
next
  fix i assume "i < length (to_le n (from_le bs :: 'a word))"
  then have i: "i < n" by simp
  show "to_le n (from_le bs :: 'a word) ! i = bs ! i"
  proof (rule bit_word_eqI)
    fix k assume k: "k < LENGTH(8)"
    then have k8: "k < 8" by simp
    with i assms(2) have "8 * i + k < LENGTH('a)" by simp
    moreover have "(8 * i + k) div 8 = i" "(8 * i + k) mod 8 = k" using k8 by auto
    ultimately show "bit (to_le n (from_le bs :: 'a word) ! i) k = bit (bs ! i) k"
      using i k assms(1) by (simp add: to_le_def bit_simps bit_from_le)
  qed
qed

section \<open>Interface: fixed-width codecs\<close>

text \<open>
  A packed struct that is copied to and from a byte buffer: every value has an image of \<open>width\<close>
  bytes, reading the image gives the value back, and reading looks at the first \<open>width\<close> bytes only.
\<close>

locale byte_codec =
  fixes width :: nat
    and enc :: "'r \<Rightarrow> bytes"
    and dec :: "bytes \<Rightarrow> 'r"
  assumes length_enc: "length (enc r) = width"
    and dec_enc: "dec (enc r) = r"
    and dec_prefix: "width \<le> length bs \<Longrightarrow> dec bs = dec (take width bs)"
begin

lemma dec_enc_append: "dec (enc r @ rest) = r"
  using dec_prefix [of "enc r @ rest"] by (simp add: length_enc dec_enc)

lemma drop_enc_append: "drop width (enc r @ rest) = rest"
  by (simp add: length_enc)

lemma enc_inject: "enc r = enc r' \<longleftrightarrow> r = r'"
  by (metis dec_enc)

lemma enc_append_inject: "enc r @ rest = enc r' @ rest' \<longleftrightarrow> r = r' \<and> rest = rest'"
  by (metis dec_enc_append append_eq_append_conv length_enc)

lemma dec_append: "width \<le> length bs \<Longrightarrow> dec (bs @ rest) = dec bs"
  using dec_prefix [of bs] dec_prefix [of "bs @ rest"] by simp

end

section \<open>Interface: bounded FIFO queues\<close>

text \<open>
  \<open>push\<close> reports whether the element was accepted, \<open>pop\<close> returns the oldest element. \<open>contents\<close> is
  the abstract queue, oldest element first; \<open>room\<close> tells when a push is accepted.
\<close>

datatype 'a fifo_op = Push 'a | Pop

fun fifo_run :: "('a \<Rightarrow> 'q \<Rightarrow> bool \<times> 'q) \<Rightarrow> ('q \<Rightarrow> 'a option \<times> 'q) \<Rightarrow>
    'a fifo_op list \<Rightarrow> 'q \<Rightarrow> 'a list \<times> 'a list \<times> 'q" where
  "fifo_run push pop [] q = ([], [], q)"
| "fifo_run push pop (Push x # ops) q =
     (let (ok, q1) = push x q; (ins, outs, q2) = fifo_run push pop ops q1
      in (if ok then x # ins else ins, outs, q2))"
| "fifo_run push pop (Pop # ops) q =
     (let (r, q1) = pop q; (ins, outs, q2) = fifo_run push pop ops q1
      in (ins, (case r of None \<Rightarrow> outs | Some x \<Rightarrow> x # outs), q2))"

locale bounded_fifo =
  fixes invar :: "'q \<Rightarrow> bool"
    and contents :: "'q \<Rightarrow> 'a list"
    and room :: "'q \<Rightarrow> bool"
    and push :: "'a \<Rightarrow> 'q \<Rightarrow> bool \<times> 'q"
    and pop :: "'q \<Rightarrow> 'a option \<times> 'q"
  assumes push_invar: "invar q \<Longrightarrow> invar (snd (push x q))"
    and push_ok: "invar q \<Longrightarrow> fst (push x q) \<longleftrightarrow> room q"
    and push_contents: "invar q \<Longrightarrow>
          contents (snd (push x q)) = (if room q then contents q @ [x] else contents q)"
    and pop_invar: "invar q \<Longrightarrow> invar (snd (pop q))"
    and pop_result: "invar q \<Longrightarrow>
          fst (pop q) = (case contents q of [] \<Rightarrow> None | x # xs \<Rightarrow> Some x)"
    and pop_contents: "invar q \<Longrightarrow> contents (snd (pop q)) = tl (contents q)"
begin

text \<open>
  Nothing is lost, duplicated or reordered: in any sequence of operations, what was in the queue
  followed by what was accepted is what was taken out followed by what is still in the queue.
\<close>

lemma run_invar: "invar q \<Longrightarrow> invar (snd (snd (fifo_run push pop ops q)))"
proof (induction ops arbitrary: q)
  case (Cons op ops)
  then show ?case
    using push_invar [of q] pop_invar [of q] by (cases op) (simp_all add: case_prod_beta Let_def)
qed simp

lemma run_conservation:
  "invar q \<Longrightarrow> fifo_run push pop ops q = (ins, outs, q') \<Longrightarrow>
     contents q @ ins = outs @ contents q'"
proof (induction ops arbitrary: q ins outs q')
  case Nil
  then show ?case by simp
next
  case (Cons op ops)
  show ?case
  proof (cases op)
    case (Push x)
    obtain ok q1 where p: "push x q = (ok, q1)" by (cases "push x q")
    obtain ins' outs' q'' where r: "fifo_run push pop ops q1 = (ins', outs', q'')"
      by (metis surj_pair)
    have "invar q1" "ok = room q" "contents q1 = (if room q then contents q @ [x] else contents q)"
      using push_invar [of q x] push_ok [of q x] push_contents [of q x] Cons.prems(1) p by auto
    with Cons.IH [of q1 ins' outs' q''] Cons.prems(2) show ?thesis
      by (auto simp: Push p r split: if_splits)
  next
    case Pop
    obtain v q1 where p: "pop q = (v, q1)" by (cases "pop q")
    obtain ins' outs' q'' where r: "fifo_run push pop ops q1 = (ins', outs', q'')"
      by (metis surj_pair)
    have "invar q1" "v = (case contents q of [] \<Rightarrow> None | x # xs \<Rightarrow> Some x)"
      "contents q1 = tl (contents q)"
      using pop_invar [of q] pop_result [of q] pop_contents [of q] Cons.prems(1) p by auto
    with Cons.IH [of q1 ins' outs' q''] Cons.prems(2) show ?thesis
      by (cases "contents q") (auto simp: Pop p r)
  qed
qed

end

section \<open>Interface: transition systems with an invariant\<close>

locale invariant_system =
  fixes init :: "'s \<Rightarrow> bool"
    and step :: "'s \<Rightarrow> 's \<Rightarrow> bool"
    and Inv :: "'s \<Rightarrow> bool"
  assumes Inv_init: "init s \<Longrightarrow> Inv s"
    and Inv_step: "Inv s \<Longrightarrow> step s t \<Longrightarrow> Inv t"
begin

lemma Inv_steps: "step\<^sup>*\<^sup>* s t \<Longrightarrow> Inv s \<Longrightarrow> Inv t"
  by (induction rule: rtranclp_induct) (auto intro: Inv_step)

lemma Inv_reachable: "init s \<Longrightarrow> step\<^sup>*\<^sup>* s t \<Longrightarrow> Inv t"
  by (blast intro: Inv_steps Inv_init)

end

section \<open>Interface: objects that implement a specification\<close>

text \<open>
  An object answers operations; its specification answers the same operations on an abstract state.
  None is undefined behaviour of the object. The object refines the specification when every
  operation on a well-formed state is defined, answers as the specification does and keeps the
  abstraction.
\<close>

fun object_run :: "('op \<Rightarrow> 's \<Rightarrow> ('out \<times> 's) option) \<Rightarrow> 'op list \<Rightarrow> 's \<Rightarrow> ('out list \<times> 's) option" where
  "object_run exec [] s = Some ([], s)"
| "object_run exec (op # ops) s =
     (case exec op s of None \<Rightarrow> None
      | Some (out, s1) \<Rightarrow> map_option (apfst (Cons out)) (object_run exec ops s1))"

fun spec_run :: "('op \<Rightarrow> 'a \<Rightarrow> 'out \<times> 'a) \<Rightarrow> 'op list \<Rightarrow> 'a \<Rightarrow> 'out list \<times> 'a" where
  "spec_run spec [] a = ([], a)"
| "spec_run spec (op # ops) a =
     (let (out, a1) = spec op a; (outs, a2) = spec_run spec ops a1 in (out # outs, a2))"

locale guarded_refinement =
  fixes invar :: "'s \<Rightarrow> bool"
    and abs :: "'s \<Rightarrow> 'a"
    and ok :: "'op \<Rightarrow> bool"
    and exec :: "'op \<Rightarrow> 's \<Rightarrow> ('out \<times> 's) option"
    and spec :: "'op \<Rightarrow> 'a \<Rightarrow> 'out \<times> 'a"
  assumes exec_refines: "ok op \<Longrightarrow> invar s \<Longrightarrow>
    \<exists>s'. exec op s = Some (fst (spec op (abs s)), s') \<and> invar s' \<and> abs s' = snd (spec op (abs s))"
begin

lemma run_refines:
  "list_all ok ops \<Longrightarrow> invar s \<Longrightarrow> \<exists>s'. object_run exec ops s = Some (fst (spec_run spec ops (abs s)), s') \<and>
     invar s' \<and> abs s' = snd (spec_run spec ops (abs s))"
proof (induction ops arbitrary: s)
  case Nil
  then show ?case by simp
next
  case (Cons op ops)
  then have "ok op" "list_all ok ops" by simp_all
  obtain s1 where s1: "exec op s = Some (fst (spec op (abs s)), s1)" "invar s1" "abs s1 = snd (spec op (abs s))"
    using exec_refines [OF \<open>ok op\<close> Cons.prems(2)] by blast
  from Cons.IH [OF \<open>list_all ok ops\<close> s1(2)] s1 show ?case by (auto simp: case_prod_beta Let_def)
qed

end

text \<open>An object whose operations have no precondition.\<close>

locale object_refinement =
  fixes invar :: "'s \<Rightarrow> bool"
    and abs :: "'s \<Rightarrow> 'a"
    and exec :: "'op \<Rightarrow> 's \<Rightarrow> ('out \<times> 's) option"
    and spec :: "'op \<Rightarrow> 'a \<Rightarrow> 'out \<times> 'a"
  assumes total_refines: "invar s \<Longrightarrow>
    \<exists>s'. exec op s = Some (fst (spec op (abs s)), s') \<and> invar s' \<and> abs s' = snd (spec op (abs s))"

sublocale object_refinement \<subseteq> guarded: guarded_refinement invar abs "\<lambda>_. True" exec spec
  by unfold_locales (rule total_refines)

context object_refinement
begin

lemma run_refines:
  "invar s \<Longrightarrow> \<exists>s'. object_run exec ops s = Some (fst (spec_run spec ops (abs s)), s') \<and>
     invar s' \<and> abs s' = snd (spec_run spec ops (abs s))"
  by (rule guarded.run_refines) (simp_all add: list_all_iff)

end

end
