(* ===== verification/CRC32.thy ===== *)
theory CRC32
  imports Prelude
begin

unbundle bit_operations_syntax

text \<open>
  The CRC-32 of \<open>CalculateCRC32\<close> (\<^verbatim>\<open>src/darwincore/network/protocol.cpp\<close>). The table-driven
  routine is proved equal to the bit-by-bit division by the reflected polynomial 0xEDB88320, and to
  detect every corruption that is confined to one byte.
\<close>

section \<open>The routine\<close>

definition CRC_TABLE :: "u32 list" where
  "CRC_TABLE = [
     0x00000000, 0x77073096, 0xee0e612c, 0x990951ba, 0x076dc419, 0x706af48f, 0xe963a535, 0x9e6495a3,
     0x0edb8832, 0x79dcb8a4, 0xe0d5e91e, 0x97d2d988, 0x09b64c2b, 0x7eb17cbd, 0xe7b82d07, 0x90bf1d91,
     0x1db71064, 0x6ab020f2, 0xf3b97148, 0x84be41de, 0x1adad47d, 0x6ddde4eb, 0xf4d4b551, 0x83d385c7,
     0x136c9856, 0x646ba8c0, 0xfd62f97a, 0x8a65c9ec, 0x14015c4f, 0x63066cd9, 0xfa0f3d63, 0x8d080df5,
     0x3b6e20c8, 0x4c69105e, 0xd56041e4, 0xa2677172, 0x3c03e4d1, 0x4b04d447, 0xd20d85fd, 0xa50ab56b,
     0x35b5a8fa, 0x42b2986c, 0xdbbbc9d6, 0xacbcf940, 0x32d86ce3, 0x45df5c75, 0xdcd60dcf, 0xabd13d59,
     0x26d930ac, 0x51de003a, 0xc8d75180, 0xbfd06116, 0x21b4f4b5, 0x56b3c423, 0xcfba9599, 0xb8bda50f,
     0x2802b89e, 0x5f058808, 0xc60cd9b2, 0xb10be924, 0x2f6f7c87, 0x58684c11, 0xc1611dab, 0xb6662d3d,
     0x76dc4190, 0x01db7106, 0x98d220bc, 0xefd5102a, 0x71b18589, 0x06b6b51f, 0x9fbfe4a5, 0xe8b8d433,
     0x7807c9a2, 0x0f00f934, 0x9609a88e, 0xe10e9818, 0x7f6a0dbb, 0x086d3d2d, 0x91646c97, 0xe6635c01,
     0x6b6b51f4, 0x1c6c6162, 0x856530d8, 0xf262004e, 0x6c0695ed, 0x1b01a57b, 0x8208f4c1, 0xf50fc457,
     0x65b0d9c6, 0x12b7e950, 0x8bbeb8ea, 0xfcb9887c, 0x62dd1ddf, 0x15da2d49, 0x8cd37cf3, 0xfbd44c65,
     0x4db26158, 0x3ab551ce, 0xa3bc0074, 0xd4bb30e2, 0x4adfa541, 0x3dd895d7, 0xa4d1c46d, 0xd3d6f4fb,
     0x4369e96a, 0x346ed9fc, 0xad678846, 0xda60b8d0, 0x44042d73, 0x33031de5, 0xaa0a4c5f, 0xdd0d7cc9,
     0x5005713c, 0x270241aa, 0xbe0b1010, 0xc90c2086, 0x5768b525, 0x206f85b3, 0xb966d409, 0xce61e49f,
     0x5edef90e, 0x29d9c998, 0xb0d09822, 0xc7d7a8b4, 0x59b33d17, 0x2eb40d81, 0xb7bd5c3b, 0xc0ba6cad,
     0xedb88320, 0x9abfb3b6, 0x03b6e20c, 0x74b1d29a, 0xead54739, 0x9dd277af, 0x04db2615, 0x73dc1683,
     0xe3630b12, 0x94643b84, 0x0d6d6a3e, 0x7a6a5aa8, 0xe40ecf0b, 0x9309ff9d, 0x0a00ae27, 0x7d079eb1,
     0xf00f9344, 0x8708a3d2, 0x1e01f268, 0x6906c2fe, 0xf762575d, 0x806567cb, 0x196c3671, 0x6e6b06e7,
     0xfed41b76, 0x89d32be0, 0x10da7a5a, 0x67dd4acc, 0xf9b9df6f, 0x8ebeeff9, 0x17b7be43, 0x60b08ed5,
     0xd6d6a3e8, 0xa1d1937e, 0x38d8c2c4, 0x4fdff252, 0xd1bb67f1, 0xa6bc5767, 0x3fb506dd, 0x48b2364b,
     0xd80d2bda, 0xaf0a1b4c, 0x36034af6, 0x41047a60, 0xdf60efc3, 0xa867df55, 0x316e8eef, 0x4669be79,
     0xcb61b38c, 0xbc66831a, 0x256fd2a0, 0x5268e236, 0xcc0c7795, 0xbb0b4703, 0x220216b9, 0x5505262f,
     0xc5ba3bbe, 0xb2bd0b28, 0x2bb45a92, 0x5cb36a04, 0xc2d7ffa7, 0xb5d0cf31, 0x2cd99e8b, 0x5bdeae1d,
     0x9b64c2b0, 0xec63f226, 0x756aa39c, 0x026d930a, 0x9c0906a9, 0xeb0e363f, 0x72076785, 0x05005713,
     0x95bf4a82, 0xe2b87a14, 0x7bb12bae, 0x0cb61b38, 0x92d28e9b, 0xe5d5be0d, 0x7cdcefb7, 0x0bdbdf21,
     0x86d3d2d4, 0xf1d4e242, 0x68ddb3f8, 0x1fda836e, 0x81be16cd, 0xf6b9265b, 0x6fb077e1, 0x18b74777,
     0x88085ae6, 0xff0f6a70, 0x66063bca, 0x11010b5c, 0x8f659eff, 0xf862ae69, 0x616bffd3, 0x166ccf45,
     0xa00ae278, 0xd70dd2ee, 0x4e048354, 0x3903b3c2, 0xa7672661, 0xd06016f7, 0x4969474d, 0x3e6e77db,
     0xaed16a4a, 0xd9d65adc, 0x40df0b66, 0x37d83bf0, 0xa9bcae53, 0xdebb9ec5, 0x47b2cf7f, 0x30b5ffe9,
     0xbdbdf21c, 0xcabac28a, 0x53b39330, 0x24b4a3a6, 0xbad03605, 0xcdd70693, 0x54de5729, 0x23d967bf,
     0xb3667a2e, 0xc4614ab8, 0x5d681b02, 0x2a6f2b94, 0xb40bbe37, 0xc30c8ea1, 0x5a05df1b, 0x2d02ef8d]"

definition crc_step :: "u32 \<Rightarrow> u8 \<Rightarrow> u32" where
  "crc_step crc b = CRC_TABLE ! unat ((crc XOR ucast b) AND 0xFF) XOR drop_bit 8 crc"

definition CalculateCRC32 :: "bytes \<Rightarrow> u32" where
  "CalculateCRC32 data = foldl crc_step 0xFFFFFFFF data XOR 0xFFFFFFFF"

section \<open>The specification: division by the reflected polynomial\<close>

text \<open>One bit of the division, eight of them for a byte, and the CRC of a byte string.\<close>

definition crc_bit :: "u32 \<Rightarrow> u32" where
  "crc_bit c = (if bit c 0 then drop_bit 1 c XOR 0xEDB88320 else drop_bit 1 c)"

definition crc8 :: "u32 \<Rightarrow> u32" where
  "crc8 c = crc_bit (crc_bit (crc_bit (crc_bit (crc_bit (crc_bit (crc_bit (crc_bit c)))))))"

definition crc_byte :: "u32 \<Rightarrow> u8 \<Rightarrow> u32" where
  "crc_byte crc b = crc8 (crc XOR ucast b)"

definition crc_spec :: "bytes \<Rightarrow> u32" where
  "crc_spec data = NOT (foldl crc_byte (NOT 0) data)"

section \<open>The table is the division of every byte\<close>

lemma crc_bit_xor: "crc_bit (a XOR b) = crc_bit a XOR crc_bit b"
  by (auto simp: crc_bit_def bit_simps ac_simps)

lemma crc8_xor: "crc8 (a XOR b) = crc8 a XOR crc8 b"
  by (simp only: crc8_def crc_bit_xor)

lemma crc8_zero [simp]: "crc8 0 = 0"
  by (simp add: crc8_def crc_bit_def)

lemma crc8_basis:
  "crc8 1 = 0x77073096" "crc8 2 = 0xee0e612c" "crc8 4 = 0x076dc419" "crc8 8 = 0x0edb8832"
  "crc8 16 = 0x1db71064" "crc8 32 = 0x3b6e20c8" "crc8 64 = 0x76dc4190" "crc8 128 = 0xedb88320"
  by (simp_all add: crc8_def crc_bit_def)

text \<open>The table is the span of its entries at the powers of two: entry \<open>i XOR 2^k\<close> is the XOR.\<close>

definition span_step :: "u32 list \<Rightarrow> u32 \<Rightarrow> u32 list" where
  "span_step xs b = xs @ map (\<lambda>x. x XOR b) xs"

lemma CRC_TABLE_span:
  "CRC_TABLE = foldl span_step [0] (map crc8 [1, 2, 4, 8, 16, 32, 64, 128])"
  by (simp add: CRC_TABLE_def crc8_basis span_step_def)

lemma length_CRC_TABLE [simp]: "length CRC_TABLE = 256"
  by (simp add: CRC_TABLE_def)

lemma of_nat_add_power_xor:
  assumes "i < 2 ^ k"
  shows "(word_of_nat (i + 2 ^ k) :: u32) = word_of_nat i XOR 2 ^ k"
proof -
  from assms have "take_bit k i = i" by (simp add: take_bit_nat_eq_self)
  then have "bit i n \<longrightarrow> n < k" for n by (metis bit_take_bit_iff)
  then have "i AND 2 ^ k = 0"
    by (intro bit_eqI) (auto simp: bit_simps)
  then have "i + 2 ^ k = i XOR 2 ^ k" by (rule disjunctive_add_eq_xor)
  then show ?thesis by (simp add: of_nat_xor_eq)
qed

text \<open>Every doubling step keeps "entry \<open>i\<close> is the division of \<open>i\<close>".\<close>

definition divides_upto :: "nat \<Rightarrow> u32 list \<Rightarrow> bool" where
  "divides_upto k xs \<longleftrightarrow> length xs = 2 ^ k \<and> (\<forall>i < 2 ^ k. xs ! i = crc8 (word_of_nat i))"

lemma divides_upto_step:
  assumes "divides_upto k xs"
  shows "divides_upto (Suc k) (span_step xs (crc8 (2 ^ k)))"
proof -
  have "span_step xs (crc8 (2 ^ k)) ! i = crc8 (word_of_nat i)" if i: "i < 2 ^ Suc k" for i
  proof (cases "i < 2 ^ k")
    case True
    with assms show ?thesis by (simp add: divides_upto_def span_step_def nth_append)
  next
    case False
    define j where "j = i - 2 ^ k"
    with False i have "i = j + 2 ^ k" "j < 2 ^ k" by auto
    with assms show ?thesis
      using of_nat_add_power_xor [of j k]
      by (simp add: divides_upto_def span_step_def nth_append crc8_xor)
  qed
  with assms show ?thesis by (simp add: divides_upto_def span_step_def)
qed

lemma CRC_TABLE_divides: "divides_upto 8 CRC_TABLE"
proof -
  have "divides_upto 0 [0]" by (simp add: divides_upto_def)
  from this [THEN divides_upto_step, THEN divides_upto_step, THEN divides_upto_step,
      THEN divides_upto_step, THEN divides_upto_step, THEN divides_upto_step,
      THEN divides_upto_step, THEN divides_upto_step]
  show ?thesis by (simp add: CRC_TABLE_span eval_nat_numeral)
qed

lemma CRC_TABLE_nth: "i < 256 \<Longrightarrow> CRC_TABLE ! i = crc8 (word_of_nat i)"
  using CRC_TABLE_divides by (simp add: divides_upto_def)

lemma and_FF: "x AND 0xFF = take_bit 8 x" for x :: u32
  by (simp add: take_bit_eq_mask mask_numeral)

lemma take_8_bound: "unat (take_bit 8 x :: u32) < 256"
  using take_bit_nat_less_exp [of 8 "unat x"] by (simp add: unsigned_take_bit_eq)

lemma CRC_TABLE_low: "CRC_TABLE ! unat (take_bit 8 x) = crc8 (take_bit 8 x)"
  using CRC_TABLE_nth [OF take_8_bound] by simp

section \<open>Table step and division step agree\<close>

lemma crc8_high:
  assumes "\<And>n. n < 8 \<Longrightarrow> \<not> bit x n"
  shows "crc8 x = drop_bit 8 x"
proof -
  have step: "crc_bit (drop_bit k x) = drop_bit (Suc k) x" if "k < 8" for k
    using assms [OF that] by (simp add: crc_bit_def bit_drop_bit_eq)
  have "crc8 (drop_bit 0 x) = drop_bit 8 x"
    unfolding crc8_def by (simp only: step) (simp add: eval_nat_numeral)
  then show ?thesis by simp
qed

lemma split_low: "x = take_bit 8 x XOR push_bit 8 (drop_bit 8 x)" for x :: u32
  by (rule bit_word_eqI) (auto simp: bit_simps)

lemma crc8_table: "crc8 x = CRC_TABLE ! unat (take_bit 8 x) XOR drop_bit 8 x"
proof -
  have "crc8 x = crc8 (take_bit 8 x) XOR crc8 (push_bit 8 (drop_bit 8 x))"
    by (metis split_low crc8_xor)
  also have "crc8 (push_bit 8 (drop_bit 8 x)) = drop_bit 8 (push_bit 8 (drop_bit 8 x))"
    by (rule crc8_high) (simp add: bit_simps)
  also have "\<dots> = drop_bit 8 x"
    by (rule bit_word_eqI) (auto simp: bit_simps dest: bit_imp_le_length)
  finally show ?thesis by (simp add: CRC_TABLE_low)
qed

lemma drop8_ucast: "drop_bit 8 (ucast (b :: u8) :: u32) = 0"
  by (rule bit_word_eqI) (auto simp: bit_simps dest: bit_imp_le_length)

lemma crc_step_eq: "crc_step = crc_byte"
  by (intro ext) (simp add: crc_step_def crc_byte_def crc8_table drop_bit_xor drop8_ucast and_FF)

section \<open>Error detection\<close>

lemma CRC_TABLE_top: "list_all (\<lambda>x. drop_bit 24 x \<noteq> 0) (tl CRC_TABLE)"
  by (simp add: CRC_TABLE_def)

lemma xor_eq_zero: "a XOR b = 0 \<longleftrightarrow> a = b" for a b :: "'a::len word"
  by (auto simp: bit_eq_iff bit_simps)

lemma xor_right_cancel: "a XOR c = b XOR c \<longleftrightarrow> a = b" for a b c :: "'a::len word"
  by (auto simp: bit_eq_iff bit_simps)

lemma crc8_top_zero:
  assumes "drop_bit 24 (crc8 x) = 0"
  shows "take_bit 8 x = 0" and "crc8 x = drop_bit 8 x"
proof -
  let ?i = "unat (take_bit 8 x)"
  have "drop_bit 24 (drop_bit 8 x) = 0"
    by (rule bit_word_eqI) (auto simp: bit_simps dest: bit_imp_le_length)
  with assms have top: "drop_bit 24 (CRC_TABLE ! ?i) = 0"
    by (simp add: crc8_table drop_bit_xor)
  have "?i = 0"
  proof (rule ccontr)
    assume "?i \<noteq> 0"
    then obtain j where j: "?i = Suc j" by (cases ?i) auto
    with take_8_bound [of x] have l: "j < length (tl CRC_TABLE)" by simp
    with CRC_TABLE_top have "drop_bit 24 (tl CRC_TABLE ! j) \<noteq> 0" unfolding list_all_length by blast
    with top j l show False by (simp add: nth_tl)
  qed
  then show low: "take_bit 8 x = 0" by (simp add: unat_eq_zero)
  have "CRC_TABLE ! 0 = 0" using CRC_TABLE_nth [of 0] by simp
  with low show "crc8 x = drop_bit 8 x" by (simp add: crc8_table)
qed

lemma crc8_eq_zero: "crc8 x = 0 \<longleftrightarrow> x = 0"
proof
  assume z: "crc8 x = 0"
  then have "take_bit 8 x = 0" "drop_bit 8 x = 0" using crc8_top_zero [of x] by auto
  with split_low [of x] show "x = 0" by simp
qed simp

lemma crc8_inj: "crc8 x = crc8 y \<longleftrightarrow> x = y"
proof -
  have "crc8 x = crc8 y \<longleftrightarrow> crc8 (x XOR y) = 0" by (simp add: crc8_xor xor_eq_zero)
  then show ?thesis by (simp add: crc8_eq_zero xor_eq_zero)
qed

lemma crc_byte_xor: "crc_byte (c XOR d) (a XOR b) = crc_byte c a XOR crc_byte d b"
  by (simp add: crc_byte_def unsigned_xor_eq ac_simps flip: crc8_xor)

lemma foldl_crc_byte_inj: "foldl crc_byte c xs = foldl crc_byte d xs \<longleftrightarrow> c = d"
proof (induction xs arbitrary: c d)
  case (Cons x xs)
  then show ?case by (simp add: crc_byte_def crc8_inj xor_right_cancel)
qed simp

lemma foldl_crc_byte_xor:
  "length xs = length ys \<Longrightarrow>
   foldl crc_byte (c XOR d) (map2 (XOR) xs ys) = foldl crc_byte c xs XOR foldl crc_byte d ys"
  by (induction xs ys arbitrary: c d rule: list_induct2) (simp_all add: crc_byte_xor)

text \<open>From the zero state, at most four bytes leave the zero state again only if all are zero.\<close>

lemma foldl_crc_byte_zeros: "foldl crc_byte 0 (replicate n 0) = 0"
  by (induction n) (simp_all add: crc_byte_def)

lemma crc_window:
  "length e \<le> 4 \<Longrightarrow> drop_bit (8 * (4 - length e)) (foldl crc_byte 0 e) = 0 \<Longrightarrow>
     e = replicate (length e) 0"
proof (induction e rule: rev_induct)
  case Nil
  then show ?case by simp
next
  case (snoc b e)
  let ?v = "foldl crc_byte 0 e" and ?k = "8 * (3 - length e)"
  from snoc.prems have k: "?k + 8 = 8 * (4 - length e)" "?k \<le> 24"
    and z: "drop_bit ?k (crc8 (?v XOR ucast b)) = 0"
    by (auto simp: crc_byte_def [of "foldl crc_byte 0 e"])
  have "drop_bit 24 (crc8 (?v XOR ucast b)) = drop_bit (24 - ?k) (drop_bit ?k (crc8 (?v XOR ucast b)))"
    using k(2) by simp
  with z have "drop_bit 24 (crc8 (?v XOR ucast b)) = 0" by simp
  note top = crc8_top_zero [OF this]
  from top(2) z have "drop_bit (?k + 8) ?v = 0" by (simp add: drop_bit_xor drop8_ucast add.commute)
  with snoc k have e: "e = replicate (length e) 0" by simp
  then have "?v = 0" by (metis foldl_crc_byte_zeros)
  with top(2) have "crc8 (ucast b) = 0" using drop8_ucast [of b] by simp
  then have "(ucast b :: u32) = 0" by (simp add: crc8_eq_zero)
  then have "b = 0" using ucast_up_ucast_id [of b, where ?'b = 32] by (simp add: is_up)
  with e show ?case by (metis length_append_singleton replicate_Suc replicate_append_same)
qed

lemma crc_burst:
  assumes "length xs = length ys" and "length xs \<le> 4"
    and "foldl crc_byte c xs = foldl crc_byte c ys"
  shows "xs = ys"
proof -
  let ?e = "map2 (XOR) xs ys"
  have "foldl crc_byte 0 ?e = foldl crc_byte c xs XOR foldl crc_byte c ys"
    using foldl_crc_byte_xor [OF assms(1), of c c] by simp
  with assms(3) have "foldl crc_byte 0 ?e = 0" by simp
  with assms crc_window [of ?e] have e: "?e = replicate (length xs) 0" by simp
  show ?thesis
  proof (rule nth_equalityI [OF assms(1)])
    fix i assume i: "i < length xs"
    with e have "?e ! i = 0" by simp
    with i assms(1) show "xs ! i = ys ! i" by (simp add: xor_eq_zero)
  qed
qed

text \<open>A corruption confined to at most four consecutive bytes always changes the CRC.\<close>

lemma CalculateCRC32_burst:
  assumes "length bad = length good" and "length good \<le> 4" and "bad \<noteq> good"
  shows "CalculateCRC32 (pre @ bad @ post) \<noteq> CalculateCRC32 (pre @ good @ post)"
proof
  assume "CalculateCRC32 (pre @ bad @ post) = CalculateCRC32 (pre @ good @ post)"
  then have "foldl crc_byte (foldl crc_byte 0xFFFFFFFF pre) bad =
      foldl crc_byte (foldl crc_byte 0xFFFFFFFF pre) good"
    by (simp add: CalculateCRC32_def crc_step_eq foldl_crc_byte_inj xor_right_cancel)
  with assms crc_burst show False by metis
qed

section \<open>Properties\<close>

text \<open>C5: the table-driven \<open>CalculateCRC32\<close> computes the CRC-32 of the reflected polynomial
  0xEDB88320, bit by bit, for every input.\<close>

theorem CalculateCRC32_correct: "CalculateCRC32 data = crc_spec data"
proof -
  have "(0xFFFFFFFF :: u32) = - 1" by simp
  then show ?thesis
    unfolding CalculateCRC32_def crc_spec_def crc_step_eq by (simp only:) simp
qed

end
