(* ===== verification/ProtocolFrame.thy ===== *)
theory ProtocolFrame
  imports CRC32
begin

unbundle bit_operations_syntax

text \<open>
  The wire structures of \<^verbatim>\<open>include/darwincore/network/protocol.h\<close> and their images in memory, and
  \<open>Frame::Serialize\<close> / \<open>Frame::Deserialize\<close> of \<^verbatim>\<open>src/darwincore/network/protocol.cpp\<close>. The structs
  are packed (\<open>#pragma pack(push, 1)\<close>) and copied with \<open>memcpy\<close>, so their images are the fields in
  declaration order, each little-endian as on the x86-64 and arm64 targets. A \<open>size_t\<close> is a \<open>nat\<close>:
  it holds the size of an object in memory.
\<close>

section \<open>Constants and structures\<close>

definition MAGIC1 :: u8 where "MAGIC1 = 0x5A"
definition MAGIC2 :: u8 where "MAGIC2 = 0x5C"
definition VERSION :: u8 where "VERSION = 0x01"
definition MAX_FRAME_PAYLOAD :: nat where "MAX_FRAME_PAYLOAD = 256 * 1024"
definition MAX_MESSAGE_SLICES :: nat where "MAX_MESSAGE_SLICES = 65535"
definition FLAG_CRC32 :: u16 where "FLAG_CRC32 = 0x0001"

text \<open>\<open>FrameType\<close> has a fixed underlying type, so a value outside the enumerators is a value too.\<close>

datatype FrameType = Message | StreamStart | StreamChunk | StreamEnd | OtherType u8

definition FrameType_of_byte :: "u8 \<Rightarrow> FrameType" where
  "FrameType_of_byte b =
     (if b = 0x01 then Message else if b = 0x02 then StreamStart
      else if b = 0x03 then StreamChunk else if b = 0x04 then StreamEnd else OtherType b)"

fun byte_of_FrameType :: "FrameType \<Rightarrow> u8" where
  "byte_of_FrameType Message = 0x01"
| "byte_of_FrameType StreamStart = 0x02"
| "byte_of_FrameType StreamChunk = 0x03"
| "byte_of_FrameType StreamEnd = 0x04"
| "byte_of_FrameType (OtherType b) = b"

record FrameHeader =
  magic1 :: u8
  magic2 :: u8
  version :: u8
  hdr_type :: u8
  flags :: u16
  payload_len :: u32
  reserved :: u32
  reserved2 :: u16

record MessageHeader =
  mh_message_id :: u64
  mh_total_slices :: u16
  mh_sequence :: u16

record StreamStartPayload =
  ss_stream_id :: u64
  ss_total_size :: u64

record StreamChunkPayload =
  sc_stream_id :: u64
  sc_offset :: u64

record StreamEndPayload =
  se_stream_id :: u64
  se_crc32 :: u32

record Frame =
  header :: FrameHeader
  payload :: bytes

section \<open>Images in memory\<close>

definition enc_FrameHeader :: "FrameHeader \<Rightarrow> bytes" where
  "enc_FrameHeader h = [magic1 h, magic2 h, version h, hdr_type h] @ to_le 2 (flags h) @
     to_le 4 (payload_len h) @ to_le 4 (reserved h) @ to_le 2 (reserved2 h)"

definition dec_FrameHeader :: "bytes \<Rightarrow> FrameHeader" where
  "dec_FrameHeader bs = \<lparr> magic1 = bs ! 0, magic2 = bs ! 1, version = bs ! 2, hdr_type = bs ! 3,
     flags = from_le (take 2 (drop 4 bs)), payload_len = from_le (take 4 (drop 6 bs)),
     reserved = from_le (take 4 (drop 10 bs)), reserved2 = from_le (take 2 (drop 14 bs)) \<rparr>"

definition enc_MessageHeader :: "MessageHeader \<Rightarrow> bytes" where
  "enc_MessageHeader h =
     to_le 8 (mh_message_id h) @ to_le 2 (mh_total_slices h) @ to_le 2 (mh_sequence h)"

definition dec_MessageHeader :: "bytes \<Rightarrow> MessageHeader" where
  "dec_MessageHeader bs = \<lparr> mh_message_id = from_le (take 8 bs),
     mh_total_slices = from_le (take 2 (drop 8 bs)), mh_sequence = from_le (take 2 (drop 10 bs)) \<rparr>"

definition enc_StreamStart :: "StreamStartPayload \<Rightarrow> bytes" where
  "enc_StreamStart p = to_le 8 (ss_stream_id p) @ to_le 8 (ss_total_size p)"

definition dec_StreamStart :: "bytes \<Rightarrow> StreamStartPayload" where
  "dec_StreamStart bs =
     \<lparr> ss_stream_id = from_le (take 8 bs), ss_total_size = from_le (take 8 (drop 8 bs)) \<rparr>"

definition enc_StreamChunk :: "StreamChunkPayload \<Rightarrow> bytes" where
  "enc_StreamChunk p = to_le 8 (sc_stream_id p) @ to_le 8 (sc_offset p)"

definition dec_StreamChunk :: "bytes \<Rightarrow> StreamChunkPayload" where
  "dec_StreamChunk bs =
     \<lparr> sc_stream_id = from_le (take 8 bs), sc_offset = from_le (take 8 (drop 8 bs)) \<rparr>"

definition enc_StreamEnd :: "StreamEndPayload \<Rightarrow> bytes" where
  "enc_StreamEnd p = to_le 8 (se_stream_id p) @ to_le 4 (se_crc32 p)"

definition dec_StreamEnd :: "bytes \<Rightarrow> StreamEndPayload" where
  "dec_StreamEnd bs =
     \<lparr> se_stream_id = from_le (take 8 bs), se_crc32 = from_le (take 4 (drop 8 bs)) \<rparr>"

lemmas codec_defs =
  enc_FrameHeader_def dec_FrameHeader_def enc_MessageHeader_def dec_MessageHeader_def
  enc_StreamStart_def dec_StreamStart_def enc_StreamChunk_def dec_StreamChunk_def
  enc_StreamEnd_def dec_StreamEnd_def

text \<open>Each structure is a fixed-width codec: 16 bytes for the frame header, 12 for the others'
  message header and stream end, 16 for the start and chunk headers.\<close>

interpretation hdr: byte_codec 16 enc_FrameHeader dec_FrameHeader
  by unfold_locales (auto simp: codec_defs drop_take min_def nth_append)

interpretation mhdr: byte_codec 12 enc_MessageHeader dec_MessageHeader
  by unfold_locales (auto simp: codec_defs drop_take min_def)

interpretation sstart: byte_codec 16 enc_StreamStart dec_StreamStart
  by unfold_locales (auto simp: codec_defs drop_take min_def)

interpretation schunk: byte_codec 16 enc_StreamChunk dec_StreamChunk
  by unfold_locales (auto simp: codec_defs drop_take min_def)

interpretation send: byte_codec 12 enc_StreamEnd dec_StreamEnd
  by unfold_locales (auto simp: codec_defs drop_take min_def)

lemmas [simp, layout_simps] =
  hdr.length_enc hdr.dec_enc_append mhdr.length_enc mhdr.dec_enc mhdr.dec_enc_append
  sstart.length_enc sstart.dec_enc sstart.dec_enc_append schunk.length_enc schunk.dec_enc
  schunk.dec_enc_append send.length_enc send.dec_enc send.dec_enc_append

lemma FrameType_of_byte_of_FrameType:
  "FrameType_of_byte (byte_of_FrameType t) = t" if "\<forall>b. t \<noteq> OtherType b" for t
  using that by (cases t) (auto simp: FrameType_of_byte_def)

section \<open>Serialize and Deserialize\<close>

text \<open>The buffer is allocated zeroed, then the header and a non-empty payload are copied in.\<close>

definition Serialize :: "Frame \<Rightarrow> bytes" where
  "Serialize f =
     (let buffer = replicate (16 + length (payload f)) 0;
          buffer = blit buffer 0 (enc_FrameHeader (header f))
      in if payload f \<noteq> [] then blit buffer 16 (payload f) else buffer)"

text \<open>\<open>Deserialize\<close> writes into \<open>out\<close> as it goes: the header is overwritten even when it is refused.\<close>

definition Deserialize :: "bytes \<Rightarrow> Frame \<Rightarrow> bool \<times> Frame" where
  "Deserialize data out =
     (if length data < 16 then (False, out)
      else let out = out\<lparr>header := dec_FrameHeader data\<rparr>
      in if magic1 (header out) \<noteq> MAGIC1 \<or> magic2 (header out) \<noteq> MAGIC2 then (False, out)
         else if version (header out) \<noteq> VERSION then (False, out)
         else let expected_size = 16 + unat (payload_len (header out))
         in if length data < expected_size then (False, out)
            else if payload_len (header out) > 0
              then (True, out\<lparr>payload := take (expected_size - 16) (drop 16 data)\<rparr>)
              else (True, out\<lparr>payload := []\<rparr>))"

lemma Serialize_eq: "Serialize f = enc_FrameHeader (header f) @ payload f"
  by (auto simp: Serialize_def blit_def Let_def)

lemma length_Serialize [simp, size_simps]: "length (Serialize f) = 16 + length (payload f)"
  by (simp add: Serialize_eq)

text \<open>A frame whose header is the protocol's and announces the payload it carries.\<close>

definition frame_ok :: "Frame \<Rightarrow> bool" where
  "frame_ok f \<longleftrightarrow> magic1 (header f) = MAGIC1 \<and> magic2 (header f) = MAGIC2 \<and>
     version (header f) = VERSION \<and> unat (payload_len (header f)) = length (payload f)"

text \<open>deserialising a serialised frame gives the frame back, whatever bytes follow it and
  whatever the output object held before.\<close>

theorem Deserialize_Serialize:
  assumes "frame_ok f"
  shows "Deserialize (Serialize f @ rest) out = (True, f)"
proof -
  have "payload_len (header f) > 0 \<longleftrightarrow> payload f \<noteq> []"
    using assms by (auto simp: frame_ok_def word_gt_0 unat_eq_zero [symmetric])
  then show ?thesis
    using assms by (auto simp: Deserialize_def Serialize_eq frame_ok_def Let_def)
qed

theorem Deserialize_Serialize_witness:
  "Deserialize (Serialize \<lparr> header = \<lparr> magic1 = MAGIC1, magic2 = MAGIC2, version = VERSION,
       hdr_type = 2, flags = 0, payload_len = 2, reserved = 0, reserved2 = 0 \<rparr>, payload = [8, 9] \<rparr> @ [90])
     \<lparr> header = dec_FrameHeader (replicate 16 1), payload = [1, 1, 1] \<rparr> =
   (True, \<lparr> header = \<lparr> magic1 = MAGIC1, magic2 = MAGIC2, version = VERSION,
       hdr_type = 2, flags = 0, payload_len = 2, reserved = 0, reserved2 = 0 \<rparr>, payload = [8, 9] \<rparr>)"
  by (rule Deserialize_Serialize) (simp add: frame_ok_def)

end
