(* ===== verification/ProtocolEncoder.thy ===== *)
theory ProtocolEncoder
  imports ProtocolFrame
begin

unbundle bit_operations_syntax

text \<open>
  The static class \<open>Encoder\<close> of \<^verbatim>\<open>src/darwincore/network/protocol.cpp\<close>: frames from messages and
  stream events. A thrown \<open>ProtocolError\<close> is the left side of a sum and carries the message.
\<close>

section \<open>Operations\<close>

datatype ProtocolError = ProtocolError string

text \<open>A pointer and a length are a byte list; no caller passes a null pointer with a length.\<close>

definition MakeFrame :: "FrameType \<Rightarrow> bytes \<Rightarrow> bool \<Rightarrow> ProtocolError + Frame" where
  "MakeFrame type data crc =
     (if length data > MAX_FRAME_PAYLOAD then Inl (ProtocolError ''payload too large'')
      else let f = \<lparr> header = \<lparr> magic1 = MAGIC1, magic2 = MAGIC2, version = VERSION,
                 hdr_type = byte_of_FrameType type, flags = (if crc then FLAG_CRC32 else 0),
                 payload_len = word_of_nat (length data), reserved = 0, reserved2 = 0 \<rparr>,
                 payload = data \<rparr>
      in if crc then
           let crc_value = CalculateCRC32 (payload f);
               f = f\<lparr>payload := payload f @ to_le 4 crc_value\<rparr>
           in Inr (f\<lparr>header := (header f)\<lparr>payload_len := word_of_nat (length (payload f))\<rparr>\<rparr>)
         else Inr f)"

definition slice_payload :: "bool \<Rightarrow> nat" where
  "slice_payload enable_crc = MAX_FRAME_PAYLOAD - 12 - (if enable_crc then 4 else 0)"

text \<open>The slice count is computed in \<open>size_t\<close> and then cut to 16 bits.\<close>

definition slice_total :: "nat \<Rightarrow> bool \<Rightarrow> u16" where
  "slice_total len enable_crc =
     word_of_nat ((len + slice_payload enable_crc - 1) div slice_payload enable_crc)"

definition encode_slice :: "u64 \<Rightarrow> bytes \<Rightarrow> bool \<Rightarrow> u16 \<Rightarrow> nat \<Rightarrow> ProtocolError + Frame" where
  "encode_slice message_id data enable_crc tot i =
     (let offset = i * slice_payload enable_crc;
          chunk = min (slice_payload enable_crc) (length data - offset);
          hdr = \<lparr> mh_message_id = message_id, mh_total_slices = tot,
                  mh_sequence = word_of_nat i \<rparr>
      in MakeFrame Message (enc_MessageHeader hdr @ take chunk (drop offset data)) enable_crc)"

definition EncodeMessage :: "u64 \<Rightarrow> bytes \<Rightarrow> bool \<Rightarrow> ProtocolError + Frame list" where
  "EncodeMessage message_id data enable_crc =
     (let tot = slice_total (length data) enable_crc
      in if tot = 0 \<or> unat tot > MAX_MESSAGE_SLICES
         then Inl (ProtocolError ''message too large'')
         else traverse (encode_slice message_id data enable_crc tot) [0..<unat tot])"

definition EncodeStreamStart :: "u64 \<Rightarrow> u64 \<Rightarrow> ProtocolError + Frame" where
  "EncodeStreamStart stream_id total_size =
     MakeFrame StreamStart
       (enc_StreamStart \<lparr> ss_stream_id = stream_id, ss_total_size = total_size \<rparr>) False"

definition EncodeStreamChunk :: "u64 \<Rightarrow> u64 \<Rightarrow> bytes \<Rightarrow> ProtocolError + Frame" where
  "EncodeStreamChunk stream_id offset data =
     (if length data + 16 > MAX_FRAME_PAYLOAD then Inl (ProtocolError ''stream chunk too large'')
      else MakeFrame StreamChunk
        (enc_StreamChunk \<lparr> sc_stream_id = stream_id, sc_offset = offset \<rparr> @ data) False)"

definition EncodeStreamEnd :: "u64 \<Rightarrow> u32 \<Rightarrow> ProtocolError + Frame" where
  "EncodeStreamEnd stream_id crc32 =
     MakeFrame StreamEnd (enc_StreamEnd \<lparr> se_stream_id = stream_id, se_crc32 = crc32 \<rparr>) False"

definition SerializeFrames :: "Frame list \<Rightarrow> bytes list" where
  "SerializeFrames frames = map Serialize frames"

section \<open>What MakeFrame builds\<close>

definition framed :: "FrameType \<Rightarrow> bytes \<Rightarrow> bool \<Rightarrow> Frame" where
  "framed type data crc =
     (let p = data @ (if crc then to_le 4 (CalculateCRC32 data) else [])
      in \<lparr> header = \<lparr> magic1 = MAGIC1, magic2 = MAGIC2, version = VERSION,
             hdr_type = byte_of_FrameType type, flags = (if crc then FLAG_CRC32 else 0),
             payload_len = word_of_nat (length p), reserved = 0, reserved2 = 0 \<rparr>,
           payload = p \<rparr>)"

lemma MakeFrame_Inr: "length data \<le> MAX_FRAME_PAYLOAD \<Longrightarrow> MakeFrame type data crc = Inr (framed type data crc)"
  by (simp add: MakeFrame_def framed_def Let_def)

lemma frame_ok_framed:
  assumes "length data \<le> MAX_FRAME_PAYLOAD"
  shows "frame_ok (framed type data crc)"
proof -
  have "length data + 4 < 2 ^ 32" using assms by (simp add: MAX_FRAME_PAYLOAD_def)
  then show ?thesis
    using unat_word_of_nat [of "length data + 4", where ?'a = 32]
      unat_word_of_nat [of "length data", where ?'a = 32]
    by (simp add: frame_ok_def framed_def Let_def)
qed

section \<open>Slices\<close>

lemma slice_payload_bounds:
  "0 < slice_payload crc" "12 + slice_payload crc + (if crc then 4 else 0) = MAX_FRAME_PAYLOAD"
  by (simp_all add: slice_payload_def MAX_FRAME_PAYLOAD_def)

definition slice_count :: "nat \<Rightarrow> bool \<Rightarrow> nat" where
  "slice_count len crc = (len + slice_payload crc - 1) div slice_payload crc"

lemma slice_total_eq: "slice_total len crc = word_of_nat (slice_count len crc)"
  by (simp add: slice_total_def slice_count_def)

definition slice_data :: "bytes \<Rightarrow> bool \<Rightarrow> nat \<Rightarrow> bytes" where
  "slice_data data crc i = take (slice_payload crc) (drop (i * slice_payload crc) data)"

definition slice_frame :: "u64 \<Rightarrow> bytes \<Rightarrow> bool \<Rightarrow> u16 \<Rightarrow> nat \<Rightarrow> Frame" where
  "slice_frame message_id data crc tot i =
     framed Message (enc_MessageHeader \<lparr> mh_message_id = message_id, mh_total_slices = tot,
       mh_sequence = word_of_nat i \<rparr> @ slice_data data crc i) crc"

lemma length_slice_data: "length (slice_data data crc i) \<le> slice_payload crc"
  by (simp add: slice_data_def)

lemma encode_slice_Inr:
  "encode_slice message_id data crc tot i = Inr (slice_frame message_id data crc tot i)"
proof -
  have "take (min s (length data - k)) (drop k data) = take s (drop k data)" for s k
    by (cases "s \<le> length data - k") (simp_all add: min_def)
  then show ?thesis
    using slice_payload_bounds [of crc] length_slice_data [of data crc i]
    by (simp add: encode_slice_def slice_frame_def slice_data_def Let_def MakeFrame_Inr)
qed

lemma slice_count_pos: "0 < slice_count len crc \<longleftrightarrow> 0 < len"
  using slice_payload_bounds(1) [of crc] by (auto simp: slice_count_def div_greater_zero_iff)

lemma slice_count_le: "slice_count len crc \<le> n \<longleftrightarrow> len \<le> n * slice_payload crc"
proof -
  have "slice_count len crc < Suc n \<longleftrightarrow> len + slice_payload crc - 1 < Suc n * slice_payload crc"
    using slice_payload_bounds(1) [of crc] by (simp only: slice_count_def div_less_iff_less_mult)
  then show ?thesis using slice_payload_bounds(1) [of crc] by auto
qed

lemma slice_data_nonempty: "i < slice_count (length data) crc \<Longrightarrow> slice_data data crc i \<noteq> []"
  using slice_count_le [of "length data" crc i] slice_payload_bounds(1) [of crc]
  by (auto simp: slice_data_def)

lemma concat_slices: "concat (map (slice_data data crc) [0..<n]) = take (n * slice_payload crc) data"
proof (induction n)
  case (Suc n)
  moreover have "take (Suc n * slice_payload crc) data =
      take (n * slice_payload crc) data @ slice_data data crc n"
    using take_add [of "n * slice_payload crc" "slice_payload crc" data]
    by (simp add: slice_data_def add.commute)
  ultimately show ?case by simp
qed simp

lemma concat_all_slices: "concat (map (slice_data data crc) [0..<slice_count (length data) crc]) = data"
  using slice_count_le [of "length data" crc "slice_count (length data) crc"]
  by (simp add: concat_slices)

lemma unat_slice_total:
  assumes "0 < n" and "n \<le> 65535"
  shows "unat (word_of_nat n :: u16) = n" and "(word_of_nat n :: u16) \<noteq> 0"
proof -
  from assms(2) show u: "unat (word_of_nat n :: u16) = n" by (simp add: unat_word_of_nat)
  with assms(1) show "(word_of_nat n :: u16) \<noteq> 0" by (metis unat_0 less_irrefl)
qed

lemma EncodeMessage_Inr:
  assumes "0 < n" and "n \<le> 65535" and "slice_total (length data) crc = word_of_nat n"
  shows "EncodeMessage message_id data crc =
      Inr (map (slice_frame message_id data crc (word_of_nat n)) [0..<n])"
  using unat_slice_total [OF assms(1,2)] assms
  by (simp add: EncodeMessage_def Let_def MAX_MESSAGE_SLICES_def traverse_Inr encode_slice_Inr)

lemma length_slice_frame:
  "length (payload (slice_frame message_id data crc tot i)) \<le> MAX_FRAME_PAYLOAD"
  using length_slice_data [of data crc i] slice_payload_bounds(2) [of crc]
  by (simp add: slice_frame_def framed_def Let_def split: if_splits)

lemma frame_ok_slice_frame: "frame_ok (slice_frame message_id data crc tot i)"
  using length_slice_data [of data crc i] slice_payload_bounds(2) [of crc]
  by (simp add: slice_frame_def frame_ok_framed split: if_splits)

section \<open>Properties\<close>

text \<open>a message of at least one byte that fits 65535 slices is encoded, never refused: the
  frames are its slices in order, each within the frame limit, and their data joined is the
  message.\<close>

theorem EncodeMessage_slices:
  assumes "data \<noteq> []" and "length data \<le> MAX_MESSAGE_SLICES * slice_payload crc"
  shows "EncodeMessage message_id data crc =
      Inr (map (slice_frame message_id data crc (slice_total (length data) crc))
             [0..<slice_count (length data) crc]) \<and>
    length (payload (slice_frame message_id data crc (slice_total (length data) crc) i))
      \<le> MAX_FRAME_PAYLOAD \<and>
    concat (map (slice_data data crc) [0..<slice_count (length data) crc]) = data"
proof -
  let ?n = "slice_count (length data) crc"
  have "0 < ?n" "?n \<le> 65535"
    using assms slice_count_le [of "length data" crc 65535] slice_count_pos [of "length data" crc]
    by (simp_all add: MAX_MESSAGE_SLICES_def)
  then show ?thesis
    by (simp add: EncodeMessage_Inr slice_total_eq length_slice_frame concat_all_slices)
qed

theorem EncodeMessage_slices_witness:
  "EncodeMessage 7 [1, 2, 3] True = Inr (map (slice_frame 7 [1, 2, 3] True 1) [0..<1])"
proof -
  have "slice_count (length [1, 2, 3 :: u8]) True = 1" "slice_payload True = 262128"
    by (simp_all add: slice_count_def slice_payload_def MAX_FRAME_PAYLOAD_def)
  then show ?thesis
    using EncodeMessage_slices [of "[1, 2, 3]" True 7]
    by (simp add: slice_total_eq MAX_MESSAGE_SLICES_def)
qed

text \<open>the slice count is cut to 16 bits before it is checked, so a message of more than 65535
  slices is not refused but silently cut: unless the count is a multiple of 65536, the encoder
  returns the frames of a proper prefix.\<close>

theorem EncodeMessage_truncates:
  assumes "slice_count (length data) crc = 65536 * m + k" and "0 < m" and "0 < k" and "k < 65536"
  shows "EncodeMessage message_id data crc =
      EncodeMessage message_id (take (k * slice_payload crc) data) crc \<and>
    k * slice_payload crc < length data"
proof -
  let ?s = "slice_payload crc" and ?d = "take (k * slice_payload crc) data"
  have lt: "k * ?s < length data"
    using slice_count_le [of "length data" crc k] assms by auto
  then have "slice_count (length ?d) crc \<le> k" "\<not> slice_count (length ?d) crc \<le> k - 1"
    using slice_count_le [of "length ?d" crc] assms(3) slice_payload_bounds(1) [of crc]
    by (auto simp: diff_mult_distrib)
  then have "slice_count (length ?d) crc = k" by simp
  moreover have "(word_of_nat (65536 * m + k) :: u16) = word_of_nat k"
    using word_of_nat_eq_iff [of "65536 * m + k" k, where ?'a = 16] by (simp add: take_bit_eq_mod)
  moreover have "slice_data data crc i = slice_data ?d crc i" if "i < k" for i
  proof -
    from that have "Suc i * ?s \<le> k * ?s" by (intro mult_le_mono1 Suc_leI)
    then show ?thesis by (simp add: slice_data_def drop_take min_def)
  qed
  then have "slice_frame message_id data crc t i = slice_frame message_id ?d crc t i"
    if "i < k" for t i
    using that by (simp add: slice_frame_def)
  ultimately show ?thesis
    using assms lt EncodeMessage_Inr [of k data crc message_id] EncodeMessage_Inr [of k ?d crc message_id]
    by (simp add: slice_total_eq)
qed

theorem EncodeMessage_truncates_witness:
  "EncodeMessage 1 (replicate (65536 * 262132 + 1) 7) False =
     EncodeMessage 1 (take (1 * slice_payload False) (replicate (65536 * 262132 + 1) 7)) False"
proof -
  have "slice_count (length (replicate (65536 * 262132 + 1) (7 :: u8))) False = 65536 * 1 + 1"
    by (simp add: slice_count_def slice_payload_def MAX_FRAME_PAYLOAD_def)
  from EncodeMessage_truncates [OF this, of 1] show ?thesis by simp
qed

end
