(* ===== verification/ProtocolDecoder.thy ===== *)
theory ProtocolDecoder
  imports ProtocolEncoder "HOL-Library.AList" "HOL-Library.Signed_Division"
begin

unbundle bit_operations_syntax

text \<open>
  The class \<open>Decoder\<close> of \<^verbatim>\<open>src/darwincore/network/protocol.cpp\<close>: a receive buffer from which
  frames are cut, the messages under reassembly, and the two output queues. \<open>TryDecode\<close> runs until
  the buffer holds no whole frame, throws a \<open>ProtocolError\<close>, or does what C++ leaves undefined: it
  reads a struct past the end of the buffer, indexes a slice vector out of range or assigns from a
  reversed iterator range. The last is an outcome of its own, so that a theorem about \<open>Ok\<close> excludes
  it. The readings of \<open>steady_clock\<close> are a parameter: \<open>clk n\<close> is the reading (in nanoseconds) taken
  while the frame with number \<open>n\<close> is processed.
\<close>

section \<open>State\<close>

record MessageAssembly =
  asm_total :: u16
  slices :: "bytes list"
  received :: u16
  first_seen :: int

record MessageComplete =
  mc_message_id :: u64
  mc_data :: bytes

record StreamEvent =
  ev_type :: FrameType
  ev_stream_id :: u64
  ev_offset :: u64
  ev_total_size :: u64
  ev_crc32 :: u32
  ev_data :: bytes

record DecoderStats =
  frames_received :: u64
  messages_completed :: u64
  stream_events :: u64
  bytes_received :: u64
  crc_errors :: u64
  timeout_cleanups :: u64
  pending_messages :: nat
  buffer_size :: nat

text \<open>The private members \<open>buffer_\<close>, \<open>messages_\<close> and so on carry the prefix \<open>d_\<close> in place of the
  underscore. \<open>std::unordered_map\<close> is an association list with distinct keys; no operation of the class
  depends on its iteration order.\<close>

record Decoder =
  d_buffer :: bytes
  d_messages :: "(u64 \<times> MessageAssembly) list"
  d_completed_messages :: "MessageComplete list"
  d_stream_events :: "StreamEvent list"
  d_message_timeout_ms :: u32
  d_stats :: DecoderStats

datatype 'd outcome = Ok 'd | Throw ProtocolError 'd | UB

definition zero_stats :: DecoderStats where
  "zero_stats = \<lparr> frames_received = 0, messages_completed = 0, stream_events = 0,
     bytes_received = 0, crc_errors = 0, timeout_cleanups = 0, pending_messages = 0,
     buffer_size = 0 \<rparr>"

definition DEFAULT_MESSAGE_TIMEOUT_MS :: u32 where "DEFAULT_MESSAGE_TIMEOUT_MS = 30000"

definition Decoder_ctor :: "u32 \<Rightarrow> Decoder" where
  "Decoder_ctor timeout_ms = \<lparr> d_buffer = [], d_messages = [], d_completed_messages = [],
     d_stream_events = [], d_message_timeout_ms = timeout_ms, d_stats = zero_stats \<rparr>"

definition empty_assembly :: MessageAssembly where
  "empty_assembly = \<lparr> asm_total = 0, slices = [], received = 0, first_seen = 0 \<rparr>"

abbreviation upd_stats :: "(DecoderStats \<Rightarrow> DecoderStats) \<Rightarrow> Decoder \<Rightarrow> Decoder" where
  "upd_stats f d \<equiv> d\<lparr>d_stats := f (d_stats d)\<rparr>"

section \<open>One round of TryDecode\<close>

text \<open>What a round ends with: return from \<open>TryDecode\<close>, go on with the next round, throw, or
  undefined behaviour.\<close>

datatype 'd round = Return 'd | Next 'd | Fail ProtocolError 'd | Undefined

text \<open>\<open>messages_[id]\<close>, opened on the first slice.\<close>

definition open_assembly :: "(u64 \<Rightarrow> int) \<Rightarrow> MessageHeader \<Rightarrow> Decoder \<Rightarrow> MessageAssembly" where
  "open_assembly clk mh d =
     (let m = (case map_of (d_messages d) (mh_message_id mh) of
                 None \<Rightarrow> empty_assembly | Some m \<Rightarrow> m)
      in if slices m = []
         then m\<lparr>asm_total := mh_total_slices mh,
                slices := replicate (unat (mh_total_slices mh)) [],
                first_seen := clk (frames_received (d_stats d))\<rparr>
         else m)"

text \<open>\<open>slot.assign(...)\<close> and \<open>m.received++\<close>, when the slot is still empty.\<close>

definition store_slice :: "nat \<Rightarrow> bytes \<Rightarrow> MessageAssembly \<Rightarrow> MessageAssembly" where
  "store_slice i bs m =
     (if slices m ! i = []
      then m\<lparr>slices := (slices m)[i := bs], received := received m + 1\<rparr> else m)"

definition finish_slice :: "u64 \<Rightarrow> MessageAssembly \<Rightarrow> Decoder \<Rightarrow> Decoder" where
  "finish_slice message_id m d =
     (if received m = asm_total m
      then upd_stats (\<lambda>s. s\<lparr>messages_completed := messages_completed s + 1\<rparr>)
        (d\<lparr>d_completed_messages := d_completed_messages d @
              [\<lparr> mc_message_id = message_id, mc_data = concat (slices m) \<rparr>],
           d_messages := AList.delete message_id (d_messages d)\<rparr>)
      else d\<lparr>d_messages := AList.update message_id m (d_messages d)\<rparr>)"

text \<open>\<open>rest\<close> is the buffer from the payload on, \<open>n\<close> the payload's length without its CRC.\<close>

definition handle_message :: "(u64 \<Rightarrow> int) \<Rightarrow> bytes \<Rightarrow> nat \<Rightarrow> Decoder \<Rightarrow> Decoder round" where
  "handle_message clk rest n d =
     (if length rest < 12 then Undefined
      else let mh = dec_MessageHeader rest
      in if mh_sequence mh \<ge> mh_total_slices mh
         then Fail (ProtocolError ''bad slice index'') d
         else let m = open_assembly clk mh d; i = unat (mh_sequence mh)
         in if i \<ge> length (slices m) then Undefined
            else if slices m ! i = [] \<and> n < 12 then Undefined
            else Next (finish_slice (mh_message_id mh)
                        (store_slice i (take (n - 12) (drop 12 rest)) m) d))"

definition blank_event :: "FrameType \<Rightarrow> StreamEvent" where
  "blank_event t = \<lparr> ev_type = t, ev_stream_id = 0, ev_offset = 0, ev_total_size = 0,
     ev_crc32 = 0, ev_data = [] \<rparr>"

definition push_event :: "StreamEvent \<Rightarrow> Decoder \<Rightarrow> Decoder" where
  "push_event ev d = d\<lparr>d_stream_events := d_stream_events d @ [ev],
     d_stats := (d_stats d)\<lparr>stream_events := stream_events (d_stats d) + 1\<rparr>\<rparr>"

fun handle_stream :: "FrameType \<Rightarrow> bytes \<Rightarrow> nat \<Rightarrow> Decoder \<Rightarrow> Decoder round" where
  "handle_stream StreamChunk rest n d =
     (if length rest < 16 \<or> n < 16 then Undefined
      else let sc = dec_StreamChunk rest
      in Next (push_event ((blank_event StreamChunk)\<lparr>ev_stream_id := sc_stream_id sc,
           ev_offset := sc_offset sc, ev_data := take (n - 16) (drop 16 rest)\<rparr>) d))"
| "handle_stream StreamStart rest n d =
     (if length rest < 16 then Undefined
      else let ss = dec_StreamStart rest
      in Next (push_event ((blank_event StreamStart)\<lparr>ev_stream_id := ss_stream_id ss,
           ev_total_size := ss_total_size ss\<rparr>) d))"
| "handle_stream StreamEnd rest n d =
     (if length rest < 12 then Undefined
      else let se = dec_StreamEnd rest
      in Next (push_event ((blank_event StreamEnd)\<lparr>ev_stream_id := se_stream_id se,
           ev_crc32 := se_crc32 se\<rparr>) d))"
| "handle_stream t rest n d = Next (push_event (blank_event t) d)"

definition erase_front :: "nat \<Rightarrow> Decoder \<Rightarrow> Decoder" where
  "erase_front n d = d\<lparr>d_buffer := drop n (d_buffer d)\<rparr>"

text \<open>\<open>buffer_.erase(...)\<close> at the bottom of the loop body.\<close>

fun then_erase :: "nat \<Rightarrow> Decoder round \<Rightarrow> Decoder round" where
  "then_erase n (Next d) = Next (erase_front n d)"
| "then_erase n r = r"

text \<open>The CRC check of a whole frame: the length of the data without the CRC, or None when the two
  values differ.\<close>

definition check_crc :: "FrameHeader \<Rightarrow> bytes \<Rightarrow> nat option" where
  "check_crc hdr rest =
     (let has_crc = (flags hdr AND FLAG_CRC32) \<noteq> 0; n = unat (payload_len hdr)
      in if has_crc \<and> n \<ge> 4
         then if from_le (take 4 (drop (n - 4) rest)) \<noteq> CalculateCRC32 (take (n - 4) rest)
              then None else Some (n - 4)
         else Some n)"

definition handle_frame :: "(u64 \<Rightarrow> int) \<Rightarrow> FrameHeader \<Rightarrow> bytes \<Rightarrow> Decoder \<Rightarrow> Decoder round" where
  "handle_frame clk hdr rest d =
     (case check_crc hdr rest of
        None \<Rightarrow> Next (upd_stats (\<lambda>s. s\<lparr>crc_errors := crc_errors s + 1\<rparr>) d)
      | Some n \<Rightarrow>
          (if FrameType_of_byte (hdr_type hdr) = Message then handle_message clk rest n d
           else handle_stream (FrameType_of_byte (hdr_type hdr)) rest n d))"

definition decode_round :: "(u64 \<Rightarrow> int) \<Rightarrow> Decoder \<Rightarrow> Decoder round" where
  "decode_round clk d =
     (let d = upd_stats (\<lambda>s. s\<lparr>buffer_size := length (d_buffer d)\<rparr>) d
      in if length (d_buffer d) < 16 then Return d
      else let hdr = dec_FrameHeader (d_buffer d)
      in if magic1 hdr \<noteq> MAGIC1 \<or> magic2 hdr \<noteq> MAGIC2 then Fail (ProtocolError ''bad magic'') d
      else if version hdr \<noteq> VERSION then Fail (ProtocolError ''unsupported version'') d
      else if unat (payload_len hdr) > MAX_FRAME_PAYLOAD
        then Fail (ProtocolError ''payload too large'') d
      else let frame_size = 16 + unat (payload_len hdr)
      in if length (d_buffer d) < frame_size then Return d
      else then_erase frame_size
        (handle_frame clk hdr (drop 16 (d_buffer d))
          (upd_stats (\<lambda>s. s\<lparr>frames_received := frames_received s + 1\<rparr>) d)))"

section \<open>The loop\<close>

text \<open>The handlers leave the buffer and its recorded size alone.\<close>

lemma handle_frame_buffer:
  assumes "handle_frame clk hdr rest d = Next d'"
  shows "d_buffer d' = d_buffer d"
proof -
  have "d_buffer d' = d_buffer d" if "handle_stream t rest n d = Next d'" for t n
    using that by (cases "(t, rest, n, d)" rule: handle_stream.cases)
      (auto simp: push_event_def Let_def split: if_splits)
  with assms show ?thesis
    by (auto simp: handle_frame_def handle_message_def finish_slice_def Let_def
        split: option.splits if_splits)
qed

lemma decode_round_shrinks:
  assumes "decode_round clk d = Next d'"
  shows "length (d_buffer d') < length (d_buffer d)"
  using assms
  by (cases "handle_frame clk (dec_FrameHeader (d_buffer d)) (drop 16 (d_buffer d))
        (upd_stats (\<lambda>s. s\<lparr>frames_received := frames_received s + 1\<rparr>)
          (upd_stats (\<lambda>s. s\<lparr>buffer_size := length (d_buffer d)\<rparr>) d))")
    (auto simp: decode_round_def Let_def erase_front_def dest: handle_frame_buffer
      split: if_splits)

function TryDecode :: "(u64 \<Rightarrow> int) \<Rightarrow> Decoder \<Rightarrow> Decoder outcome" where
  "TryDecode clk d =
     (case decode_round clk d of
        Return d' \<Rightarrow> Ok d'
      | Next d' \<Rightarrow> TryDecode clk d'
      | Fail e d' \<Rightarrow> Throw e d'
      | Undefined \<Rightarrow> UB)"
  by pat_completeness auto
termination
  by (relation "measure (\<lambda>(clk, d). length (d_buffer d))") (auto intro: decode_round_shrinks)

declare TryDecode.simps [simp del]

section \<open>Public operations\<close>

text \<open>The first two statements of \<open>Feed\<close>.\<close>

definition receive :: "bytes \<Rightarrow> Decoder \<Rightarrow> Decoder" where
  "receive data d = d\<lparr>d_stats := (d_stats d)\<lparr>bytes_received :=
       bytes_received (d_stats d) + word_of_nat (length data)\<rparr>,
     d_buffer := d_buffer d @ data\<rparr>"

definition Feed :: "(u64 \<Rightarrow> int) \<Rightarrow> bytes \<Rightarrow> Decoder \<Rightarrow> Decoder outcome" where
  "Feed clk data d = TryDecode clk (receive data d)"

definition GetMessage :: "Decoder \<Rightarrow> MessageComplete option \<times> Decoder" where
  "GetMessage d = (case d_completed_messages d of
     [] \<Rightarrow> (None, d)
   | m # ms \<Rightarrow> (Some m, d\<lparr>d_completed_messages := ms\<rparr>))"

definition GetStreamEvent :: "Decoder \<Rightarrow> StreamEvent option \<times> Decoder" where
  "GetStreamEvent d = (case d_stream_events d of
     [] \<Rightarrow> (None, d)
   | e # es \<Rightarrow> (Some e, d\<lparr>d_stream_events := es\<rparr>))"

definition GetStats :: "Decoder \<Rightarrow> DecoderStats" where
  "GetStats d = (d_stats d)\<lparr>pending_messages := length (d_messages d),
     buffer_size := length (d_buffer d)\<rparr>"

definition timed_out :: "int \<Rightarrow> u32 \<Rightarrow> MessageAssembly \<Rightarrow> bool" where
  "timed_out now timeout_ms m \<longleftrightarrow> (now - first_seen m) sdiv 1000000 \<ge> uint timeout_ms"

text \<open>The loop over the map: the entries not yet visited, those kept so far, the count.\<close>

fun cleanup_loop :: "int \<Rightarrow> u32 \<Rightarrow> (u64 \<times> MessageAssembly) list \<Rightarrow> (u64 \<times> MessageAssembly) list \<Rightarrow>
    nat \<Rightarrow> DecoderStats \<Rightarrow> (u64 \<times> MessageAssembly) list \<times> nat \<times> DecoderStats" where
  "cleanup_loop now timeout_ms kept [] cleaned s = (kept, cleaned, s)"
| "cleanup_loop now timeout_ms kept (e # es) cleaned s =
     (if timed_out now timeout_ms (snd e)
      then cleanup_loop now timeout_ms kept es (cleaned + 1)
             (s\<lparr>timeout_cleanups := timeout_cleanups s + 1\<rparr>)
      else cleanup_loop now timeout_ms (kept @ [e]) es cleaned s)"

definition CleanupTimeoutMessages :: "int \<Rightarrow> Decoder \<Rightarrow> nat \<times> Decoder" where
  "CleanupTimeoutMessages now d =
     (case cleanup_loop now (d_message_timeout_ms d) [] (d_messages d) 0 (d_stats d) of
        (ms, cleaned, s) \<Rightarrow> (cleaned, d\<lparr>d_messages := ms, d_stats := s\<rparr>))"

definition Reset :: "Decoder \<Rightarrow> Decoder" where
  "Reset d = d\<lparr>d_buffer := [], d_messages := [], d_completed_messages := [],
     d_stream_events := [], d_stats := zero_stats\<rparr>"

section \<open>Feeding more bytes\<close>

text \<open>
  A round that finds a whole frame does the same when more bytes follow it: what it reads lies in
  front of them. \<open>rebuffer\<close> changes the buffer and the two counters that a round never reads.
\<close>

definition rebuffer :: "bytes \<Rightarrow> u64 \<Rightarrow> nat \<Rightarrow> Decoder \<Rightarrow> Decoder" where
  "rebuffer bs b n d = d\<lparr>d_buffer := bs,
     d_stats := (d_stats d)\<lparr>bytes_received := b, buffer_size := n\<rparr>\<rparr>"

lemma check_crc_append:
  "unat (payload_len hdr) \<le> length rest \<Longrightarrow> check_crc hdr (rest @ ys) = check_crc hdr rest"
  by (simp add: check_crc_def Let_def)

lemma check_crc_le: "check_crc hdr rest = Some n \<Longrightarrow> n \<le> unat (payload_len hdr)"
  by (auto simp: check_crc_def Let_def split: if_splits)

lemma finish_slice_rebuffer:
  "finish_slice i m (rebuffer bs b k d) = rebuffer bs b k (finish_slice i m d)"
  by (simp add: finish_slice_def rebuffer_def)

lemma handle_message_append:
  assumes "handle_message clk rest n d \<noteq> Undefined" and "n \<le> length rest"
  shows "handle_message clk (rest @ ys) n (rebuffer bs b k d) =
     map_round (rebuffer bs b k) (handle_message clk rest n d)"
proof -
  have "open_assembly clk mh (rebuffer bs b k d) = open_assembly clk mh d" for mh
    by (simp add: open_assembly_def rebuffer_def Let_def)
  then show ?thesis
    using assms by (auto simp: handle_message_def Let_def mhdr.dec_append finish_slice_rebuffer)
qed

lemma handle_stream_append:
  assumes "handle_stream t rest n d \<noteq> Undefined" and "n \<le> length rest"
  shows "handle_stream t (rest @ ys) n (rebuffer bs b k d) =
     map_round (rebuffer bs b k) (handle_stream t rest n d)"
proof -
  have "push_event ev (rebuffer bs b k d) = rebuffer bs b k (push_event ev d)" for ev
    by (simp add: push_event_def rebuffer_def)
  then show ?thesis
    using assms by (cases t) (auto simp: Let_def schunk.dec_append sstart.dec_append send.dec_append split: if_splits)
qed

lemma handle_frame_append:
  assumes "handle_frame clk hdr rest d \<noteq> Undefined" and "unat (payload_len hdr) \<le> length rest"
  shows "handle_frame clk hdr (rest @ ys) (rebuffer bs b k d) =
     map_round (rebuffer bs b k) (handle_frame clk hdr rest d)"
proof (cases "check_crc hdr rest")
  case None
  then show ?thesis using assms(2) by (simp add: handle_frame_def check_crc_append rebuffer_def)
next
  case (Some n)
  then have "n \<le> length rest" using assms(2) check_crc_le [OF Some] by simp
  with Some assms show ?thesis
    by (auto simp: handle_frame_def check_crc_append handle_message_append handle_stream_append)
qed

lemma d_buffer_receive [simp]: "d_buffer (receive ys d) = d_buffer d @ ys"
  by (simp add: receive_def)

definition set_size :: "nat \<Rightarrow> Decoder \<Rightarrow> Decoder" where
  "set_size n d = upd_stats (\<lambda>s. s\<lparr>buffer_size := n\<rparr>) d"

lemma decode_round_set_size: "decode_round clk (set_size n d) = decode_round clk d"
  by (simp add: decode_round_def set_size_def Let_def)

lemma TryDecode_set_size: "TryDecode clk (set_size n d) = TryDecode clk d"
  by (subst (1 2) TryDecode.simps) (simp add: decode_round_set_size)

text \<open>The frame at the head of the buffer, once it is whole and its header is accepted.\<close>

definition header_fault :: "FrameHeader \<Rightarrow> ProtocolError option" where
  "header_fault hdr =
     (if magic1 hdr \<noteq> MAGIC1 \<or> magic2 hdr \<noteq> MAGIC2 then Some (ProtocolError ''bad magic'')
      else if version hdr \<noteq> VERSION then Some (ProtocolError ''unsupported version'')
      else if unat (payload_len hdr) > MAX_FRAME_PAYLOAD
        then Some (ProtocolError ''payload too large'') else None)"

definition count_frame :: "Decoder \<Rightarrow> Decoder" where
  "count_frame d = upd_stats (\<lambda>s. s\<lparr>frames_received := frames_received s + 1\<rparr>) d"

lemma set_size_simps [simp]:
  "d_buffer (set_size n d) = d_buffer d" "d_messages (set_size n d) = d_messages d"
  "d_completed_messages (set_size n d) = d_completed_messages d"
  "d_stream_events (set_size n d) = d_stream_events d"
  by (simp_all add: set_size_def)

lemma count_frame_simps [simp]:
  "d_buffer (count_frame d) = d_buffer d" "d_messages (count_frame d) = d_messages d"
  "d_completed_messages (count_frame d) = d_completed_messages d"
  "d_stream_events (count_frame d) = d_stream_events d"
  by (simp_all add: count_frame_def)

lemma then_erase_simps [simp]:
  "then_erase n r = Return d \<longleftrightarrow> r = Return d"
  "then_erase n r = Fail e d \<longleftrightarrow> r = Fail e d"
  "then_erase n r = Undefined \<longleftrightarrow> r = Undefined"
  by (cases r; simp)+

lemma decode_round_cases:
  "decode_round clk d =
    (let d1 = set_size (length (d_buffer d)) d; hdr = dec_FrameHeader (d_buffer d);
         frame_size = 16 + unat (payload_len hdr)
     in if length (d_buffer d) < 16 then Return d1
     else case header_fault hdr of Some e \<Rightarrow> Fail e d1
     | None \<Rightarrow> (if length (d_buffer d) < frame_size then Return d1
        else then_erase frame_size (handle_frame clk hdr (drop 16 (d_buffer d)) (count_frame d1))))"
  by (simp add: decode_round_def Let_def set_size_def count_frame_def header_fault_def)

lemma count_frame_rebuffer: "count_frame (rebuffer bs b n d) = rebuffer bs b n (count_frame d)"
  by (simp add: count_frame_def rebuffer_def)

lemma handle_frame_keeps:
  assumes "handle_frame clk hdr rest d = Next d'"
  shows "d_buffer d' = d_buffer d" and "bytes_received (d_stats d') = bytes_received (d_stats d)"
proof -
  have "d_buffer d' = d_buffer d \<and> bytes_received (d_stats d') = bytes_received (d_stats d)"
    if "handle_stream t rest n d = Next d'" for t n
    using that by (cases t) (auto simp: push_event_def Let_def split: if_splits)
  with assms show "d_buffer d' = d_buffer d" "bytes_received (d_stats d') = bytes_received (d_stats d)"
    by (auto simp: handle_frame_def handle_message_def finish_slice_def Let_def
        split: option.splits if_splits)
qed

lemma handle_frame_Fail: "handle_frame clk hdr rest d = Fail e d' \<Longrightarrow> d' = d"
  by (cases "FrameType_of_byte (hdr_type hdr)")
    (auto simp: handle_frame_def handle_message_def Let_def split: option.splits if_splits)

lemma handle_frame_Return: "handle_frame clk hdr rest d \<noteq> Return d'"
  by (cases "FrameType_of_byte (hdr_type hdr)")
    (auto simp: handle_frame_def handle_message_def Let_def split: option.splits)

lemma decode_round_receive:
  assumes "decode_round clk d \<noteq> Undefined" and "\<And>d'. decode_round clk d \<noteq> Return d'"
  shows "\<exists>n. decode_round clk (receive ys d) = map_round (\<lambda>d'. set_size n (receive ys d')) (decode_round clk d)"
proof -
  let ?hdr = "dec_FrameHeader (d_buffer d)" and ?n = "length (d_buffer d @ ys)"
  let ?d1 = "set_size (length (d_buffer d)) d"
  have len: "16 \<le> length (d_buffer d)"
    using assms(2) [of ?d1] by (simp add: decode_round_cases Let_def split: if_splits)
  then have hdr: "dec_FrameHeader (d_buffer d @ ys) = ?hdr" by (rule hdr.dec_append)
  show ?thesis
  proof (cases "header_fault ?hdr")
    case (Some e)
    then show ?thesis using len hdr
      by (intro exI [of _ ?n]) (simp add: decode_round_cases Let_def receive_def set_size_def)
  next
    case None
    let ?fs = "16 + unat (payload_len ?hdr)" and ?b = "bytes_received (d_stats d) + word_of_nat (length ys)"
    let ?h = "handle_frame clk ?hdr (drop 16 (d_buffer d)) (count_frame ?d1)"
    from None assms(1) assms(2) [of ?d1] len
    have fs: "?fs \<le> length (d_buffer d)" and h: "?h \<noteq> Undefined"
      by (auto simp: decode_round_cases Let_def split: if_splits)
    have "set_size ?n (receive ys d) = rebuffer (d_buffer d @ ys) ?b ?n ?d1"
      by (simp add: set_size_def receive_def rebuffer_def)
    then have "decode_round clk (receive ys d) =
        then_erase ?fs (map_round (rebuffer (d_buffer d @ ys) ?b ?n) ?h)"
      using None len fs hdr h
      by (simp add: decode_round_cases [of clk "receive ys d"] Let_def count_frame_rebuffer
          handle_frame_append)
    moreover have "decode_round clk d = then_erase ?fs ?h"
      using None len fs by (simp add: decode_round_cases Let_def)
    moreover 
    have "erase_front ?fs (rebuffer (d_buffer d @ ys) ?b ?n d') = set_size ?n (receive ys (erase_front ?fs d'))"
      if "?h = Next d'" for d'
      using handle_frame_keeps [OF that] fs
      by (simp add: erase_front_def rebuffer_def set_size_def receive_def count_frame_def)
    moreover have "rebuffer (d_buffer d @ ys) ?b ?n d' = set_size ?n (receive ys d')"
      if "?h = Fail e d'" for d' e
      using handle_frame_Fail [OF that]
      by (simp add: rebuffer_def set_size_def receive_def count_frame_def)
    ultimately show ?thesis
      using handle_frame_Return [of clk ?hdr] by (intro exI [of _ ?n]) (cases ?h; auto)
  qed
qed


lemma receive_append: "receive ys (receive xs d) = receive (xs @ ys) d"
  by (simp add: receive_def)

lemma TryDecode_receive:
  "TryDecode clk d = Ok d' \<Longrightarrow> TryDecode clk (receive ys d) = TryDecode clk (receive ys d')"
proof (induction clk d rule: TryDecode.induct)
  case (1 clk d)
  show ?case
  proof (cases "decode_round clk d")
    case (Return d1)
    then have "d' = d1" using 1 by (simp add: TryDecode.simps [of clk d])
    moreover have "d1 = set_size (length (d_buffer d)) d"
      using Return 
      by (auto simp: decode_round_cases Let_def handle_frame_Return split: if_splits option.splits)
    moreover have "receive ys (set_size n d) = set_size n (receive ys d)" for n
      by (simp add: receive_def set_size_def)
    ultimately show ?thesis by (simp add: TryDecode_set_size)
  next
    case (Next d1)
    then have "TryDecode clk d1 = Ok d'" using 1(2) by (simp add: TryDecode.simps [of clk d])
    with 1(1) [OF Next] have "TryDecode clk (receive ys d1) = TryDecode clk (receive ys d')" .
    moreover obtain n where "decode_round clk (receive ys d) = Next (set_size n (receive ys d1))"
      using decode_round_receive [of clk d ys] Next by auto
    ultimately show ?thesis
      by (simp add: TryDecode.simps [of clk "receive ys d"] TryDecode_set_size)
  qed (use 1 in \<open>simp_all add: TryDecode.simps [of clk d]\<close>)
qed

lemma decode_round_Fail:
  assumes "decode_round clk d = Fail e d'"
  shows "\<exists>d''. decode_round clk d' = Fail e d''"
    and "d_messages d' = d_messages d" "d_completed_messages d' = d_completed_messages d"
    "d_stream_events d' = d_stream_events d"
proof -
  let ?hdr = "dec_FrameHeader (d_buffer d)" and ?d1 = "set_size (length (d_buffer d)) d"
  let ?h = "\<lambda>d. handle_frame clk ?hdr (drop 16 (d_buffer d)) (count_frame d)"
  from assms consider "header_fault ?hdr = Some e" "d' = ?d1" | "header_fault ?hdr = None" "?h ?d1 = Fail e d'"
    by (cases "header_fault ?hdr") (auto simp: decode_round_cases Let_def split: if_splits)
  then have "(\<exists>d''. decode_round clk d' = Fail e d'') \<and> d_messages d' = d_messages d \<and>
    d_completed_messages d' = d_completed_messages d \<and> d_stream_events d' = d_stream_events d"
  proof cases
    case 1
    then show ?thesis
      using assms by (simp add: decode_round_set_size)
  next
    case 2
    from handle_frame_Fail [OF 2(2)] have d': "d' = count_frame ?d1" .
    from 2(2) have "handle_frame clk ?hdr (drop 16 (d_buffer d)) d2 = Fail e d2" for d2
      by (cases "FrameType_of_byte (hdr_type ?hdr)")
        (auto simp: handle_frame_def handle_message_def Let_def split: option.splits if_splits)
    then have "decode_round clk d' = Fail e (count_frame (set_size (length (d_buffer d)) d'))"
      using assms 2(1) by (auto simp: decode_round_cases Let_def d' split: if_splits)
    then show ?thesis by (simp add: d')
  qed
  then show "\<exists>d''. decode_round clk d' = Fail e d''" "d_messages d' = d_messages d"
    "d_completed_messages d' = d_completed_messages d" "d_stream_events d' = d_stream_events d"
    by blast+
qed

lemma TryDecode_Throw: "TryDecode clk d = Throw e d' \<Longrightarrow> \<exists>d0. decode_round clk d0 = Fail e d'"
proof (induction clk d rule: TryDecode.induct)
  case (1 clk d)
  then show ?case
    by (cases "decode_round clk d") (auto simp: TryDecode.simps [of clk d])
qed

lemma Feed_Throw_again:
  assumes "Feed clk xs d = Throw e d'"
  shows "\<exists>d''. Feed clk ys d' = Throw e d'' \<and> d_messages d'' = d_messages d' \<and>
    d_completed_messages d'' = d_completed_messages d' \<and> d_stream_events d'' = d_stream_events d'"
proof -
  from assms obtain d0 where "decode_round clk d0 = Fail e d'"
    using TryDecode_Throw [of clk "receive xs d"] by (auto simp: Feed_def)
  then obtain d1 where "decode_round clk d' = Fail e d1" using decode_round_Fail(1) by blast
  then obtain d2 where r: "decode_round clk (receive ys d') = Fail e d2"
    using decode_round_receive [of clk d' ys] by auto
  then have "Feed clk ys d' = Throw e d2" by (simp add: Feed_def TryDecode.simps [of clk "receive ys d'"])
  then show ?thesis using decode_round_Fail(2-4) [OF r] by (simp add: receive_def)
qed

lemma Reset_eq: "Reset d = Decoder_ctor (d_message_timeout_ms d)"
  by (simp add: Reset_def Decoder_ctor_def)

section \<open>Well-formed reassembly state\<close>

definition assembly_wf :: "MessageAssembly \<Rightarrow> bool" where
  "assembly_wf m \<longleftrightarrow> length (slices m) = unat (asm_total m) \<and> received m < asm_total m \<and>
     length (filter (\<lambda>s. s \<noteq> []) (slices m)) \<le> unat (received m)"

definition decoder_wf :: "Decoder \<Rightarrow> bool" where
  "decoder_wf d \<longleftrightarrow> distinct (map fst (d_messages d)) \<and> (\<forall>m \<in> snd ` set (d_messages d). assembly_wf m)"

lemma filter_update_empty:
  "i < length xs \<Longrightarrow> xs ! i = [] \<Longrightarrow> length (filter (\<lambda>s. s \<noteq> []) (xs[i := ys])) \<le> Suc (length (filter (\<lambda>s. s \<noteq> []) xs))"
  by (induction xs arbitrary: i) (auto split: nat.splits)

lemma assembly_wf_store_slice:
  assumes "assembly_wf m" and "i < length (slices m)"
    and "received (store_slice i bs m) \<noteq> asm_total (store_slice i bs m)"
  shows "assembly_wf (store_slice i bs m)"
proof (cases "slices m ! i = []")
  case True
  have lt: "received m < asm_total m" using assms(1) by (simp add: assembly_wf_def)
  then have "unat (received m + 1) = Suc (unat (received m))"
    by (rule unat_plus_one)
  then show ?thesis
    using True assms lt filter_update_empty [OF assms(2) True, of bs]
    by (auto simp: assembly_wf_def store_slice_def word_less_nat_alt word_unat_eq_iff)
qed (use assms in \<open>auto simp: store_slice_def\<close>)

lemma assembly_wf_open:
  assumes "decoder_wf d" and "mh_sequence mh < mh_total_slices mh"
  shows "assembly_wf (open_assembly clk mh d)"
proof (cases "map_of (d_messages d) (mh_message_id mh)")
  case None
  then show ?thesis using assms(2)
    by (auto simp: open_assembly_def assembly_wf_def empty_assembly_def Let_def word_less_nat_alt)
next
  case (Some m)
  then have "assembly_wf m" using assms(1) by (force simp: decoder_wf_def dest: map_of_SomeD)
  moreover from this have "slices m \<noteq> []" by (auto simp: assembly_wf_def word_less_nat_alt)
  ultimately show ?thesis using Some by (simp add: open_assembly_def)
qed

lemma snd_set_update: "snd ` set (AList.update k v al) \<subseteq> insert v (snd ` set al)"
  by (induction al) auto

lemma snd_set_delete: "snd ` set (AList.delete k al) \<subseteq> snd ` set al"
  by (induction al) auto

lemma decoder_wf_finish_slice:
  assumes "decoder_wf d" and "received m \<noteq> asm_total m \<Longrightarrow> assembly_wf m"
  shows "decoder_wf (finish_slice k m d)"
proof -
  have "d_messages (finish_slice k m d) =
      (if received m = asm_total m then AList.delete k (d_messages d) else AList.update k m (d_messages d))"
    by (simp add: finish_slice_def)
  moreover have "\<forall>m' \<in> snd ` set (AList.update k m (d_messages d)). assembly_wf m'"
    if "received m \<noteq> asm_total m"
    using assms that snd_set_update [of k m "d_messages d"] unfolding decoder_wf_def by blast
  moreover have "\<forall>m' \<in> snd ` set (AList.delete k (d_messages d)). assembly_wf m'"
    using assms snd_set_delete [of k "d_messages d"] unfolding decoder_wf_def by blast
  ultimately show ?thesis
    using assms(1) by (simp add: decoder_wf_def distinct_update distinct_delete)
qed


lemma decoder_wf_cong: "d_messages d' = d_messages d \<Longrightarrow> decoder_wf d' = decoder_wf d"
  by (simp add: decoder_wf_def)

lemma decoder_wf_handle_frame:
  assumes "decoder_wf d" and "handle_frame clk hdr rest d = Next d'"
  shows "decoder_wf d'"
proof (cases "check_crc hdr rest")
  case None
  then show ?thesis using assms by (auto simp: handle_frame_def decoder_wf_def)
next
  case (Some n)
  show ?thesis
  proof (cases "FrameType_of_byte (hdr_type hdr) = Message")
    case True
    let ?mh = "dec_MessageHeader rest"
    let ?m = "open_assembly clk ?mh d" and ?i = "unat (mh_sequence (dec_MessageHeader rest))"
    from True Some assms(2) have "mh_sequence ?mh < mh_total_slices ?mh" "?i < length (slices ?m)"
      and d': "d' = finish_slice (mh_message_id ?mh) (store_slice ?i (take (n - 12) (drop 12 rest)) ?m) d"
      by (auto simp: handle_frame_def handle_message_def Let_def split: if_splits)
    then show ?thesis unfolding d'
      by (intro decoder_wf_finish_slice assembly_wf_store_slice assembly_wf_open assms(1)) simp_all
  next
    case False
    with Some assms(2) have "d_messages d' = d_messages d"
      by (cases "FrameType_of_byte (hdr_type hdr)")
        (auto simp: handle_frame_def push_event_def Let_def split: if_splits)
    then show ?thesis using assms(1) decoder_wf_cong by blast
  qed
qed

lemma decoder_wf_round:
  assumes "decoder_wf d"
  shows "pred_round decoder_wf (decode_round clk d)"
proof -
  let ?hdr = "dec_FrameHeader (d_buffer d)"
  let ?h = "handle_frame clk ?hdr (drop 16 (d_buffer d)) (count_frame (set_size (length (d_buffer d)) d))"
  have wf: "decoder_wf (set_size n d)" "decoder_wf (count_frame (set_size n d))" for n
    using assms by (simp_all add: decoder_wf_def)
  have "pred_round decoder_wf (then_erase n ?h)" for n
  proof (cases ?h)
    case (Next d')
    from decoder_wf_handle_frame [OF wf(2) Next] show ?thesis
      by (simp add: Next erase_front_def decoder_wf_def)
  next
    case (Fail e d')
    from handle_frame_Fail [OF Fail] show ?thesis using wf(2) by (simp add: Fail)
  qed (simp_all add: handle_frame_Return)
  then show ?thesis using wf(1)
    by (simp add: decode_round_cases Let_def split: option.splits)
qed

lemma decoder_wf_TryDecode: "decoder_wf d \<Longrightarrow> pred_outcome decoder_wf (TryDecode clk d)"
proof (induction clk d rule: TryDecode.induct)
  case (1 clk d)
  then show ?case
    using decoder_wf_round [of d clk] by (cases "decode_round clk d") (simp_all add: TryDecode.simps [of clk d])
qed

text \<open>What stays in the buffer is less than one whole frame.\<close>

lemma TryDecode_rest:
  "TryDecode clk d = Ok d' \<Longrightarrow> length (d_buffer d') < 16 + MAX_FRAME_PAYLOAD \<and>
     buffer_size (d_stats d') = length (d_buffer d')"
proof (induction clk d rule: TryDecode.induct)
  case (1 clk d)
  show ?case
  proof (cases "decode_round clk d")
    case (Return d1)
    with 1(2) show ?thesis
      by (auto simp: TryDecode.simps [of clk d] decode_round_cases Let_def header_fault_def handle_frame_Return
          MAX_FRAME_PAYLOAD_def set_size_def split: if_splits)
  qed (use 1 in \<open>simp_all add: TryDecode.simps [of clk d]\<close>)
qed

lemma cleanup_loop_eq:
  "cleanup_loop now t kept es c s =
     (kept @ filter (\<lambda>e. \<not> timed_out now t (snd e)) es,
      c + length (filter (\<lambda>e. timed_out now t (snd e)) es),
      s\<lparr>timeout_cleanups := timeout_cleanups s + word_of_nat (length (filter (\<lambda>e. timed_out now t (snd e)) es))\<rparr>)"
  by (induction es arbitrary: kept c s) simp_all

inductive decoder_step :: "Decoder \<Rightarrow> Decoder \<Rightarrow> bool" where
  feed_ok: "Feed clk data d = Ok d' \<Longrightarrow> decoder_step d d'"
| feed_throw: "Feed clk data d = Throw e d' \<Longrightarrow> decoder_step d d'"
| get_message: "decoder_step d (snd (GetMessage d))"
| get_event: "decoder_step d (snd (GetStreamEvent d))"
| cleanup: "decoder_step d (snd (CleanupTimeoutMessages now d))"
| reset: "decoder_step d (Reset d)"

lemma decoder_wf_Feed: "decoder_wf d \<Longrightarrow> pred_outcome decoder_wf (Feed clk data d)"
  unfolding Feed_def by (rule decoder_wf_TryDecode) (simp add: decoder_wf_def receive_def)

lemma decoder_wf_step: "decoder_step d d' \<Longrightarrow> decoder_wf d \<Longrightarrow> decoder_wf d'"
proof (induction rule: decoder_step.induct)
  case (feed_ok clk data d d')
  then show ?case using decoder_wf_Feed [of d clk data] by simp
next
  case (feed_throw clk data d e d')
  then show ?case using decoder_wf_Feed [of d clk data] by simp
qed (auto simp: decoder_wf_def GetMessage_def GetStreamEvent_def CleanupTimeoutMessages_def
    cleanup_loop_eq Reset_def distinct_map_filter split: list.splits)

interpretation decoder_sys: invariant_system "\<lambda>d. \<exists>t. d = Decoder_ctor t" decoder_step decoder_wf
proof unfold_locales
  show "decoder_wf d" if "\<exists>t. d = Decoder_ctor t" for d
    using that by (auto simp: Decoder_ctor_def decoder_wf_def)
qed (rule decoder_wf_step)

section \<open>Properties\<close>

lemma Feed_append:
  assumes "Feed clk xs d = Ok d'"
  shows "Feed clk (xs @ ys) d = Feed clk ys d'"
  using TryDecode_receive [of clk "receive xs d" d' ys] assms
  by (simp add: Feed_def receive_append)

text \<open>A sequence of reads from the connection, each fed as it arrives, until one throws.\<close>

fun FeedAll :: "(u64 \<Rightarrow> int) \<Rightarrow> bytes list \<Rightarrow> Decoder \<Rightarrow> Decoder outcome" where
  "FeedAll clk [] d = Ok d"
| "FeedAll clk (xs # xss) d = (case Feed clk xs d of Ok d' \<Rightarrow> FeedAll clk xss d' | r \<Rightarrow> r)"

lemma FeedAll_snoc:
  "FeedAll clk (xss @ [ys]) d = (case FeedAll clk xss d of Ok d' \<Rightarrow> Feed clk ys d' | r \<Rightarrow> r)"
  by (induction xss arbitrary: d) (auto split: outcome.splits)

lemma FeedAll_concat:
  "FeedAll clk xss d = Ok d' \<Longrightarrow> xss \<noteq> [] \<Longrightarrow> Feed clk (concat xss) d = Ok d'"
proof (induction xss arbitrary: d' rule: rev_induct)
  case (snoc ys xss)
  then show ?case
    by (cases "xss = []") (auto simp: FeedAll_snoc Feed_append split: outcome.splits)
qed simp



text \<open>a protocol error is permanent. After \<open>Feed\<close> has thrown, every further \<open>Feed\<close>, whatever
  its bytes, throws the same error and delivers nothing; \<open>Reset\<close> gives a fresh decoder with the
  same timeout.\<close>

theorem Feed_error_sticky:
  assumes "Feed clk xs d = Throw e d'"
  shows "(\<exists>d''. Feed clk ys d' = Throw e d'' \<and> d_messages d'' = d_messages d' \<and>
      d_completed_messages d'' = d_completed_messages d' \<and> d_stream_events d'' = d_stream_events d')
    \<and> Reset d' = Decoder_ctor (d_message_timeout_ms d')"
  using Feed_Throw_again [OF assms] by (simp add: Reset_eq)

theorem Feed_error_sticky_witness:
  "\<exists>d'. Feed (\<lambda>_. 0) (replicate 16 0) (Decoder_ctor 5) = Throw (ProtocolError ''bad magic'') d' \<and>
     (\<exists>d''. Feed (\<lambda>_. 0) [0x5A, 0x5C] d' = Throw (ProtocolError ''bad magic'') d'')"
proof -
  have "\<exists>d'. Feed (\<lambda>_. 0) (replicate 16 0) (Decoder_ctor 5) = Throw (ProtocolError ''bad magic'') d'"
    by (simp add: Feed_def TryDecode.simps decode_round_def receive_def Decoder_ctor_def
        dec_FrameHeader_def MAGIC1_def)
  then obtain d' where d': "Feed (\<lambda>_. 0) (replicate 16 0) (Decoder_ctor 5) =
      Throw (ProtocolError ''bad magic'') d'" ..
  with Feed_error_sticky [OF d', of "[0x5A, 0x5C]"] show ?thesis by blast
qed

text \<open>C12: in every state a decoder can reach by its public operations, errors included, the pending
  messages have distinct identifiers and each has as many slots as it announced, fewer received
  slices than slots, and at most as many filled slots as received slices.\<close>

theorem decoder_reachable_wf:
  assumes "decoder_step\<^sup>*\<^sup>* (Decoder_ctor t) d"
  shows "decoder_wf d"
  using assms by (auto intro: decoder_sys.Inv_reachable)

theorem decoder_reachable_wf_witness:
  "decoder_wf (snd (GetMessage (Reset (Decoder_ctor 7))))"
  by (rule decoder_reachable_wf [of 7]) (blast intro: decoder_step.intros rtranclp.intros)

text \<open>C31: when \<open>Feed\<close> returns, the receive buffer holds less than one maximal frame, whatever was
  fed: the buffer does not grow without bound, and the recorded buffer size is the real one.\<close>

theorem Feed_buffer_bound:
  assumes "Feed clk xs d = Ok d'"
  shows "length (d_buffer d') < 16 + MAX_FRAME_PAYLOAD \<and>
    buffer_size (d_stats d') = length (d_buffer d')"
  using assms TryDecode_rest by (simp add: Feed_def)

theorem Feed_buffer_bound_witness:
  "\<exists>d'. Feed (\<lambda>_. 0) [1, 2] (Decoder_ctor 5) = Ok d' \<and> length (d_buffer d') < 16 + MAX_FRAME_PAYLOAD"
proof -
  have "\<exists>d'. Feed (\<lambda>_. 0) [1, 2] (Decoder_ctor 5) = Ok d'"
    by (simp add: Feed_def TryDecode.simps decode_round_def receive_def Decoder_ctor_def)
  then obtain d' where d': "Feed (\<lambda>_. 0) [1, 2] (Decoder_ctor 5) = Ok d'" ..
  with Feed_buffer_bound [OF d'] show ?thesis by blast
qed

text \<open>the timeout sweep removes exactly the pending messages that are at least as old as the
  timeout, keeps the others untouched, and reports and counts how many it removed.\<close>

theorem CleanupTimeoutMessages_exact:
  "CleanupTimeoutMessages now d =
     (length (filter (\<lambda>e. timed_out now (d_message_timeout_ms d) (snd e)) (d_messages d)),
      d\<lparr>d_messages := filter (\<lambda>e. \<not> timed_out now (d_message_timeout_ms d) (snd e)) (d_messages d),
        d_stats := (d_stats d)\<lparr>timeout_cleanups := timeout_cleanups (d_stats d) + word_of_nat
          (length (filter (\<lambda>e. timed_out now (d_message_timeout_ms d) (snd e)) (d_messages d)))\<rparr>\<rparr>)"
  by (simp add: CleanupTimeoutMessages_def cleanup_loop_eq)

end
