(* ===== verification/ProtocolRoundtrip.thy ===== *)
theory ProtocolRoundtrip
  imports ProtocolDecoder "HOL-Library.Sublist" "HOL-Library.Multiset"
begin

unbundle bit_operations_syntax

text \<open>
  Encoder and decoder together. The first part lifts the decoder from bytes to frames: feeding the
  wire image of frames, cut in any way, is absorbing the frames one by one. The second part follows
  the reassembly of interleaved messages slice by slice. The properties are the end-to-end round
  trips of messages and streams, and what faulty frames do.
\<close>

section \<open>Frames through the decoder\<close>

text \<open>What the decoder does with one whole frame, apart from the receive buffer.\<close>

definition absorb :: "(u64 \<Rightarrow> int) \<Rightarrow> Frame \<Rightarrow> Decoder \<Rightarrow> Decoder round" where
  "absorb clk f d = handle_frame clk (header f) (payload f) (count_frame d)"

fun absorb_all :: "(u64 \<Rightarrow> int) \<Rightarrow> Frame list \<Rightarrow> Decoder \<Rightarrow> Decoder option" where
  "absorb_all clk [] d = Some d"
| "absorb_all clk (f # fs) d = (case absorb clk f d of Next d' \<Rightarrow> absorb_all clk fs d' | _ \<Rightarrow> None)"

definition wire_ok :: "Frame \<Rightarrow> bool" where
  "wire_ok f \<longleftrightarrow> frame_ok f \<and> length (payload f) \<le> MAX_FRAME_PAYLOAD"

definition wire :: "Frame list \<Rightarrow> bytes" where
  "wire fs = concat (map Serialize fs)"

lemma wire_ok_header: "wire_ok f \<Longrightarrow> header_fault (header f) = None"
  by (simp add: wire_ok_def frame_ok_def header_fault_def)

lemma absorb_rebuffer:
  assumes "absorb clk f d \<noteq> Undefined" and "wire_ok f"
  shows "absorb clk f (rebuffer bs b k d) = map_round (rebuffer bs b k) (absorb clk f d)"
  using handle_frame_append [of clk "header f" "payload f" "count_frame d" "[]" bs b k] assms
  by (simp add: absorb_def count_frame_rebuffer wire_ok_def frame_ok_def)

lemma rebuffer_rebuffer [simp]: "rebuffer bs b k (rebuffer bs' b' k' d) = rebuffer bs b k d"
  and d_buffer_rebuffer [simp]: "d_buffer (rebuffer bs b k d) = bs"
  and bytes_received_rebuffer [simp]: "bytes_received (d_stats (rebuffer bs b k d)) = b"
  by (simp_all add: rebuffer_def)

lemma set_size_rebuffer: "set_size n d = rebuffer (d_buffer d) (bytes_received (d_stats d)) n d"
  by (simp add: set_size_def rebuffer_def)

lemma decode_round_frame:
  assumes "d_buffer d = Serialize f @ rest" and "wire_ok f" and "absorb clk f d = Next d1"
  shows "decode_round clk d =
    Next (rebuffer rest (bytes_received (d_stats d)) (length (d_buffer d)) d1)"
proof -
  let ?n = "length (d_buffer d)"
  have h: "dec_FrameHeader (d_buffer d) = header f" and r: "drop 16 (d_buffer d) = payload f @ rest"
    using assms(1) by (simp_all add: Serialize_eq)
  have len: "unat (payload_len (header f)) = length (payload f)"
    using assms(2) by (simp add: wire_ok_def frame_ok_def)
  have sz: "?n = 16 + length (payload f) + length rest" using assms(1) by simp
  have "handle_frame clk (header f) (payload f @ rest) (count_frame (set_size ?n d)) =
      Next (rebuffer (d_buffer d) (bytes_received (d_stats d)) ?n d1)"
    using handle_frame_append [of clk "header f" "payload f" "count_frame d" rest] assms(3) len
    by (simp add: absorb_def set_size_rebuffer count_frame_rebuffer)
  then have "decode_round clk d = Next (erase_front (16 + length (payload f))
      (rebuffer (d_buffer d) (bytes_received (d_stats d)) ?n d1))"
    using wire_ok_header [OF assms(2)] by (simp add: decode_round_cases Let_def h r len sz)
  then show ?thesis using assms(1) by (simp add: erase_front_def rebuffer_def)
qed

lemma TryDecode_partial:
  assumes "strict_prefix (d_buffer d) (Serialize f)" and "wire_ok f"
  shows "TryDecode clk d = Ok (set_size (length (d_buffer d)) d)"
proof -
  obtain r where r: "Serialize f = d_buffer d @ r" and "r \<noteq> []"
    using assms(1) by (auto simp: strict_prefix_def prefix_def)
  then have lt: "length (d_buffer d) < 16 + length (payload f)"
    by (metis length_Serialize length_append length_greater_0_conv less_add_same_cancel1)
  show ?thesis
  proof (cases "length (d_buffer d) < 16")
    case True
    then show ?thesis by (simp add: TryDecode.simps [of clk d] decode_round_cases Let_def)
  next
    case False
    then have "dec_FrameHeader (d_buffer d) = dec_FrameHeader (d_buffer d @ r)"
      by (simp add: hdr.dec_append)
    also have "\<dots> = header f" by (simp add: r [symmetric] Serialize_eq)
    finally show ?thesis
      using False lt wire_ok_header [OF assms(2)] assms(2)
      by (simp add: TryDecode.simps [of clk d] decode_round_cases Let_def wire_ok_def frame_ok_def)
  qed
qed

lemma absorb_all_rebuffer:
  assumes "absorb_all clk fs d = Some d'" and "\<forall>f \<in> set fs. wire_ok f"
  shows "absorb_all clk fs (rebuffer bs b k d) = Some (rebuffer bs b k d')"
  using assms
proof (induction fs arbitrary: d)
  case (Cons f fs)
  then obtain d1 where a: "absorb clk f d = Next d1" "absorb_all clk fs d1 = Some d'"
    by (auto split: round.splits)
  then show ?case using Cons absorb_rebuffer [of clk f d bs b k] by simp
qed simp

text \<open>Whole frames in front of a partial one: the frames are absorbed, the rest waits.\<close>

lemma TryDecode_wire:
  assumes "d_buffer d = wire fs @ p" and "absorb_all clk fs d = Some d'"
    and "\<forall>f \<in> set fs. wire_ok f" and "p = [] \<or> (\<exists>f. wire_ok f \<and> strict_prefix p (Serialize f))"
  shows "TryDecode clk d = Ok (rebuffer p (bytes_received (d_stats d)) (length p) d')"
  using assms
proof (induction fs arbitrary: d d')
  case Nil
  have "TryDecode clk d = Ok (set_size (length (d_buffer d)) d)"
  proof (cases "p = []")
    case True
    with Nil(1) show ?thesis by (simp add: wire_def TryDecode.simps [of clk d] decode_round_cases)
  next
    case False
    then show ?thesis using Nil TryDecode_partial [of d] by (auto simp: wire_def)
  qed
  with Nil show ?case by (simp add: set_size_rebuffer wire_def)
next
  case (Cons f fs)
  let ?b = "bytes_received (d_stats d)" and ?n = "length (d_buffer d)"
  obtain d1 where a: "absorb clk f d = Next d1" "absorb_all clk fs d1 = Some d'"
    using Cons.prems(2) by (auto split: round.splits)
  let ?d2 = "rebuffer (wire fs @ p) ?b ?n d1"
  have "decode_round clk d = Next ?d2"
    using decode_round_frame [OF _ _ a(1), of "wire fs @ p"] Cons.prems by (simp add: wire_def)
  moreover have "TryDecode clk ?d2 = Ok (rebuffer p ?b (length p) (rebuffer (wire fs @ p) ?b ?n d'))"
    using Cons.IH [of ?d2] absorb_all_rebuffer [OF a(2)] Cons.prems by simp
  ultimately show ?case by (simp add: TryDecode.simps [of clk d])
qed

lemma wire_split:
  assumes "prefix xs (wire fs)"
  shows "\<exists>fs1 fs2 p. fs = fs1 @ fs2 \<and> xs = wire fs1 @ p \<and>
    (p = [] \<or> (\<exists>f \<in> set fs. strict_prefix p (Serialize f)))"
  using assms
proof (induction fs arbitrary: xs)
  case (Cons f fs)
  then have pre: "prefix xs (Serialize f @ wire fs)" by (simp add: wire_def)
  show ?case
  proof (cases "strict_prefix xs (Serialize f)")
    case True
    then show ?thesis by (intro exI [of _ "[]"] exI [of _ "f # fs"] exI [of _ xs]) (simp add: wire_def)
  next
    case False
    with pre obtain ys where xs: "xs = Serialize f @ ys" and "prefix ys (wire fs)"
      by (auto simp: prefix_append strict_prefix_def)
    with Cons.IH [of ys] obtain fs1 fs2 p where "fs = fs1 @ fs2" "ys = wire fs1 @ p"
      "p = [] \<or> (\<exists>f \<in> set fs. strict_prefix p (Serialize f))" by blast
    with xs show ?thesis
      by (intro exI [of _ "f # fs1"] exI [of _ fs2] exI [of _ p]) (auto simp: wire_def)
  qed
qed (simp add: wire_def)

lemma absorb_all_append:
  "absorb_all clk (fs1 @ fs2) d =
     (case absorb_all clk fs1 d of None \<Rightarrow> None | Some d1 \<Rightarrow> absorb_all clk fs2 d1)"
  by (induction fs1 arbitrary: d) (auto split: round.splits)

lemma receive_rebuffer: "receive xs d =
    rebuffer (d_buffer d @ xs) (bytes_received (d_stats d) + word_of_nat (length xs)) (buffer_size (d_stats d)) d"
  by (simp add: receive_def rebuffer_def)

lemma Feed_prefix:
  assumes "d_buffer d = []" and "\<forall>f \<in> set fs. wire_ok f" and "absorb_all clk fs d = Some d'"
    and "prefix xs (wire fs)"
  shows "\<exists>d1. Feed clk xs d = Ok d1"
proof -
  obtain fs1 fs2 p where fs: "fs = fs1 @ fs2" and xs: "xs = wire fs1 @ p"
    and p: "p = [] \<or> (\<exists>f \<in> set fs. strict_prefix p (Serialize f))"
    using wire_split [OF assms(4)] by blast
  from fs assms(3) obtain d1 where "absorb_all clk fs1 d = Some d1"
    by (auto simp: absorb_all_append split: option.splits)
  then have "absorb_all clk fs1 (receive xs d) \<noteq> None"
    using absorb_all_rebuffer [of clk fs1 d d1] assms(2) fs by (simp add: receive_rebuffer)
  then show ?thesis
    using TryDecode_wire [of "receive xs d" fs1 p clk] assms(1,2) fs xs p by (auto simp: Feed_def)
qed

lemma Feed_wire:
  assumes "d_buffer d = []" and "\<forall>f \<in> set fs. wire_ok f" and "absorb_all clk fs d = Some d'"
  shows "Feed clk (wire fs) d =
    Ok (rebuffer [] (bytes_received (d_stats d) + word_of_nat (length (wire fs))) 0 d')"
  using TryDecode_wire [of "receive (wire fs) d" fs "[]" clk] absorb_all_rebuffer [OF assms(3,2)] assms(1,2)
  by (simp add: Feed_def receive_rebuffer)

lemma FeedAll_prefixes:
  assumes "\<And>xs. prefix xs (concat xss) \<Longrightarrow> \<exists>d1. Feed clk xs d = Ok d1" and "xss \<noteq> []"
  shows "FeedAll clk xss d = Feed clk (concat xss) d"
  using assms
proof (induction xss rule: rev_induct)
  case (snoc ys xss)
  show ?case
  proof (cases "xss = []")
    case True
    then show ?thesis by (simp split: outcome.splits)
  next
    case False
    have "\<exists>d1. Feed clk xs d = Ok d1" if "prefix xs (concat xss)" for xs
      using snoc.prems(1) [of xs] that by (simp add: prefix_append)
    with False snoc.IH have "FeedAll clk xss d = Feed clk (concat xss) d" by blast
    moreover obtain d1 where "Feed clk (concat xss) d = Ok d1" using snoc.prems(1) [of "concat xss"] by auto
    ultimately show ?thesis by (simp add: FeedAll_snoc Feed_append)
  qed
qed simp

text \<open>Any cutting of the wire image of frames that the decoder absorbs.\<close>

lemma FeedAll_wire:
  assumes "d_buffer d = []" and "\<forall>f \<in> set fs. wire_ok f" and "absorb_all clk fs d = Some d'"
    and "concat xss = wire fs" and "xss \<noteq> []"
  shows "FeedAll clk xss d =
    Ok (rebuffer [] (bytes_received (d_stats d) + word_of_nat (length (wire fs))) 0 d')"
  using FeedAll_prefixes [of xss clk d] Feed_prefix [OF assms(1-3)] Feed_wire [OF assms(1-3)] assms(4,5)
  by simp

section \<open>Reassembly\<close>

lemma check_crc_framed:
  assumes "length data \<le> MAX_FRAME_PAYLOAD"
  shows "check_crc (header (framed t data crc)) (payload (framed t data crc)) = Some (length data)"
proof -
  have "length data + 4 < 2 ^ LENGTH(32)" "length data < 2 ^ LENGTH(32)" using assms by (simp_all add: MAX_FRAME_PAYLOAD_def)
  then have "unat (word_of_nat (length data + 4) :: u32) = length data + 4"
    "unat (word_of_nat (length data) :: u32) = length data"
    by (simp_all only: unat_word_of_nat)
  then show ?thesis by (cases crc) (simp_all add: check_crc_def framed_def Let_def FLAG_CRC32_def)
qed

lemma hdr_type_framed: "hdr_type (header (framed t data crc)) = byte_of_FrameType t"
  by (simp add: framed_def Let_def)

lemma payload_framed: "payload (framed t data crc) = data @ (if crc then to_le 4 (CalculateCRC32 data) else [])"
  by (simp add: framed_def Let_def)

lemma absorb_message:
  assumes "12 + length bs \<le> MAX_FRAME_PAYLOAD" and "mh_sequence mh < mh_total_slices mh"
    and "unat (mh_sequence mh) < length (slices (open_assembly clk mh (count_frame d)))"
  shows "absorb clk (framed Message (enc_MessageHeader mh @ bs) crc) d =
    Next (finish_slice (mh_message_id mh)
      (store_slice (unat (mh_sequence mh)) bs (open_assembly clk mh (count_frame d))) (count_frame d))"
proof -
  have "FrameType_of_byte (byte_of_FrameType Message) = Message"
    by (rule FrameType_of_byte_of_FrameType) simp
  then show ?thesis
    using assms check_crc_framed [of "enc_MessageHeader mh @ bs" Message crc]
    by (simp add: absorb_def handle_frame_def hdr_type_framed payload_framed handle_message_def Let_def)
qed

text \<open>A message to send: its identifier, its data and whether its frames carry a CRC.\<close>

type_synonym job = "u64 \<times> bytes \<times> bool"

fun job_ok :: "job \<Rightarrow> bool" where
  "job_ok (k, data, crc) \<longleftrightarrow> data \<noteq> [] \<and> length data \<le> MAX_MESSAGE_SLICES * slice_payload crc"

fun job_n :: "job \<Rightarrow> nat" where
  "job_n (k, data, crc) = slice_count (length data) crc"

fun job_slice :: "job \<Rightarrow> nat \<Rightarrow> bytes" where
  "job_slice (k, data, crc) i = slice_data data crc i"

fun job_frame :: "job \<Rightarrow> nat \<Rightarrow> Frame" where
  "job_frame (k, data, crc) i = slice_frame k data crc (slice_total (length data) crc) i"

fun job_msg :: "job \<Rightarrow> MessageComplete" where
  "job_msg (k, data, crc) = \<lparr> mc_message_id = k, mc_data = data \<rparr>"

definition job_header :: "job \<Rightarrow> nat \<Rightarrow> MessageHeader" where
  "job_header j i = \<lparr> mh_message_id = fst j, mh_total_slices = word_of_nat (job_n j), mh_sequence = word_of_nat i \<rparr>"

lemma job_frame_eq:
  "job_frame j i = framed Message (enc_MessageHeader (job_header j i) @ job_slice j i) (snd (snd j))"
  by (cases j) (simp add: job_header_def slice_frame_def slice_total_eq)

lemma job_n_bounds: "job_ok j \<Longrightarrow> 0 < job_n j \<and> job_n j < 65536"
proof (cases j)
  case (fields k data crc)
  assume "job_ok j"
  then show ?thesis
    using slice_count_le [of "length data" crc 65535] slice_count_pos [of "length data" crc]
    by (simp add: fields MAX_MESSAGE_SLICES_def less_Suc_eq_le)
qed

lemma job_slice_length: "12 + length (job_slice j i) \<le> MAX_FRAME_PAYLOAD"
proof (cases j)
  case (fields k data crc)
  then show ?thesis
    using length_slice_data [of data crc i] slice_payload_bounds(2) [of crc] by (simp split: if_splits)
qed

lemma concat_job_slices: "concat (map (job_slice j) [0..<job_n j]) = mc_data (job_msg j)"
proof (cases j)
  case (fields k data crc)
  have "job_slice (k, data, crc) = slice_data data crc" by (rule ext) simp
  then show ?thesis by (simp add: fields concat_all_slices)
qed

lemma job_header_unat:
  assumes "job_ok j" and "i < job_n j"
  shows "unat (mh_sequence (job_header j i)) = i" "unat (mh_total_slices (job_header j i)) = job_n j"
    "mh_sequence (job_header j i) < mh_total_slices (job_header j i)"
  using assms job_n_bounds [OF assms(1)] by (simp_all add: job_header_def unat_word_of_nat word_less_nat_alt)

text \<open>A pending message of which the slices in \<open>S\<close> have arrived.\<close>

definition partly :: "job \<Rightarrow> nat set \<Rightarrow> MessageAssembly \<Rightarrow> bool" where
  "partly j S m \<longleftrightarrow> asm_total m = word_of_nat (job_n j) \<and>
     slices m = map (\<lambda>i. if i \<in> S then job_slice j i else []) [0..<job_n j] \<and>
     unat (received m) = card S"

lemma partly_store:
  assumes "partly j S m" and "job_ok j" and "S \<subseteq> {..<job_n j}" and "i < job_n j" and "i \<notin> S"
  shows "partly j (insert i S) (store_slice i (job_slice j i) m)"
proof -
  have "finite S" using assms(3) finite_subset by blast
  moreover have "card (insert i S) \<le> job_n j"
    using assms(3,4) card_mono [of "{..<job_n j}" "insert i S"] by simp
  ultimately have "card S < job_n j" using assms(5) by simp
  then have "received m < word_of_nat (job_n j)"
    using assms(1) job_n_bounds [OF assms(2)] by (simp add: partly_def word_less_nat_alt unat_word_of_nat)
  from unat_plus_one [OF this] have "unat (received m + 1) = Suc (card S)"
    using assms(1) by (simp add: partly_def)
  moreover have "(map (\<lambda>i. if i \<in> S then job_slice j i else []) [0..<job_n j])[i := job_slice j i] =
      map (\<lambda>x. if x \<in> insert i S then job_slice j x else []) [0..<job_n j]"
    using assms(4,5) by (intro nth_equalityI) (simp_all add: nth_list_update)
  ultimately show ?thesis
    using assms \<open>finite S\<close> by (simp add: partly_def store_slice_def)
qed

lemma partly_complete:
  assumes "partly j S m" and "job_ok j" and "S \<subseteq> {..<job_n j}"
  shows "received m = asm_total m \<longleftrightarrow> S = {..<job_n j}"
proof -
  have "received m = asm_total m \<longleftrightarrow> card S = job_n j"
    using assms(1) job_n_bounds [OF assms(2)] by (simp add: partly_def word_unat_eq_iff unat_word_of_nat)
  also have "\<dots> \<longleftrightarrow> S = {..<job_n j}"
    using assms(3) card_subset_eq [of "{..<job_n j}" S] by auto
  finally show ?thesis .
qed

lemma partly_data: "partly j {..<job_n j} m \<Longrightarrow> concat (slices m) = mc_data (job_msg j)"
  unfolding concat_job_slices [symmetric] by (auto simp: partly_def intro!: arg_cong [of _ _ concat])


section \<open>Interleaved messages\<close>

definition arrived :: "(job \<times> nat) list \<Rightarrow> job \<Rightarrow> nat set" where
  "arrived ps j = {i. (j, i) \<in> set ps}"

abbreviation complete :: "(job \<times> nat) list \<Rightarrow> job \<Rightarrow> bool" where
  "complete ps j \<equiv> arrived ps j = {..<job_n j}"

definition pending_ok :: "job list \<Rightarrow> (job \<times> nat) list \<Rightarrow> (u64 \<rightharpoonup> MessageAssembly) \<Rightarrow> bool" where
  "pending_ok jobs ps mm \<longleftrightarrow> (\<forall>k. k \<notin> fst ` set jobs \<longrightarrow> mm k = None) \<and>
     (\<forall>j \<in> set jobs. if arrived ps j = {} \<or> complete ps j then mm (fst j) = None
        else \<exists>m. mm (fst j) = Some m \<and> partly j (arrived ps j) m)"

lemma arrived_snoc: "arrived (ps @ [(j, i)]) j' = (if j' = j then insert i (arrived ps j) else arrived ps j')"
  by (auto simp: arrived_def)

lemma mset_filter_add:
  assumes "distinct xs" and "x \<in> set xs" and "\<not> P x"
  shows "mset (filter (\<lambda>y. y = x \<or> P y) xs) = add_mset x (mset (filter P xs))"
  using assms
proof (induction xs)
  case (Cons a xs)
  then show ?case
  proof (cases "a = x")
    case True
    with Cons.prems have "filter (\<lambda>y. y = x \<or> P y) xs = filter P xs" by (auto intro: filter_cong)
    with True Cons.prems show ?thesis by simp
  qed auto
qed simp

lemma open_assembly_partly:
  assumes "job_ok j" and "i < job_n j" and "i \<notin> arrived ps j" and "j \<in> set jobs"
    and "pending_ok jobs ps (map_of (d_messages d))"
  shows "partly j (arrived ps j) (open_assembly clk (job_header j i) d)"
proof (cases "arrived ps j = {}")
  case True
  with assms(4,5) have "map_of (d_messages d) (fst j) = None" by (simp add: pending_ok_def)
  then show ?thesis
    using True job_header_unat(2) [OF assms(1,2)]
    by (auto simp: open_assembly_def Let_def empty_assembly_def job_header_def partly_def
        map_replicate_trivial)
next
  case False
  moreover have "\<not> complete ps j" using assms(2,3) by auto
  ultimately obtain m where m: "map_of (d_messages d) (fst j) = Some m" "partly j (arrived ps j) m"
    using assms(4,5) unfolding pending_ok_def by meson
  moreover have "slices m \<noteq> []" using m(2) assms(2) by (simp add: partly_def)
  ultimately show ?thesis by (simp add: open_assembly_def job_header_def)
qed

lemma pending_ok_step:
  assumes "pending_ok jobs ps mm" and "distinct (map fst jobs)" and "j \<in> set jobs"
    and "mm' = mm(fst j := (if complete (ps @ [(j, i)]) j then None else Some m))"
    and "partly j (insert i (arrived ps j)) m"
  shows "pending_ok jobs (ps @ [(j, i)]) mm'"
proof -
  have "fst j' \<noteq> fst j" if "j' \<in> set jobs" "j' \<noteq> j" for j'
    using assms(2,3) that by (metis eq_key_imp_eq_value prod.collapse)
  then show ?thesis
    using assms(1,3-5) by (auto simp: pending_ok_def arrived_snoc)
qed

lemma absorb_job:
  assumes "pending_ok jobs ps (map_of (d_messages d))" and "distinct (map fst jobs)"
    and "j \<in> set jobs" and "job_ok j" and "i < job_n j" and "i \<notin> arrived ps j"
    and "arrived ps j \<subseteq> {..<job_n j}"
  shows "\<exists>d'. absorb clk (job_frame j i) d = Next d' \<and>
    pending_ok jobs (ps @ [(j, i)]) (map_of (d_messages d')) \<and>
    d_completed_messages d' = d_completed_messages d @
      (if complete (ps @ [(j, i)]) j then [job_msg j] else []) \<and>
    d_stream_events d' = d_stream_events d"
proof -
  let ?S = "insert i (arrived ps j)" and ?d = "count_frame d"
  let ?mo = "open_assembly clk (job_header j i) ?d"
  let ?m = "store_slice i (job_slice j i) ?mo"
  let ?d' = "finish_slice (fst j) ?m ?d"
  have p0: "partly j (arrived ps j) ?mo" using assms by (intro open_assembly_partly) auto
  from p0 have p: "partly j ?S ?m" by (rule partly_store) (use assms in auto)
  have a: "absorb clk (job_frame j i) d = Next ?d'"
    using absorb_message [OF job_slice_length job_header_unat(3) [OF assms(4,5)], of clk d]
      job_header_unat(1) [OF assms(4,5)] p0 assms(5)
    by (simp add: job_frame_eq partly_def) (simp add: job_header_def)
  have c: "received ?m = asm_total ?m \<longleftrightarrow> complete (ps @ [(j, i)]) j"
    using partly_complete [OF p assms(4)] assms(5,7) by (simp add: arrived_snoc)
  have "map_of (d_messages ?d') = (map_of (d_messages d))
      (fst j := (if complete (ps @ [(j, i)]) j then None else Some ?m))"
    using c by (simp add: finish_slice_def delete_conv' update_conv')
  from pending_ok_step [OF assms(1-3) this p]
  have "pending_ok jobs (ps @ [(j, i)]) (map_of (d_messages ?d'))" .
  moreover have "\<lparr> mc_message_id = fst j, mc_data = concat (slices ?m) \<rparr> = job_msg j"
    if "complete (ps @ [(j, i)]) j"
    using partly_data [of j ?m] p that by (cases j) (simp add: arrived_snoc)
  ultimately show ?thesis
    using a c by (auto simp: finish_slice_def)
qed


lemma absorb_jobs:
  assumes "pending_ok jobs ps (map_of (d_messages d))" and "distinct (map fst jobs)"
    and "\<forall>j \<in> set jobs. job_ok j" and "distinct (ps @ qs)"
    and "\<forall>(j, i) \<in> set (ps @ qs). j \<in> set jobs \<and> i < job_n j"
    and "mset (d_completed_messages d) = mset (map job_msg (filter (complete ps) jobs))"
  shows "\<exists>d'. absorb_all clk (map (\<lambda>(j, i). job_frame j i) qs) d = Some d' \<and>
    pending_ok jobs (ps @ qs) (map_of (d_messages d')) \<and>
    mset (d_completed_messages d') = mset (map job_msg (filter (complete (ps @ qs)) jobs)) \<and>
    d_stream_events d' = d_stream_events d"
  using assms
proof (induction qs arbitrary: ps d)
  case (Cons q qs)
  obtain j i where q: "q = (j, i)" by (cases q)
  have j: "j \<in> set jobs" "job_ok j" "i < job_n j" "i \<notin> arrived ps j" "arrived ps j \<subseteq> {..<job_n j}"
    using Cons.prems(3-5) by (auto simp: q arrived_def)
  from absorb_job [OF Cons.prems(1,2) j, of clk] obtain d1 where
    a: "absorb clk (job_frame j i) d = Next d1" and
    p: "pending_ok jobs (ps @ [q]) (map_of (d_messages d1))" and
    c: "d_completed_messages d1 = d_completed_messages d @ (if complete (ps @ [q]) j then [job_msg j] else [])"
      and e: "d_stream_events d1 = d_stream_events d"
    by (auto simp: q)
  have dist: "distinct jobs" using Cons.prems(2) by (simp add: distinct_map)
  have nc: "\<not> complete ps j" using j(3,4) by auto
  have "complete (ps @ [q]) = (\<lambda>y. y = j \<and> complete (ps @ [q]) j \<or> complete ps y)"
    using nc by (intro ext) (simp add: q arrived_snoc)
  then have "mset (filter (complete (ps @ [q])) jobs) =
      (if complete (ps @ [q]) j then add_mset j (mset (filter (complete ps) jobs)) else mset (filter (complete ps) jobs))"
    using mset_filter_add [OF dist j(1), of "complete ps"] nc by (cases "complete (ps @ [q]) j") simp_all
  then have "mset (d_completed_messages d1) = mset (map job_msg (filter (complete (ps @ [q])) jobs))"
    using c Cons.prems(6) by simp
  with Cons.IH [of "ps @ [q]" d1] Cons.prems(2-5) p obtain d' where
    "absorb_all clk (map (\<lambda>(j, i). job_frame j i) qs) d1 = Some d'"
    "pending_ok jobs (ps @ q # qs) (map_of (d_messages d'))"
    "mset (d_completed_messages d') = mset (map job_msg (filter (complete (ps @ q # qs)) jobs))"
    "d_stream_events d' = d_stream_events d1" by auto
  then show ?case using a e by (simp add: q)
qed simp


lemma mset_map_ex:
  assumes "mset ys = mset (map f xs)"
  shows "\<exists>zs. mset zs = mset xs \<and> ys = map f zs"
proof -
  have "\<exists>zs. mset zs = M \<and> ys = map f zs" if "mset ys = image_mset f M" for M ys
    using that
  proof (induction ys arbitrary: M)
    case (Cons y ys)
    then obtain M1 a where "M = add_mset a M1" "f a = y" "image_mset f M1 = mset ys"
      using msed_map_invR [of f M y "mset ys"] by auto
    moreover from this Cons.IH [of M1] obtain zs where "mset zs = M1" "ys = map f zs" by auto
    ultimately show ?case by (intro exI [of _ "a # zs"]) simp
  qed simp
  with assms show ?thesis by simp
qed

definition all_slices :: "job list \<Rightarrow> (job \<times> nat) list" where
  "all_slices jobs = concat (map (\<lambda>j. map (Pair j) [0..<job_n j]) jobs)"

lemma set_all_slices: "set (all_slices jobs) = {(j, i). j \<in> set jobs \<and> i < job_n j}"
  by (auto simp: all_slices_def)

lemma distinct_all_slices: "distinct jobs \<Longrightarrow> distinct (all_slices jobs)"
  by (induction jobs) (auto simp: all_slices_def distinct_map inj_on_def)

fun encoded :: "job \<Rightarrow> Frame list" where
  "encoded (k, data, crc) = (case EncodeMessage k data crc of Inl e \<Rightarrow> [] | Inr fs \<Rightarrow> fs)"

lemma encoded_eq: "job_ok j \<Longrightarrow> encoded j = map (job_frame j) [0..<job_n j]"
proof (cases j)
  case (fields k data crc)
  assume ok: "job_ok j"
  have "EncodeMessage k data crc = Inr (map (slice_frame k data crc (word_of_nat (job_n j))) [0..<job_n j])"
    using job_n_bounds [OF ok] by (intro EncodeMessage_Inr) (simp_all add: fields slice_total_eq)
  then show ?thesis by (simp add: fields slice_total_eq)
qed

lemma encoded_all:
  assumes "\<forall>j \<in> set jobs. job_ok j"
  shows "concat (map encoded jobs) = map (\<lambda>(j, i). job_frame j i) (all_slices jobs)"
proof -
  have e: "map encoded jobs = map (\<lambda>j. map (job_frame j) [0..<job_n j]) jobs"
    using assms by (auto simp: encoded_eq)
  show ?thesis unfolding e by (simp add: all_slices_def map_concat comp_def)
qed

lemma wire_ok_job_frame: "wire_ok (job_frame j i)"
  by (cases j) (simp add: wire_ok_def frame_ok_slice_frame length_slice_frame)

lemma absorb_encoded:
  assumes "distinct (map fst jobs)" and "\<forall>j \<in> set jobs. job_ok j"
    and "mset fs = mset (concat (map encoded jobs))"
  shows "(\<forall>f \<in> set fs. wire_ok f) \<and> (\<exists>d'. absorb_all clk fs (Decoder_ctor t) = Some d' \<and>
    d_messages d' = [] \<and> mset (d_completed_messages d') = mset (map job_msg jobs) \<and>
    d_stream_events d' = [])"
proof -
  obtain qs where qs: "mset qs = mset (all_slices jobs)" and fs: "fs = map (\<lambda>(j, i). job_frame j i) qs"
    using mset_map_ex assms(3) unfolding encoded_all [OF assms(2)] by blast
  have set_qs: "set qs = {(j, i). j \<in> set jobs \<and> i < job_n j}"
    using mset_eq_setD [OF qs] by (simp add: set_all_slices)
  have dist: "distinct qs"
    using distinct_all_slices mset_eq_imp_distinct_iff [OF qs] assms(1) by (simp add: distinct_map)
  have full: "complete qs j" if "j \<in> set jobs" for j
    using that by (auto simp: arrived_def set_qs)
  have none: "\<not> complete [] j" if "j \<in> set jobs" for j
    using that assms(2) job_n_bounds [of j] by (force simp: arrived_def)
  have "pending_ok jobs [] (map_of (d_messages (Decoder_ctor t)))"
    by (simp add: pending_ok_def arrived_def Decoder_ctor_def)
  then obtain d' where d': "absorb_all clk fs (Decoder_ctor t) = Some d'"
    "pending_ok jobs qs (map_of (d_messages d'))"
    "mset (d_completed_messages d') = mset (map job_msg (filter (complete qs) jobs))"
    "d_stream_events d' = d_stream_events (Decoder_ctor t)"
    using absorb_jobs [of jobs "[]" "Decoder_ctor t" qs clk] assms dist none
    by (auto simp: fs set_qs Decoder_ctor_def filter_empty_conv)
  have "filter (complete qs) jobs = jobs" using full by simp
  moreover have "map_of (d_messages d') k = None" for k
    using d'(2) full by (cases "k \<in> fst ` set jobs") (auto simp: pending_ok_def)
  then have "d_messages d' = []" by (metis ext map_of_eq_empty_iff)
  moreover have "\<forall>f \<in> set fs. wire_ok f"
    unfolding fs by (auto simp: wire_ok_job_frame simp del: job_frame.simps)
  ultimately show ?thesis using d' by (auto simp: Decoder_ctor_def)
qed

lemma SerializeFrames_wire: "concat (SerializeFrames fs) = wire fs"
  by (simp add: SerializeFrames_def wire_def)

text \<open>C1: end to end. Take any messages with distinct identifiers, each of at least one byte and at
  most 65535 slices, with or without CRC; encode them, interleave and reorder all their frames in any
  way, serialise, and cut the bytes into reads in any way. A fresh decoder accepts every read and
  delivers each message exactly once, with its data intact, and nothing else; nothing stays pending
  or buffered.\<close>

theorem Encode_Feed_roundtrip:
  assumes "distinct (map fst jobs)" and "\<forall>j \<in> set jobs. job_ok j"
    and "mset fs = mset (concat (map encoded jobs))"
    and "concat xss = concat (SerializeFrames fs)" and "xss \<noteq> []"
  shows "\<exists>d'. FeedAll clk xss (Decoder_ctor t) = Ok d' \<and>
    mset (d_completed_messages d') = mset (map job_msg jobs) \<and>
    d_messages d' = [] \<and> d_buffer d' = [] \<and> d_stream_events d' = []"
proof -
  obtain d' where "\<forall>f \<in> set fs. wire_ok f" and "absorb_all clk fs (Decoder_ctor t) = Some d'"
    and "d_messages d' = []" "mset (d_completed_messages d') = mset (map job_msg jobs)"
    "d_stream_events d' = []"
    using absorb_encoded [OF assms(1-3)] by blast
  then show ?thesis
    using FeedAll_wire [of "Decoder_ctor t" fs clk d' xss] assms(4,5)
    by (simp add: SerializeFrames_wire Decoder_ctor_def rebuffer_def)
qed


theorem Encode_Feed_roundtrip_witness:
  "\<exists>d'. FeedAll (\<lambda>_. 0) ([] # map (\<lambda>b. [b]) (concat (SerializeFrames
       (rev (concat (map encoded [(1, [10, 20], False), (2, [30], True)])))))) (Decoder_ctor 30000) = Ok d' \<and>
     mset (d_completed_messages d') =
       mset (map job_msg [(1, [10, 20], False), (2, [30], True)])"
proof -
  have c: "concat ([] # map (\<lambda>b. [b]) bs) = bs" for bs :: bytes by (induction bs) simp_all
  have ok: "\<forall>j \<in> set [(1, [10, 20], False), (2, [30], True)]. job_ok j"
    by (simp add: MAX_MESSAGE_SLICES_def slice_payload_def MAX_FRAME_PAYLOAD_def)
  show ?thesis
    using Encode_Feed_roundtrip [OF _ ok _ c, of "rev (concat (map encoded [(1, [10, 20], False), (2, [30], True)]))"
      "\<lambda>_. 0" 30000] by (auto simp del: encoded.simps)
qed

section \<open>Streams\<close>

text \<open>The calls of the stream encoder, and the event each one announces.\<close>

datatype stream_item = SStart u64 u64 | SChunk u64 u64 bytes | SEnd u64 u32

fun encode_item :: "stream_item \<Rightarrow> ProtocolError + Frame" where
  "encode_item (SStart sid sz) = EncodeStreamStart sid sz"
| "encode_item (SChunk sid off data) = EncodeStreamChunk sid off data"
| "encode_item (SEnd sid crc) = EncodeStreamEnd sid crc"

fun item_event :: "stream_item \<Rightarrow> StreamEvent" where
  "item_event (SStart sid sz) = (blank_event StreamStart)\<lparr>ev_stream_id := sid, ev_total_size := sz\<rparr>"
| "item_event (SChunk sid off data) =
     (blank_event StreamChunk)\<lparr>ev_stream_id := sid, ev_offset := off, ev_data := data\<rparr>"
| "item_event (SEnd sid crc) = (blank_event StreamEnd)\<lparr>ev_stream_id := sid, ev_crc32 := crc\<rparr>"

fun item_type :: "stream_item \<Rightarrow> FrameType" where
  "item_type (SStart sid sz) = StreamStart"
| "item_type (SChunk sid off data) = StreamChunk"
| "item_type (SEnd sid crc) = StreamEnd"

fun item_payload :: "stream_item \<Rightarrow> bytes" where
  "item_payload (SStart sid sz) = enc_StreamStart \<lparr> ss_stream_id = sid, ss_total_size = sz \<rparr>"
| "item_payload (SChunk sid off data) = enc_StreamChunk \<lparr> sc_stream_id = sid, sc_offset = off \<rparr> @ data"
| "item_payload (SEnd sid crc) = enc_StreamEnd \<lparr> se_stream_id = sid, se_crc32 = crc \<rparr>"

lemma encode_item_cases:
  "encode_item x = (if length (item_payload x) \<le> MAX_FRAME_PAYLOAD
     then Inr (framed (item_type x) (item_payload x) False)
     else Inl (ProtocolError ''stream chunk too large''))"
  by (cases x) (auto simp: EncodeStreamStart_def EncodeStreamChunk_def EncodeStreamEnd_def MakeFrame_Inr
      MAX_FRAME_PAYLOAD_def)

lemma handle_stream_item:
  "handle_stream (item_type x) (item_payload x) (length (item_payload x)) d =
     Next (push_event (item_event x) d)"
  by (cases x) simp_all

lemma encode_item_absorb:
  assumes "encode_item x = Inr f"
  shows "wire_ok f" and "absorb clk f d = Next (push_event (item_event x) (count_frame d))"
proof -
  have f: "f = framed (item_type x) (item_payload x) False" and l: "length (item_payload x) \<le> MAX_FRAME_PAYLOAD"
    using assms by (auto simp: encode_item_cases split: if_splits)
  show "wire_ok f" using l frame_ok_framed [OF l] by (simp add: wire_ok_def f payload_framed)
  have "FrameType_of_byte (byte_of_FrameType (item_type x)) = item_type x"
    by (rule FrameType_of_byte_of_FrameType) (cases x; simp)
  moreover have "item_type x \<noteq> Message" by (cases x) simp_all
  ultimately show "absorb clk f d = Next (push_event (item_event x) (count_frame d))"
    using check_crc_framed [OF l, of "item_type x" False]
    by (simp add: f absorb_def handle_frame_def hdr_type_framed payload_framed handle_stream_item)
qed

lemma absorb_items:
  assumes "traverse encode_item xs = Inr fs"
  shows "(\<forall>f \<in> set fs. wire_ok f) \<and> (\<exists>d'. absorb_all clk fs d = Some d' \<and>
    d_stream_events d' = d_stream_events d @ map item_event xs \<and>
    d_completed_messages d' = d_completed_messages d \<and> d_messages d' = d_messages d)"
  using assms
proof (induction xs arbitrary: fs d)
  case (Cons x xs)
  then obtain f gs where f: "encode_item x = Inr f" "traverse encode_item xs = Inr gs" "fs = f # gs"
    by (auto split: sum.splits)
  from Cons.IH [OF f(2), of "push_event (item_event x) (count_frame d)"] show ?case
    using encode_item_absorb(1) [OF f(1)] encode_item_absorb(2) [OF f(1), of clk d] f(3)
    by (auto simp: push_event_def)
qed simp

text \<open>C11: a sequence of stream starts, chunks and ends that the encoder accepts, fed to a decoder
  with an empty buffer in any cutting, is delivered as the same sequence of stream events, in order,
  after those already queued; messages are not affected.\<close>

theorem Stream_Feed_roundtrip:
  assumes "traverse encode_item items = Inr fs" and "d_buffer d = []"
    and "concat xss = concat (SerializeFrames fs)" and "xss \<noteq> []"
  shows "\<exists>d'. FeedAll clk xss d = Ok d' \<and> d_buffer d' = [] \<and>
    d_stream_events d' = d_stream_events d @ map item_event items \<and>
    d_completed_messages d' = d_completed_messages d \<and> d_messages d' = d_messages d"
proof -
  obtain d' where "\<forall>f \<in> set fs. wire_ok f" and "absorb_all clk fs d = Some d'"
    "d_stream_events d' = d_stream_events d @ map item_event items"
    "d_completed_messages d' = d_completed_messages d" "d_messages d' = d_messages d"
    using absorb_items [OF assms(1), of clk d] by blast
  then show ?thesis
    using FeedAll_wire [of d fs clk d' xss] assms(2-4)
    by (simp add: SerializeFrames_wire rebuffer_def)
qed

theorem Stream_Feed_roundtrip_witness:
  "\<exists>fs d'. traverse encode_item [SStart 1 2, SChunk 1 0 [7, 8], SEnd 1 9] = Inr fs \<and>
     FeedAll (\<lambda>_. 0) [concat (SerializeFrames fs)] (Decoder_ctor 30000) = Ok d' \<and>
     d_stream_events d' = map item_event [SStart 1 2, SChunk 1 0 [7, 8], SEnd 1 9]"
proof -
  have "\<exists>fs. traverse encode_item [SStart 1 2, SChunk 1 0 [7, 8], SEnd 1 9] = Inr fs"
    by (simp add: encode_item_cases MAX_FRAME_PAYLOAD_def del: encode_item.simps)
  then obtain fs where fs: "traverse encode_item [SStart 1 2, SChunk 1 0 [7, 8], SEnd 1 9] = Inr fs" ..
  from Stream_Feed_roundtrip [OF this, of "Decoder_ctor 30000" "[concat (SerializeFrames fs)]" "\<lambda>_. 0"] fs
  show ?thesis by (auto simp: Decoder_ctor_def simp del: traverse.simps)
qed

section \<open>Faulty frames\<close>

lemma absorb_crc_mismatch:
  assumes "length data + 4 \<le> MAX_FRAME_PAYLOAD" and "length bad = length data"
    and "CalculateCRC32 bad \<noteq> CalculateCRC32 data"
  shows "absorb clk ((framed ty data True)\<lparr>payload := bad @ to_le 4 (CalculateCRC32 data)\<rparr>) d =
    Next (upd_stats (\<lambda>s. s\<lparr>crc_errors := crc_errors s + 1\<rparr>) (count_frame d))"
proof -
  have "length data + 4 < 2 ^ LENGTH(32)" using assms(1) by (simp add: MAX_FRAME_PAYLOAD_def)
  then have "unat (word_of_nat (length data + 4) :: u32) = length data + 4" by (rule unat_word_of_nat)
  then have "check_crc (header (framed ty data True)) (bad @ to_le 4 (CalculateCRC32 data)) = None"
    using assms(2,3) by (simp add: check_crc_def framed_def Let_def FLAG_CRC32_def)
  then show ?thesis by (simp add: absorb_def handle_frame_def)
qed

text \<open>C10: a frame with a CRC whose data was corrupted in up to four consecutive bytes is dropped
  whole: it is counted as a frame and as a CRC error and nothing else changes, so the frames behind
  it are decoded as if it had not been sent.\<close>

theorem Feed_skips_corrupted:
  assumes "length (pre @ good @ post) + 4 \<le> MAX_FRAME_PAYLOAD" and "length bad = length good"
    and "length good \<le> 4" and "bad \<noteq> good" and "d_buffer d = []"
  shows "Feed clk (Serialize ((framed ty (pre @ good @ post) True)\<lparr>payload :=
      (pre @ bad @ post) @ to_le 4 (CalculateCRC32 (pre @ good @ post))\<rparr>)) d =
    Ok (d\<lparr>d_stats := (d_stats d)\<lparr>frames_received := frames_received (d_stats d) + 1,
        crc_errors := crc_errors (d_stats d) + 1,
        bytes_received := bytes_received (d_stats d) + word_of_nat (20 + length (pre @ good @ post)),
        buffer_size := 0\<rparr>\<rparr>)"
proof -
  let ?data = "pre @ good @ post" and ?bad = "pre @ bad @ post"
  let ?f = "(framed ty ?data True)\<lparr>payload := ?bad @ to_le 4 (CalculateCRC32 ?data)\<rparr>"
  have "absorb_all clk [?f] d = Some (upd_stats (\<lambda>s. s\<lparr>crc_errors := crc_errors s + 1\<rparr>) (count_frame d))"
    using absorb_crc_mismatch [OF assms(1), of ?bad] CalculateCRC32_burst [OF assms(2-4)] assms(2) by simp
  moreover have "frame_ok (framed ty ?data True)" using assms(1) by (intro frame_ok_framed) simp
  then have "wire_ok ?f"
    using assms(1,2) by (simp add: wire_ok_def frame_ok_def payload_framed)
  ultimately show ?thesis
    using Feed_wire [of d "[?f]" clk] assms(2,5)
    by (simp add: wire_def rebuffer_def count_frame_def add.commute)
qed

theorem Feed_skips_corrupted_witness:
  "\<exists>d'. Feed (\<lambda>_. 0) (Serialize ((framed Message ([1] @ [2] @ [4]) True)\<lparr>payload :=
      ([1] @ [3] @ [4]) @ to_le 4 (CalculateCRC32 ([1] @ [2] @ [4]))\<rparr>)) (Decoder_ctor 30000) = Ok d' \<and>
     crc_errors (d_stats d') = 1 \<and> d_completed_messages d' = []"
proof -
  have b: "length ([1] @ [2] @ [4 :: u8]) + 4 \<le> MAX_FRAME_PAYLOAD" by (simp add: MAX_FRAME_PAYLOAD_def)
  show ?thesis
    by (subst Feed_skips_corrupted [OF b]) (simp_all add: Decoder_ctor_def zero_stats_def)
qed

text \<open>C40: the number of slots of a message is taken from its first frame, but a later frame's slice
  number is only checked against the count in that frame: a well-formed frame that announces more
  slices for a pending message makes the decoder index the slice vector out of range.\<close>

theorem Feed_inconsistent_slices:
  assumes "map_of (d_messages d) (mh_message_id mh) = Some m" and "slices m \<noteq> []"
    and "length (slices m) \<le> unat (mh_sequence mh)" and "mh_sequence mh < mh_total_slices mh"
    and "d_buffer d = []" and "12 + length data \<le> MAX_FRAME_PAYLOAD"
  shows "Feed clk (Serialize (framed Message (enc_MessageHeader mh @ data) False)) d = UB"
proof -
  let ?p = "enc_MessageHeader mh @ data"
  let ?f = "framed Message ?p False" and ?d = "receive (Serialize (framed Message ?p False)) d"
  have ok: "wire_ok ?f" using assms(6) frame_ok_framed [of ?p] by (simp add: wire_ok_def payload_framed)
  have len: "unat (payload_len (header ?f)) = length ?p"
    using ok by (simp add: wire_ok_def frame_ok_def payload_framed)
  have buf: "d_buffer ?d = Serialize ?f" using assms(5) by simp
  have hd: "dec_FrameHeader (Serialize ?f) = header ?f" "drop 16 (Serialize ?f) = ?p"
    by (simp_all add: Serialize_eq payload_framed)
  have "handle_message clk ?p (length ?p) (count_frame (set_size n ?d)) = Undefined" for n
    using assms(1-4) by (simp add: handle_message_def open_assembly_def receive_def)
  moreover have "FrameType_of_byte (byte_of_FrameType Message) = Message"
    by (rule FrameType_of_byte_of_FrameType) simp
  ultimately have "handle_frame clk (header ?f) ?p (count_frame (set_size n ?d)) = Undefined" for n
    using check_crc_framed [of ?p Message False] assms(6)
    by (simp add: handle_frame_def hdr_type_framed payload_framed)
  then have "decode_round clk ?d = Undefined"
    using wire_ok_header [OF ok] len
    by (simp add: decode_round_cases Let_def buf hd payload_framed del: d_buffer_receive)
  then show ?thesis by (simp add: Feed_def TryDecode.simps [of clk ?d])
qed


theorem Feed_inconsistent_slices_witness:
  "\<exists>d1. Feed (\<lambda>_. 0) (Serialize (framed Message (enc_MessageHeader \<lparr> mh_message_id = 5,
       mh_total_slices = 2, mh_sequence = 0 \<rparr> @ [1]) False)) (Decoder_ctor 30000) = Ok d1 \<and>
     Feed (\<lambda>_. 0) (Serialize (framed Message (enc_MessageHeader \<lparr> mh_message_id = 5,
       mh_total_slices = 9, mh_sequence = 7 \<rparr> @ [1]) False)) d1 = UB"
proof -
  let ?mh = "\<lparr> mh_message_id = 5, mh_total_slices = 2, mh_sequence = 0 \<rparr>"
  let ?f = "framed Message (enc_MessageHeader ?mh @ [1]) False" and ?d = "Decoder_ctor 30000"
  let ?m = "\<lparr> asm_total = 2, slices = [[1], []], received = 1, first_seen = 0 \<rparr>"
  have o: "open_assembly (\<lambda>_. 0) ?mh (count_frame ?d) =
      \<lparr> asm_total = 2, slices = [[], []], received = 0, first_seen = 0 \<rparr>"
    using replicate_Suc [of "Suc 0" "[] :: u8 list"]
    by (simp add: open_assembly_def empty_assembly_def Decoder_ctor_def flip: numeral_2_eq_2)
  have "absorb (\<lambda>_. 0) ?f ?d = Next (finish_slice 5 ?m (count_frame ?d))"
    using absorb_message [of "[1]" ?mh "\<lambda>_. 0" ?d False]
    by (simp add: o store_slice_def MAX_FRAME_PAYLOAD_def)
  moreover have "wire_ok ?f"
    using frame_ok_framed [of "enc_MessageHeader ?mh @ [1]" Message False]
    by (simp add: wire_ok_def payload_framed MAX_FRAME_PAYLOAD_def)
  ultimately obtain d1 where "Feed (\<lambda>_. 0) (Serialize ?f) ?d = Ok d1"
    and "d1 = rebuffer [] 29 0 (finish_slice 5 ?m (count_frame ?d))"
    using Feed_wire [of ?d "[?f]" "\<lambda>_. 0"]
    by (simp add: wire_def payload_framed Decoder_ctor_def zero_stats_def)
  moreover from this(2) have "map_of (d_messages d1) 5 = Some ?m" "d_buffer d1 = []"
    by (simp_all add: rebuffer_def finish_slice_def Decoder_ctor_def)
  then have "Feed (\<lambda>_. 0) (Serialize (framed Message (enc_MessageHeader \<lparr> mh_message_id = 5,
       mh_total_slices = 9, mh_sequence = 7 \<rparr> @ [1]) False)) d1 = UB"
    by (intro Feed_inconsistent_slices [where m = ?m]) (simp_all add: MAX_FRAME_PAYLOAD_def)
  ultimately show ?thesis by blast
qed

end
