(* ===== verification/ConnectionId.thy ===== *)
theory ConnectionId
  imports Prelude "HOL-Library.Signed_Division"
begin

unbundle bit_operations_syntax

text \<open>
  \<^verbatim>\<open>src/darwincore/network/connection_id_generator.cpp\<close>: the 64-bit connection identifier packs the
  date (24 bits), the reactor (8), the file descriptor (16) and a sequence number (16). The broken-down
  local time that \<open>localtime_r\<close> delivers is an argument.
\<close>

record tm =
  tm_year :: int
  tm_mon :: int
  tm_mday :: int

definition GetCurrentDate :: "tm \<Rightarrow> u32" where
  "GetCurrentDate t = word_of_int ((tm_year t smod 100) * 10000 + (tm_mon t + 1) * 100 + tm_mday t)"

definition Generate :: "tm \<Rightarrow> u8 \<Rightarrow> u16 \<Rightarrow> u16 \<Rightarrow> u64" where
  "Generate now reactorId fd seq =
     (let dateShort = GetCurrentDate now
      in push_bit 40 (ucast (dateShort AND 0xFFFFFF)) OR
         push_bit 32 (ucast (reactorId AND 0xFF)) OR
         push_bit 16 (ucast (fd AND 0xFFFF)) OR
         ucast (seq AND 0xFFFF))"

definition GetDate :: "u64 \<Rightarrow> u32" where
  "GetDate connId = ucast (drop_bit 40 connId AND 0xFFFFFF)"

definition GetReactorId :: "u64 \<Rightarrow> u8" where
  "GetReactorId connId = ucast (drop_bit 32 connId AND 0xFF)"

definition GetFd :: "u64 \<Rightarrow> u16" where
  "GetFd connId = ucast (drop_bit 16 connId AND 0xFFFF)"

definition GetSeq :: "u64 \<Rightarrow> u16" where
  "GetSeq connId = ucast (connId AND 0xFFFF)"

definition Parse :: "u64 \<Rightarrow> u32 \<times> u8 \<times> u16 \<times> u16" where
  "Parse connId =
     (ucast (drop_bit 40 connId AND 0xFFFFFF), ucast (drop_bit 32 connId AND 0xFF),
      ucast (drop_bit 16 connId AND 0xFFFF), ucast (connId AND 0xFFFF))"

section \<open>Fields\<close>

lemma mask_forms:
  "(0xFF :: 'a::len word) = mask 8" "(0xFFFF :: 'a::len word) = mask 16"
  "(0xFFFFFF :: 'a::len word) = mask 24"
  by (simp_all add: mask_eq_exp_minus_1)

lemma Generate_fields:
  "GetDate (Generate now r fd seq) = take_bit 24 (GetCurrentDate now)"
  "GetReactorId (Generate now r fd seq) = r"
  "GetFd (Generate now r fd seq) = fd"
  "GetSeq (Generate now r fd seq) = seq"
  unfolding GetDate_def GetReactorId_def GetFd_def GetSeq_def Generate_def Let_def mask_forms
  by (rule bit_word_eqI; auto simp: bit_simps dest: bit_imp_le_length)+

lemma Parse_eq: "Parse c = (GetDate c, GetReactorId c, GetFd c, GetSeq c)"
  by (simp add: Parse_def GetDate_def GetReactorId_def GetFd_def GetSeq_def)

text \<open>What \<open>localtime_r\<close> documents of its result.\<close>

definition tm_ok :: "tm \<Rightarrow> bool" where
  "tm_ok t \<longleftrightarrow> 0 \<le> tm_year t \<and> 0 \<le> tm_mon t \<and> tm_mon t \<le> 11 \<and> 1 \<le> tm_mday t \<and> tm_mday t \<le> 31"

lemma GetCurrentDate_value:
  assumes "tm_ok t"
  shows "uint (GetCurrentDate t) = (tm_year t mod 100) * 10000 + (tm_mon t + 1) * 100 + tm_mday t"
    and "0 < uint (GetCurrentDate t)" and "uint (GetCurrentDate t) < 2 ^ 24"
proof -
  let ?y = "tm_year t mod 100"
  let ?v = "?y * 10000 + (tm_mon t + 1) * 100 + tm_mday t"
  have y: "0 \<le> ?y" "?y \<le> 99" using pos_mod_bound [of 100 "tm_year t"] by simp_all
  have smod: "tm_year t smod 100 = ?y"
    using assms by (simp add: tm_ok_def signed_modulo_int_def sgn_if)
  from assms have "0 \<le> tm_mon t" "tm_mon t \<le> 11" "1 \<le> tm_mday t" "tm_mday t \<le> 31"
    by (simp_all add: tm_ok_def)
  moreover have "0 < a * 10000 + (b + 1) * 100 + c \<and> a * 10000 + (b + 1) * 100 + c < 16777216"
    if "0 \<le> a" "a \<le> 99" "0 \<le> b" "b \<le> 11" "1 \<le> c" "c \<le> 31" for a b c :: int
    using that by simp
  ultimately have "0 < ?v \<and> ?v < 16777216" using y by blast
  then have b: "0 < ?v" "?v < 2 ^ 24" by simp_all
  show *: "uint (GetCurrentDate t) = ?v"
    using b by (simp only: GetCurrentDate_def smod uint_word_of_int) simp
  show "0 < uint (GetCurrentDate t)" "uint (GetCurrentDate t) < 2 ^ 24"
    using b by (simp_all only: *)
qed

lemma GetDate_Generate:
  assumes "tm_ok now"
  shows "GetDate (Generate now r fd seq) = GetCurrentDate now"
proof -
  have "take_bit 24 (uint (GetCurrentDate now)) = uint (GetCurrentDate now)"
    using GetCurrentDate_value(2,3) [OF assms] by (simp add: take_bit_eq_mod)
  then have "take_bit 24 (GetCurrentDate now) = GetCurrentDate now"
    by (simp add: word_uint_eq_iff unsigned_take_bit_eq)
  then show ?thesis by (simp add: Generate_fields)
qed

lemma Generate_nonzero:
  assumes "tm_ok now"
  shows "Generate now r fd seq \<noteq> 0"
proof
  assume "Generate now r fd seq = 0"
  then have "GetCurrentDate now = GetDate 0" using GetDate_Generate [OF assms] by metis
  then show False using GetCurrentDate_value(2) [OF assms] by (simp add: GetDate_def)
qed

section \<open>Properties\<close>

text \<open>\<open>Parse\<close> recovers every field that \<open>Generate\<close> packed, the decimal date YYMMDD included,
  and a generated identifier is never 0, the value the reactor uses for failure.\<close>

theorem Parse_Generate:
  assumes "tm_ok now"
  shows "Parse (Generate now r fd seq) = (GetCurrentDate now, r, fd, seq) \<and>
    uint (GetCurrentDate now) = (tm_year now mod 100) * 10000 + (tm_mon now + 1) * 100 + tm_mday now \<and>
    Generate now r fd seq \<noteq> 0"
  using GetDate_Generate [OF assms] Generate_nonzero [OF assms] GetCurrentDate_value(1) [OF assms]
  by (simp add: Parse_eq Generate_fields)

theorem Parse_Generate_witness:
  "Parse (Generate \<lparr> tm_year = 126, tm_mon = 0, tm_mday = 15 \<rparr> 3 42 7) = (260115, 3, 42, 7)"
proof -
  have "GetCurrentDate \<lparr> tm_year = 126, tm_mon = 0, tm_mday = 15 \<rparr> = 260115"
    by (simp add: GetCurrentDate_def)
  then show ?thesis
    using Parse_Generate [of "\<lparr> tm_year = 126, tm_mon = 0, tm_mday = 15 \<rparr>" 3 42 7]
    by (simp add: tm_ok_def)
qed

end
