(* ===== verification/CircularBuffer.thy ===== *)
theory CircularBuffer
  imports Prelude
begin

text \<open>
  The class template \<open>CircularBuffer\<close> of \<^verbatim>\<open>include/darwincore/foundation/container/CircularBuffer.h\<close>:
  a ring of fixed capacity that overwrites its oldest element when it is full. The value of a
  default-constructed element is an argument of the constructor. Exceptions are the left side of a
  sum; an operation on a moved-from buffer, whose capacity is 0, divides by zero: None.
\<close>

section \<open>State and operations\<close>

datatype cb_error = invalid_argument | out_of_range

record 'a CircularBuffer =
  cb_buffer :: "'a list"
  cb_capacity :: nat
  cb_head :: nat
  cb_tail :: nat
  cb_size :: nat

definition CircularBuffer_ctor :: "'a \<Rightarrow> nat \<Rightarrow> cb_error + 'a CircularBuffer" where
  "CircularBuffer_ctor dflt capacity =
     (if capacity = 0 then Inl invalid_argument
      else Inr \<lparr> cb_buffer = replicate capacity dflt, cb_capacity = capacity, cb_head = 0,
             cb_tail = 0, cb_size = 0 \<rparr>)"

text \<open>The new object and the one moved from.\<close>

definition CircularBuffer_move :: "'a CircularBuffer \<Rightarrow> 'a CircularBuffer \<times> 'a CircularBuffer" where
  "CircularBuffer_move other = (other, other\<lparr>cb_buffer := [], cb_capacity := 0, cb_head := 0,
     cb_tail := 0, cb_size := 0\<rparr>)"

definition cb_empty :: "'a CircularBuffer \<Rightarrow> bool" where
  "cb_empty b \<longleftrightarrow> cb_size b = 0"

definition cb_full :: "'a CircularBuffer \<Rightarrow> bool" where
  "cb_full b \<longleftrightarrow> cb_size b = cb_capacity b"

definition cb_available :: "'a CircularBuffer \<Rightarrow> nat" where
  "cb_available b = cb_capacity b - cb_size b"

definition cb_push :: "'a \<Rightarrow> 'a CircularBuffer \<Rightarrow> (bool \<times> 'a CircularBuffer) option" where
  "cb_push v b =
     (if cb_capacity b = 0 then None
      else let overwritten = cb_full b;
               b = (if overwritten then b\<lparr>cb_head := (cb_head b + 1) mod cb_capacity b\<rparr>
                    else b\<lparr>cb_size := cb_size b + 1\<rparr>);
               b = b\<lparr>cb_buffer := (cb_buffer b)[cb_tail b := v]\<rparr>
      in Some (\<not> overwritten, b\<lparr>cb_tail := (cb_tail b + 1) mod cb_capacity b\<rparr>))"

definition cb_pop :: "'a CircularBuffer \<Rightarrow> 'a option \<times> 'a CircularBuffer" where
  "cb_pop b =
     (if cb_empty b then (None, b)
      else (Some (cb_buffer b ! cb_head b),
            b\<lparr>cb_head := (cb_head b + 1) mod cb_capacity b, cb_size := cb_size b - 1\<rparr>))"

definition cb_front :: "'a CircularBuffer \<Rightarrow> 'a option" where
  "cb_front b = (if cb_empty b then None else Some (cb_buffer b ! cb_head b))"

definition cb_back :: "'a CircularBuffer \<Rightarrow> 'a option" where
  "cb_back b =
     (if cb_empty b then None
      else Some (cb_buffer b ! ((cb_tail b + cb_capacity b - 1) mod cb_capacity b)))"

definition cb_at :: "nat \<Rightarrow> 'a CircularBuffer \<Rightarrow> cb_error + 'a" where
  "cb_at index b =
     (if index \<ge> cb_size b then Inl out_of_range
      else Inr (cb_buffer b ! ((cb_head b + index) mod cb_capacity b)))"

definition cb_index :: "nat \<Rightarrow> 'a CircularBuffer \<Rightarrow> 'a option" where
  "cb_index index b =
     (if cb_capacity b = 0 then None else Some (cb_buffer b ! ((cb_head b + index) mod cb_capacity b)))"

definition cb_clear :: "'a CircularBuffer \<Rightarrow> 'a CircularBuffer" where
  "cb_clear b = b\<lparr>cb_head := 0, cb_tail := 0, cb_size := 0\<rparr>"

text \<open>An iterator is a position and a count; two iterators are equal when their counts are. The loop
  from \<open>begin\<close> to \<open>end\<close> makes \<open>size\<close> steps.\<close>

type_synonym cb_iterator = "nat \<times> nat"

definition cb_begin :: "'a CircularBuffer \<Rightarrow> cb_iterator" where
  "cb_begin b = (cb_head b, 0)"

definition cb_end :: "'a CircularBuffer \<Rightarrow> cb_iterator" where
  "cb_end b = (cb_tail b, cb_size b)"

definition cb_next :: "'a CircularBuffer \<Rightarrow> cb_iterator \<Rightarrow> cb_iterator" where
  "cb_next b it = ((fst it + 1) mod cb_capacity b, snd it + 1)"

definition cb_deref :: "'a CircularBuffer \<Rightarrow> cb_iterator \<Rightarrow> 'a" where
  "cb_deref b it = cb_buffer b ! fst it"

fun cb_walk :: "'a CircularBuffer \<Rightarrow> nat \<Rightarrow> cb_iterator \<Rightarrow> 'a list" where
  "cb_walk b 0 it = []"
| "cb_walk b (Suc n) it =
     (if snd it = snd (cb_end b) then [] else cb_deref b it # cb_walk b n (cb_next b it))"

section \<open>The ring as a list\<close>

definition cb_invar :: "'a CircularBuffer \<Rightarrow> bool" where
  "cb_invar b \<longleftrightarrow> 0 < cb_capacity b \<and> length (cb_buffer b) = cb_capacity b \<and>
     cb_head b < cb_capacity b \<and> cb_size b \<le> cb_capacity b \<and>
     cb_tail b = (cb_head b + cb_size b) mod cb_capacity b"

text \<open>Oldest element first.\<close>

definition cb_contents :: "'a CircularBuffer \<Rightarrow> 'a list" where
  "cb_contents b = map (\<lambda>i. cb_buffer b ! ((cb_head b + i) mod cb_capacity b)) [0..<cb_size b]"

lemma length_cb_contents [simp]: "length (cb_contents b) = cb_size b"
  by (simp add: cb_contents_def)

lemma ring_index_inj:
  assumes "h < c" and "i < c" and "j < c" and "(h + i) mod c = (h + j) mod (c :: nat)"
  shows "i = j"
proof -
  have "(h + i) mod c = (if h + i < c then h + i else h + i - c)"
    "(h + j) mod c = (if h + j < c then h + j else h + j - c)"
    using assms(1-3) by (simp_all add: mod_if)
  with assms show ?thesis by (auto split: if_splits)
qed

lemma cb_push_contents:
  assumes "cb_invar b"
  shows "\<exists>b'. cb_push v b = Some (\<not> cb_full b, b') \<and> cb_invar b' \<and> cb_capacity b' = cb_capacity b \<and>
    cb_contents b' = (if cb_full b then tl (cb_contents b) @ [v] else cb_contents b @ [v])"
proof -
  let ?c = "cb_capacity b" and ?h = "cb_head b" and ?n = "cb_size b"
  have c: "0 < ?c" "length (cb_buffer b) = ?c" "?h < ?c" "?n \<le> ?c" "cb_tail b = (?h + ?n) mod ?c"
    using assms by (simp_all add: cb_invar_def)
  have upd: "(cb_buffer b)[(?h + ?n) mod ?c := v] ! ((?h + i) mod ?c) =
      (if i = ?n mod ?c then v else cb_buffer b ! ((?h + i) mod ?c))" if "i < ?c" for i
  proof -
    have "(?h + ?n) mod ?c = (?h + ?n mod ?c) mod ?c" by (simp add: mod_add_right_eq)
    then have "(?h + ?n) mod ?c = (?h + i) mod ?c \<longleftrightarrow> i = ?n mod ?c"
      using ring_index_inj [OF c(3) that, of "?n mod ?c"] c(1) by auto
    then show ?thesis using c(1,2) by (auto simp: nth_list_update)
  qed
  show ?thesis
  proof (cases "cb_full b")
    case False
    then have "?n < ?c" using c(4) by (simp add: cb_full_def)
    let ?b = "b\<lparr>cb_size := ?n + 1, cb_buffer := (cb_buffer b)[cb_tail b := v], cb_tail := (cb_tail b + 1) mod ?c\<rparr>"
    have "cb_invar ?b" using c \<open>?n < ?c\<close> by (simp add: cb_invar_def mod_Suc_eq add.assoc)
    moreover have "cb_contents ?b = cb_contents b @ [v]"
      using upd c(5) \<open>?n < ?c\<close> by (auto simp: cb_contents_def)
    moreover have "cb_push v b = Some (True, ?b)" using False c(1) by (simp add: cb_push_def)
    ultimately show ?thesis using False by simp
  next
    case True
    then have n: "?n = ?c" by (simp add: cb_full_def)
    let ?b = "b\<lparr>cb_head := (?h + 1) mod ?c, cb_buffer := (cb_buffer b)[cb_tail b := v], cb_tail := (cb_tail b + 1) mod ?c\<rparr>"
    have "cb_invar ?b" using c by (simp add: cb_invar_def n mod_simps)
    moreover have "cb_contents ?b = tl (cb_contents b) @ [v]"
    proof (rule nth_equalityI)
      show "length (cb_contents ?b) = length (tl (cb_contents b) @ [v])" using c(1) n by (simp add: cb_contents_def)
      fix i assume "i < length (cb_contents ?b)"
      then have i: "i < ?c" using n by (simp add: cb_contents_def)
      have idx: "(Suc ?h mod ?c + i) mod ?c = (?h + Suc i mod ?c) mod ?c" by (simp add: mod_simps)
      have "cb_contents ?b ! i = (if Suc i = ?c then v else cb_buffer b ! ((?h + Suc i) mod ?c))"
        using upd [of "Suc i mod ?c"] c(1,5) i n by (auto simp: cb_contents_def idx)
      then show "cb_contents ?b ! i = (tl (cb_contents b) @ [v]) ! i"
        using i n by (auto simp: nth_append nth_tl cb_contents_def)
    qed
    moreover have "cb_push v b = Some (False, ?b)" using True c(1) by (simp add: cb_push_def)
    ultimately show ?thesis using True by simp
  qed
qed

lemma cb_pop_contents:
  assumes "cb_invar b"
  shows "fst (cb_pop b) = (case cb_contents b of [] \<Rightarrow> None | x # xs \<Rightarrow> Some x)"
    and "cb_contents (snd (cb_pop b)) = tl (cb_contents b)" and "cb_invar (snd (cb_pop b))"
proof -
  let ?c = "cb_capacity b" and ?h = "cb_head b" and ?n = "cb_size b"
  have c: "0 < ?c" "length (cb_buffer b) = ?c" "?h < ?c" "?n \<le> ?c" "cb_tail b = (?h + ?n) mod ?c"
    using assms by (simp_all add: cb_invar_def)
  have "fst (cb_pop b) = (case cb_contents b of [] \<Rightarrow> None | x # xs \<Rightarrow> Some x) \<and>
    cb_contents (snd (cb_pop b)) = tl (cb_contents b) \<and> cb_invar (snd (cb_pop b))"
  proof (cases ?n)
    case 0
    with assms show ?thesis by (simp add: cb_pop_def cb_empty_def cb_contents_def)
  next
    case (Suc k)
    have idx: "(Suc ?h mod ?c + i) mod ?c = (?h + Suc i) mod ?c" for i by (simp add: mod_simps)
    have "cb_contents b = cb_buffer b ! ?h # map (\<lambda>i. cb_buffer b ! ((?h + Suc i) mod ?c)) [0..<k]"
      using c(3) Suc by (simp add: cb_contents_def map_Suc_upt [symmetric] upt_conv_Cons del: upt_Suc)
    moreover have "cb_invar (snd (cb_pop b))"
      using c Suc by (simp add: cb_pop_def cb_empty_def cb_invar_def mod_simps)
    ultimately show ?thesis
      using Suc by (simp add: cb_pop_def cb_empty_def) (simp add: cb_contents_def idx)
  qed
  then show "fst (cb_pop b) = (case cb_contents b of [] \<Rightarrow> None | x # xs \<Rightarrow> Some x)"
    "cb_contents (snd (cb_pop b)) = tl (cb_contents b)" "cb_invar (snd (cb_pop b))" by blast+
qed

lemma cb_at_contents: "cb_at i b = (if i < cb_size b then Inr (cb_contents b ! i) else Inl out_of_range)"
  by (simp add: cb_at_def cb_contents_def)

lemma cb_front_contents: "cb_invar b \<Longrightarrow> cb_front b = (if cb_contents b = [] then None else Some (hd (cb_contents b)))"
  by (auto simp: cb_front_def cb_empty_def cb_contents_def cb_invar_def hd_map upt_rec)

lemma cb_back_contents:
  assumes "cb_invar b"
  shows "cb_back b = (if cb_contents b = [] then None else Some (last (cb_contents b)))"
proof (cases "cb_size b")
  case 0
  then show ?thesis by (simp add: cb_back_def cb_empty_def cb_contents_def)
next
  case (Suc k)
  let ?c = "cb_capacity b"
  have "(cb_tail b + ?c - 1) mod ?c = (cb_head b + k) mod ?c"
  proof -
    have "0 < ?c" "cb_tail b = (cb_head b + Suc k) mod ?c" using assms Suc by (simp_all add: cb_invar_def)
    then have "(cb_tail b + ?c - 1) mod ?c = ((cb_head b + Suc k) mod ?c + (?c - 1)) mod ?c" by simp
    also have "\<dots> = (cb_head b + Suc k + (?c - 1)) mod ?c" by (rule mod_add_left_eq)
    also have "cb_head b + Suc k + (?c - 1) = cb_head b + k + ?c" using \<open>0 < ?c\<close> by simp
    finally show ?thesis by simp
  qed
  then show ?thesis using Suc by (simp add: cb_back_def cb_empty_def cb_contents_def)
qed

lemma cb_walk_contents:
  assumes "cb_invar b"
  shows "k \<le> cb_size b \<Longrightarrow> cb_size b - k \<le> n \<Longrightarrow>
    cb_walk b n ((cb_head b + k) mod cb_capacity b, k) = drop k (cb_contents b)"
proof (induction n arbitrary: k)
  case (Suc n)
  show ?case
  proof (cases "k = cb_size b")
    case False
    then have k: "k < cb_size b" using Suc.prems by simp
    have "cb_next b ((cb_head b + k) mod cb_capacity b, k) = ((cb_head b + Suc k) mod cb_capacity b, Suc k)"
      by (simp add: cb_next_def mod_simps)
    with k Suc.IH [of "Suc k"] Suc.prems False show ?thesis
      by (simp add: cb_end_def cb_deref_def drop_eq_nth_tl) (simp add: cb_contents_def)
  qed (simp add: cb_end_def)
qed simp

text \<open>Pushing a sequence.\<close>

fun cb_push_all :: "'a list \<Rightarrow> 'a CircularBuffer \<Rightarrow> 'a CircularBuffer option" where
  "cb_push_all [] b = Some b"
| "cb_push_all (x # xs) b = (case cb_push x b of None \<Rightarrow> None | Some (ok, b') \<Rightarrow> cb_push_all xs b')"

lemma drop_drop_append: "j \<le> length xs \<Longrightarrow> drop k (drop j xs @ ys) = drop (k + j) (xs @ ys)"
proof -
  assume "j \<le> length xs"
  then have "drop j xs @ ys = drop j (xs @ ys)" by simp
  then show ?thesis by (simp only: drop_drop)
qed

lemma cb_push_all_contents:
  "cb_invar b \<Longrightarrow> \<exists>b'. cb_push_all xs b = Some b' \<and> cb_invar b' \<and> cb_capacity b' = cb_capacity b \<and>
     cb_contents b' = drop (cb_size b + length xs - cb_capacity b) (cb_contents b @ xs)"
proof (induction xs arbitrary: b)
  case Nil
  then show ?case by (simp add: cb_invar_def)
next
  case (Cons x xs)
  obtain b1 where b1: "cb_push x b = Some (\<not> cb_full b, b1)" "cb_invar b1" "cb_capacity b1 = cb_capacity b"
    and c: "cb_contents b1 = (if cb_full b then tl (cb_contents b) @ [x] else cb_contents b @ [x])"
    using cb_push_contents [OF Cons.prems, of x] by blast
  obtain b' where b': "cb_push_all xs b1 = Some b'" "cb_invar b'" "cb_capacity b' = cb_capacity b1"
    and c': "cb_contents b' = drop (cb_size b1 + length xs - cb_capacity b1) (cb_contents b1 @ xs)"
    using Cons.IH [OF b1(2)] by blast
  have n: "cb_size b \<le> cb_capacity b" "0 < cb_capacity b" using Cons.prems by (simp_all add: cb_invar_def)
  have len: "length (cb_contents b) = cb_size b" by simp
  define j where "j = Suc (cb_size b) - cb_capacity b"
  have j: "j \<le> length (cb_contents b @ [x])" "j \<le> length (cb_contents b)"
    using n len by (auto simp: j_def)
  have "cb_contents b1 = drop j (cb_contents b @ [x])"
    using c len n by (cases "cb_contents b") (auto simp: cb_full_def j_def)
  moreover from this have "length (cb_contents b1) = Suc (cb_size b) - j" using len by simp
  then have "cb_size b1 = Suc (cb_size b) - j" by simp
  then have "cb_size b1 + length xs - cb_capacity b + j = cb_size b + length (x # xs) - cb_capacity b"
    using n by (auto simp: j_def)
  ultimately have "cb_contents b' = drop (cb_size b + length (x # xs) - cb_capacity b) (cb_contents b @ x # xs)"
    using c' b1(3) drop_drop_append [OF j(1), of "cb_size b1 + length xs - cb_capacity b" xs] by simp
  with b1 b' show ?case by simp
qed

section \<open>Properties\<close>

text \<open>a circular buffer of capacity n holds, after any sequence of pushes, the last n values
  pushed, oldest first; that is what \<open>at\<close>, \<open>front\<close>, \<open>back\<close> and a walk from \<open>begin\<close> to \<open>end\<close>
  deliver, and \<open>at\<close> throws beyond it.\<close>

theorem CircularBuffer_window:
  assumes "CircularBuffer_ctor d n = Inr b"
  shows "\<exists>b'. cb_push_all xs b = Some b' \<and> cb_contents b' = drop (length xs - n) xs \<and>
    cb_walk b' (cb_size b') (cb_begin b') = cb_contents b' \<and>
    cb_at i b' = (if i < cb_size b' then Inr (cb_contents b' ! i) else Inl out_of_range) \<and>
    cb_front b' = (if cb_contents b' = [] then None else Some (hd (cb_contents b'))) \<and>
    cb_back b' = (if cb_contents b' = [] then None else Some (last (cb_contents b')))"
proof -
  have b: "cb_invar b" "cb_contents b = []" "cb_capacity b = n" "cb_size b = 0"
    using assms by (auto simp: CircularBuffer_ctor_def cb_invar_def cb_contents_def split: if_splits)
  obtain b' where b': "cb_push_all xs b = Some b'" "cb_invar b'"
    "cb_contents b' = drop (length xs - n) xs"
    using cb_push_all_contents [OF b(1), of xs] b(2-4) by auto
  have "cb_walk b' (cb_size b') (cb_begin b') = cb_contents b'"
    using cb_walk_contents [OF b'(2), of 0 "cb_size b'"] b'(2) by (simp add: cb_begin_def cb_invar_def)
  with b' show ?thesis
    by (simp add: cb_at_contents cb_front_contents cb_back_contents)
qed

theorem CircularBuffer_window_witness:
  "\<exists>b b'. CircularBuffer_ctor 0 2 = Inr b \<and> cb_push_all [1, 2, 3 :: nat] b = Some b' \<and> cb_contents b' = [2, 3]"
proof -
  have "\<exists>b. CircularBuffer_ctor (0 :: nat) 2 = Inr b" by (simp add: CircularBuffer_ctor_def)
  then obtain b where b: "CircularBuffer_ctor (0 :: nat) 2 = Inr b" ..
  from CircularBuffer_window [OF b, of "[1, 2, 3]" 0] b show ?thesis by auto
qed

text \<open>\<open>pop\<close> takes the oldest value and leaves the others; a push reports whether it kept the
  oldest one, and on a buffer that was moved from it divides by zero.\<close>

theorem CircularBuffer_push_pop:
  assumes "cb_invar b"
  shows "fst (cb_pop b) = (case cb_contents b of [] \<Rightarrow> None | x # xs \<Rightarrow> Some x) \<and>
    cb_contents (snd (cb_pop b)) = tl (cb_contents b) \<and> cb_invar (snd (cb_pop b)) \<and>
    map_option fst (cb_push v b) = Some (cb_size b < cb_capacity b) \<and>
    cb_push v (snd (CircularBuffer_move b)) = None"
proof -
  have "(\<not> cb_full b) = (cb_size b < cb_capacity b)" using assms by (auto simp: cb_full_def cb_invar_def)
  then show ?thesis
    using cb_pop_contents [OF assms] cb_push_contents [OF assms, of v]
    by (auto simp: CircularBuffer_move_def cb_push_def)
qed

theorem CircularBuffer_push_pop_witness:
  "fst (cb_pop \<lparr> cb_buffer = [7, 8 :: nat], cb_capacity = 2, cb_head = 1, cb_tail = 1, cb_size = 2 \<rparr>) = Some 8"
proof -
  define b where "b = \<lparr> cb_buffer = [7, 8 :: nat], cb_capacity = 2, cb_head = 1, cb_tail = 1, cb_size = 2 \<rparr>"
  have inv: "cb_invar b" by (simp add: b_def cb_invar_def)
  have "cb_contents b = [8, 7]" by (simp add: b_def cb_contents_def upt_rec)
  with CircularBuffer_push_pop [OF inv, of 0] show ?thesis by (simp add: b_def)
qed

end
