(* ===== verification/LRUCache.thy ===== *)
theory LRUCache
  imports Prelude
begin

text \<open>
  The class templates \<open>LRUCache\<close> and \<open>ThreadSafeLRUCache\<close> of
  \<^verbatim>\<open>include/darwincore/foundation/container/LRUCache.h\<close>. The doubly linked list is a list of nodes,
  each with its address; the hash map takes a key to the address of its node (the iterator). \<open>splice\<close>
  and \<open>erase\<close> through an iterator to no node of the list are undefined behaviour: None. The calls of
  the eviction callback are recorded in order.
\<close>

section \<open>State and operations\<close>

datatype lru_error = lru_invalid_argument | lru_out_of_range

record ('k, 'v) LRUCache =
  lru_capacity :: nat
  lru_list :: "(nat \<times> 'k \<times> 'v) list"
  lru_map :: "('k \<times> nat) list"
  lru_callback :: bool
  lru_heap :: nat
  lru_evicted :: "('k \<times> 'v) list"

text \<open>Operations of \<open>std::list\<close> and \<open>std::unordered_map\<close>.\<close>

definition list_splice :: "nat \<Rightarrow> (nat \<times> 'n) list \<Rightarrow> (nat \<times> 'n) list option" where
  "list_splice it xs =
     (case map_of xs it of None \<Rightarrow> None | Some n \<Rightarrow> Some ((it, n) # filter (\<lambda>e. fst e \<noteq> it) xs))"

definition list_erase :: "nat \<Rightarrow> (nat \<times> 'n) list \<Rightarrow> (nat \<times> 'n) list option" where
  "list_erase it xs =
     (case map_of xs it of None \<Rightarrow> None | Some n \<Rightarrow> Some (filter (\<lambda>e. fst e \<noteq> it) xs))"

definition map_erase :: "'k \<Rightarrow> ('k \<times> 'x) list \<Rightarrow> ('k \<times> 'x) list" where
  "map_erase k m = filter (\<lambda>e. fst e \<noteq> k) m"

definition map_assign :: "'k \<Rightarrow> 'x \<Rightarrow> ('k \<times> 'x) list \<Rightarrow> ('k \<times> 'x) list" where
  "map_assign k x m = (k, x) # map_erase k m"

definition LRUCache_ctor :: "nat \<Rightarrow> lru_error + ('k, 'v) LRUCache" where
  "LRUCache_ctor capacity =
     (if capacity = 0 then Inl lru_invalid_argument
      else Inr \<lparr> lru_capacity = capacity, lru_list = [], lru_map = [], lru_callback = False,
             lru_heap = 0, lru_evicted = [] \<rparr>)"

text \<open>The new object and the one moved from.\<close>

definition LRUCache_move :: "('k, 'v) LRUCache \<Rightarrow> ('k, 'v) LRUCache \<times> ('k, 'v) LRUCache" where
  "LRUCache_move other = (other, other\<lparr>lru_capacity := 0, lru_list := [], lru_map := [], lru_callback := False\<rparr>)"

definition setEvictionCallback :: "bool \<Rightarrow> ('k, 'v) LRUCache \<Rightarrow> ('k, 'v) LRUCache" where
  "setEvictionCallback callback c = c\<lparr>lru_callback := callback\<rparr>"

definition lru_get :: "'k \<Rightarrow> ('k, 'v) LRUCache \<Rightarrow> ('v option \<times> ('k, 'v) LRUCache) option" where
  "lru_get key c =
     (case map_of (lru_map c) key of
        None \<Rightarrow> Some (None, c)
      | Some it \<Rightarrow>
          (case list_splice it (lru_list c) of
             None \<Rightarrow> None
           | Some xs \<Rightarrow>
               (case map_of xs it of None \<Rightarrow> None | Some (k, v) \<Rightarrow> Some (Some v, c\<lparr>lru_list := xs\<rparr>))))"

definition lru_at :: "'k \<Rightarrow> ('k, 'v) LRUCache \<Rightarrow> ((lru_error + 'v) \<times> ('k, 'v) LRUCache) option" where
  "lru_at key c =
     (case map_of (lru_map c) key of
        None \<Rightarrow> Some (Inl lru_out_of_range, c)
      | Some it \<Rightarrow>
          (case list_splice it (lru_list c) of
             None \<Rightarrow> None
           | Some xs \<Rightarrow>
               (case map_of xs it of None \<Rightarrow> None | Some (k, v) \<Rightarrow> Some (Inr v, c\<lparr>lru_list := xs\<rparr>))))"

definition lru_at_const :: "'k \<Rightarrow> ('k, 'v) LRUCache \<Rightarrow> (lru_error + 'v) option" where
  "lru_at_const key c =
     (case map_of (lru_map c) key of
        None \<Rightarrow> Some (Inl lru_out_of_range)
      | Some it \<Rightarrow> (case map_of (lru_list c) it of None \<Rightarrow> None | Some (k, v) \<Rightarrow> Some (Inr v)))"

definition evict :: "('k, 'v) LRUCache \<Rightarrow> ('k, 'v) LRUCache" where
  "evict c =
     (if lru_list c = [] then c
      else let back = snd (last (lru_list c));
               c = (if lru_callback c then c\<lparr>lru_evicted := lru_evicted c @ [back]\<rparr> else c);
               c = c\<lparr>lru_map := map_erase (fst back) (lru_map c)\<rparr>
      in c\<lparr>lru_list := butlast (lru_list c)\<rparr>)"

definition emplace_front :: "'k \<Rightarrow> 'v \<Rightarrow> ('k, 'v) LRUCache \<Rightarrow> ('k, 'v) LRUCache" where
  "emplace_front key v c =
     (let c = c\<lparr>lru_list := (lru_heap c, key, v) # lru_list c, lru_heap := lru_heap c + 1\<rparr>
      in c\<lparr>lru_map := map_assign key (fst (hd (lru_list c))) (lru_map c)\<rparr>)"

definition lru_put :: "'k \<Rightarrow> 'v \<Rightarrow> ('k, 'v) LRUCache \<Rightarrow> ('k, 'v) LRUCache option" where
  "lru_put key v c =
     (case map_of (lru_map c) key of
        Some it \<Rightarrow>
          (let xs = map (\<lambda>(i, k, w). if i = it then (i, k, v) else (i, k, w)) (lru_list c)
           in case list_splice it xs of None \<Rightarrow> None | Some xs \<Rightarrow> Some (c\<lparr>lru_list := xs\<rparr>))
      | None \<Rightarrow>
          (let c = (if length (lru_map c) \<ge> lru_capacity c then evict c else c)
           in Some (emplace_front key v c)))"

definition lru_contains :: "'k \<Rightarrow> ('k, 'v) LRUCache \<Rightarrow> bool" where
  "lru_contains key c \<longleftrightarrow> map_of (lru_map c) key \<noteq> None"

definition lru_erase :: "'k \<Rightarrow> ('k, 'v) LRUCache \<Rightarrow> (bool \<times> ('k, 'v) LRUCache) option" where
  "lru_erase key c =
     (case map_of (lru_map c) key of
        None \<Rightarrow> Some (False, c)
      | Some it \<Rightarrow>
          (case list_erase it (lru_list c) of
             None \<Rightarrow> None
           | Some xs \<Rightarrow> Some (True, c\<lparr>lru_list := xs, lru_map := map_erase key (lru_map c)\<rparr>)))"

definition lru_clear :: "('k, 'v) LRUCache \<Rightarrow> ('k, 'v) LRUCache" where
  "lru_clear c = c\<lparr>lru_list := [], lru_map := []\<rparr>"

definition lru_size :: "('k, 'v) LRUCache \<Rightarrow> nat" where
  "lru_size c = length (lru_map c)"

definition lru_empty :: "('k, 'v) LRUCache \<Rightarrow> bool" where
  "lru_empty c \<longleftrightarrow> lru_map c = []"

text \<open>The loop of \<open>resize\<close>; a map larger than its list would never get smaller, so it may not end.\<close>

partial_function (option) resize_loop :: "nat \<Rightarrow> ('k, 'v) LRUCache \<Rightarrow> ('k, 'v) LRUCache option" where
  "resize_loop newCapacity c =
     (if length (lru_map c) > newCapacity then resize_loop newCapacity (evict c) else Some c)"

definition lru_resize :: "nat \<Rightarrow> ('k, 'v) LRUCache \<Rightarrow> ((lru_error + unit) \<times> ('k, 'v) LRUCache) option" where
  "lru_resize newCapacity c =
     (if newCapacity = 0 then Some (Inl lru_invalid_argument, c)
      else case resize_loop newCapacity c of
        None \<Rightarrow> None | Some c \<Rightarrow> Some (Inr (), c\<lparr>lru_capacity := newCapacity\<rparr>))"

definition lru_getOrInsert :: "'k \<Rightarrow> (unit \<Rightarrow> 'v) \<Rightarrow> ('k, 'v) LRUCache \<Rightarrow> ('v \<times> ('k, 'v) LRUCache) option" where
  "lru_getOrInsert key factory c =
     (case map_of (lru_map c) key of
        Some it \<Rightarrow>
          (case list_splice it (lru_list c) of
             None \<Rightarrow> None
           | Some xs \<Rightarrow>
               (case map_of xs it of None \<Rightarrow> None | Some (k, v) \<Rightarrow> Some (v, c\<lparr>lru_list := xs\<rparr>)))
      | None \<Rightarrow>
          (let c = (if length (lru_map c) \<ge> lru_capacity c then evict c else c);
               c = emplace_front key (factory ()) c
           in Some (snd (snd (hd (lru_list c))), c)))"

section \<open>Specification: a list in order of use\<close>

text \<open>
  The abstract cache is an association list, most recently used first, with the capacity, whether a
  callback is set, and the calls it received.
\<close>

record ('k, 'v) lru_state =
  sp_capacity :: nat
  sp_recency :: "('k \<times> 'v) list"
  sp_callback :: bool
  sp_evicted :: "('k \<times> 'v) list"

definition sp_touch :: "'k \<Rightarrow> 'v \<Rightarrow> ('k, 'v) lru_state \<Rightarrow> ('k, 'v) lru_state" where
  "sp_touch k v a = a\<lparr>sp_recency := (k, v) # map_erase k (sp_recency a)\<rparr>"

definition sp_evict :: "('k, 'v) lru_state \<Rightarrow> ('k, 'v) lru_state" where
  "sp_evict a = a\<lparr>sp_recency := butlast (sp_recency a),
     sp_evicted := sp_evicted a @ (if sp_callback a \<and> sp_recency a \<noteq> [] then [last (sp_recency a)] else [])\<rparr>"

definition sp_insert :: "'k \<Rightarrow> 'v \<Rightarrow> ('k, 'v) lru_state \<Rightarrow> ('k, 'v) lru_state" where
  "sp_insert k v a = sp_touch k v (if sp_capacity a \<le> length (sp_recency a) then sp_evict a else a)"

datatype ('k, 'v) lru_op = Get 'k | At 'k | Put 'k 'v | Contains 'k | Erase 'k | Clear | SizeOp
  | Resize nat | GetOrInsert 'k 'v | SetCallback bool

datatype 'v lru_out = Value "'v option" | Checked "lru_error + 'v" | Flag bool | Count nat
  | Resized "lru_error + unit" | Nothing

fun lru_exec :: "('k, 'v) lru_op \<Rightarrow> ('k, 'v) LRUCache \<Rightarrow> ('v lru_out \<times> ('k, 'v) LRUCache) option" where
  "lru_exec (Get k) c = map_option (apfst Value) (lru_get k c)"
| "lru_exec (At k) c = map_option (apfst Checked) (lru_at k c)"
| "lru_exec (Put k v) c = map_option (Pair Nothing) (lru_put k v c)"
| "lru_exec (Contains k) c = Some (Flag (lru_contains k c), c)"
| "lru_exec (Erase k) c = map_option (apfst Flag) (lru_erase k c)"
| "lru_exec Clear c = Some (Nothing, lru_clear c)"
| "lru_exec SizeOp c = Some (Count (lru_size c), c)"
| "lru_exec (Resize n) c = map_option (apfst Resized) (lru_resize n c)"
| "lru_exec (GetOrInsert k v) c = map_option (apfst (Value \<circ> Some)) (lru_getOrInsert k (\<lambda>_. v) c)"
| "lru_exec (SetCallback b) c = Some (Nothing, setEvictionCallback b c)"

fun lru_spec :: "('k, 'v) lru_op \<Rightarrow> ('k, 'v) lru_state \<Rightarrow> 'v lru_out \<times> ('k, 'v) lru_state" where
  "lru_spec (Get k) a = (case map_of (sp_recency a) k of
     None \<Rightarrow> (Value None, a) | Some v \<Rightarrow> (Value (Some v), sp_touch k v a))"
| "lru_spec (At k) a = (case map_of (sp_recency a) k of
     None \<Rightarrow> (Checked (Inl lru_out_of_range), a) | Some v \<Rightarrow> (Checked (Inr v), sp_touch k v a))"
| "lru_spec (Put k v) a = (case map_of (sp_recency a) k of
     None \<Rightarrow> (Nothing, sp_insert k v a) | Some w \<Rightarrow> (Nothing, sp_touch k v a))"
| "lru_spec (Contains k) a = (Flag (map_of (sp_recency a) k \<noteq> None), a)"
| "lru_spec (Erase k) a = (Flag (map_of (sp_recency a) k \<noteq> None), a\<lparr>sp_recency := map_erase k (sp_recency a)\<rparr>)"
| "lru_spec Clear a = (Nothing, a\<lparr>sp_recency := []\<rparr>)"
| "lru_spec SizeOp a = (Count (length (sp_recency a)), a)"
| "lru_spec (Resize n) a =
     (if n = 0 then (Resized (Inl lru_invalid_argument), a)
      else (Resized (Inr ()), ((sp_evict ^^ (length (sp_recency a) - n)) a)\<lparr>sp_capacity := n\<rparr>))"
| "lru_spec (GetOrInsert k v) a = (case map_of (sp_recency a) k of
     None \<Rightarrow> (Value (Some v), sp_insert k v a) | Some w \<Rightarrow> (Value (Some w), sp_touch k w a))"
| "lru_spec (SetCallback b) a = (Nothing, a\<lparr>sp_callback := b\<rparr>)"

section \<open>The invariant and the abstraction\<close>

text \<open>
  The map sends each key to the address of the one node that holds it. After a move the capacity is
  0, and the first insertion then still adds an element: hence the bound \<open>max 1 capacity\<close>.
\<close>

definition lru_linked :: "(nat \<times> 'k \<times> 'v) list \<Rightarrow> ('k \<times> nat) list \<Rightarrow> bool" where
  "lru_linked xs m \<longleftrightarrow> distinct (map fst xs) \<and> distinct (map (fst \<circ> snd) xs) \<and> distinct (map fst m) \<and>
     (\<forall>k i. map_of m k = Some i \<longleftrightarrow> (\<exists>v. (i, k, v) \<in> set xs))"

definition lru_invar :: "('k, 'v) LRUCache \<Rightarrow> bool" where
  "lru_invar c \<longleftrightarrow> lru_linked (lru_list c) (lru_map c) \<and> (\<forall>e \<in> set (lru_list c). fst e < lru_heap c) \<and>
     length (lru_list c) \<le> max 1 (lru_capacity c)"

definition lru_abs :: "('k, 'v) LRUCache \<Rightarrow> ('k, 'v) lru_state" where
  "lru_abs c = \<lparr> sp_capacity = lru_capacity c, sp_recency = map snd (lru_list c),
     sp_callback = lru_callback c, sp_evicted = lru_evicted c \<rparr>"

lemma lru_abs_sel [simp]:
  "sp_capacity (lru_abs c) = lru_capacity c" "sp_recency (lru_abs c) = map snd (lru_list c)"
  "sp_callback (lru_abs c) = lru_callback c" "sp_evicted (lru_abs c) = lru_evicted c"
  by (simp_all add: lru_abs_def)

lemma map_of_map_erase [simp]: "map_of (map_erase k m) = (map_of m)(k := None)"
  by (induction m) (auto simp: map_erase_def fun_eq_iff)

lemma map_of_map_assign [simp]: "map_of (map_assign k x m) = (map_of m)(k := Some x)"
  by (simp add: map_assign_def fun_eq_iff)

lemma distinct_map_erase [simp]: "distinct (map f m) \<Longrightarrow> distinct (map f (map_erase k m))"
  by (simp add: map_erase_def distinct_map_filter)

lemma map_erase_keys [simp]: "fst ` set (map_erase k m) = fst ` set m - {k}"
  by (auto simp: map_erase_def)

lemma map_erase_absent: "k \<notin> fst ` set m \<Longrightarrow> map_erase k m = m"
  by (auto simp: map_erase_def filter_id_conv)

lemma linkedD:
  assumes "lru_linked xs m"
  shows "distinct (map fst xs)" "distinct (map (fst \<circ> snd) xs)" "distinct (map fst m)"
    "map_of m k = Some i \<longleftrightarrow> (\<exists>v. (i, k, v) \<in> set xs)"
    "map_of m k = None \<longleftrightarrow> k \<notin> fst ` set (map snd xs)"
proof -
  show d: "distinct (map fst xs)" "distinct (map (fst \<circ> snd) xs)" "distinct (map fst m)"
    "map_of m k = Some i \<longleftrightarrow> (\<exists>v. (i, k, v) \<in> set xs)" for k i
    using assms by (auto simp: lru_linked_def)
  show "map_of m k = None \<longleftrightarrow> k \<notin> fst ` set (map snd xs)"
    using d(4) [of k] by (cases "map_of m k") (force simp: image_iff)+
qed

lemma linked_length: "lru_linked xs m \<Longrightarrow> length m = length xs"
proof -
  assume l: "lru_linked xs m"
  have "fst ` set m = (fst \<circ> snd) ` set xs"
    using linkedD(5) [OF l] by (auto simp: image_iff map_of_eq_None_iff)
  moreover have "length m = card (fst ` set m)"
    using distinct_card [OF linkedD(3) [OF l]] by simp
  moreover have "length xs = card ((fst \<circ> snd) ` set xs)"
    using distinct_card [OF linkedD(2) [OF l]] by simp
  ultimately show ?thesis by simp
qed

lemma linked_node:
  assumes "lru_linked xs m" and "map_of m k = Some it" and "e \<in> set xs"
  shows "fst e = it \<longleftrightarrow> fst (snd e) = k"
proof -
  obtain v where v: "(it, k, v) \<in> set xs" using linkedD(4) [OF assms(1)] assms(2) by blast
  have "inj_on fst (set xs)" "inj_on (fst \<circ> snd) (set xs)"
    using linkedD(1,2) [OF assms(1)] by (auto simp: distinct_map)
  then show ?thesis
    using inj_onD [of fst "set xs" e "(it, k, v)"] inj_onD [of "fst \<circ> snd" "set xs" e "(it, k, v)"] v assms(3)
    by (cases e) auto
qed

text \<open>A key of the map: its node, and the list without it.\<close>

lemma linked_lookup:
  assumes "lru_linked xs m" and "map_of m k = Some it"
  obtains v where "(it, k, v) \<in> set xs" "map_of xs it = Some (k, v)" "map_of (map snd xs) k = Some v"
    "map snd (filter (\<lambda>e. fst e \<noteq> it) xs) = map_erase k (map snd xs)"
proof -
  obtain v where v: "(it, k, v) \<in> set xs" using linkedD(4) [OF assms(1)] assms(2) by blast
  have 1: "map_of xs it = Some (k, v)"
    using v linkedD(1) [OF assms(1)] by (simp add: map_of_is_SomeI)
  have "(k, v) \<in> set (map snd xs)" using v by force
  then have 2: "map_of (map snd xs) k = Some v"
    using linkedD(2) [OF assms(1)] by (intro map_of_is_SomeI) simp_all
  have "filter (\<lambda>e. fst e \<noteq> it) xs = filter (\<lambda>e. fst (snd e) \<noteq> k) xs"
    using linked_node [OF assms] by (intro filter_cong) auto
  then have "map snd (filter (\<lambda>e. fst e \<noteq> it) xs) = map_erase k (map snd xs)"
    by (simp add: map_erase_def filter_map o_def)
  with that v 1 2 show ?thesis by blast
qed

lemma linked_spec_lookup:
  assumes "lru_linked xs m"
  shows "map_of m k = None \<longleftrightarrow> map_of (map snd xs) k = None"
  using linkedD(5) [OF assms] by (simp add: map_of_eq_None_iff)

lemma linked_erase:
  assumes "lru_linked xs m" and "map_of m k = Some it"
  shows "lru_linked (filter (\<lambda>e. fst e \<noteq> it) xs) (map_erase k m)"
proof -
  show ?thesis
    using linked_node [OF assms] linkedD(1,2,3) [OF assms(1)] linkedD(4) [OF assms(1)]
    by (auto simp: lru_linked_def distinct_map_filter fun_upd_def) blast
qed

lemma linked_front:
  assumes "lru_linked xs m" and "map_of m k = None" and "it \<notin> fst ` set xs"
  shows "lru_linked ((it, k, v) # xs) (map_assign k it m)"
proof -
  have "k \<notin> (fst \<circ> snd) ` set xs" using linkedD(5) [OF assms(1)] assms(2) by (auto simp: image_iff)
  moreover have "k \<notin> fst ` set m" using assms(2) by (simp add: map_of_eq_None_iff)
  ultimately show ?thesis
    using assms(2,3) linkedD(1,2,3) [OF assms(1)] linkedD(4) [OF assms(1)]
    by (auto simp: lru_linked_def map_assign_def map_erase_absent image_iff)
qed

lemma linked_butlast:
  assumes "lru_linked xs m" and "xs \<noteq> []"
  shows "lru_linked (butlast xs) (map_erase (fst (snd (last xs))) m)"
proof -
  obtain ys i k v where xs: "xs = ys @ [(i, k, v)]" using assms(2) by (metis append_butlast_last_id prod_cases3)
  then have "map_of m k = Some i" using linkedD(4) [OF assms(1)] by auto
  moreover have "filter (\<lambda>e. fst e \<noteq> i) xs = ys" using linkedD(1) [OF assms(1)] xs by (auto simp: filter_id_conv)
  ultimately show ?thesis using linked_erase [OF assms(1), of k i] by (simp add: xs)
qed

text \<open>Moving a node to the front, with a new value or the old one.\<close>

lemma linked_move:
  assumes "lru_linked xs m" and "map_of m k = Some it"
  shows "lru_linked ((it, k, v) # filter (\<lambda>e. fst e \<noteq> it) xs) m"
proof -
  show ?thesis
    using linked_node [OF assms] assms(2) linkedD(1,2,3) [OF assms(1)] linkedD(4) [OF assms(1)]
    by (auto simp: lru_linked_def distinct_map_filter) blast
qed

section \<open>The operations keep the invariant and follow the specification\<close>

lemma lru_invarD:
  assumes "lru_invar c"
  shows "lru_linked (lru_list c) (lru_map c)" "length (lru_list c) \<le> max 1 (lru_capacity c)"
    "e \<in> set (lru_list c) \<Longrightarrow> fst e < lru_heap c" "length (lru_map c) = length (lru_list c)"
  using assms by (auto simp: lru_invar_def intro: linked_length)

lemma move_to_front:
  assumes "lru_invar c" and "map_of (lru_map c) k = Some it"
  shows "lru_invar (c\<lparr>lru_list := (it, k, v) # filter (\<lambda>e. fst e \<noteq> it) (lru_list c)\<rparr>)"
    and "lru_abs (c\<lparr>lru_list := (it, k, v) # filter (\<lambda>e. fst e \<noteq> it) (lru_list c)\<rparr>) = sp_touch k v (lru_abs c)"
proof -
  note l = lru_invarD(1) [OF assms(1)]
  obtain w where w: "(it, k, w) \<in> set (lru_list c)"
    "map snd (filter (\<lambda>e. fst e \<noteq> it) (lru_list c)) = map_erase k (map snd (lru_list c))"
    using linked_lookup [OF l assms(2)] by blast
  have "length (filter (\<lambda>e. fst e \<noteq> it) (lru_list c)) < length (lru_list c)"
    using length_filter_less [OF w(1)] by simp
  then show "lru_invar (c\<lparr>lru_list := (it, k, v) # filter (\<lambda>e. fst e \<noteq> it) (lru_list c)\<rparr>)"
    using linked_move [OF l assms(2)] lru_invarD(2,3) [OF assms(1)] w(1) by (force simp: lru_invar_def)
  show "lru_abs (c\<lparr>lru_list := (it, k, v) # filter (\<lambda>e. fst e \<noteq> it) (lru_list c)\<rparr>) = sp_touch k v (lru_abs c)"
    using w(2) by (simp add: lru_abs_def sp_touch_def)
qed

lemma splice_node:
  assumes "lru_invar c" and "map_of (lru_map c) k = Some it"
  obtains v where "list_splice it (lru_list c) = Some ((it, k, v) # filter (\<lambda>e. fst e \<noteq> it) (lru_list c))"
    "map_of (map snd (lru_list c)) k = Some v" "map_of (lru_list c) it = Some (k, v)"
  using linked_lookup [OF lru_invarD(1) [OF assms(1)] assms(2)] that by (auto simp: list_splice_def)

lemma evict_refines:
  assumes "lru_invar c"
  shows "lru_invar (evict c)" "lru_abs (evict c) = sp_evict (lru_abs c)"
    "length (lru_list (evict c)) = length (lru_list c) - 1" "lru_capacity (evict c) = lru_capacity c"
    "map_of (lru_map c) k = None \<Longrightarrow> map_of (lru_map (evict c)) k = None"
proof -
  show "lru_invar (evict c)"
    using linked_butlast [OF lru_invarD(1) [OF assms]] lru_invarD(1-3) [OF assms]
    by (cases "lru_list c = []") (auto simp: lru_invar_def evict_def Let_def dest: in_set_butlastD)
  show "lru_abs (evict c) = sp_evict (lru_abs c)"
    by (auto simp: lru_abs_def sp_evict_def evict_def Let_def map_butlast last_map)
qed (auto simp: evict_def Let_def)

lemma emplace_front_refines:
  assumes "lru_invar c" and "map_of (lru_map c) k = None" and "length (lru_list c) < max 1 (lru_capacity c)"
  shows "lru_invar (emplace_front k v c)" "lru_abs (emplace_front k v c) = sp_touch k v (lru_abs c)"
proof -
  have "lru_heap c \<notin> fst ` set (lru_list c)" using lru_invarD(3) [OF assms(1)] by force
  from linked_front [OF lru_invarD(1) [OF assms(1)] assms(2) this]
  show "lru_invar (emplace_front k v c)"
    using assms(3) lru_invarD(3) [OF assms(1)] by (force simp: lru_invar_def emplace_front_def Let_def)
  have "map_erase k (map snd (lru_list c)) = map snd (lru_list c)"
    using linkedD(5) [OF lru_invarD(1) [OF assms(1)], of k] assms(2) by (intro map_erase_absent) blast
  then show "lru_abs (emplace_front k v c) = sp_touch k v (lru_abs c)"
    by (simp add: lru_abs_def sp_touch_def emplace_front_def Let_def)
qed

lemma insert_refines:
  fixes k v c
  defines "c' \<equiv> emplace_front k v (if length (lru_map c) \<ge> lru_capacity c then evict c else c)"
  assumes "lru_invar c" and "map_of (lru_map c) k = None"
  shows "lru_invar c' \<and> lru_abs c' = sp_insert k v (lru_abs c)"
proof (cases "lru_capacity c \<le> length (lru_list c)")
  case True
  note e = evict_refines [OF assms(2)]
  have "length (lru_list (evict c)) < max 1 (lru_capacity (evict c))"
    using e(3,4) lru_invarD(2) [OF assms(2)] by auto
  from emplace_front_refines [OF e(1) e(5) [OF assms(3)] this] True e(2)
  show ?thesis by (simp add: c'_def lru_invarD(4) [OF assms(2)] sp_insert_def)
next
  case False
  then have "length (lru_list c) < max 1 (lru_capacity c)" by simp
  from emplace_front_refines [OF assms(2,3) this] False
  show ?thesis by (simp add: c'_def lru_invarD(4) [OF assms(2)] sp_insert_def)
qed

lemma resize_loop_refines:
  "lru_invar c \<Longrightarrow> \<exists>c'. resize_loop n c = Some c' \<and> lru_invar c' \<and>
     lru_abs c' = (sp_evict ^^ (length (lru_list c) - n)) (lru_abs c) \<and>
     length (lru_list c') \<le> n"
proof (induction "length (lru_list c) - n" arbitrary: c)
  case 0
  then show ?case by (subst resize_loop.simps) (simp add: lru_invarD(4))
next
  case (Suc m)
  note e = evict_refines [OF Suc.prems]
  from Suc.hyps have gt: "n < length (lru_list c)" by simp
  have m: "m = length (lru_list (evict c)) - n" using e(3) Suc.hyps(2) by simp
  have "(sp_evict ^^ (length (lru_list c) - n)) (lru_abs c) = (sp_evict ^^ m) (lru_abs (evict c))"
    unfolding Suc.hyps(2) [symmetric] funpow_Suc_right using e(2) by simp
  with Suc.hyps(1) [OF m e(1)] gt m show ?case
    by (subst resize_loop.simps) (simp add: lru_invarD(4) [OF Suc.prems])
qed

lemma put_refines:
  "lru_invar c \<Longrightarrow> \<exists>c'. lru_put k v c = Some c' \<and> lru_invar c' \<and> lru_abs c' = snd (lru_spec (Put k v) (lru_abs c))"
proof (cases "map_of (lru_map c) k")
  case None
  assume i: "lru_invar c"
  with None have "map_of (map snd (lru_list c)) k = None" by (simp add: linked_spec_lookup [OF lru_invarD(1)])
  with insert_refines [OF i None, of v] None show ?thesis by (simp add: lru_put_def Let_def)
next
  case (Some it)
  assume i: "lru_invar c"
  let ?upd = "\<lambda>(i, k, w). if i = it then (i, k, v) else (i, k, w)"
  have f: "filter (\<lambda>e. fst e \<noteq> it) (map ?upd xs) = filter (\<lambda>e. fst e \<noteq> it) xs" for xs
    by (induction xs) (auto split: if_splits)
  obtain w where w: "map_of (lru_list c) it = Some (k, w)" "map_of (map snd (lru_list c)) k = Some w"
    using splice_node [OF i Some] by blast
  have "map_of xs it = Some (k, w) \<Longrightarrow> map_of (map ?upd xs) it = Some (k, v)" for xs
    by (induction xs) (auto split: if_splits)
  with w(1) f have "list_splice it (map ?upd (lru_list c)) = Some ((it, k, v) # filter (\<lambda>e. fst e \<noteq> it) (lru_list c))"
    by (simp add: list_splice_def)
  with move_to_front [OF i Some, of v] Some w(2) show ?thesis by (simp add: lru_put_def Let_def)
qed

lemma erase_refines:
  "lru_invar c \<Longrightarrow> \<exists>c'. lru_erase k c = Some (map_of (map snd (lru_list c)) k \<noteq> None, c') \<and> lru_invar c' \<and>
     lru_abs c' = snd (lru_spec (Erase k) (lru_abs c))"
proof (cases "map_of (lru_map c) k")
  case None
  assume i: "lru_invar c"
  with None have n: "map_of (map snd (lru_list c)) k = None" by (simp add: linked_spec_lookup [OF lru_invarD(1)])
  then have "map_erase k (map snd (lru_list c)) = map snd (lru_list c)"
    by (intro map_erase_absent) (simp add: map_of_eq_None_iff)
  with i None n show ?thesis by (simp add: lru_erase_def lru_abs_def)
next
  case (Some it)
  assume i: "lru_invar c"
  obtain v where v: "map_of (lru_list c) it = Some (k, v)" "map_of (map snd (lru_list c)) k = Some v"
    "map snd (filter (\<lambda>e. fst e \<noteq> it) (lru_list c)) = map_erase k (map snd (lru_list c))"
    using linked_lookup [OF lru_invarD(1) [OF i] Some] by blast
  let ?c = "c\<lparr>lru_list := filter (\<lambda>e. fst e \<noteq> it) (lru_list c), lru_map := map_erase k (lru_map c)\<rparr>"
  have "lru_invar ?c"
    using linked_erase [OF lru_invarD(1) [OF i] Some] lru_invarD(2,3) [OF i] order.trans [OF length_filter_le]
    by (auto simp: lru_invar_def)
  moreover have "lru_abs ?c = snd (lru_spec (Erase k) (lru_abs c))" using v(3) by (simp add: lru_abs_def)
  ultimately show ?thesis using v(1,2) Some by (simp add: lru_erase_def list_erase_def)
qed

text \<open>What \<open>get\<close>, \<open>at\<close> and \<open>getOrInsert\<close> find: no entry, or a node that is moved to the front.\<close>

lemma lookup_cases:
  assumes "lru_invar c"
  obtains (absent) "map_of (lru_map c) k = None" "map_of (map snd (lru_list c)) k = None"
  | (present) it v xs where "map_of (lru_map c) k = Some it" "map_of (map snd (lru_list c)) k = Some v"
      "list_splice it (lru_list c) = Some xs" "map_of xs it = Some (k, v)"
      "lru_invar (c\<lparr>lru_list := xs\<rparr>)" "lru_abs (c\<lparr>lru_list := xs\<rparr>) = sp_touch k v (lru_abs c)"
proof (cases "map_of (lru_map c) k")
  case None
  with linked_spec_lookup [OF lru_invarD(1) [OF assms], of k] absent show ?thesis by simp
next
  case (Some it)
  obtain v where "list_splice it (lru_list c) = Some ((it, k, v) # filter (\<lambda>e. fst e \<noteq> it) (lru_list c))"
    "map_of (map snd (lru_list c)) k = Some v"
    using splice_node [OF assms Some] by blast
  with present [OF Some] move_to_front [OF assms Some] show ?thesis by simp
qed

lemma resize_refines:
  assumes "lru_invar c"
  shows "\<exists>c'. lru_exec (Resize n) c = Some (fst (lru_spec (Resize n) (lru_abs c)), c') \<and> lru_invar c' \<and>
    lru_abs c' = snd (lru_spec (Resize n) (lru_abs c))"
proof -
  obtain c' where c': "resize_loop n c = Some c'" "lru_invar c'" "length (lru_list c') \<le> n"
    "lru_abs c' = (sp_evict ^^ (length (lru_list c) - n)) (lru_abs c)"
    using resize_loop_refines [OF assms] by blast
  have "lru_abs (c'\<lparr>lru_capacity := n\<rparr>) = (lru_abs c')\<lparr>sp_capacity := n\<rparr>" by (simp add: lru_abs_def)
  with c' assms show ?thesis by (simp add: lru_resize_def lru_invar_def)
qed

lemma getOrInsert_refines:
  assumes "lru_invar c"
  shows "\<exists>c'. lru_exec (GetOrInsert k v) c = Some (fst (lru_spec (GetOrInsert k v) (lru_abs c)), c') \<and>
    lru_invar c' \<and> lru_abs c' = snd (lru_spec (GetOrInsert k v) (lru_abs c))"
  using assms
proof (cases rule: lookup_cases [of c k])
  case absent
  have "snd (snd (hd (lru_list (emplace_front k v c)))) = v" for c :: "('a, 'b) LRUCache"
    by (simp add: emplace_front_def Let_def)
  with absent insert_refines [OF assms, of k v] show ?thesis by (simp add: lru_getOrInsert_def Let_def)
qed (simp add: lru_getOrInsert_def)

interpretation lru: object_refinement lru_invar lru_abs lru_exec lru_spec
proof
  fix c :: "('k, 'v) LRUCache" and op :: "('k, 'v) lru_op"
  assume i: "lru_invar c"
  show "\<exists>c'. lru_exec op c = Some (fst (lru_spec op (lru_abs c)), c') \<and> lru_invar c' \<and>
    lru_abs c' = snd (lru_spec op (lru_abs c))"
  proof (cases op)
    case (Get k)
    from i show ?thesis by (cases rule: lookup_cases [of c k]) (simp_all add: i Get lru_get_def)
  next
    case (At k)
    from i show ?thesis by (cases rule: lookup_cases [of c k]) (simp_all add: i At lru_at_def)
  next
    case (Put k v)
    have "fst (lru_spec (Put k v) (lru_abs c)) = Nothing" by (simp split: option.split)
    with put_refines [OF i, of k v] show ?thesis unfolding Put by auto
  next
    case (Contains k)
    from i show ?thesis by (cases rule: lookup_cases [of c k]) (simp_all add: i Contains lru_contains_def)
  next
    case (Erase k)
    with erase_refines [OF i, of k] show ?thesis by auto
  next
    case Clear
    with i show ?thesis by (simp add: lru_clear_def lru_invar_def lru_linked_def lru_abs_def)
  next
    case SizeOp
    with i show ?thesis by (simp add: lru_size_def lru_invarD(4))
  next
    case (Resize n)
    with resize_refines [OF i] show ?thesis by simp
  next
    case (GetOrInsert k v)
    with getOrInsert_refines [OF i] show ?thesis by simp
  next
    case (SetCallback b)
    with i show ?thesis by (simp add: setEvictionCallback_def lru_invar_def lru_abs_def)
  qed
qed

lemma sp_evict_capacity [simp]: "sp_capacity ((sp_evict ^^ m) a) = sp_capacity a"
  by (induction m) (simp_all add: sp_evict_def)

lemma lru_spec_capacity: "0 < sp_capacity a \<Longrightarrow> 0 < sp_capacity (snd (spec_run lru_spec ops a))"
proof (induction ops arbitrary: a)
  case (Cons op ops)
  have "0 < sp_capacity (snd (lru_spec op a))"
    using Cons.prems
    by (cases op) (auto simp: sp_touch_def sp_insert_def sp_evict_def split: option.splits)
  with Cons.IH show ?case by (simp add: case_prod_beta Let_def)
qed simp

lemma lru_ctor_invar: "LRUCache_ctor n = Inr c \<Longrightarrow> lru_invar c \<and> 0 < n \<and>
  lru_abs c = \<lparr> sp_capacity = n, sp_recency = [], sp_callback = False, sp_evicted = [] \<rparr>"
  by (auto simp: LRUCache_ctor_def lru_invar_def lru_linked_def lru_abs_def split: if_splits)

section \<open>The most recent keys\<close>

text \<open>Every key with its newest value, newest first; the argument is in order of age, newest first.\<close>

fun recency :: "('k \<times> 'v) list \<Rightarrow> ('k \<times> 'v) list" where
  "recency [] = []"
| "recency ((k, v) # kvs) = (k, v) # map_erase k (recency kvs)"

lemma distinct_recency: "distinct (map fst (recency kvs))"
  by (induction kvs rule: recency.induct) simp_all

lemma map_erase_take_hit:
  "distinct (map fst R) \<Longrightarrow> k \<in> fst ` set (take (Suc m) R) \<Longrightarrow>
     map_erase k (take (Suc m) R) = take m (map_erase k R)"
proof (induction R arbitrary: m)
  case (Cons e R)
  show ?case
  proof (cases "fst e = k")
    case True
    with Cons.prems have "k \<notin> fst ` set R" by auto
    then have "map_erase k R = R" "map_erase k (take m R) = take m R"
      by (auto intro!: map_erase_absent dest: in_set_takeD)
    with True show ?thesis by (simp add: map_erase_def)
  next
    case False
    with Cons.prems obtain m' where "m = Suc m'" by (cases m) auto
    with False Cons show ?thesis by (simp add: map_erase_def)
  qed
qed simp

lemma map_erase_take_miss: "k \<notin> fst ` set (take m R) \<Longrightarrow> take m (map_erase k R) = take m R"
proof (induction R arbitrary: m)
  case (Cons e R)
  then show ?case by (cases m) (auto simp: map_erase_def)
qed (simp add: map_erase_def)

text \<open>One put on a cache that holds the first n entries of R.\<close>

lemma put_take:
  assumes "sp_recency a = take n R" and "sp_capacity a = n" and "0 < n" and "distinct (map fst R)"
  shows "sp_recency (snd (lru_spec (Put k v) a)) = take n ((k, v) # map_erase k R)"
proof -
  obtain m where n: "n = Suc m" using assms(3) by (cases n) auto
  show ?thesis
  proof (cases "map_of (take n R) k")
    case (Some w)
    then have "k \<in> fst ` set (take (Suc m) R)" by (simp add: n image_iff) (metis fst_conv map_of_SomeD n)
    from map_erase_take_hit [OF assms(4) this] Some assms(1) show ?thesis by (simp add: sp_touch_def n)
  next
    case None
    then have k: "k \<notin> fst ` set (take n R)" by (simp add: map_of_eq_None_iff)
    then have "k \<notin> fst ` set (take m R)" using set_take_subset_set_take [of m n R] n by auto
    then have t: "take m (map_erase k R) = take m R" by (rule map_erase_take_miss)
    have e: "map_erase k (take m R) = take m R" "map_erase k (take n R) = take n R"
      using k \<open>k \<notin> fst ` set (take m R)\<close> by (simp_all add: map_erase_absent)
    show ?thesis
    proof (cases "n \<le> length R")
      case True
      with assms(1,2) None e(1) t show ?thesis
        by (simp add: sp_insert_def sp_touch_def sp_evict_def butlast_take n)
    next
      case False
      with assms(1,2) None e(2) t show ?thesis
        by (simp add: sp_insert_def sp_touch_def n)
    qed
  qed
qed

lemma puts_take:
  "sp_recency a = take n (recency R) \<Longrightarrow> sp_capacity a = n \<Longrightarrow> 0 < n \<Longrightarrow>
     sp_recency (snd (spec_run lru_spec (map (\<lambda>(k, v). Put k v) kvs) a)) = take n (recency (rev kvs @ R))"
proof (induction kvs arbitrary: a R)
  case (Cons kv kvs)
  obtain k v where kv: "kv = (k, v)" by (cases kv)
  let ?a = "snd (lru_spec (Put k v) a)"
  have "sp_recency ?a = take n (recency ((k, v) # R))"
    using put_take [OF Cons.prems distinct_recency, of k v] by simp
  moreover have "sp_capacity ?a = n"
    using Cons.prems(2) by (auto simp: sp_touch_def sp_insert_def sp_evict_def split: option.splits)
  ultimately show ?case
    using Cons.IH [of ?a "(k, v) # R"] Cons.prems(3) by (simp add: kv case_prod_beta Let_def)
qed simp

section \<open>Properties\<close>

text \<open>C4: whatever sequence of operations is applied to a cache, no iterator of it is ever stale, every
  operation answers as the list of entries in order of use does (a hit moves the entry to the front, an
  insertion into a full cache drops the last entry and hands it to the callback), and the cache never
  holds more entries than its capacity.\<close>

theorem LRUCache_refines:
  assumes "LRUCache_ctor n = Inr c"
  shows "\<exists>c'. object_run lru_exec ops c = Some (fst (spec_run lru_spec ops (lru_abs c)), c') \<and>
    lru_abs c' = snd (spec_run lru_spec ops (lru_abs c)) \<and> lru_size c' \<le> lru_capacity c'"
proof -
  note c = lru_ctor_invar [OF assms]
  then obtain c' where c': "object_run lru_exec ops c = Some (fst (spec_run lru_spec ops (lru_abs c)), c')"
    "lru_invar c'" "lru_abs c' = snd (spec_run lru_spec ops (lru_abs c))"
    using lru.run_refines [of c ops] by blast
  have "0 < sp_capacity (lru_abs c')" unfolding c'(3) using c by (intro lru_spec_capacity) simp
  then have "0 < lru_capacity c'" by simp
  then have "lru_size c' \<le> lru_capacity c'"
    using lru_invarD(2,4) [OF c'(2)] by (simp add: lru_size_def)
  with c' show ?thesis by blast
qed

theorem LRUCache_refines_witness:
  "\<exists>c c'. LRUCache_ctor 2 = Inr c \<and>
     object_run lru_exec [Put 1 10, Put 2 20, Get 1, Put 3 30, Get 2, At (1 :: nat)] c =
       Some ([Nothing, Nothing, Value (Some 10), Nothing, Value None, Checked (Inr (10 :: nat))], c')"
proof -
  have "\<exists>c. LRUCache_ctor 2 = (Inr c :: lru_error + (nat, nat) LRUCache)" by (simp add: LRUCache_ctor_def)
  then obtain c where c: "LRUCache_ctor 2 = (Inr c :: lru_error + (nat, nat) LRUCache)" ..
  from LRUCache_refines [OF c, of "[Put 1 10, Put 2 20, Get 1, Put 3 30, Get 2, At 1]"] lru_ctor_invar [OF c] c
  show ?thesis
    by (auto simp: sp_insert_def sp_touch_def sp_evict_def map_erase_def)
qed

text \<open>after any sequence of puts, a cache of capacity n holds exactly the n keys put most recently,
  each with its newest value.\<close>

theorem LRUCache_most_recent:
  assumes "LRUCache_ctor n = Inr c"
  shows "\<exists>outs c'. object_run lru_exec (map (\<lambda>(k, v). Put k v) kvs) c = Some (outs, c') \<and>
    map snd (lru_list c') = take n (recency (rev kvs))"
proof -
  note c = lru_ctor_invar [OF assms]
  let ?ops = "map (\<lambda>(k, v). Put k v) kvs"
  obtain c' where c': "object_run lru_exec ?ops c = Some (fst (spec_run lru_spec ?ops (lru_abs c)), c')"
    "lru_abs c' = snd (spec_run lru_spec ?ops (lru_abs c))"
    using c lru.run_refines [of c ?ops] by blast
  have "sp_recency (lru_abs c') = take n (recency (rev kvs @ []))"
    unfolding c'(2) using c by (intro puts_take) auto
  then have "map snd (lru_list c') = take n (recency (rev kvs))" by simp
  with c'(1) show ?thesis by blast
qed

theorem LRUCache_most_recent_witness:
  "\<exists>c outs c'. LRUCache_ctor 2 = Inr c \<and>
     object_run lru_exec [Put 1 10, Put 2 20, Put 1 11, Put (3 :: nat) 30] c = Some (outs, c') \<and>
     map snd (lru_list c') = [(3, 30), (1, 11 :: nat)]"
proof -
  have "\<exists>c. LRUCache_ctor 2 = (Inr c :: lru_error + (nat, nat) LRUCache)" by (simp add: LRUCache_ctor_def)
  then obtain c where c: "LRUCache_ctor 2 = (Inr c :: lru_error + (nat, nat) LRUCache)" ..
  from LRUCache_most_recent [OF c, of "[(1, 10), (2, 20), (1, 11), (3, 30)]"] c
  show ?thesis by (auto simp: map_erase_def numeral_2_eq_2)
qed

end
