(* ===== verification/SPSCRingQueue.thy ===== *)
theory SPSCRingQueue
  imports Prelude "HOL-Library.Sublist"
begin

text \<open>
  The class template \<open>SPSCRingQueue\<close> of \<^verbatim>\<open>include/darwincore/foundation/container/RingQueue.h\<close>, the
  lock-free queue of one producer and one consumer. \<open>push\<close> and \<open>pop\<close> are split at their accesses to
  shared memory. An atomic variable is the list of the values stored in it, newest last (its
  modification order): its only writer loads the newest value, the other thread's acquire load may
  return any value that is not older than one it has already seen. The elements are ordinary memory;
  that the two threads never access the same element at the same time is proved.
\<close>

section \<open>Rounding up to a power of two\<close>

definition nextPowerOfTwo :: "u64 \<Rightarrow> u64" where
  "nextPowerOfTwo n =
     (if n = 0 then 1
      else let n = n - 1;
               n = n OR drop_bit 1 n;
               n = n OR drop_bit 2 n;
               n = n OR drop_bit 4 n;
               n = n OR drop_bit 8 n;
               n = n OR drop_bit 16 n;
               n = n OR drop_bit 32 n
           in n + 1)"

lemma smear_step:
  fixes x n :: "'a::len word"
  assumes "\<And>i. bit x i \<longleftrightarrow> (\<exists>j<w. bit n (i + j))"
  shows "bit (x OR drop_bit w x) i \<longleftrightarrow> (\<exists>j<2 * w. bit n (i + j))"
proof -
  have "(\<exists>j<2 * w. bit n (i + j)) \<longleftrightarrow> (\<exists>j<w. bit n (i + j)) \<or> (\<exists>j<w. bit n (i + w + j))"
  proof
    assume "\<exists>j<2 * w. bit n (i + j)"
    then obtain j where j: "j < 2 * w" "bit n (i + j)" by blast
    show "(\<exists>j<w. bit n (i + j)) \<or> (\<exists>j<w. bit n (i + w + j))"
    proof (cases "j < w")
      case False
      with j have "j - w < w" "bit n (i + w + (j - w))" by auto
      then show ?thesis by blast
    qed (use j in blast)
  next
    assume "(\<exists>j<w. bit n (i + j)) \<or> (\<exists>j<w. bit n (i + w + j))"
    then show "\<exists>j<2 * w. bit n (i + j)"
    proof
      assume "\<exists>j<w. bit n (i + w + j)"
      then obtain j where "j < w" "bit n (i + (w + j))" by (auto simp: add.assoc)
      then show ?thesis by (intro exI [of _ "w + j"]) auto
    next
      assume "\<exists>j<w. bit n (i + j)"
      then obtain j where "j < w" "bit n (i + j)" by blast
      then show ?thesis by (intro exI [of _ j]) auto
    qed
  qed
  then show ?thesis by (simp add: bit_or_iff bit_drop_bit_eq assms add.commute)
qed

lemma smear_bits:
  fixes n :: u64
  defines "x \<equiv> (let n = n OR drop_bit 1 n; n = n OR drop_bit 2 n; n = n OR drop_bit 4 n;
     n = n OR drop_bit 8 n; n = n OR drop_bit 16 n in n OR drop_bit 32 n)"
  shows "bit x i \<longleftrightarrow> 2 ^ i \<le> unat n"
proof -
  have 0: "bit n i \<longleftrightarrow> (\<exists>j<1. bit n (i + j))" for i by simp
  note 1 = smear_step [of n 1 n, OF 0]
  note 2 = smear_step [of "n OR drop_bit 1 n" 2 n, OF 1 [unfolded mult_1_right]]
  note 3 = smear_step [OF 2 [simplified]]
  note 4 = smear_step [OF 3 [simplified]]
  note 5 = smear_step [OF 4 [simplified]]
  note 6 = smear_step [OF 5 [simplified]]
  have "bit x i \<longleftrightarrow> (\<exists>j<64. bit n (i + j))" using 6 by (simp add: x_def Let_def)
  also have "\<dots> \<longleftrightarrow> drop_bit i n \<noteq> 0"
  proof
    assume "drop_bit i n \<noteq> 0"
    then obtain j where "bit (drop_bit i n) j" by (auto simp: bit_eq_iff)
    moreover from this have "j < 64" using bit_imp_le_length [of "drop_bit i n" j] by simp
    ultimately show "\<exists>j<64. bit n (i + j)" by (auto simp: bit_drop_bit_eq)
  qed (auto simp: bit_eq_iff bit_drop_bit_eq)
  also have "\<dots> \<longleftrightarrow> unat (drop_bit i n) \<noteq> 0" by (simp add: unat_eq_0)
  also have "\<dots> \<longleftrightarrow> 2 ^ i \<le> unat n"
    by (subst unat_drop_bit_eq) (simp add: drop_bit_eq_div div_eq_0_iff not_less)
  finally show ?thesis .
qed

lemma nextPowerOfTwo_le:
  assumes "n \<noteq> 0" and "unat n \<le> 2 ^ 63"
  obtains k where "k \<le> 63" "nextPowerOfTwo n = 2 ^ k" "unat n \<le> 2 ^ k" "k = 0 \<or> 2 ^ (k - 1) < unat n"
proof -
  define m where "m = unat n - 1"
  have m: "unat (n - 1) = m" using assms(1) by (simp add: m_def unat_minus_one)
  have pos: "0 < unat n" using assms(1) by (simp add: unat_gt_0)
  define k where "k = (LEAST k. m < 2 ^ k)"
  have ex: "m < 2 ^ m" by (rule less_exp)
  have lt: "m < 2 ^ k" unfolding k_def using ex by (rule LeastI)
  have least: "i < k \<Longrightarrow> 2 ^ i \<le> m" for i unfolding k_def by (metis not_less_Least not_less)
  have "m < 2 ^ 63" using assms(2) pos by (simp add: m_def)
  then have k63: "k \<le> 63" unfolding k_def by (rule Least_le)
  have iff: "2 ^ i \<le> m \<longleftrightarrow> i < k" for i
    using least [of i] lt by (metis not_less order.strict_trans2 power_increasing_iff one_less_numeral_iff semiring_norm(76) not_le)
  have "nextPowerOfTwo n = mask k + 1"
  proof -
    have "(let n = n - 1; n = n OR drop_bit 1 n; n = n OR drop_bit 2 n; n = n OR drop_bit 4 n;
       n = n OR drop_bit 8 n; n = n OR drop_bit 16 n in n OR drop_bit 32 n) = mask k" (is "?x = _")
    proof (rule bit_word_eqI)
      fix i assume "i < LENGTH(64)"
      then show "bit ?x i = bit (mask k :: u64) i"
        using smear_bits [of "n - 1" i] iff [of i] m by (simp add: Let_def bit_mask_iff)
    qed
    with assms(1) show ?thesis by (simp add: nextPowerOfTwo_def Let_def)
  qed
  then have "nextPowerOfTwo n = 2 ^ k" by (simp add: mask_eq_exp_minus_1)
  moreover have "unat n \<le> 2 ^ k" using lt pos by (simp add: m_def)
  moreover have "k = 0 \<or> 2 ^ (k - 1) < unat n" using least [of "k - 1"] pos unfolding m_def by (cases k) auto
  ultimately show ?thesis using that k63 by blast
qed

section \<open>State and operations\<close>

record 'a SPSCRingQueue =
  sq_capacity :: u64
  sq_mask :: u64
  sq_buffer :: "'a list"
  sq_head :: "u64 list"
  sq_tail :: "u64 list"

definition SPSCRingQueue_ctor :: "'a \<Rightarrow> u64 \<Rightarrow> 'a SPSCRingQueue" where
  "SPSCRingQueue_ctor dflt capacity =
     (let c = nextPowerOfTwo capacity
      in \<lparr> sq_capacity = c, sq_mask = c - 1, sq_buffer = replicate (unat c) dflt, sq_head = [0], sq_tail = [0] \<rparr>)"

text \<open>The steps of \<open>push\<close>: the positions, the comparison, the element, the new tail.\<close>

definition push_positions :: "'a SPSCRingQueue \<Rightarrow> u64 \<times> u64" where
  "push_positions q = (let currentTail = last (sq_tail q) in (currentTail, (currentTail + 1) AND sq_mask q))"

definition push_element :: "u64 \<Rightarrow> 'a \<Rightarrow> 'a SPSCRingQueue \<Rightarrow> 'a SPSCRingQueue" where
  "push_element currentTail v q = q\<lparr>sq_buffer := (sq_buffer q)[unat currentTail := v]\<rparr>"

definition push_publish :: "u64 \<Rightarrow> 'a SPSCRingQueue \<Rightarrow> 'a SPSCRingQueue" where
  "push_publish nextTail q = q\<lparr>sq_tail := sq_tail q @ [nextTail]\<rparr>"

definition sq_push :: "'a \<Rightarrow> 'a SPSCRingQueue \<Rightarrow> bool \<times> 'a SPSCRingQueue" where
  "sq_push v q =
     (let (currentTail, nextTail) = push_positions q
      in if nextTail = last (sq_head q) then (False, q)
         else (True, push_publish nextTail (push_element currentTail v q)))"

text \<open>The steps of \<open>pop\<close>. What moving an element out leaves behind is not specified: \<open>residue\<close>.\<close>

definition pop_element :: "u64 \<Rightarrow> 'a \<Rightarrow> 'a SPSCRingQueue \<Rightarrow> 'a \<times> 'a SPSCRingQueue" where
  "pop_element currentHead residue q =
     (sq_buffer q ! unat currentHead, q\<lparr>sq_buffer := (sq_buffer q)[unat currentHead := residue]\<rparr>)"

definition pop_publish :: "u64 \<Rightarrow> 'a SPSCRingQueue \<Rightarrow> 'a SPSCRingQueue" where
  "pop_publish currentHead q = q\<lparr>sq_head := sq_head q @ [(currentHead + 1) AND sq_mask q]\<rparr>"

definition sq_pop :: "'a \<Rightarrow> 'a SPSCRingQueue \<Rightarrow> 'a option \<times> 'a SPSCRingQueue" where
  "sq_pop residue q =
     (let currentHead = last (sq_head q)
      in if currentHead = last (sq_tail q) then (None, q)
         else let (v, q) = pop_element currentHead residue q in (Some v, pop_publish currentHead q))"

definition sq_empty :: "'a SPSCRingQueue \<Rightarrow> bool" where
  "sq_empty q \<longleftrightarrow> last (sq_head q) = last (sq_tail q)"

definition sq_capacity_of :: "'a SPSCRingQueue \<Rightarrow> u64" where
  "sq_capacity_of q = sq_capacity q - 1"

section \<open>One producer and one consumer\<close>

datatype 'a producer = Pidle | Pcheck 'a u64 u64 | Pwrite 'a u64 u64 | Ppublish 'a u64

datatype 'a consumer = Cidle | Ccheck u64 | Cread u64 | Cpublish 'a u64

text \<open>
  The queue, where the two threads are, the newest index into the other's stores each has seen, and
  what was pushed with success and delivered so far.
\<close>

record 'a spsc =
  sp_queue :: "'a SPSCRingQueue"
  sp_prod :: "'a producer"
  sp_cons :: "'a consumer"
  sp_head_seen :: nat
  sp_tail_seen :: nat
  sp_pushed :: "'a list"
  sp_popped :: "'a list"

definition spsc_init :: "'a \<Rightarrow> u64 \<Rightarrow> 'a spsc" where
  "spsc_init dflt capacity = \<lparr> sp_queue = SPSCRingQueue_ctor dflt capacity, sp_prod = Pidle, sp_cons = Cidle,
     sp_head_seen = 0, sp_tail_seen = 0, sp_pushed = [], sp_popped = [] \<rparr>"

inductive spsc_step :: "'a spsc \<Rightarrow> 'a spsc \<Rightarrow> bool" where
  push_start: "sp_prod s = Pidle \<Longrightarrow> push_positions (sp_queue s) = (ct, nt) \<Longrightarrow>
    spsc_step s (s\<lparr>sp_prod := Pcheck v ct nt\<rparr>)"
| push_check: "sp_prod s = Pcheck v ct nt \<Longrightarrow> sp_head_seen s \<le> j \<Longrightarrow> j < length (sq_head (sp_queue s)) \<Longrightarrow>
    spsc_step s (s\<lparr>sp_head_seen := j,
      sp_prod := (if nt = sq_head (sp_queue s) ! j then Pidle else Pwrite v ct nt)\<rparr>)"
| push_write: "sp_prod s = Pwrite v ct nt \<Longrightarrow>
    spsc_step s (s\<lparr>sp_queue := push_element ct v (sp_queue s), sp_prod := Ppublish v nt\<rparr>)"
| push_finish: "sp_prod s = Ppublish v nt \<Longrightarrow>
    spsc_step s (s\<lparr>sp_queue := push_publish nt (sp_queue s), sp_prod := Pidle, sp_pushed := sp_pushed s @ [v]\<rparr>)"
| pop_start: "sp_cons s = Cidle \<Longrightarrow>
    spsc_step s (s\<lparr>sp_cons := Ccheck (last (sq_head (sp_queue s)))\<rparr>)"
| pop_check: "sp_cons s = Ccheck ch \<Longrightarrow> sp_tail_seen s \<le> j \<Longrightarrow> j < length (sq_tail (sp_queue s)) \<Longrightarrow>
    spsc_step s (s\<lparr>sp_tail_seen := j,
      sp_cons := (if ch = sq_tail (sp_queue s) ! j then Cidle else Cread ch)\<rparr>)"
| pop_read: "sp_cons s = Cread ch \<Longrightarrow> pop_element ch residue (sp_queue s) = (v, q) \<Longrightarrow>
    spsc_step s (s\<lparr>sp_queue := q, sp_cons := Cpublish v ch\<rparr>)"
| pop_finish: "sp_cons s = Cpublish v ch \<Longrightarrow>
    spsc_step s (s\<lparr>sp_queue := pop_publish ch (sp_queue s), sp_cons := Cidle, sp_popped := sp_popped s @ [v]\<rparr>)"

inductive_cases spsc_stepE: "spsc_step s t"

section \<open>The invariant\<close>

text \<open>The position of the i-th element ever pushed in a ring of \<open>2 ^ k\<close> elements.\<close>

definition rpos :: "nat \<Rightarrow> nat \<Rightarrow> u64" where
  "rpos k i = take_bit k (word_of_nat i)"

lemma unat_rpos [simp]: "k \<le> 63 \<Longrightarrow> unat (rpos k i) = i mod 2 ^ k"
proof -
  assume "k \<le> 63"
  then have "take_bit k (take_bit 64 i) = take_bit k i" by (simp add: min_def)
  then have "unat (rpos k i) = take_bit k i" by (simp add: rpos_def unsigned_take_bit_eq unsigned_of_nat)
  then show ?thesis by (simp add: take_bit_eq_mod)
qed

lemma rpos_Suc:
  assumes "k \<le> 63"
  shows "(rpos k i + 1) AND mask k = rpos k (Suc i)"
proof -
  have "(2 :: nat) ^ k dvd 2 ^ 64" using assms by (intro le_imp_power_dvd) simp
  then have "(Suc (i mod 2 ^ k) mod 2 ^ 64) mod 2 ^ k = Suc i mod 2 ^ k"
    by (simp only: mod_mod_cancel mod_Suc_eq)
  then have "unat (take_bit k (rpos k i + 1)) = unat (rpos k (Suc i))"
    using assms by (simp add: unsigned_take_bit_eq take_bit_eq_mod [where 'a = nat] unat_word_ariths)
  then show ?thesis by (simp add: take_bit_eq_mask word_unat_eq_iff)
qed

lemma rpos_eq_iff: "k \<le> 63 \<Longrightarrow> rpos k i = rpos k j \<longleftrightarrow> i mod 2 ^ k = j mod 2 ^ k"
  by (metis unat_rpos word_unat_eq_iff)

lemma mod_distinct: "a < b \<Longrightarrow> b < a + c \<Longrightarrow> a mod c \<noteq> b mod (c :: nat)"
proof
  assume "a < b" "b < a + c" "a mod c = b mod c"
  then have "c dvd b - a" by (metis mod_eq_dvd_iff_nat less_imp_le)
  then have "c \<le> b - a" using \<open>a < b\<close> by (intro dvd_imp_le) auto
  with \<open>a < b\<close> \<open>b < a + c\<close> show False by linarith
qed

lemma rpos_distinct: "k \<le> 63 \<Longrightarrow> a < b \<Longrightarrow> b < a + 2 ^ k \<Longrightarrow> rpos k a \<noteq> rpos k b"
  by (simp add: rpos_eq_iff mod_distinct)

fun prod_inv :: "nat \<Rightarrow> 'a spsc \<Rightarrow> 'a producer \<Rightarrow> bool" where
  "prod_inv k s Pidle \<longleftrightarrow> True"
| "prod_inv k s (Pcheck v ct nt) \<longleftrightarrow> ct = rpos k (length (sp_pushed s)) \<and> nt = rpos k (Suc (length (sp_pushed s)))"
| "prod_inv k s (Pwrite v ct nt) \<longleftrightarrow> ct = rpos k (length (sp_pushed s)) \<and> nt = rpos k (Suc (length (sp_pushed s))) \<and>
     Suc (length (sp_pushed s)) < sp_head_seen s + 2 ^ k"
| "prod_inv k s (Ppublish v nt) \<longleftrightarrow> nt = rpos k (Suc (length (sp_pushed s))) \<and>
     Suc (length (sp_pushed s)) < sp_head_seen s + 2 ^ k \<and> sq_buffer (sp_queue s) ! (length (sp_pushed s) mod 2 ^ k) = v"

fun cons_inv :: "nat \<Rightarrow> 'a spsc \<Rightarrow> 'a consumer \<Rightarrow> bool" where
  "cons_inv k s Cidle \<longleftrightarrow> True"
| "cons_inv k s (Ccheck ch) \<longleftrightarrow> ch = rpos k (length (sp_popped s))"
| "cons_inv k s (Cread ch) \<longleftrightarrow> ch = rpos k (length (sp_popped s)) \<and> length (sp_popped s) < sp_tail_seen s"
| "cons_inv k s (Cpublish v ch) \<longleftrightarrow> ch = rpos k (length (sp_popped s)) \<and> length (sp_popped s) < sp_tail_seen s \<and>
     v = sp_pushed s ! length (sp_popped s)"

text \<open>The oldest element that is still in the ring.\<close>

definition oldest :: "'a spsc \<Rightarrow> nat" where
  "oldest s = (case sp_cons s of Cpublish v ch \<Rightarrow> Suc (length (sp_popped s)) | _ \<Rightarrow> length (sp_popped s))"

definition ring_inv :: "nat \<Rightarrow> 'a spsc \<Rightarrow> bool" where
  "ring_inv k s \<longleftrightarrow> sq_mask (sp_queue s) = mask k \<and> length (sq_buffer (sp_queue s)) = 2 ^ k \<and>
     sq_head (sp_queue s) = map (rpos k) [0..<Suc (length (sp_popped s))] \<and>
     sq_tail (sp_queue s) = map (rpos k) [0..<Suc (length (sp_pushed s))] \<and>
     (\<forall>i. oldest s \<le> i \<longrightarrow> i < length (sp_pushed s) \<longrightarrow> sq_buffer (sp_queue s) ! (i mod 2 ^ k) = sp_pushed s ! i)"

definition seen_inv :: "nat \<Rightarrow> 'a spsc \<Rightarrow> bool" where
  "seen_inv k s \<longleftrightarrow> sp_head_seen s \<le> length (sp_popped s) \<and> length (sp_pushed s) < sp_head_seen s + 2 ^ k \<and>
     length (sp_popped s) \<le> sp_tail_seen s \<and> sp_tail_seen s \<le> length (sp_pushed s) \<and> prefix (sp_popped s) (sp_pushed s)"

definition spsc_inv :: "nat \<Rightarrow> 'a spsc \<Rightarrow> bool" where
  "spsc_inv k s \<longleftrightarrow> k \<le> 63 \<and> ring_inv k s \<and> seen_inv k s \<and> prod_inv k s (sp_prod s) \<and> cons_inv k s (sp_cons s)"

lemmas spsc_inv_defs = spsc_inv_def ring_inv_def seen_inv_def oldest_def

lemmas spsc_op_defs = push_positions_def push_element_def push_publish_def pop_element_def pop_publish_def

lemma spsc_inv_init:
  assumes "unat n \<le> 2 ^ 63"
  shows "\<exists>k. spsc_inv k (spsc_init d n) \<and> nextPowerOfTwo n = 2 ^ k"
proof -
  obtain k where k: "k \<le> 63" "nextPowerOfTwo n = 2 ^ k"
  proof (cases "n = 0")
    case True
    with that [of 0] show ?thesis by (simp add: nextPowerOfTwo_def)
  qed (use nextPowerOfTwo_le assms that in metis)
  have "unat (2 ^ k :: u64) = 2 ^ k" 
  proof -
    have "(2 :: nat) ^ k \<le> 2 ^ 63" using k(1) by (intro power_increasing) auto
    then show ?thesis using unat_word_of_nat [of "2 ^ k", where ?'a = 64] by simp
  qed
  then have "spsc_inv k (spsc_init d n)"
    using k by (simp add: spsc_inv_defs spsc_init_def SPSCRingQueue_ctor_def Let_def mask_eq_exp_minus_1 rpos_def)
  with k show ?thesis by blast
qed

lemma spsc_invD:
  assumes "spsc_inv k s"
  shows "k \<le> 63" "ring_inv k s" "seen_inv k s" "prod_inv k s (sp_prod s)" "cons_inv k s (sp_cons s)"
    "last (sq_head (sp_queue s)) = rpos k (length (sp_popped s))"
    "last (sq_tail (sp_queue s)) = rpos k (length (sp_pushed s))"
    "length (sp_pushed s) < length (sp_popped s) + 2 ^ k"
  using assms by (auto simp: spsc_inv_defs)

text \<open>Each thread's assertion is independent of what only the other one changes.\<close>

lemma cons_inv_frame [simp]:
  "cons_inv k (s\<lparr>sp_queue := q\<rparr>) c = cons_inv k s c" "cons_inv k (s\<lparr>sp_prod := p\<rparr>) c = cons_inv k s c"
  "cons_inv k (s\<lparr>sp_head_seen := j\<rparr>) c = cons_inv k s c" "cons_inv k (s\<lparr>sp_cons := d\<rparr>) c = cons_inv k s c"
  by (cases c; simp)+

lemma prod_inv_frame [simp]:
  "prod_inv k (s\<lparr>sp_cons := c\<rparr>) p = prod_inv k s p" "prod_inv k (s\<lparr>sp_popped := xs\<rparr>) p = prod_inv k s p"
  "prod_inv k (s\<lparr>sp_tail_seen := j\<rparr>) p = prod_inv k s p" "prod_inv k (s\<lparr>sp_prod := r\<rparr>) p = prod_inv k s p"
  by (cases p; simp)+

lemma cons_inv_pushed:
  "cons_inv k s c \<Longrightarrow> sp_tail_seen s \<le> length (sp_pushed s) \<Longrightarrow> cons_inv k (s\<lparr>sp_pushed := sp_pushed s @ [v]\<rparr>) c"
  by (cases c) (auto simp: nth_append)

lemma oldest_frame [simp]:
  "oldest (s\<lparr>sp_queue := q\<rparr>) = oldest s" "oldest (s\<lparr>sp_prod := p\<rparr>) = oldest s"
  "oldest (s\<lparr>sp_head_seen := i\<rparr>) = oldest s" "oldest (s\<lparr>sp_tail_seen := i\<rparr>) = oldest s"
  "oldest (s\<lparr>sp_pushed := xs\<rparr>) = oldest s"
  by (simp_all add: oldest_def split: consumer.split)

lemma oldest_ge: "length (sp_popped s) \<le> oldest s"
  by (simp add: oldest_def split: consumer.split)

lemma inv_push_start:
  "spsc_inv k s \<Longrightarrow> push_positions (sp_queue s) = (ct, nt) \<Longrightarrow> spsc_inv k (s\<lparr>sp_prod := Pcheck v ct nt\<rparr>)"
proof -
  assume i: "spsc_inv k s" and p: "push_positions (sp_queue s) = (ct, nt)"
  note d = spsc_invD [OF i]
  have "sq_mask (sp_queue s) = mask k" using d(2) by (simp only: ring_inv_def)
  then have "ct = rpos k (length (sp_pushed s))" "nt = rpos k (Suc (length (sp_pushed s)))"
    using p d(7) rpos_Suc [OF d(1)] by (auto simp only: push_positions_def Let_def Pair_inject)
  with d(1,2,3,5) show ?thesis by (simp add: spsc_inv_def ring_inv_def seen_inv_def)
qed

lemma inv_push_check:
  assumes "spsc_inv k s" "sp_prod s = Pcheck v ct nt" "sp_head_seen s \<le> j" "j < length (sq_head (sp_queue s))"
  shows "spsc_inv k (s\<lparr>sp_head_seen := j, sp_prod := (if nt = sq_head (sp_queue s) ! j then Pidle else Pwrite v ct nt)\<rparr>)"
proof -
  note d = spsc_invD [OF assms(1)]
  have j: "j \<le> length (sp_popped s)" using assms(4) d(2) by (simp add: ring_inv_def)
  have h: "sq_head (sp_queue s) ! j = rpos k j"
    using d(2) j by (simp add: ring_inv_def del: upt_Suc)
  have p: "ct = rpos k (length (sp_pushed s))" "nt = rpos k (Suc (length (sp_pushed s)))"
    using d(4) assms(2) by simp_all
  have lt: "length (sp_pushed s) < j + 2 ^ k" using d(3) assms(3) by (simp add: seen_inv_def)
  have "Suc (length (sp_pushed s)) < j + 2 ^ k" if "nt \<noteq> rpos k j"
  proof (rule ccontr)
    assume "\<not> ?thesis"
    with lt have "Suc (length (sp_pushed s)) = j + 2 ^ k" by simp
    with that p(2) d(1) show False by (simp add: rpos_eq_iff)
  qed
  with d(1,2,3,5) h j lt p show ?thesis by (simp add: spsc_inv_def ring_inv_def seen_inv_def)
qed

lemma inv_push_write:
  assumes "spsc_inv k s" "sp_prod s = Pwrite v ct nt"
  shows "spsc_inv k (s\<lparr>sp_queue := push_element ct v (sp_queue s), sp_prod := Ppublish v nt\<rparr>)"
proof -
  note d = spsc_invD [OF assms(1)]
  have p: "ct = rpos k (length (sp_pushed s))" "nt = rpos k (Suc (length (sp_pushed s)))"
    "Suc (length (sp_pushed s)) < sp_head_seen s + 2 ^ k" using d(4) assms(2) by auto
  have "sq_buffer (push_element ct v (sp_queue s)) ! (i mod 2 ^ k) = sp_pushed s ! i"
    if i: "oldest s \<le> i" "i < length (sp_pushed s)" for i
  proof -
    have "i mod 2 ^ k \<noteq> length (sp_pushed s) mod 2 ^ k"
      using i oldest_ge [of s] d(8) by (intro mod_distinct) auto
    with d(1,2) i show ?thesis by (simp add: ring_inv_def push_element_def p(1))
  qed
  with d(1,2,3,5) p show ?thesis by (simp add: spsc_inv_def ring_inv_def seen_inv_def push_element_def)
qed

lemma inv_push_finish:
  assumes "spsc_inv k s" "sp_prod s = Ppublish v nt"
  shows "spsc_inv k (s\<lparr>sp_queue := push_publish nt (sp_queue s), sp_prod := Pidle, sp_pushed := sp_pushed s @ [v]\<rparr>)"
proof -
  note d = spsc_invD [OF assms(1)]
  have p: "nt = rpos k (Suc (length (sp_pushed s)))" "Suc (length (sp_pushed s)) < sp_head_seen s + 2 ^ k"
    "sq_buffer (sp_queue s) ! (length (sp_pushed s) mod 2 ^ k) = v" using d(4) assms(2) by auto
  have "cons_inv k (s\<lparr>sp_pushed := sp_pushed s @ [v]\<rparr>) (sp_cons s)"
    using d(3,5) by (intro cons_inv_pushed) (simp_all add: seen_inv_def)
  then have "cons_inv k (s\<lparr>sp_queue := push_publish nt (sp_queue s), sp_prod := Pidle, sp_pushed := sp_pushed s @ [v]\<rparr>) (sp_cons s)"
    by (cases "sp_cons s") simp_all
  moreover have "ring_inv k (s\<lparr>sp_queue := push_publish nt (sp_queue s), sp_prod := Pidle, sp_pushed := sp_pushed s @ [v]\<rparr>)"
    using d(2) p(1,3) by (simp add: ring_inv_def push_publish_def nth_append less_Suc_eq)
  ultimately show ?thesis
    using d(1,3) p(2) by (simp add: spsc_inv_def seen_inv_def)
qed

lemma inv_pop_start: "spsc_inv k s \<Longrightarrow> sp_cons s = Cidle \<Longrightarrow> spsc_inv k (s\<lparr>sp_cons := Ccheck (last (sq_head (sp_queue s)))\<rparr>)"
proof -
  assume i: "spsc_inv k s" and c: "sp_cons s = Cidle"
  from spsc_invD [OF i] c show ?thesis by (simp add: spsc_inv_def ring_inv_def seen_inv_def oldest_def)
qed

lemma inv_pop_check:
  assumes "spsc_inv k s" "sp_cons s = Ccheck ch" "sp_tail_seen s \<le> j" "j < length (sq_tail (sp_queue s))"
  shows "spsc_inv k (s\<lparr>sp_tail_seen := j, sp_cons := (if ch = sq_tail (sp_queue s) ! j then Cidle else Cread ch)\<rparr>)"
proof -
  note d = spsc_invD [OF assms(1)]
  have j: "j \<le> length (sp_pushed s)" using assms(4) d(2) by (simp add: ring_inv_def)
  have "sq_tail (sp_queue s) ! j = rpos k j" using d(2) j by (simp add: ring_inv_def del: upt_Suc)
  moreover have "ch = rpos k (length (sp_popped s))" using d(5) assms(2) by simp
  moreover have "length (sp_popped s) \<le> j" using d(3) assms(3) by (simp add: seen_inv_def)
  ultimately show ?thesis
    using d(1-4) assms(2) j
    by (cases "j = length (sp_popped s)") (auto simp: spsc_inv_def ring_inv_def seen_inv_def oldest_def)
qed

lemma inv_pop_read:
  assumes "spsc_inv k s" "sp_cons s = Cread ch" "pop_element ch residue (sp_queue s) = (v, q)"
  shows "spsc_inv k (s\<lparr>sp_queue := q, sp_cons := Cpublish v ch\<rparr>)"
proof -
  note d = spsc_invD [OF assms(1)]
  let ?H = "length (sp_popped s)"
  have c: "ch = rpos k ?H" "?H < sp_tail_seen s" "?H < length (sp_pushed s)"
    using d(3,5) assms(2) by (auto simp: seen_inv_def)
  have q: "v = sq_buffer (sp_queue s) ! (?H mod 2 ^ k)"
    "q = (sp_queue s)\<lparr>sq_buffer := (sq_buffer (sp_queue s))[?H mod 2 ^ k := residue]\<rparr>"
    using assms(3) d(1) by (auto simp: pop_element_def c(1))
  have v: "v = sp_pushed s ! ?H" using d(2) c(3) assms(2) by (simp add: q(1) ring_inv_def oldest_def)
  have other: "sq_buffer q ! (i mod 2 ^ k) = sq_buffer (sp_queue s) ! (i mod 2 ^ k)"
    if "?H < i" "i < ?H + 2 ^ k" for i
    using mod_distinct [OF that] by (simp add: q(2))
  have "prod_inv k (s\<lparr>sp_queue := q\<rparr>) (sp_prod s)"
    using d(4,8) c(3) other by (cases "sp_prod s") auto
  moreover have "ring_inv k (s\<lparr>sp_queue := q, sp_cons := Cpublish v ch\<rparr>)"
    using d(2,8) other assms(2) by (auto simp: ring_inv_def oldest_def q(2))
  ultimately show ?thesis
    using d(1,3) c v by (cases "sp_prod s") (auto simp: spsc_inv_def seen_inv_def)
qed

lemma inv_pop_finish:
  assumes "spsc_inv k s" "sp_cons s = Cpublish v ch"
  shows "spsc_inv k (s\<lparr>sp_queue := pop_publish ch (sp_queue s), sp_cons := Cidle, sp_popped := sp_popped s @ [v]\<rparr>)"
proof -
  note d = spsc_invD [OF assms(1)]
  have c: "ch = rpos k (length (sp_popped s))" "length (sp_popped s) < sp_tail_seen s"
    "v = sp_pushed s ! length (sp_popped s)" "length (sp_popped s) < length (sp_pushed s)"
    using d(3,5) assms(2) by (auto simp: seen_inv_def)
  have "prefix (sp_popped s @ [v]) (sp_pushed s)"
    using append_one_prefix [of "sp_popped s" "sp_pushed s"] d(3) c by (simp add: seen_inv_def)
  moreover have "prod_inv k (s\<lparr>sp_queue := pop_publish ch (sp_queue s)\<rparr>) (sp_prod s)"
    using d(4) by (cases "sp_prod s") (auto simp: pop_publish_def)
  moreover have "ring_inv k (s\<lparr>sp_queue := pop_publish ch (sp_queue s), sp_cons := Cidle, sp_popped := sp_popped s @ [v]\<rparr>)"
  proof -
    have "sq_mask (sp_queue s) = mask k" using d(2) by (simp only: ring_inv_def)
    then have "pop_publish ch (sp_queue s) = (sp_queue s)\<lparr>sq_head := sq_head (sp_queue s) @ [rpos k (Suc (length (sp_popped s)))]\<rparr>"
      by (simp only: pop_publish_def c(1) rpos_Suc [OF d(1)])
    with d(2) assms(2) show ?thesis by (simp add: ring_inv_def oldest_def)
  qed
  moreover have "sp_head_seen s \<le> length (sp_popped s)" "sp_tail_seen s \<le> length (sp_pushed s)"
    "length (sp_pushed s) < sp_head_seen s + 2 ^ k" using d(3) by (simp_all add: seen_inv_def)
  ultimately show ?thesis
    using d(1) c(2) by (simp add: spsc_inv_def seen_inv_def)
qed

lemma spsc_inv_step: "spsc_step s t \<Longrightarrow> spsc_inv k s \<Longrightarrow> spsc_inv k t"
  by (induction rule: spsc_step.induct)
    (blast intro: inv_push_start inv_push_check inv_push_write inv_push_finish
       inv_pop_start inv_pop_check inv_pop_read inv_pop_finish)+

interpretation spsc: invariant_system "\<lambda>s. \<exists>d n. unat n \<le> 2 ^ 63 \<and> s = spsc_init d n" spsc_step "\<lambda>s. \<exists>k. spsc_inv k s"
proof
  fix s :: "'a spsc"
  assume "\<exists>d n. unat n \<le> 2 ^ 63 \<and> s = spsc_init d n"
  then obtain d n where n: "unat n \<le> 2 ^ 63" "s = spsc_init d n" by (elim exE conjE)
  from spsc_inv_init [OF n(1), of d] show "\<exists>k. spsc_inv k s" unfolding n(2) by (elim exE conjE) (rule exI)
next
  fix s t :: "'a spsc"
  assume "\<exists>k. spsc_inv k s" and st: "spsc_step s t"
  then obtain k where "spsc_inv k s" by (elim exE)
  from spsc_inv_step [OF st this] show "\<exists>k. spsc_inv k t" by (rule exI)
qed

section \<open>Sequential use: a bounded FIFO\<close>

text \<open>Between operations, a queue of capacity \<open>2 ^ k\<close> that has seen h pops and t pushes.\<close>

definition sq_shape :: "nat \<Rightarrow> nat \<Rightarrow> nat \<Rightarrow> 'a SPSCRingQueue \<Rightarrow> bool" where
  "sq_shape k h t q \<longleftrightarrow> k \<le> 63 \<and> sq_mask q = mask k \<and> length (sq_buffer q) = 2 ^ k \<and> h \<le> t \<and> t < h + 2 ^ k \<and>
     last (sq_head q) = rpos k h \<and> last (sq_tail q) = rpos k t"

definition sq_slots :: "nat \<Rightarrow> nat \<Rightarrow> nat \<Rightarrow> 'a SPSCRingQueue \<Rightarrow> 'a list" where
  "sq_slots k h t q = map (\<lambda>i. sq_buffer q ! (i mod 2 ^ k)) [h..<t]"

lemma sq_push_shape:
  assumes "sq_shape k h t q"
  shows "sq_push v q = (if Suc t < h + 2 ^ k
      then (True, push_publish (rpos k (Suc t)) (push_element (rpos k t) v q)) else (False, q))"
proof -
  have s: "k \<le> 63" "h \<le> t" "t < h + 2 ^ k" "last (sq_head q) = rpos k h" "last (sq_tail q) = rpos k t"
    "sq_mask q = mask k" using assms unfolding sq_shape_def by blast+
  have "push_positions q = (rpos k t, rpos k (Suc t))"
    by (simp only: push_positions_def Let_def s rpos_Suc [OF s(1)])
  moreover have "rpos k (Suc t) = rpos k h \<longleftrightarrow> \<not> Suc t < h + 2 ^ k"
  proof (cases "Suc t < h + 2 ^ k")
    case True
    with rpos_distinct [OF s(1), of h "Suc t"] s(2) show ?thesis by auto
  next
    case False
    then have "Suc t = h + 2 ^ k" using s(3) by simp
    with False show ?thesis by (simp add: rpos_eq_iff [OF s(1)])
  qed
  ultimately show ?thesis by (auto simp: sq_push_def s(4))
qed

lemma sq_push_slots:
  assumes "sq_shape k h t q" and "Suc t < h + 2 ^ k"
  shows "sq_shape k h (Suc t) (snd (sq_push v q))" "sq_slots k h (Suc t) (snd (sq_push v q)) = sq_slots k h t q @ [v]"
proof -
  let ?q = "push_publish (rpos k (Suc t)) (push_element (rpos k t) v q)"
  have k: "k \<le> 63" "length (sq_buffer q) = 2 ^ k" "h \<le> t" using assms(1) unfolding sq_shape_def by blast+
  have p: "snd (sq_push v q) = ?q" using sq_push_shape [OF assms(1)] assms(2) by simp
  show "sq_shape k h (Suc t) (snd (sq_push v q))"
    using assms unfolding p by (simp add: sq_shape_def push_publish_def push_element_def)
  have "sq_buffer ?q ! (i mod 2 ^ k) = sq_buffer q ! (i mod 2 ^ k)" if "h \<le> i" "i < t" for i
    using mod_distinct [of i t "2 ^ k"] that assms(2) k by (simp add: push_publish_def push_element_def)
  moreover have "sq_buffer ?q ! (t mod 2 ^ k) = v" using k by (simp add: push_publish_def push_element_def)
  ultimately show "sq_slots k h (Suc t) (snd (sq_push v q)) = sq_slots k h t q @ [v]"
    using k(3) unfolding p by (simp add: sq_slots_def)
qed

lemma sq_pop_slots:
  assumes "sq_shape k h t q"
  shows "sq_pop residue q = (if h < t
      then (Some (sq_buffer q ! (h mod 2 ^ k)), pop_publish (rpos k h) (snd (pop_element (rpos k h) residue q))) else (None, q))"
    "h < t \<Longrightarrow> sq_shape k (Suc h) t (snd (sq_pop residue q))"
    "h < t \<Longrightarrow> sq_slots k (Suc h) t (snd (sq_pop residue q)) = tl (sq_slots k h t q)"
proof -
  have s: "k \<le> 63" "h \<le> t" "t < h + 2 ^ k" "last (sq_head q) = rpos k h" "last (sq_tail q) = rpos k t"
    "sq_mask q = mask k" "length (sq_buffer q) = 2 ^ k" using assms unfolding sq_shape_def by blast+
  let ?q = "pop_publish (rpos k h) (snd (pop_element (rpos k h) residue q))"
  have "rpos k h = rpos k t \<longleftrightarrow> \<not> h < t" using rpos_distinct [OF s(1), of h t] s(2,3) by (cases "h = t") auto
  then show p: "sq_pop residue q = (if h < t then (Some (sq_buffer q ! (h mod 2 ^ k)), ?q) else (None, q))"
    using s(1) by (auto simp: sq_pop_def Let_def s(4,5) pop_element_def)
  have "sq_mask (snd (pop_element (rpos k h) residue q)) = mask k" by (simp add: pop_element_def s(6))
  then have head: "sq_head ?q = sq_head q @ [rpos k (Suc h)]"
    by (simp only: pop_publish_def rpos_Suc [OF s(1)]) (simp add: pop_element_def)
  show "sq_shape k (Suc h) t (snd (sq_pop residue q))" if "h < t"
    using s that p head by (simp add: sq_shape_def) (simp add: pop_publish_def pop_element_def)
  have "sq_buffer ?q ! (i mod 2 ^ k) = sq_buffer q ! (i mod 2 ^ k)" if "h < i" "i < t" for i
    using mod_distinct [of h i "2 ^ k"] that s by (simp add: pop_publish_def pop_element_def)
  then show "sq_slots k (Suc h) t (snd (sq_pop residue q)) = tl (sq_slots k h t q)" if "h < t"
    using that p by (simp add: sq_slots_def upt_conv_Cons)
qed

definition sq_popcount :: "'a SPSCRingQueue \<Rightarrow> nat" where
  "sq_popcount q = length (sq_head q) - 1"

definition sq_pushcount :: "'a SPSCRingQueue \<Rightarrow> nat" where
  "sq_pushcount q = length (sq_tail q) - 1"

definition sq_invar :: "'a SPSCRingQueue \<Rightarrow> bool" where
  "sq_invar q \<longleftrightarrow> sq_head q \<noteq> [] \<and> sq_tail q \<noteq> [] \<and> (\<exists>k. sq_shape k (sq_popcount q) (sq_pushcount q) q)"

definition sq_contents :: "'a SPSCRingQueue \<Rightarrow> 'a list" where
  "sq_contents q = map (\<lambda>i. sq_buffer q ! (i mod length (sq_buffer q))) [sq_popcount q..<sq_pushcount q]"

definition sq_room :: "'a SPSCRingQueue \<Rightarrow> bool" where
  "sq_room q \<longleftrightarrow> Suc (length (sq_contents q)) < length (sq_buffer q)"

lemma sq_contents_slots: "sq_shape k h t q \<Longrightarrow> sq_contents q = sq_slots k (sq_popcount q) (sq_pushcount q) q"
  by (simp add: sq_contents_def sq_slots_def sq_shape_def)

lemma sq_push_counts:
  "sq_head q \<noteq> [] \<Longrightarrow> sq_tail q \<noteq> [] \<Longrightarrow> q' = snd (sq_push v q) \<Longrightarrow>
     sq_head q' \<noteq> [] \<and> sq_tail q' \<noteq> [] \<and> sq_popcount q' = sq_popcount q \<and>
     sq_pushcount q' = (if fst (sq_push v q) then Suc (sq_pushcount q) else sq_pushcount q)"
  by (auto simp: sq_push_def push_publish_def push_element_def sq_popcount_def sq_pushcount_def
      case_prod_beta Let_def Suc_diff_Suc split: if_splits)

lemma sq_pop_counts:
  "sq_head q \<noteq> [] \<Longrightarrow> sq_tail q \<noteq> [] \<Longrightarrow> q' = snd (sq_pop residue q) \<Longrightarrow>
     sq_head q' \<noteq> [] \<and> sq_tail q' \<noteq> [] \<and> sq_pushcount q' = sq_pushcount q \<and>
     sq_popcount q' = (if fst (sq_pop residue q) = None then sq_popcount q else Suc (sq_popcount q))"
  by (auto simp: sq_pop_def pop_publish_def pop_element_def sq_popcount_def sq_pushcount_def
      case_prod_beta Let_def Suc_diff_Suc split: if_splits)

lemma sq_push_fifo:
  assumes "sq_invar q"
  shows "sq_invar (snd (sq_push v q)) \<and> fst (sq_push v q) = sq_room q \<and>
    sq_contents (snd (sq_push v q)) = (if sq_room q then sq_contents q @ [v] else sq_contents q)"
proof -
  obtain k where k: "sq_shape k (sq_popcount q) (sq_pushcount q) q" and ne: "sq_head q \<noteq> []" "sq_tail q \<noteq> []"
    using assms by (auto simp: sq_invar_def)
  let ?h = "sq_popcount q" and ?t = "sq_pushcount q"
  have room: "sq_room q \<longleftrightarrow> Suc ?t < ?h + 2 ^ k"
    using k by (auto simp: sq_room_def sq_contents_def sq_shape_def)
  note p = sq_push_shape [OF k, of v]
  show ?thesis
  proof (cases "Suc ?t < ?h + 2 ^ k")
    case True
    then have ok: "fst (sq_push v q)" using p by simp
    have c: "sq_head (snd (sq_push v q)) \<noteq> []" "sq_tail (snd (sq_push v q)) \<noteq> []"
      "sq_popcount (snd (sq_push v q)) = ?h" "sq_pushcount (snd (sq_push v q)) = Suc ?t"
      using sq_push_counts [OF ne refl, of v] ok by simp_all
    from sq_push_slots [OF k True, of v] c ok room True sq_contents_slots [OF k]
    show ?thesis by (auto simp: sq_invar_def sq_contents_slots)
  next
    case False
    with p room assms show ?thesis by simp
  qed
qed

lemma sq_pop_fifo:
  assumes "sq_invar q"
  shows "sq_invar (snd (sq_pop residue q)) \<and>
    fst (sq_pop residue q) = (case sq_contents q of [] \<Rightarrow> None | x # xs \<Rightarrow> Some x) \<and>
    sq_contents (snd (sq_pop residue q)) = tl (sq_contents q)"
proof -
  obtain k where k: "sq_shape k (sq_popcount q) (sq_pushcount q) q" and ne: "sq_head q \<noteq> []" "sq_tail q \<noteq> []"
    using assms by (auto simp: sq_invar_def)
  let ?h = "sq_popcount q" and ?t = "sq_pushcount q"
  note p = sq_pop_slots [OF k, of residue]
  show ?thesis
  proof (cases "?h < ?t")
    case True
    then have ok: "fst (sq_pop residue q) = Some (sq_buffer q ! (?h mod 2 ^ k))" using p(1) by simp
    have c: "sq_head (snd (sq_pop residue q)) \<noteq> []" "sq_tail (snd (sq_pop residue q)) \<noteq> []"
      "sq_popcount (snd (sq_pop residue q)) = Suc ?h" "sq_pushcount (snd (sq_pop residue q)) = ?t"
      using sq_pop_counts [OF ne refl, of residue] ok by simp_all
    have "sq_contents q = sq_buffer q ! (?h mod 2 ^ k) # sq_slots k (Suc ?h) ?t q"
      using True by (simp add: sq_contents_slots [OF k] sq_slots_def upt_conv_Cons)
    moreover from this sq_contents_slots [OF k] p(3) [OF True]
    have "sq_slots k (Suc ?h) ?t (snd (sq_pop residue q)) = sq_slots k (Suc ?h) ?t q" by simp
    ultimately show ?thesis using p(2) [OF True] c ok by (auto simp: sq_invar_def sq_contents_slots)
  next
    case False
    then have "sq_contents q = []" by (simp add: sq_contents_def)
    with False p(1) assms show ?thesis by simp
  qed
qed

interpretation sq: bounded_fifo sq_invar sq_contents sq_room sq_push "sq_pop residue" for residue
  by unfold_locales (simp_all add: sq_push_fifo sq_pop_fifo)

fun sq_push_all :: "'a list \<Rightarrow> 'a SPSCRingQueue \<Rightarrow> 'a SPSCRingQueue" where
  "sq_push_all [] q = q"
| "sq_push_all (x # xs) q = sq_push_all xs (snd (sq_push x q))"

lemma sq_push_buffer [simp]: "length (sq_buffer (snd (sq_push v q))) = length (sq_buffer q)"
  by (simp add: sq_push_def push_publish_def push_element_def case_prod_beta Let_def)

lemma sq_push_all_contents:
  "sq_invar q \<Longrightarrow> length (sq_contents q) < length (sq_buffer q) \<Longrightarrow>
     sq_contents (sq_push_all xs q) = take (length (sq_buffer q) - 1) (sq_contents q @ xs)"
proof (induction xs arbitrary: q)
  case Nil
  then show ?case by simp
next
  case (Cons x xs)
  note f = sq_push_fifo [OF Cons.prems(1), of x]
  show ?case
  proof (cases "sq_room q")
    case True
    then obtain m where "length (sq_buffer q) - Suc (length (sq_contents q)) = Suc m"
      by (metis Suc_diff_Suc sq_room_def)
    with True f Cons.IH [of "snd (sq_push x q)"] show ?thesis by (simp add: sq_room_def)
  next
    case False
    with Cons.prems(2) have "length (sq_contents q) = length (sq_buffer q) - 1" by (simp add: sq_room_def)
    with False f Cons.IH [of "snd (sq_push x q)"] Cons.prems(2) show ?thesis by simp
  qed
qed

lemma sq_ctor_shape:
  assumes "unat n \<le> 2 ^ 63"
  shows "sq_invar (SPSCRingQueue_ctor d n) \<and> sq_contents (SPSCRingQueue_ctor d n) = [] \<and>
    length (sq_buffer (SPSCRingQueue_ctor d n)) = unat (nextPowerOfTwo n) \<and> 0 < unat (nextPowerOfTwo n)"
proof -
  obtain k where k: "spsc_inv k (spsc_init d n)" using spsc_inv_init [OF assms, of d] by (elim exE conjE)
  have q: "sp_queue (spsc_init d n) = SPSCRingQueue_ctor d n" "sp_pushed (spsc_init d n) = []"
    "sp_popped (spsc_init d n) = []" by (simp_all add: spsc_init_def)
  have r: "sq_mask (SPSCRingQueue_ctor d n) = mask k" "length (sq_buffer (SPSCRingQueue_ctor d n)) = 2 ^ k"
    using spsc_invD(2) [OF k] by (simp_all add: ring_inv_def q)
  have c: "sq_head (SPSCRingQueue_ctor d n) = [0]" "sq_tail (SPSCRingQueue_ctor d n) = [0]"
    "length (sq_buffer (SPSCRingQueue_ctor d n)) = unat (nextPowerOfTwo n)"
    by (simp_all add: SPSCRingQueue_ctor_def Let_def)
  have "sq_shape k 0 0 (SPSCRingQueue_ctor d n)"
    using spsc_invD(1) [OF k] r c(1,2) by (simp add: sq_shape_def rpos_def)
  with r(2) c show ?thesis
    by (auto simp: sq_invar_def sq_contents_def sq_popcount_def sq_pushcount_def)
qed

section \<open>Properties\<close>

text \<open>C14: one producer and one consumer, interleaved in any way and with loads that may lag behind the
  other thread's stores: what was delivered is a prefix of what was pushed with success, the rest is in
  the ring and is less than the ring's size, the element positions are within the buffer, and the two
  threads never access the same element at the same time.\<close>

theorem SPSCRingQueue_concurrent:
  assumes "unat n \<le> 2 ^ 63" and "spsc_step\<^sup>*\<^sup>* (spsc_init d n) s"
  shows "prefix (sp_popped s) (sp_pushed s) \<and>
    length (sp_pushed s) - length (sp_popped s) < length (sq_buffer (sp_queue s)) \<and>
    (\<forall>v ct nt ch. sp_prod s = Pwrite v ct nt \<and> sp_cons s = Cread ch \<longrightarrow>
       unat ct < length (sq_buffer (sp_queue s)) \<and> unat ch < length (sq_buffer (sp_queue s)) \<and> ct \<noteq> ch)"
proof -
  have "\<exists>d' n'. unat n' \<le> 2 ^ 63 \<and> spsc_init d n = spsc_init d' n'"
    by (rule exI [of _ d], rule exI [of _ n], rule conjI [OF assms(1) refl])
  from spsc.Inv_reachable [OF this assms(2)] have "\<exists>k. spsc_inv k s" .
  then obtain k where k: "spsc_inv k s" ..
  note d = spsc_invD [OF k]
  have len: "length (sq_buffer (sp_queue s)) = 2 ^ k" and seen: "prefix (sp_popped s) (sp_pushed s)"
    "sp_tail_seen s \<le> length (sp_pushed s)" using d(2,3) by (simp_all add: ring_inv_def seen_inv_def)
  have "unat ct < 2 ^ k \<and> unat ch < 2 ^ k \<and> ct \<noteq> ch" if "sp_prod s = Pwrite v ct nt" "sp_cons s = Cread ch" for v ct nt ch
  proof -
    have "ct = rpos k (length (sp_pushed s))" "ch = rpos k (length (sp_popped s))"
      "length (sp_popped s) < length (sp_pushed s)" using d(4,5) that seen(2) by auto
    with d(8) rpos_distinct [OF d(1), of "length (sp_popped s)" "length (sp_pushed s)"] show ?thesis
      by (simp add: unat_rpos [OF d(1)])
  qed
  moreover have "length (sp_pushed s) - length (sp_popped s) < 2 ^ k" using d(8) prefix_length_le [OF seen(1)] by linarith
  ultimately show ?thesis unfolding len using seen(1) by blast
qed

theorem SPSCRingQueue_concurrent_witness:
  "\<exists>s. spsc_step\<^sup>*\<^sup>* (spsc_init (0 :: nat) 2) s \<and> sp_pushed s = [7] \<and> prefix (sp_popped s) [7]"
proof -
  let ?s = "spsc_init (0 :: nat) 2"
  have two: "nextPowerOfTwo 2 = 2" by (simp add: nextPowerOfTwo_def Let_def)
  have p: "push_positions (sp_queue ?s) = (0, 1)"
    by (simp add: spsc_init_def SPSCRingQueue_ctor_def two push_positions_def Let_def)
  let ?a = "?s\<lparr>sp_prod := Pcheck 7 0 1\<rparr>"
  have a: "spsc_step ?s ?a" by (rule push_start) (simp_all add: p, simp add: spsc_init_def)
  let ?b = "?a\<lparr>sp_head_seen := 0, sp_prod := if (1 :: u64) = sq_head (sp_queue ?a) ! 0 then Pidle else Pwrite 7 0 1\<rparr>"
  have b: "spsc_step ?a ?b"
    by (rule push_check) (simp_all add: spsc_init_def SPSCRingQueue_ctor_def Let_def)
  let ?c = "?b\<lparr>sp_queue := push_element 0 7 (sp_queue ?b), sp_prod := Ppublish 7 1\<rparr>"
  have c: "spsc_step ?b ?c"
    by (rule push_write) (simp add: spsc_init_def SPSCRingQueue_ctor_def Let_def)
  let ?d = "?c\<lparr>sp_queue := push_publish 1 (sp_queue ?c), sp_prod := Pidle, sp_pushed := sp_pushed ?c @ [7]\<rparr>"
  have d: "spsc_step ?c ?d" by (rule push_finish) simp
  have run: "spsc_step\<^sup>*\<^sup>* ?s ?d"
    using a b c d by (meson rtranclp.rtrancl_refl rtranclp.rtrancl_into_rtrancl)
  have "sp_pushed ?d = [7]" by (simp add: spsc_init_def)
  with SPSCRingQueue_concurrent [OF _ run] run show ?thesis by auto
qed

text \<open>a fresh queue asked for n elements accepts exactly as many pushes as n rounded up to a power
  of two, less one; so a queue asked for a power of two holds one element less, and one asked for a
  single element refuses every push.\<close>

theorem SPSCRingQueue_capacity:
  assumes "n \<noteq> 0" and "unat n \<le> 2 ^ 63"
  shows "sq_contents (sq_push_all xs (SPSCRingQueue_ctor d n)) = take (unat (nextPowerOfTwo n) - 1) xs \<and>
    (\<exists>k \<le> 63. unat (nextPowerOfTwo n) = 2 ^ k \<and> unat n \<le> 2 ^ k \<and> (k = 0 \<or> 2 ^ (k - 1) < unat n))"
proof -
  note c = sq_ctor_shape [OF assms(2), of d]
  obtain k where k: "k \<le> 63" "nextPowerOfTwo n = 2 ^ k" "unat n \<le> 2 ^ k" "k = 0 \<or> 2 ^ (k - 1) < unat n"
    using nextPowerOfTwo_le [OF assms] by blast
  have "(2 :: nat) ^ k \<le> 2 ^ 63" using k(1) by (intro power_increasing) auto
  then have "unat (nextPowerOfTwo n) = 2 ^ k" using unat_word_of_nat [of "2 ^ k", where ?'a = 64] k(2) by simp
  with k have "\<exists>k \<le> 63. unat (nextPowerOfTwo n) = 2 ^ k \<and> unat n \<le> 2 ^ k \<and> (k = 0 \<or> 2 ^ (k - 1) < unat n)" by blast
  with sq_push_all_contents [of "SPSCRingQueue_ctor d n" xs] c show ?thesis by simp
qed

theorem SPSCRingQueue_capacity_witness:
  "sq_contents (sq_push_all [1, 2, 3, 4, 5] (SPSCRingQueue_ctor (0 :: nat) 4)) = [1, 2, 3] \<and>
   sq_contents (sq_push_all [7] (SPSCRingQueue_ctor (0 :: nat) 1)) = []"
proof -
  have "nextPowerOfTwo 4 = 4" "nextPowerOfTwo 1 = 1" by (simp_all add: nextPowerOfTwo_def Let_def)
  with SPSCRingQueue_capacity [of 4 "[1, 2, 3, 4, 5 :: nat]" 0] SPSCRingQueue_capacity [of 1 "[7 :: nat]" 0] show ?thesis by simp
qed

end
