(* ===== verification/MPMCRingQueue.thy ===== *)
theory MPMCRingQueue
  imports SPSCRingQueue "HOL-Library.Multiset"
begin

text \<open>
  The class template \<open>MPMCRingQueue\<close> of \<^verbatim>\<open>include/darwincore/foundation/container/RingQueue.h\<close>: the bounded
  lock-free queue of any number of producers and consumers, with a sequence number per cell. \<open>push\<close> and
  \<open>pop\<close> are split at every access to shared memory. A load of a position or of a sequence number may
  return an older value: these variables only count up (below the wrap-around, which the theorems stay
  below), so an older value is one that is not larger. A compare-exchange acts on the newest
  value and may fail spuriously.
\<close>

section \<open>State and operations\<close>

record 'a Cell =
  cell_sequence :: u64
  cell_data :: 'a

record 'a MPMCRingQueue =
  mq_capacity :: u64
  mq_mask :: u64
  mq_buffer :: "'a Cell list"
  mq_head :: u64
  mq_tail :: u64

definition MPMCRingQueue_ctor :: "'a \<Rightarrow> u64 \<Rightarrow> 'a MPMCRingQueue" where
  "MPMCRingQueue_ctor dflt capacity =
     (let c = nextPowerOfTwo capacity
      in \<lparr> mq_capacity = c, mq_mask = c - 1,
           mq_buffer = map (\<lambda>i. \<lparr> cell_sequence = word_of_nat i, cell_data = dflt \<rparr>) [0..<unat c],
           mq_head = 0, mq_tail = 0 \<rparr>)"

text \<open>What the loops do with \<open>diff\<close>, the signed difference of a sequence number and a position.\<close>

datatype mq_decision = Claim | Refuse | Reload

definition mq_decide :: "u64 \<Rightarrow> u64 \<Rightarrow> mq_decision" where
  "mq_decide seq pos =
     (let diff = sint seq - sint pos in if diff = 0 then Claim else if diff < 0 then Refuse else Reload)"

definition mq_index :: "'a MPMCRingQueue \<Rightarrow> u64 \<Rightarrow> nat" where
  "mq_index q pos = unat (pos AND mq_mask q)"

definition mq_sequence :: "'a MPMCRingQueue \<Rightarrow> u64 \<Rightarrow> u64" where
  "mq_sequence q pos = cell_sequence (mq_buffer q ! mq_index q pos)"

definition push_cas :: "u64 \<Rightarrow> 'a MPMCRingQueue \<Rightarrow> 'a MPMCRingQueue" where
  "push_cas pos q = q\<lparr>mq_tail := pos + 1\<rparr>"

definition push_data :: "u64 \<Rightarrow> 'a \<Rightarrow> 'a MPMCRingQueue \<Rightarrow> 'a MPMCRingQueue" where
  "push_data pos v q =
     q\<lparr>mq_buffer := (mq_buffer q)[mq_index q pos := (mq_buffer q ! mq_index q pos)\<lparr>cell_data := v\<rparr>]\<rparr>"

definition push_sequence :: "u64 \<Rightarrow> 'a MPMCRingQueue \<Rightarrow> 'a MPMCRingQueue" where
  "push_sequence pos q =
     q\<lparr>mq_buffer := (mq_buffer q)[mq_index q pos := (mq_buffer q ! mq_index q pos)\<lparr>cell_sequence := pos + 1\<rparr>]\<rparr>"

definition pop_cas :: "u64 \<Rightarrow> 'a MPMCRingQueue \<Rightarrow> 'a MPMCRingQueue" where
  "pop_cas pos q = q\<lparr>mq_head := pos + 1\<rparr>"

text \<open>Moving an element out of its cell leaves an unspecified value behind: \<open>residue\<close>.\<close>

definition pop_data :: "u64 \<Rightarrow> 'a \<Rightarrow> 'a MPMCRingQueue \<Rightarrow> 'a \<times> 'a MPMCRingQueue" where
  "pop_data pos residue q = (cell_data (mq_buffer q ! mq_index q pos), push_data pos residue q)"

definition pop_sequence :: "u64 \<Rightarrow> 'a MPMCRingQueue \<Rightarrow> 'a MPMCRingQueue" where
  "pop_sequence pos q =
     q\<lparr>mq_buffer := (mq_buffer q)[mq_index q pos :=
         (mq_buffer q ! mq_index q pos)\<lparr>cell_sequence := pos + mq_mask q + 1\<rparr>]\<rparr>"

text \<open>
  The whole operations, for a thread that runs alone and so loads the newest values; None is a loop
  that never ends.
\<close>

partial_function (option) mq_push_loop :: "u64 \<Rightarrow> 'a \<Rightarrow> 'a MPMCRingQueue \<Rightarrow> (bool \<times> 'a MPMCRingQueue) option" where
  "mq_push_loop pos v q =
     (case mq_decide (mq_sequence q pos) pos of
        Claim \<Rightarrow> if mq_tail q = pos then Some (True, push_sequence pos (push_data pos v (push_cas pos q)))
                 else mq_push_loop (mq_tail q) v q
      | Refuse \<Rightarrow> Some (False, q)
      | Reload \<Rightarrow> mq_push_loop (mq_tail q) v q)"

definition mq_push :: "'a \<Rightarrow> 'a MPMCRingQueue \<Rightarrow> (bool \<times> 'a MPMCRingQueue) option" where
  "mq_push v q = mq_push_loop (mq_tail q) v q"

partial_function (option) mq_pop_loop :: "u64 \<Rightarrow> 'a \<Rightarrow> 'a MPMCRingQueue \<Rightarrow> ('a option \<times> 'a MPMCRingQueue) option" where
  "mq_pop_loop pos residue q =
     (case mq_decide (mq_sequence q pos) (pos + 1) of
        Claim \<Rightarrow> if mq_head q = pos
                 then let (v, q) = pop_data pos residue (pop_cas pos q) in Some (Some v, pop_sequence pos q)
                 else mq_pop_loop (mq_head q) residue q
      | Refuse \<Rightarrow> Some (None, q)
      | Reload \<Rightarrow> mq_pop_loop (mq_head q) residue q)"

definition mq_pop :: "'a \<Rightarrow> 'a MPMCRingQueue \<Rightarrow> ('a option \<times> 'a MPMCRingQueue) option" where
  "mq_pop residue q = mq_pop_loop (mq_head q) residue q"

section \<open>Producers and consumers\<close>

text \<open>Where a thread is: before the load of a sequence number, before a compare-exchange, before a
  reload of the position, before the access to the data, before the store of the sequence number.\<close>

datatype 'a mp_thread = Idle
  | PushSeq 'a u64 | PushCas 'a u64 | PushReload 'a | PushWrite 'a u64 | PushStore 'a u64
  | PopSeq u64 | PopCas u64 | PopReload | PopRead u64 | PopStore 'a u64

text \<open>
  The queue, the threads, and histories: the values in the order in which their positions were
  claimed, the positions and values delivered by \<open>pop\<close>, and the positions delivered to each thread, in order.
\<close>

record 'a mpmc =
  mp_queue :: "'a MPMCRingQueue"
  mp_threads :: "nat \<Rightarrow> 'a mp_thread"
  mp_pushed :: "'a list"
  mp_taken :: "(nat \<times> 'a) list"
  mp_log :: "nat \<Rightarrow> nat list"

definition mpmc_init :: "'a \<Rightarrow> u64 \<Rightarrow> 'a mpmc" where
  "mpmc_init dflt capacity =
     \<lparr> mp_queue = MPMCRingQueue_ctor dflt capacity, mp_threads = (\<lambda>_. Idle), mp_pushed = [], mp_taken = [],
       mp_log = (\<lambda>_. []) \<rparr>"

definition set_thread :: "nat \<Rightarrow> 'a mp_thread \<Rightarrow> 'a mpmc \<Rightarrow> 'a mpmc" where
  "set_thread i th s = s\<lparr>mp_threads := (mp_threads s)(i := th)\<rparr>"

definition push_next :: "'a \<Rightarrow> u64 \<Rightarrow> mq_decision \<Rightarrow> 'a mp_thread" where
  "push_next v pos d = (case d of Claim \<Rightarrow> PushCas v pos | Refuse \<Rightarrow> Idle | Reload \<Rightarrow> PushReload v)"

definition pop_next :: "u64 \<Rightarrow> mq_decision \<Rightarrow> 'a mp_thread" where
  "pop_next pos d = (case d of Claim \<Rightarrow> PopCas pos | Refuse \<Rightarrow> Idle | Reload \<Rightarrow> PopReload)"

inductive mpmc_step :: "'a mpmc \<Rightarrow> 'a mpmc \<Rightarrow> bool" where
  mp_push_start: "mp_threads s i \<in> {Idle, PushReload v} \<Longrightarrow> pos \<le> mq_tail (mp_queue s) \<Longrightarrow>
    mpmc_step s (set_thread i (PushSeq v pos) s)"
| mp_push_check: "mp_threads s i = PushSeq v pos \<Longrightarrow> seq \<le> mq_sequence (mp_queue s) pos \<Longrightarrow>
    mpmc_step s (set_thread i (push_next v pos (mq_decide seq pos)) s)"
| mp_push_claim: "mp_threads s i = PushCas v pos \<Longrightarrow> mq_tail (mp_queue s) = pos \<Longrightarrow>
    mpmc_step s (set_thread i (PushWrite v pos) (s\<lparr>mp_queue := push_cas pos (mp_queue s), mp_pushed := mp_pushed s @ [v]\<rparr>))"
| mp_push_fail: "mp_threads s i = PushCas v pos \<Longrightarrow> pos' \<le> mq_tail (mp_queue s) \<Longrightarrow>
    mpmc_step s (set_thread i (PushSeq v pos') s)"
| mp_push_write: "mp_threads s i = PushWrite v pos \<Longrightarrow>
    mpmc_step s (set_thread i (PushStore v pos) (s\<lparr>mp_queue := push_data pos v (mp_queue s)\<rparr>))"
| mp_push_store: "mp_threads s i = PushStore v pos \<Longrightarrow>
    mpmc_step s (set_thread i Idle (s\<lparr>mp_queue := push_sequence pos (mp_queue s)\<rparr>))"
| mp_pop_start: "mp_threads s i \<in> {Idle, PopReload} \<Longrightarrow> pos \<le> mq_head (mp_queue s) \<Longrightarrow>
    mpmc_step s (set_thread i (PopSeq pos) s)"
| mp_pop_check: "mp_threads s i = PopSeq pos \<Longrightarrow> seq \<le> mq_sequence (mp_queue s) pos \<Longrightarrow>
    mpmc_step s (set_thread i (pop_next pos (mq_decide seq (pos + 1))) s)"
| mp_pop_claim: "mp_threads s i = PopCas pos \<Longrightarrow> mq_head (mp_queue s) = pos \<Longrightarrow>
    mpmc_step s (set_thread i (PopRead pos) (s\<lparr>mp_queue := pop_cas pos (mp_queue s)\<rparr>))"
| mp_pop_fail: "mp_threads s i = PopCas pos \<Longrightarrow> pos' \<le> mq_head (mp_queue s) \<Longrightarrow>
    mpmc_step s (set_thread i (PopSeq pos') s)"
| mp_pop_read: "mp_threads s i = PopRead pos \<Longrightarrow> pop_data pos residue (mp_queue s) = (v, q) \<Longrightarrow>
    mpmc_step s (set_thread i (PopStore v pos) (s\<lparr>mp_queue := q\<rparr>))"
| mp_pop_store: "mp_threads s i = PopStore v pos \<Longrightarrow>
    mpmc_step s (set_thread i Idle (s\<lparr>mp_queue := pop_sequence pos (mp_queue s), 
       mp_taken := mp_taken s @ [(unat pos, v)], mp_log := (mp_log s)(i := mp_log s i @ [unat pos])\<rparr>))"

inductive_cases mpmc_stepE: "mpmc_step s t"

section \<open>The invariant\<close>

text \<open>The positions a thread has claimed.\<close>

fun push_pos :: "'a mp_thread \<Rightarrow> nat option" where
  "push_pos (PushWrite v p) = Some (unat p)"
| "push_pos (PushStore v p) = Some (unat p)"
| "push_pos _ = None"

fun pop_pos :: "'a mp_thread \<Rightarrow> nat option" where
  "pop_pos (PopRead p) = Some (unat p)"
| "pop_pos (PopStore v p) = Some (unat p)"
| "pop_pos _ = None"

text \<open>Sequence number and data of the cell of position p in a ring of \<open>2 ^ k\<close> cells.\<close>

definition seq_at :: "nat \<Rightarrow> 'a mpmc \<Rightarrow> nat \<Rightarrow> nat" where
  "seq_at k s p = unat (cell_sequence (mq_buffer (mp_queue s) ! (p mod 2 ^ k)))"

definition data_at :: "nat \<Rightarrow> 'a mpmc \<Rightarrow> nat \<Rightarrow> 'a" where
  "data_at k s p = cell_data (mq_buffer (mp_queue s) ! (p mod 2 ^ k))"

abbreviation tail_of :: "'a mpmc \<Rightarrow> nat" where
  "tail_of s \<equiv> length (mp_pushed s)"

abbreviation head_of :: "'a mpmc \<Rightarrow> nat" where
  "head_of s \<equiv> unat (mq_head (mp_queue s))"

fun thread_inv :: "nat \<Rightarrow> 'a mpmc \<Rightarrow> 'a mp_thread \<Rightarrow> bool" where
  "thread_inv k s (PushSeq v p) \<longleftrightarrow> unat p \<le> tail_of s"
| "thread_inv k s (PushCas v p) \<longleftrightarrow> unat p \<le> tail_of s \<and> unat p \<le> seq_at k s (unat p)"
| "thread_inv k s (PushWrite v p) \<longleftrightarrow> unat p < tail_of s \<and> mp_pushed s ! unat p = v \<and> seq_at k s (unat p) = unat p"
| "thread_inv k s (PushStore v p) \<longleftrightarrow> unat p < tail_of s \<and> mp_pushed s ! unat p = v \<and> seq_at k s (unat p) = unat p \<and>
     data_at k s (unat p) = v"
| "thread_inv k s (PopSeq p) \<longleftrightarrow> unat p \<le> head_of s"
| "thread_inv k s (PopCas p) \<longleftrightarrow> unat p \<le> head_of s \<and> unat p < seq_at k s (unat p)"
| "thread_inv k s (PopRead p) \<longleftrightarrow> unat p < head_of s \<and> seq_at k s (unat p) = Suc (unat p) \<and>
     data_at k s (unat p) = mp_pushed s ! unat p"
| "thread_inv k s (PopStore v p) \<longleftrightarrow> unat p < head_of s \<and> seq_at k s (unat p) = Suc (unat p) \<and> v = mp_pushed s ! unat p"
| "thread_inv k s _ \<longleftrightarrow> True"

definition pushing :: "'a mpmc \<Rightarrow> nat \<Rightarrow> bool" where
  "pushing s p \<longleftrightarrow> (\<exists>i. push_pos (mp_threads s i) = Some p)"

definition popping :: "'a mpmc \<Rightarrow> nat \<Rightarrow> bool" where
  "popping s p \<longleftrightarrow> (\<exists>i. pop_pos (mp_threads s i) = Some p)"

text \<open>
  A cell whose sequence number is a position p of the cell is free for the element p; one whose sequence
  number is \<open>p + 1\<close> holds the element p. In both cases p is the only position of the cell between
  the head and the head plus the size, or it is being taken out.
\<close>

definition free_inv :: "nat \<Rightarrow> 'a mpmc \<Rightarrow> nat \<Rightarrow> bool" where
  "free_inv k s p \<longleftrightarrow> seq_at k s p = p \<and> head_of s \<le> p \<and> p < head_of s + 2 ^ k \<and> tail_of s \<le> p + 2 ^ k \<and>
     (p < tail_of s \<longrightarrow> pushing s p)"

definition full_inv :: "nat \<Rightarrow> 'a mpmc \<Rightarrow> nat \<Rightarrow> bool" where
  "full_inv k s p \<longleftrightarrow> seq_at k s p = Suc p \<and> p < tail_of s \<and> p < head_of s + 2 ^ k \<and> tail_of s \<le> p + 2 ^ k \<and>
     (if p < head_of s then popping s p else data_at k s p = mp_pushed s ! p)"

definition cells_inv :: "nat \<Rightarrow> 'a mpmc \<Rightarrow> bool" where
  "cells_inv k s \<longleftrightarrow> (\<forall>c < 2 ^ k. \<exists>p. p mod 2 ^ k = c \<and> (free_inv k s p \<or> full_inv k s p))"

definition owners_inv :: "'a mpmc \<Rightarrow> bool" where
  "owners_inv s \<longleftrightarrow>
     (\<forall>i j. push_pos (mp_threads s i) \<noteq> None \<longrightarrow> push_pos (mp_threads s i) = push_pos (mp_threads s j) \<longrightarrow> i = j) \<and>
     (\<forall>i j. pop_pos (mp_threads s i) \<noteq> None \<longrightarrow> pop_pos (mp_threads s i) = pop_pos (mp_threads s j) \<longrightarrow> i = j)"

definition taken_inv :: "'a mpmc \<Rightarrow> bool" where
  "taken_inv s \<longleftrightarrow> distinct (map fst (mp_taken s)) \<and> (\<forall>(p, v) \<in> set (mp_taken s). v = mp_pushed s ! p) \<and>
     (\<forall>p. p < head_of s \<longleftrightarrow> p \<in> fst ` set (mp_taken s) \<or> popping s p) \<and>
     (\<forall>p. popping s p \<longrightarrow> p \<notin> fst ` set (mp_taken s))"

definition shape_inv :: "nat \<Rightarrow> 'a mpmc \<Rightarrow> bool" where
  "shape_inv k s \<longleftrightarrow> 1 \<le> k \<and> k \<le> 62 \<and> mq_mask (mp_queue s) = mask k \<and> length (mq_buffer (mp_queue s)) = 2 ^ k \<and>
     unat (mq_tail (mp_queue s)) = tail_of s \<and> head_of s \<le> tail_of s \<and> tail_of s \<le> 2 ^ 62"

definition mpmc_inv :: "nat \<Rightarrow> 'a mpmc \<Rightarrow> bool" where
  "mpmc_inv k s \<longleftrightarrow> shape_inv k s \<and> cells_inv k s \<and> owners_inv s \<and> taken_inv s \<and> (\<forall>i. thread_inv k s (mp_threads s i))"

lemmas mpmc_inv_defs = mpmc_inv_def shape_inv_def

lemma mpmc_invD:
  assumes "mpmc_inv k s"
  shows "1 \<le> k" "k \<le> 62" "mq_mask (mp_queue s) = mask k" "length (mq_buffer (mp_queue s)) = 2 ^ k"
    "unat (mq_tail (mp_queue s)) = tail_of s" "head_of s \<le> tail_of s" "tail_of s \<le> 2 ^ 62"
    "cells_inv k s" "owners_inv s" "taken_inv s" "thread_inv k s (mp_threads s i)"
  using assms by (simp_all add: mpmc_inv_defs)

lemma set_thread_simps [simp]:
  "mp_queue (set_thread i th s) = mp_queue s" "mp_pushed (set_thread i th s) = mp_pushed s"
  "mp_taken (set_thread i th s) = mp_taken s" "mp_threads (set_thread i th s) = (mp_threads s)(i := th)"
  "mp_log (set_thread i th s) = mp_log s"
  "seq_at k (set_thread i th s) p = seq_at k s p" "data_at k (set_thread i th s) p = data_at k s p"
  by (simp_all add: set_thread_def seq_at_def data_at_def)

lemma thread_inv_set [simp]: "thread_inv k (set_thread i th s) t = thread_inv k s t"
  by (cases t) simp_all

lemma same_cell: "p mod c = p' mod c \<Longrightarrow> p \<le> p' \<Longrightarrow> p' < p + c \<Longrightarrow> p = (p' :: nat)"
  using mod_distinct [of p p' c] by force

lemma next_cell: "1 \<le> k \<Longrightarrow> p mod 2 ^ k \<noteq> Suc p mod (2 ^ k :: nat)"
  using mod_distinct [of p "Suc p" "2 ^ k"] power_increasing [of 1 k "2 :: nat"] by simp

lemma mq_index_mask: "mq_mask q = mask k \<Longrightarrow> mq_index q pos = unat pos mod 2 ^ k"
  by (simp add: mq_index_def take_bit_eq_mask [symmetric] unsigned_take_bit_eq) (simp add: take_bit_eq_mod)

lemma seq_at_cong: "p mod 2 ^ k = q mod 2 ^ k \<Longrightarrow> seq_at k s p = seq_at k s q"
  by (simp add: seq_at_def)

lemma mq_sequence_at: "mpmc_inv k s \<Longrightarrow> unat (mq_sequence (mp_queue s) pos) = seq_at k s (unat pos)"
  by (simp add: mq_sequence_def mq_index_mask mpmc_invD(3) seq_at_def)

lemma mq_decide_Claim: "mq_decide seq pos = Claim \<longleftrightarrow> seq = pos"
  by (auto simp: mq_decide_def Let_def intro: signed_word_eqI)

lemma cell_cases:
  assumes "mpmc_inv k s"
  obtains (free) p where "p mod 2 ^ k = q mod 2 ^ k" "free_inv k s p" "seq_at k s q = p"
  | (full) p where "p mod 2 ^ k = q mod 2 ^ k" "full_inv k s p" "seq_at k s q = Suc p"
proof -
  have "q mod 2 ^ k < (2 :: nat) ^ k" by simp
  with mpmc_invD(8) [OF assms] obtain p where p: "p mod 2 ^ k = q mod 2 ^ k" "free_inv k s p \<or> full_inv k s p"
    unfolding cells_inv_def by blast
  then have "seq_at k s q = seq_at k s p" by (simp add: seq_at_def)
  with p that show ?thesis by (auto simp: free_inv_def full_inv_def)
qed

text \<open>A cell that a producer has claimed is free, one that a consumer has claimed is full.\<close>

lemma free_cell:
  assumes "mpmc_inv k s" and "seq_at k s q = q"
  shows "free_inv k s q"
  using assms(1)
proof (cases rule: cell_cases [of k s q])
  case (full p)
  with assms(2) next_cell [OF mpmc_invD(1) [OF assms(1)], of p] show ?thesis by simp
qed (use assms(2) in simp)

lemma full_cell:
  assumes "mpmc_inv k s" and "seq_at k s q = Suc q"
  shows "full_inv k s q"
  using assms(1)
proof (cases rule: cell_cases [of k s q])
  case (free p)
  with assms(2) next_cell [OF mpmc_invD(1) [OF assms(1)], of q] show ?thesis by simp
qed (use assms(2) in simp)

lemma push_pos_inv: "mpmc_inv k s \<Longrightarrow> push_pos (mp_threads s i) = Some p \<Longrightarrow> p < tail_of s \<and> seq_at k s p = p"
  using mpmc_invD(11) [of k s i] by (cases "mp_threads s i") auto

lemma pop_pos_inv: "mpmc_inv k s \<Longrightarrow> pop_pos (mp_threads s i) = Some p \<Longrightarrow> p < head_of s \<and> seq_at k s p = Suc p"
  using mpmc_invD(11) [of k s i] by (cases "mp_threads s i") auto

lemma pos_disjoint: "push_pos th = None \<or> pop_pos th = None"
  by (cases th) auto

text \<open>Two threads that own positions of the same cell are the same thread.\<close>

lemma owner_unique:
  assumes "mpmc_inv k s" and "p mod 2 ^ k = p' mod 2 ^ k"
    and "push_pos (mp_threads s i) = Some p \<or> pop_pos (mp_threads s i) = Some p"
    and "push_pos (mp_threads s j) = Some p' \<or> pop_pos (mp_threads s j) = Some p'"
  shows "i = j \<and> p = p'"
proof -
  have eq: "seq_at k s p = seq_at k s p'" using assms(2) by (simp add: seq_at_def)
  note k = next_cell [OF mpmc_invD(1) [OF assms(1)]]
  have o: "push_pos (mp_threads s i) = Some p \<Longrightarrow> push_pos (mp_threads s j) = Some p \<Longrightarrow> i = j"
    "pop_pos (mp_threads s i) = Some p \<Longrightarrow> pop_pos (mp_threads s j) = Some p \<Longrightarrow> i = j"
    using mpmc_invD(9) [OF assms(1)] by (auto simp: owners_inv_def)
  have push: "q < tail_of s \<and> seq_at k s q = q" if "push_pos (mp_threads s t) = Some q" for t q
    using push_pos_inv [OF assms(1) that] .
  have pop: "seq_at k s q = Suc q" if "pop_pos (mp_threads s t) = Some q" for t q
    using pop_pos_inv [OF assms(1) that] by simp
  from assms(3) show ?thesis
  proof
    assume i: "push_pos (mp_threads s i) = Some p"
    from assms(4) show ?thesis
    proof
      assume j: "push_pos (mp_threads s j) = Some p'"
      then have "p = p'" using eq push [OF i] push [OF j] by simp
      with o(1) i j show ?thesis by simp
    next
      assume "pop_pos (mp_threads s j) = Some p'"
      then have "p = Suc p'" using eq push [OF i] pop by simp
      with k [of p'] assms(2) show ?thesis by simp
    qed
  next
    assume i: "pop_pos (mp_threads s i) = Some p"
    from assms(4) show ?thesis
    proof
      assume "push_pos (mp_threads s j) = Some p'"
      then have "p' = Suc p" using eq push pop [OF i] by simp
      with k [of p] assms(2) show ?thesis by simp
    next
      assume j: "pop_pos (mp_threads s j) = Some p'"
      then have "p = p'" using eq pop [OF i] pop [OF j] by simp
      with o(2) i j show ?thesis by simp
    qed
  qed
qed

section \<open>Steps of one thread that change nothing shared\<close>

lemma cells_set:
  assumes "\<And>p. pushing (set_thread i th s) p = pushing s p" and "\<And>p. popping (set_thread i th s) p = popping s p"
  shows "cells_inv k (set_thread i th s) = cells_inv k s"
  by (simp add: cells_inv_def free_inv_def full_inv_def assms)

lemma owners_kept:
  assumes "push_pos th = push_pos (mp_threads s i)" and "pop_pos th = pop_pos (mp_threads s i)"
  shows "pushing (set_thread i th s) = pushing s" "popping (set_thread i th s) = popping s"
    "owners_inv (set_thread i th s) = owners_inv s" "taken_inv (set_thread i th s) = taken_inv s"
proof -
  have pos: "push_pos (mp_threads (set_thread i th s) j) = push_pos (mp_threads s j)"
    "pop_pos (mp_threads (set_thread i th s) j) = pop_pos (mp_threads s j)" for j
    using assms by simp_all
  show "pushing (set_thread i th s) = pushing s" "owners_inv (set_thread i th s) = owners_inv s"
    unfolding fun_eq_iff pushing_def owners_inv_def pos by simp_all
  show p: "popping (set_thread i th s) = popping s" unfolding fun_eq_iff popping_def pos by simp
  show "taken_inv (set_thread i th s) = taken_inv s" by (simp add: taken_inv_def p)
qed

lemma inv_local:
  assumes "mpmc_inv k s" and "push_pos th = push_pos (mp_threads s i)" and "pop_pos th = pop_pos (mp_threads s i)"
    and "thread_inv k s th"
  shows "mpmc_inv k (set_thread i th s)"
proof -
  let ?s = "set_thread i th s"
  note o = owners_kept [of th s i, OF assms(2,3)]
  have "cells_inv k ?s" "owners_inv ?s" "taken_inv ?s"
    using mpmc_invD(8-10) [OF assms(1)] by (simp_all add: o cells_set)
  moreover have "thread_inv k ?s (mp_threads ?s j)" for j using assms(1,4) by (simp add: mpmc_inv_def)
  ultimately show ?thesis using assms(1) by (simp add: mpmc_inv_defs)
qed

lemma inv_push_load:
  assumes "mpmc_inv k s" and "push_pos (mp_threads s i) = None" and "pop_pos (mp_threads s i) = None"
    and "pos \<le> mq_tail (mp_queue s)"
  shows "mpmc_inv k (set_thread i (PushSeq v pos) s)"
  using assms mpmc_invD(5) [OF assms(1)] by (intro inv_local) (auto simp: word_le_nat_alt)

lemma inv_pop_load:
  assumes "mpmc_inv k s" and "push_pos (mp_threads s i) = None" and "pop_pos (mp_threads s i) = None"
    and "pos \<le> mq_head (mp_queue s)"
  shows "mpmc_inv k (set_thread i (PopSeq pos) s)"
  using assms by (intro inv_local) (auto simp: word_le_nat_alt)

lemma inv_mp_push_check:
  assumes "mpmc_inv k s" and "mp_threads s i = PushSeq v pos" and "seq \<le> mq_sequence (mp_queue s) pos"
  shows "mpmc_inv k (set_thread i (push_next v pos (mq_decide seq pos)) s)"
proof (rule inv_local [OF assms(1)])
  have "unat pos \<le> tail_of s" using mpmc_invD(11) [OF assms(1), of i] assms(2) by simp
  then show "thread_inv k s (push_next v pos (mq_decide seq pos))"
    using assms(3) mq_sequence_at [OF assms(1), of pos]
    by (cases "mq_decide seq pos") (auto simp: push_next_def word_le_nat_alt dest: mq_decide_Claim [THEN iffD1])
qed (simp_all add: assms(2) push_next_def split: mq_decision.split)

lemma inv_mp_pop_check:
  assumes "mpmc_inv k s" and "mp_threads s i = PopSeq pos" and "seq \<le> mq_sequence (mp_queue s) pos"
  shows "mpmc_inv k (set_thread i (pop_next pos (mq_decide seq (pos + 1))) s)"
proof (rule inv_local [OF assms(1)])
  have p: "unat pos \<le> head_of s" using mpmc_invD(11) [OF assms(1), of i] assms(2) by simp
  then have "unat pos \<le> 2 ^ 62" using mpmc_invD(6,7) [OF assms(1)] by linarith
  then have "unat (pos + 1) = Suc (unat pos)" by (simp add: unat_word_ariths)
  with p show "thread_inv k s (pop_next pos (mq_decide seq (pos + 1)))"
    using assms(3) mq_sequence_at [OF assms(1), of pos]
    by (cases "mq_decide seq (pos + 1)") (auto simp: pop_next_def word_le_nat_alt dest: mq_decide_Claim [THEN iffD1])
qed (simp_all add: assms(2) pop_next_def split: mq_decision.split)

lemma taken_invD:
  assumes "taken_inv s"
  shows "distinct (map fst (mp_taken s))" "(p, v) \<in> set (mp_taken s) \<Longrightarrow> v = mp_pushed s ! p \<and> p < head_of s"
    "p < head_of s \<longleftrightarrow> p \<in> fst ` set (mp_taken s) \<or> popping s p" "popping s p \<Longrightarrow> p \<notin> fst ` set (mp_taken s)"
  using assms unfolding taken_inv_def by (auto intro: rev_image_eqI)

section \<open>Claiming a position\<close>

lemma owner_frame [simp]:
  "pushing (s\<lparr>mp_queue := q\<rparr>) = pushing s" "pushing (s\<lparr>mp_pushed := xs\<rparr>) = pushing s" "pushing (s\<lparr>mp_taken := ps\<rparr>) = pushing s"
  "popping (s\<lparr>mp_queue := q\<rparr>) = popping s" "popping (s\<lparr>mp_pushed := xs\<rparr>) = popping s" "popping (s\<lparr>mp_taken := ps\<rparr>) = popping s"
  "pushing (s\<lparr>mp_log := l\<rparr>) = pushing s" "popping (s\<lparr>mp_log := l\<rparr>) = popping s"
  by (simp_all add: pushing_def popping_def fun_eq_iff)

lemma owners_frame [simp]:
  "owners_inv (s\<lparr>mp_queue := q\<rparr>) = owners_inv s" "owners_inv (s\<lparr>mp_pushed := xs\<rparr>) = owners_inv s"
  "owners_inv (s\<lparr>mp_taken := ps\<rparr>) = owners_inv s" "owners_inv (s\<lparr>mp_log := l\<rparr>) = owners_inv s"
  by (simp_all add: owners_inv_def)

lemma owners_set:
  assumes "owners_inv s"
    and "\<And>p. push_pos th = Some p \<Longrightarrow> push_pos (mp_threads s i) = Some p \<or> \<not> pushing s p"
    and "\<And>p. pop_pos th = Some p \<Longrightarrow> pop_pos (mp_threads s i) = Some p \<or> \<not> popping s p"
  shows "owners_inv (set_thread i th s)"
proof -
  have push: "j = l" if "push_pos (mp_threads (set_thread i th s) j) = Some p" "push_pos (mp_threads (set_thread i th s) l) = Some p" for j l p
    using that assms(1) assms(2) [of p] by (auto simp: owners_inv_def pushing_def split: if_splits)
  have pop: "j = l" if "pop_pos (mp_threads (set_thread i th s) j) = Some p" "pop_pos (mp_threads (set_thread i th s) l) = Some p" for j l p
    using that assms(1) assms(3) [of p] by (auto simp: owners_inv_def popping_def split: if_splits)
  show ?thesis unfolding owners_inv_def using push pop by (metis not_None_eq)
qed

lemma claim_owner:
  "push_pos (mp_threads s i) = None \<Longrightarrow> pushing (set_thread i th s) p \<longleftrightarrow> push_pos th = Some p \<or> pushing s p"
  "pop_pos (mp_threads s i) = None \<Longrightarrow> popping (set_thread i th s) p \<longleftrightarrow> pop_pos th = Some p \<or> popping s p"
  by (auto simp: pushing_def popping_def) (metis option.distinct(1))+

lemma release_owner:
  "owners_inv s \<Longrightarrow> push_pos (mp_threads s i) = Some q \<Longrightarrow> push_pos th = None \<Longrightarrow>
     pushing (set_thread i th s) p \<longleftrightarrow> pushing s p \<and> p \<noteq> q"
  "owners_inv s \<Longrightarrow> pop_pos (mp_threads s i) = Some q \<Longrightarrow> pop_pos th = None \<Longrightarrow>
     popping (set_thread i th s) p \<longleftrightarrow> popping s p \<and> p \<noteq> q"
  unfolding owners_inv_def by (auto simp: pushing_def popping_def) (metis option.distinct(1) option.inject)+

text \<open>A compare-exchange that succeeds claims a free cell for the next push, a full one for the next pop.\<close>

lemma claimed_free:
  assumes "mpmc_inv k s" and "tail_of s \<le> seq_at k s (tail_of s)"
  shows "free_inv k s (tail_of s)"
  using assms(1)
proof (cases rule: cell_cases [of k s "tail_of s"])
  case (free p)
  have "tail_of s \<le> p" "p < tail_of s + 2 ^ k"
    using free(2,3) assms(2) mpmc_invD(6) [OF assms(1)] unfolding free_inv_def by linarith+
  then have "tail_of s = p" using same_cell [OF free(1) [symmetric]] by simp
  with free(2) show ?thesis by simp
next
  case (full p)
  have "tail_of s = Suc p" using full(2,3) assms(2) unfolding full_inv_def by linarith
  with full(1) next_cell [OF mpmc_invD(1) [OF assms(1)], of p] show ?thesis by simp
qed

lemma claimed_full:
  assumes "mpmc_inv k s" and "head_of s < seq_at k s (head_of s)"
  shows "full_inv k s (head_of s)"
  using assms(1)
proof (cases rule: cell_cases [of k s "head_of s"])
  case (free p)
  have "head_of s \<le> p" "p < head_of s + 2 ^ k" using free(2) unfolding free_inv_def by blast+
  then have "head_of s = p" using same_cell [OF free(1) [symmetric]] by simp
  with free(3) assms(2) show ?thesis by simp
next
  case (full p)
  have "head_of s \<le> p" "p < head_of s + 2 ^ k" using full(2,3) assms(2) unfolding full_inv_def by linarith+
  then have "head_of s = p" using same_cell [OF full(1) [symmetric]] by simp
  with full(2) show ?thesis by simp
qed

lemma inv_mp_push_claim:
  assumes "mpmc_inv k s" and "mp_threads s i = PushCas v pos" and "mq_tail (mp_queue s) = pos" and "tail_of s < 2 ^ 62"
  shows "mpmc_inv k (set_thread i (PushWrite v pos) (s\<lparr>mp_queue := push_cas pos (mp_queue s), mp_pushed := mp_pushed s @ [v]\<rparr>))"
    (is "mpmc_inv k ?s")
proof -
  note d = mpmc_invD [OF assms(1)]
  let ?T = "tail_of s"
  have pos: "unat pos = ?T" using d(5) assms(3) by simp
  have free: "free_inv k s ?T" using claimed_free [OF assms(1)] d(11) [of i] assms(2) pos by simp
  have sim: "seq_at k ?s = seq_at k s" "data_at k ?s = data_at k s" "head_of ?s = head_of s"
    by (simp_all add: seq_at_def data_at_def push_cas_def fun_eq_iff)
  have pp: "push_pos (mp_threads ?s j) = (if j = i then Some ?T else push_pos (mp_threads s j))"
    "pop_pos (mp_threads ?s j) = pop_pos (mp_threads s j)" for j
    using assms(2) pos by simp_all
  have own: "pushing ?s p \<longleftrightarrow> pushing s p \<or> p = ?T" "popping ?s p = popping s p" for p
    using assms(2) pos by (auto simp: claim_owner)
  have cell: "\<exists>p. p mod 2 ^ k = c \<and> (free_inv k ?s p \<or> full_inv k ?s p)" if c: "c < 2 ^ k" for c
  proof (cases "c = ?T mod 2 ^ k")
    case True
    have "free_inv k ?s ?T" using free unfolding free_inv_def sim own by simp
    with True show ?thesis by blast
  next
    case False
    obtain p where p: "p mod 2 ^ k = c" "free_inv k s p \<or> full_inv k s p" using d(8) c unfolding cells_inv_def by blast
    have "p \<noteq> ?T" "?T \<noteq> p + 2 ^ k" using p(1) False by auto
    then have "free_inv k ?s p \<or> full_inv k ?s p"
      using p(2) unfolding free_inv_def full_inv_def sim own by (auto simp: nth_append)
    with p(1) show ?thesis by blast
  qed
  have "\<not> pushing s ?T" unfolding pushing_def using push_pos_inv [OF assms(1)] less_irrefl by metis
  then have "owners_inv ?s" using d(9) pos by (intro owners_set) auto
  moreover have "taken_inv ?s"
  proof -
    have "p < ?T" if "(p, w) \<in> set (mp_taken s)" for p w using taken_invD(2) [OF d(10) that] d(6) by simp
    with d(10) show ?thesis unfolding taken_inv_def own sim by (auto simp: nth_append)
  qed
  moreover have "thread_inv k ?s (mp_threads ?s j)" for j
  proof (cases "j = i")
    case True
    with free pos show ?thesis by (simp add: free_inv_def sim(1) [unfolded set_thread_simps])
  next
    case False
    then show ?thesis using d(11) [of j] d(6) sim
      by (cases "mp_threads s j") (auto simp: nth_append simp del: set_thread_simps(6,7))
  qed
  moreover have "shape_inv k ?s"
    using d(1-7) assms(4) pos by (simp add: shape_inv_def push_cas_def unat_word_ariths)
  ultimately show ?thesis using cell by (simp add: mpmc_inv_def cells_inv_def)
qed

lemma inv_mp_pop_claim:
  assumes "mpmc_inv k s" and "mp_threads s i = PopCas pos" and "mq_head (mp_queue s) = pos"
  shows "mpmc_inv k (set_thread i (PopRead pos) (s\<lparr>mp_queue := pop_cas pos (mp_queue s)\<rparr>))" (is "mpmc_inv k ?s")
proof -
  note d = mpmc_invD [OF assms(1)]
  let ?H = "head_of s"
  have pos: "unat pos = ?H" using assms(3) by simp
  have full: "full_inv k s ?H" using claimed_full [OF assms(1)] d(11) [of i] assms(2) pos by simp
  then have HT: "?H < tail_of s" by (simp add: full_inv_def)
  have sim: "seq_at k ?s = seq_at k s" "data_at k ?s = data_at k s"
    by (simp_all add: seq_at_def data_at_def pop_cas_def fun_eq_iff)
  have head: "head_of ?s = Suc ?H" using HT d(7) pos by (simp add: pop_cas_def unat_word_ariths)
  have own: "pushing ?s p = pushing s p" "popping ?s p \<longleftrightarrow> popping s p \<or> p = ?H" for p
    using assms(2) pos by (auto simp: claim_owner)
  have cell: "\<exists>p. p mod 2 ^ k = c \<and> (free_inv k ?s p \<or> full_inv k ?s p)" if c: "c < 2 ^ k" for c
  proof (cases "c = ?H mod 2 ^ k")
    case True
    have "full_inv k ?s ?H" using full unfolding full_inv_def sim own head by simp
    with True show ?thesis by blast
  next
    case False
    obtain p where p: "p mod 2 ^ k = c" "free_inv k s p \<or> full_inv k s p" using d(8) c unfolding cells_inv_def by blast
    have "p \<noteq> ?H" using p(1) False by auto
    then have "free_inv k ?s p \<or> full_inv k ?s p"
      using p(2) unfolding free_inv_def full_inv_def sim own head by auto
    with p(1) show ?thesis by blast
  qed
  have np: "\<not> popping s ?H" unfolding popping_def using pop_pos_inv [OF assms(1)] less_irrefl by metis
  then have "owners_inv ?s" using d(9) pos by (intro owners_set) auto
  moreover have "taken_inv ?s"
  proof -
    have "?H \<notin> fst ` set (mp_taken s)" using taken_invD(3) [OF d(10), of ?H] by simp
    with d(10) show ?thesis unfolding taken_inv_def own head by (auto simp: less_Suc_eq)
  qed
  moreover have "thread_inv k ?s (mp_threads ?s j)" for j
  proof (cases "j = i")
    case True
    with full pos head show ?thesis by (simp add: full_inv_def sim [unfolded set_thread_simps])
  next
    case False
    then show ?thesis using d(11) [of j] sim head
      by (cases "mp_threads s j") (auto simp del: set_thread_simps(6,7))
  qed
  moreover have "shape_inv k ?s"
    using d(1-7) HT head by (simp add: shape_inv_def pop_cas_def)
  ultimately show ?thesis using cell by (simp add: mpmc_inv_def cells_inv_def)
qed

section \<open>Accesses to a claimed cell\<close>

lemma cell_update:
  assumes "mpmc_inv k s"
  shows "seq_at k (s\<lparr>mp_queue := push_data pos w (mp_queue s)\<rparr>) = seq_at k s"
    "data_at k (s\<lparr>mp_queue := push_data pos w (mp_queue s)\<rparr>) p = (if p mod 2 ^ k = unat pos mod 2 ^ k then w else data_at k s p)"
    "data_at k (s\<lparr>mp_queue := push_sequence pos (mp_queue s)\<rparr>) = data_at k s"
    "seq_at k (s\<lparr>mp_queue := push_sequence pos (mp_queue s)\<rparr>) p = (if p mod 2 ^ k = unat pos mod 2 ^ k then unat (pos + 1) else seq_at k s p)"
    "data_at k (s\<lparr>mp_queue := pop_sequence pos (mp_queue s)\<rparr>) = data_at k s"
    "seq_at k (s\<lparr>mp_queue := pop_sequence pos (mp_queue s)\<rparr>) p =
       (if p mod 2 ^ k = unat pos mod 2 ^ k then unat (pos + mask k + 1) else seq_at k s p)"
  using mpmc_invD(3,4) [OF assms]
  by (auto simp: fun_eq_iff seq_at_def data_at_def push_data_def push_sequence_def pop_sequence_def mq_index_mask nth_list_update)

lemma update_frame [simp]:
  "mq_head (push_data pos w q) = mq_head q" "mq_tail (push_data pos w q) = mq_tail q" "mq_mask (push_data pos w q) = mq_mask q"
  "mq_head (push_sequence pos q) = mq_head q" "mq_tail (push_sequence pos q) = mq_tail q" "mq_mask (push_sequence pos q) = mq_mask q"
  "mq_head (pop_sequence pos q) = mq_head q" "mq_tail (pop_sequence pos q) = mq_tail q" "mq_mask (pop_sequence pos q) = mq_mask q"
  "length (mq_buffer (push_data pos w q)) = length (mq_buffer q)"
  "length (mq_buffer (push_sequence pos q)) = length (mq_buffer q)"
  "length (mq_buffer (pop_sequence pos q)) = length (mq_buffer q)"
  by (simp_all add: push_data_def push_sequence_def pop_sequence_def)

lemma inv_data:
  assumes "mpmc_inv k s"
    and own: "push_pos (mp_threads s i) = Some (unat pos) \<or> pop_pos (mp_threads s i) = Some (unat pos)"
    and "push_pos th = push_pos (mp_threads s i)" and "pop_pos th = pop_pos (mp_threads s i)"
    and "thread_inv k (s\<lparr>mp_queue := push_data pos w (mp_queue s)\<rparr>) th"
  shows "mpmc_inv k (set_thread i th (s\<lparr>mp_queue := push_data pos w (mp_queue s)\<rparr>))"
proof -
  note d = mpmc_invD [OF assms(1)]
  let ?s = "s\<lparr>mp_queue := push_data pos w (mp_queue s)\<rparr>"
  note u = cell_update(1,2) [OF assms(1), of pos w]
  have "data_at k ?s p = data_at k s p" if "full_inv k s p" "\<not> p < head_of s" for p
  proof (cases "p mod 2 ^ k = unat pos mod 2 ^ k")
    case True
    then have "seq_at k s (unat pos) = Suc p" using that(1) by (simp add: full_inv_def seq_at_def)
    with own push_pos_inv [OF assms(1), of i "unat pos"] pop_pos_inv [OF assms(1), of i "unat pos"]
      next_cell [OF d(1), of p] True that(2) show ?thesis by auto
  qed (simp add: u(2))
  then have "free_inv k s p \<or> full_inv k s p \<Longrightarrow> free_inv k ?s p \<or> full_inv k ?s p" for p
    unfolding free_inv_def full_inv_def u(1) by auto
  then have cells: "cells_inv k ?s" using d(8) unfolding cells_inv_def by blast
  have threads: "thread_inv k ?s (mp_threads s j)" if "j \<noteq> i" for j
  proof -
    have "data_at k ?s p = data_at k s p"
      if "push_pos (mp_threads s j) = Some p \<or> pop_pos (mp_threads s j) = Some p" for p
      using owner_unique [OF assms(1) _ own that] \<open>j \<noteq> i\<close> by (auto simp: u(2))
    with d(11) [of j] show ?thesis by (cases "mp_threads s j") (auto simp: u(1))
  qed
  have kept: "push_pos th = push_pos (mp_threads ?s i)" "pop_pos th = pop_pos (mp_threads ?s i)"
    using assms(3,4) by simp_all
  have "taken_inv ?s" using d(10) by (simp add: taken_inv_def)
  then have "cells_inv k (set_thread i th ?s)" "owners_inv (set_thread i th ?s)" "taken_inv (set_thread i th ?s)"
    using cells d(9) by (simp_all add: owners_kept [OF kept] cells_set)
  moreover have "shape_inv k (set_thread i th ?s)" using d(1-7) by (simp add: shape_inv_def)
  ultimately show ?thesis using threads assms(5) by (simp add: mpmc_inv_def)
qed

lemma inv_mp_push_write:
  assumes "mpmc_inv k s" and "mp_threads s i = PushWrite v pos"
  shows "mpmc_inv k (set_thread i (PushStore v pos) (s\<lparr>mp_queue := push_data pos v (mp_queue s)\<rparr>))"
  using assms mpmc_invD(11) [OF assms(1), of i]
  by (intro inv_data) (auto simp: cell_update(1,2) [OF assms(1)])

lemma inv_mp_pop_read:
  assumes "mpmc_inv k s" and "mp_threads s i = PopRead pos" and "pop_data pos residue (mp_queue s) = (v, q)"
  shows "mpmc_inv k (set_thread i (PopStore v pos) (s\<lparr>mp_queue := q\<rparr>))"
proof -
  have q: "q = push_data pos residue (mp_queue s)" "v = data_at k s (unat pos)"
    using assms(3) mpmc_invD(3) [OF assms(1)] by (auto simp: pop_data_def data_at_def mq_index_mask)
  show ?thesis
    unfolding q(1) using assms(1,2) mpmc_invD(11) [OF assms(1), of i]
    by (intro inv_data) (auto simp: cell_update(1,2) [OF assms(1)] q(2))
qed

lemma inv_mp_push_store:
  assumes "mpmc_inv k s" and "mp_threads s i = PushStore v pos"
  shows "mpmc_inv k (set_thread i Idle (s\<lparr>mp_queue := push_sequence pos (mp_queue s)\<rparr>))" (is "mpmc_inv k ?t")
proof -
  note d = mpmc_invD [OF assms(1)]
  let ?p = "unat pos" and ?s = "s\<lparr>mp_queue := push_sequence pos (mp_queue s)\<rparr>"
  have th: "?p < tail_of s" "mp_pushed s ! ?p = v" "seq_at k s ?p = ?p" "data_at k s ?p = v"
    using d(11) [of i] assms(2) by simp_all
  have free: "free_inv k s ?p" using free_cell [OF assms(1) th(3)] .
  have "unat (pos + 1) = Suc ?p" using th(1) d(7) by (simp add: unat_word_ariths)
  with cell_update(3,4) [OF assms(1), of pos]
  have u: "data_at k ?t = data_at k s" "seq_at k ?t p = (if p mod 2 ^ k = ?p mod 2 ^ k then Suc ?p else seq_at k s p)" for p
    by (simp_all add: fun_eq_iff)
  have own: "pushing ?t p \<longleftrightarrow> pushing s p \<and> p \<noteq> ?p" "popping ?t p = popping s p" for p
    using d(9) assms(2) by (simp_all add: release_owner claim_owner)
  have cell: "\<exists>p. p mod 2 ^ k = c \<and> (free_inv k ?t p \<or> full_inv k ?t p)" if c: "c < 2 ^ k" for c
  proof (cases "c = ?p mod 2 ^ k")
    case True
    have "full_inv k ?t ?p" using free th unfolding full_inv_def free_inv_def u own by simp
    with True show ?thesis by blast
  next
    case False
    obtain p where p: "p mod 2 ^ k = c" "free_inv k s p \<or> full_inv k s p" using d(8) c unfolding cells_inv_def by blast
    have "free_inv k ?t p \<or> full_inv k ?t p"
      using p False unfolding free_inv_def full_inv_def u own by auto
    with p(1) show ?thesis by blast
  qed
  have "owners_inv ?t" using d(9) by (intro owners_set) simp_all
  moreover have "taken_inv ?t" using d(10) unfolding taken_inv_def own by simp
  moreover have "thread_inv k ?t (mp_threads ?t j)" for j
  proof (cases "j = i")
    case False
    have "seq_at k ?t p = seq_at k s p"
      if "push_pos (mp_threads s j) = Some p \<or> pop_pos (mp_threads s j) = Some p" for p
      unfolding u(2) using owner_unique [OF assms(1) _ _ that, of ?p i] False assms(2) by auto
    moreover have "seq_at k s p \<le> seq_at k ?t p" for p
      unfolding u(2) using th(3) seq_at_cong [of p k ?p s] by auto
    ultimately show ?thesis using False d(11) [of j] u(1)
      by (cases "mp_threads s j") (auto simp del: set_thread_simps(6,7) intro: order.trans order.strict_trans2)
  qed simp
  moreover have "shape_inv k ?t" using d(1-7) by (simp add: shape_inv_def)
  ultimately show ?thesis using cell by (simp add: mpmc_inv_def cells_inv_def)
qed

lemma inv_mp_pop_store:
  assumes "mpmc_inv k s" and "mp_threads s i = PopStore v pos"
  shows "mpmc_inv k (set_thread i Idle (s\<lparr>mp_queue := pop_sequence pos (mp_queue s), 
    mp_taken := mp_taken s @ [(unat pos, v)], mp_log := (mp_log s)(i := mp_log s i @ [unat pos])\<rparr>))" (is "mpmc_inv k ?t")
proof -
  note d = mpmc_invD [OF assms(1)]
  let ?p = "unat pos" and ?s = "s\<lparr>mp_queue := pop_sequence pos (mp_queue s)\<rparr>"
  have th: "?p < head_of s" "seq_at k s ?p = Suc ?p" "v = mp_pushed s ! ?p" using d(11) [of i] assms(2) by simp_all
  have full: "full_inv k s ?p" using full_cell [OF assms(1) th(2)] .
  have "?p + 2 ^ k < 2 ^ 64"
    using th(1) d(2,6,7) power_increasing [of k 62 "2 :: nat"] by simp
  then have "unat (pos + mask k + 1) = ?p + 2 ^ k"
    using unat_word_of_nat [of "?p + 2 ^ k", where ?'a = 64] by (simp add: mask_eq_exp_minus_1)
  with cell_update(5,6) [OF assms(1), of pos]
  have u: "data_at k ?t = data_at k s" "seq_at k ?t p = (if p mod 2 ^ k = ?p mod 2 ^ k then ?p + 2 ^ k else seq_at k s p)" for p
    by (simp_all add: fun_eq_iff data_at_def seq_at_def)
  have own: "pushing ?t p = pushing s p" "popping ?t p \<longleftrightarrow> popping s p \<and> p \<noteq> ?p" for p
    using d(9) assms(2) by (simp_all add: release_owner claim_owner)
  have cell: "\<exists>p. p mod 2 ^ k = c \<and> (free_inv k ?t p \<or> full_inv k ?t p)" if c: "c < 2 ^ k" for c
  proof (cases "c = ?p mod 2 ^ k")
    case True
    have "free_inv k ?t (?p + 2 ^ k)" using full th(1) d(6) unfolding full_inv_def free_inv_def u own by simp
    with True show ?thesis by (intro exI [of _ "?p + 2 ^ k"]) simp
  next
    case False
    obtain p where p: "p mod 2 ^ k = c" "free_inv k s p \<or> full_inv k s p" using d(8) c unfolding cells_inv_def by blast
    have "free_inv k ?t p \<or> full_inv k ?t p"
      using p False unfolding free_inv_def full_inv_def u own by auto
    with p(1) show ?thesis by blast
  qed
  have "owners_inv ?t" using d(9) by (intro owners_set) simp_all
  moreover have "taken_inv ?t"
  proof -
    have "popping s ?p" using assms(2) by (auto simp: popping_def intro!: exI [of _ i])
    with d(10) th(3) show ?thesis unfolding taken_inv_def own by auto
  qed
  moreover have "thread_inv k ?t (mp_threads ?t j)" for j
  proof (cases "j = i")
    case False
    have "seq_at k ?t p = seq_at k s p"
      if "push_pos (mp_threads s j) = Some p \<or> pop_pos (mp_threads s j) = Some p" for p
      unfolding u(2) using owner_unique [OF assms(1) _ _ that, of ?p i] False assms(2) by auto
    moreover have "seq_at k s p \<le> seq_at k ?t p" for p
      unfolding u(2) using th(2) seq_at_cong [of p k ?p s] by (auto simp: Suc_le_eq)
    ultimately show ?thesis using False d(11) [of j] u(1)
      by (cases "mp_threads s j") (auto simp del: set_thread_simps(6,7) intro: order.trans order.strict_trans2)
  qed simp
  moreover have "shape_inv k ?t" using d(1-7) by (simp add: shape_inv_def)
  ultimately show ?thesis using cell by (simp add: mpmc_inv_def cells_inv_def)
qed

section \<open>Every reachable state\<close>

lemma mpmc_tail_mono: "mpmc_step s t \<Longrightarrow> tail_of s \<le> tail_of t"
  by (induction rule: mpmc_step.induct) simp_all

lemma mpmc_inv_step: "mpmc_step s t \<Longrightarrow> mpmc_inv k s \<Longrightarrow> tail_of t \<le> 2 ^ 62 \<Longrightarrow> mpmc_inv k t"
proof (induction rule: mpmc_step.induct)
  case (mp_push_start s i v pos)
  then show ?case by (intro inv_push_load) auto
next
  case (mp_push_check s i v pos seq)
  then show ?case by (intro inv_mp_push_check)
next
  case (mp_push_claim s i v pos)
  then show ?case by (intro inv_mp_push_claim) simp_all
next
  case (mp_push_fail s i v pos pos')
  then show ?case by (intro inv_push_load) auto
next
  case (mp_push_write s i v pos)
  then show ?case by (intro inv_mp_push_write)
next
  case (mp_push_store s i v pos)
  then show ?case by (intro inv_mp_push_store)
next
  case (mp_pop_start s i pos)
  then show ?case by (intro inv_pop_load) auto
next
  case (mp_pop_check s i pos seq)
  then show ?case by (intro inv_mp_pop_check)
next
  case (mp_pop_claim s i pos)
  then show ?case by (intro inv_mp_pop_claim)
next
  case (mp_pop_fail s i pos pos')
  then show ?case by (intro inv_pop_load) auto
next
  case (mp_pop_read s i pos residue v q)
  then show ?case by (intro inv_mp_pop_read)
next
  case (mp_pop_store s i v pos)
  then show ?case by (intro inv_mp_pop_store)
qed

lemma mpmc_inv_init:
  assumes "2 \<le> unat n" and "unat n \<le> 2 ^ 62"
  shows "\<exists>k. mpmc_inv k (mpmc_init d n)"
proof -
  have "n \<noteq> 0" "unat n \<le> 2 ^ 63" using assms by auto
  then obtain k where k: "k \<le> 63" "nextPowerOfTwo n = 2 ^ k" "unat n \<le> 2 ^ k" "k = 0 \<or> 2 ^ (k - 1) < unat n"
    by (rule nextPowerOfTwo_le)
  have "k \<noteq> 0" using k(3) assms(1) by (cases k) auto
  then have k62: "1 \<le> k" "k \<le> 62" using k(1,4) assms(2) by (auto simp: le_less)
  have "(2 :: nat) ^ k \<le> 2 ^ 62" using k62(2) by (intro power_increasing) auto
  then have c: "unat (2 ^ k :: u64) = 2 ^ k" using unat_word_of_nat [of "2 ^ k", where ?'a = 64] by simp
  let ?s = "mpmc_init d n"
  have seq: "seq_at k ?s p = p mod 2 ^ k" for p
  proof -
    have "p mod 2 ^ k < 2 ^ k" by simp
    also have "\<dots> \<le> 2 ^ 62" by fact
    also have "\<dots> < (2 :: nat) ^ 64" by simp
    finally have "p mod 2 ^ k < (2 :: nat) ^ 64" .
    then show ?thesis
      using c k(2) unat_word_of_nat [of "p mod 2 ^ k", where ?'a = 64]
      by (simp add: seq_at_def mpmc_init_def MPMCRingQueue_ctor_def Let_def)
  qed
  have "free_inv k ?s c" if "c < 2 ^ k" for c
    using that seq [of c] by (simp add: free_inv_def mpmc_init_def MPMCRingQueue_ctor_def Let_def)
  then have "cells_inv k ?s" unfolding cells_inv_def by (metis mod_less)
  moreover have "shape_inv k ?s"
    using k62 k(2) c by (simp add: shape_inv_def mpmc_init_def MPMCRingQueue_ctor_def Let_def mask_eq_exp_minus_1)
  ultimately show ?thesis
    by (auto simp: mpmc_inv_def owners_inv_def taken_inv_def popping_def mpmc_init_def MPMCRingQueue_ctor_def Let_def intro!: exI [of _ k])
qed

text \<open>The elements each thread has popped are in the order of their positions.\<close>

definition order_inv :: "'a mpmc \<Rightarrow> bool" where
  "order_inv s \<longleftrightarrow> (\<forall>i. sorted_wrt (<) (mp_log s i) \<and>
     (\<forall>p \<in> set (mp_log s i). p < head_of s \<and> (\<forall>q. pop_pos (mp_threads s i) = Some q \<longrightarrow> p < q)))"

lemma order_inv_step:
  assumes "mpmc_step s t" and "mpmc_inv k s" and "mpmc_inv k t" and "order_inv s"
  shows "order_inv t"
  using assms
proof (induction rule: mpmc_step.induct)
  case (mp_pop_claim s i pos)
  let ?t = "set_thread i (PopRead pos) (s\<lparr>mp_queue := pop_cas pos (mp_queue s)\<rparr>)"
  have "unat pos < head_of ?t" using mpmc_invD(11) [OF mp_pop_claim.prems(2), of i] by simp
  with mp_pop_claim show ?case
    by (auto simp: order_inv_def pop_cas_def intro: order.strict_trans)
next
  case (mp_pop_store s i v pos)
  have "unat pos < head_of s" using mpmc_invD(11) [OF mp_pop_store.prems(1), of i] mp_pop_store.hyps by simp
  with mp_pop_store show ?case by (auto simp: order_inv_def sorted_wrt_append)
next
  case (mp_pop_read s i pos residue v q)
  then have "q = push_data pos residue (mp_queue s)" "mp_threads s i = PopRead pos" by (auto simp: pop_data_def)
  with mp_pop_read.prems(3) show ?case by (auto simp: order_inv_def)
qed (auto simp: order_inv_def push_cas_def push_next_def pop_next_def split: mq_decision.split)

definition mpmc_wf :: "'a mpmc \<Rightarrow> bool" where
  "mpmc_wf s \<longleftrightarrow> (tail_of s \<le> 2 ^ 62 \<longrightarrow> (\<exists>k. mpmc_inv k s) \<and> order_inv s)"

interpretation mpmc: invariant_system
  "\<lambda>s. \<exists>d n. 2 \<le> unat n \<and> unat n \<le> 2 ^ 62 \<and> s = mpmc_init d n" mpmc_step mpmc_wf
proof
  fix s :: "'a mpmc"
  assume "\<exists>d n. 2 \<le> unat n \<and> unat n \<le> 2 ^ 62 \<and> s = mpmc_init d n"
  then obtain d n where n: "2 \<le> unat n" "unat n \<le> 2 ^ 62" "s = mpmc_init d n" by blast
  have "order_inv s" unfolding n(3) by (simp add: order_inv_def mpmc_init_def)
  with mpmc_inv_init [OF n(1,2), of d] show "mpmc_wf s" unfolding n(3) mpmc_wf_def by blast
next
  fix s t :: "'a mpmc"
  assume wf: "mpmc_wf s" and st: "mpmc_step s t"
  show "mpmc_wf t"
    unfolding mpmc_wf_def
  proof
    assume t: "tail_of t \<le> 2 ^ 62"
    with mpmc_tail_mono [OF st] wf obtain k where k: "mpmc_inv k s" "order_inv s" unfolding mpmc_wf_def by auto
    note i = mpmc_inv_step [OF st k(1) t]
    from order_inv_step [OF st k(1) i k(2)] i show "(\<exists>k. mpmc_inv k t) \<and> order_inv t" by blast
  qed
qed

section \<open>Sequential use\<close>

text \<open>A queue of N cells between operations, after t pushes, with the elements xs.\<close>

definition mq_holds :: "nat \<Rightarrow> nat \<Rightarrow> 'a MPMCRingQueue \<Rightarrow> 'a list \<Rightarrow> bool" where
  "mq_holds N t q xs \<longleftrightarrow> (\<exists>k s. N = 2 ^ k \<and> mpmc_inv k s \<and> mp_queue s = q \<and> tail_of s = t \<and>
     xs = drop (head_of s) (mp_pushed s) \<and> (\<forall>i. mp_threads s i = Idle))"

lemma quiescent:
  assumes "mpmc_inv k s" and "\<And>i. mp_threads s i = Idle"
  shows "free_inv k s p \<Longrightarrow> tail_of s \<le> p" "full_inv k s p \<Longrightarrow> head_of s \<le> p"
  using assms(2) by (auto simp: free_inv_def full_inv_def pushing_def popping_def split: if_splits)

text \<open>The cell of the next push: free, or still full because the queue is full.\<close>

lemma push_cell:
  assumes "mpmc_inv k s" and "\<And>i. mp_threads s i = Idle"
  shows "seq_at k s (tail_of s) = tail_of s \<and> tail_of s < head_of s + 2 ^ k \<or>
    seq_at k s (tail_of s) < tail_of s \<and> tail_of s = head_of s + 2 ^ k"
  using assms(1)
proof (cases rule: cell_cases [of k s "tail_of s"])
  case (free p)
  have p: "tail_of s \<le> p" "p < head_of s + 2 ^ k"
    using quiescent(1) [OF assms free(2)] free(2) by (auto simp: free_inv_def)
  then have "tail_of s = p" using same_cell [OF free(1) [symmetric]] mpmc_invD(6) [OF assms(1)] by linarith
  with p free(3) show ?thesis by simp
next
  case (full p)
  have p: "head_of s \<le> p" "p < tail_of s" "tail_of s \<le> p + 2 ^ k" "p < head_of s + 2 ^ k"
    using quiescent(2) [OF assms full(2)] full(2) by (auto simp: full_inv_def)
  then have T: "tail_of s = p + 2 ^ k" using same_cell [OF full(1)] by fastforce
  then have "Suc p < tail_of s" using mpmc_invD(1) [OF assms(1)] power_increasing [of 1 k "2 :: nat"] by simp
  moreover have "p = head_of s"
  proof -
    obtain p' where p': "p' mod 2 ^ k = head_of s mod 2 ^ k" "free_inv k s p' \<or> full_inv k s p'"
      using assms(1) by (cases rule: cell_cases [of k s "head_of s"]) blast+
    have "head_of s \<le> p'" "p' < head_of s + 2 ^ k" "tail_of s \<le> p' + 2 ^ k"
      using p'(2) quiescent(2) [OF assms, of p'] by (auto simp: free_inv_def full_inv_def)
    with same_cell [OF p'(1) [symmetric]] T p(1) show ?thesis by simp
  qed
  ultimately show ?thesis using full(3) T by simp
qed

lemma pop_cell:
  assumes "mpmc_inv k s" and "\<And>i. mp_threads s i = Idle"
  shows "seq_at k s (head_of s) = (if head_of s < tail_of s then Suc (head_of s) else head_of s)"
  using assms(1)
proof (cases rule: cell_cases [of k s "head_of s"])
  case (free p)
  have "head_of s \<le> p" "p < head_of s + 2 ^ k" "tail_of s \<le> p"
    using quiescent(1) [OF assms free(2)] free(2) by (auto simp: free_inv_def)
  with same_cell [OF free(1) [symmetric]] free(3) show ?thesis by simp
next
  case (full p)
  have "head_of s \<le> p" "p < head_of s + 2 ^ k" "p < tail_of s"
    using quiescent(2) [OF assms full(2)] full(2) by (auto simp: full_inv_def)
  with same_cell [OF full(1) [symmetric]] full(3) show ?thesis by simp
qed

lemma mq_decide_cmp:
  assumes "unat seq < 2 ^ 63" and "unat pos < 2 ^ 63"
  shows "mq_decide seq pos = (if unat seq = unat pos then Claim else if unat seq < unat pos then Refuse else Reload)"
proof -
  have "sint w = int (unat w)" if "unat w < 2 ^ 63" for w :: u64
  proof -
    have "int (unat w) < int (2 ^ 63)" using that by (simp only: of_nat_less_iff)
    then have "uint w < 2 ^ 63" by simp
    then have "signed_take_bit 63 (uint w) = uint w" using unsigned_greater_eq [of w, where ?'a = int] by (intro signed_take_bit_int_eq_self) (linarith, simp)
    then show ?thesis by (simp add: sint_uint)
  qed
  then have e: "sint seq = int (unat seq)" "sint pos = int (unat pos)" using assms by blast+
  have "int (unat seq) - int (unat pos) = 0 \<longleftrightarrow> unat seq = unat pos" "int (unat seq) - int (unat pos) < 0 \<longleftrightarrow> unat seq < unat pos"
    by linarith+
  then show ?thesis unfolding mq_decide_def Let_def e by (simp only:)
qed

lemma mq_push_holds:
  assumes "mq_holds N t q xs" and "t < 2 ^ 62"
  obtains q' where "mq_push v q = Some (length xs < N, q')"
    "mq_holds N (if length xs < N then Suc t else t) q' (if length xs < N then xs @ [v] else xs)"
proof -
  obtain k s where k: "N = 2 ^ k" "mpmc_inv k s" "mp_queue s = q" "tail_of s = t" "xs = drop (head_of s) (mp_pushed s)"
    and idle: "\<And>i. mp_threads s i = Idle" using assms(1) unfolding mq_holds_def by blast
  note d = mpmc_invD [OF k(2)]
  have len: "length xs < N \<longleftrightarrow> t < head_of s + 2 ^ k" using k(1,4,5) d(6) by auto
  have pos: "unat (mq_tail q) = t" using d(5) k(3,4) by simp
  have seq: "unat (mq_sequence q (mq_tail q)) = seq_at k s t" using mq_sequence_at [OF k(2), of "mq_tail q"] k(3) pos by simp
  have c: "seq_at k s t = t \<and> t < head_of s + 2 ^ k \<or> seq_at k s t < t \<and> t = head_of s + 2 ^ k"
    using push_cell [OF k(2) idle] k(4) by simp
  then have dec: "mq_decide (mq_sequence q (mq_tail q)) (mq_tail q) = (if length xs < N then Claim else Refuse)"
    using assms(2) len by (subst mq_decide_cmp) (auto simp: seq pos)
  show ?thesis
  proof (cases "length xs < N")
    case False
    with dec have "mq_push v q = Some (False, q)" by (simp add: mq_push_def mq_push_loop.simps)
    with False assms(1) that [of q] show ?thesis by simp
  next
    case True
    let ?pos = "mq_tail q"
    let ?s1 = "set_thread 0 (PushCas v ?pos) s"
    let ?s2 = "set_thread 0 (PushWrite v ?pos) (?s1\<lparr>mp_queue := push_cas ?pos q, mp_pushed := mp_pushed s @ [v]\<rparr>)"
    let ?s3 = "set_thread 0 (PushStore v ?pos) (?s2\<lparr>mp_queue := push_data ?pos v (push_cas ?pos q)\<rparr>)"
    let ?s4 = "set_thread 0 Idle (?s3\<lparr>mp_queue := push_sequence ?pos (push_data ?pos v (push_cas ?pos q))\<rparr>)"
    have "mpmc_inv k ?s1" using idle pos c len True k(4) by (intro inv_local [OF k(2)]) simp_all
    from inv_mp_push_claim [OF this, of 0 v ?pos] k(3,4) assms(2) have "mpmc_inv k ?s2" by simp
    from inv_mp_push_write [OF this, of 0 v ?pos] have "mpmc_inv k ?s3" by simp
    from inv_mp_push_store [OF this, of 0 v ?pos] have s4: "mpmc_inv k ?s4" by simp
    have "mq_push v q = Some (True, mp_queue ?s4)" using True dec by (simp add: mq_push_def mq_push_loop.simps)
    moreover have "mq_holds N (Suc t) (mp_queue ?s4) (xs @ [v])"
      unfolding mq_holds_def using k(1,3-5) s4 idle d(6)
      by (intro exI [of _ k] exI [of _ ?s4]) (simp add: push_cas_def)
    ultimately show ?thesis using True that by simp
  qed
qed

lemma mq_pop_holds:
  assumes "mq_holds N t q xs" and "t \<le> 2 ^ 62"
  obtains q' where "mq_pop residue q = Some (case xs of [] \<Rightarrow> None | x # _ \<Rightarrow> Some x, q')" "mq_holds N t q' (tl xs)"
proof -
  obtain k s where k: "N = 2 ^ k" "mpmc_inv k s" "mp_queue s = q" "tail_of s = t" "xs = drop (head_of s) (mp_pushed s)"
    and idle: "\<And>i. mp_threads s i = Idle" using assms(1) unfolding mq_holds_def by blast
  note d = mpmc_invD [OF k(2)]
  let ?pos = "mq_head q" and ?H = "head_of s"
  have H: "unat ?pos = ?H" "?H \<le> 2 ^ 62" using k(3) d(6,7) by auto
  then have pos1: "unat (?pos + 1) = Suc ?H" by (simp add: unat_word_ariths)
  have seq: "unat (mq_sequence q ?pos) = (if ?H < t then Suc ?H else ?H)"
    using mq_sequence_at [OF k(2), of ?pos] pop_cell [OF k(2) idle] k(3,4) by simp
  then have dec: "mq_decide (mq_sequence q ?pos) (?pos + 1) = (if ?H < t then Claim else Refuse)"
    using H(2) by (subst mq_decide_cmp) (auto simp: seq pos1)
  show ?thesis
  proof (cases "?H < t")
    case False
    then have "xs = []" using k(4,5) by simp
    moreover have "mq_pop residue q = Some (None, q)" using False dec by (simp add: mq_pop_def mq_pop_loop.simps)
    ultimately show ?thesis using assms(1) that [of q] by simp
  next
    case True
    let ?q = "push_data ?pos residue (pop_cas ?pos q)"
    let ?s1 = "set_thread 0 (PopCas ?pos) s"
    let ?s2 = "set_thread 0 (PopRead ?pos) (?s1\<lparr>mp_queue := pop_cas ?pos q\<rparr>)"
    let ?v = "fst (pop_data ?pos residue (pop_cas ?pos q))"
    let ?s3 = "set_thread 0 (PopStore ?v ?pos) (?s2\<lparr>mp_queue := ?q\<rparr>)"
    let ?s4 = "set_thread 0 Idle (?s3\<lparr>mp_queue := pop_sequence ?pos ?q, mp_taken := mp_taken s @ [(unat ?pos, ?v)],
      mp_log := (mp_log s)(0 := mp_log s 0 @ [unat ?pos])\<rparr>)"
    have "mpmc_inv k ?s1"
      using idle H pop_cell [OF k(2) idle] True k(4) by (intro inv_local [OF k(2)]) simp_all
    from inv_mp_pop_claim [OF this, of 0 ?pos] k(3) have "mpmc_inv k ?s2" by simp
    from inv_mp_pop_read [OF this, of 0 ?pos residue ?v ?q] have s3: "mpmc_inv k ?s3" by (simp add: pop_data_def)
    from inv_mp_pop_store [OF s3, of 0 ?v ?pos] have s4: "mpmc_inv k ?s4" by simp
    have xs: "xs = mp_pushed s ! ?H # drop (Suc ?H) (mp_pushed s)" using True k(4,5) by (simp add: Cons_nth_drop_Suc)
    have "?v = mp_pushed s ! ?H" using mpmc_invD(11) [OF s3, of 0] H(1) by simp
    with xs have v: "(case xs of [] \<Rightarrow> None | x # _ \<Rightarrow> Some x) = Some ?v" by simp
    have "mq_pop residue q = Some (Some ?v, mp_queue ?s4)"
      using True dec by (simp add: mq_pop_def mq_pop_loop.simps pop_data_def)
    moreover have "mq_holds N t (mp_queue ?s4) (tl xs)"
      unfolding mq_holds_def using k(1,3,4) s4 idle xs pos1
      by (intro exI [of _ k] exI [of _ ?s4]) (simp add: pop_cas_def)
    ultimately show ?thesis using v that by simp
  qed
qed

text \<open>The operations of a history, on the queue and on a list of at most N elements.\<close>

datatype 'a fifo_out = Pushed bool | Popped "'a option"

fun mq_exec :: "'a \<Rightarrow> 'a fifo_op \<Rightarrow> 'a MPMCRingQueue \<Rightarrow> ('a fifo_out \<times> 'a MPMCRingQueue) option" where
  "mq_exec residue (Push v) q = map_option (apfst Pushed) (mq_push v q)"
| "mq_exec residue Pop q = map_option (apfst Popped) (mq_pop residue q)"

fun fifo_spec :: "nat \<Rightarrow> 'a fifo_op \<Rightarrow> 'a list \<Rightarrow> 'a fifo_out \<times> 'a list" where
  "fifo_spec N (Push v) xs = (Pushed (length xs < N), if length xs < N then xs @ [v] else xs)"
| "fifo_spec N Pop xs = (Popped (case xs of [] \<Rightarrow> None | x # _ \<Rightarrow> Some x), tl xs)"

lemma mq_exec_holds:
  assumes "mq_holds N t q xs" and "t < 2 ^ 62"
  obtains q' t' where "mq_exec residue op q = Some (fst (fifo_spec N op xs), q')" "t' \<le> Suc t"
    "mq_holds N t' q' (snd (fifo_spec N op xs))"
proof (cases op)
  case (Push v)
  obtain q' where "mq_push v q = Some (length xs < N, q')"
    "mq_holds N (if length xs < N then Suc t else t) q' (if length xs < N then xs @ [v] else xs)"
    by (rule mq_push_holds [OF assms])
  with Push that [of q' "if length xs < N then Suc t else t"] show ?thesis by (auto split: if_splits)
next
  case Pop
  obtain q' where "mq_pop residue q = Some (case xs of [] \<Rightarrow> None | x # _ \<Rightarrow> Some x, q')" "mq_holds N t q' (tl xs)"
    by (rule mq_pop_holds [OF assms(1)]) (use assms(2) in simp_all)
  with Pop that [of q' t] show ?thesis by simp
qed

lemma mq_run_holds:
  "mq_holds N t q xs \<Longrightarrow> t + length ops \<le> 2 ^ 62 \<Longrightarrow>
     \<exists>q'. object_run (mq_exec residue) ops q = Some (fst (spec_run (fifo_spec N) ops xs), q')"
proof (induction ops arbitrary: t q xs)
  case (Cons op ops)
  have "t < 2 ^ 62" using Cons.prems(2) by simp
  from mq_exec_holds [OF Cons.prems(1) this] obtain q1 t1 where
    q1: "mq_exec residue op q = Some (fst (fifo_spec N op xs), q1)" "t1 \<le> Suc t" "mq_holds N t1 q1 (snd (fifo_spec N op xs))" .
  have "t1 + length ops \<le> 2 ^ 62" using q1(2) Cons.prems(2) by simp
  from Cons.IH [OF q1(3) this] obtain q' where
    "object_run (mq_exec residue) ops q1 = Some (fst (spec_run (fifo_spec N) ops (snd (fifo_spec N op xs))), q')" ..
  with q1(1) show ?case by (simp add: case_prod_beta Let_def)
qed simp

lemma mq_ctor_holds:
  assumes "2 \<le> unat n" and "unat n \<le> 2 ^ 62"
  shows "mq_holds (unat (nextPowerOfTwo n)) 0 (MPMCRingQueue_ctor d n) []"
proof -
  obtain k where k: "mpmc_inv k (mpmc_init d n)" using mpmc_inv_init [OF assms, of d] ..
  have "unat (nextPowerOfTwo n) = 2 ^ k"
    using mpmc_invD(4) [OF k] by (simp add: mpmc_init_def MPMCRingQueue_ctor_def Let_def)
  with k show ?thesis
    unfolding mq_holds_def by (intro exI [of _ k] exI [of _ "mpmc_init d n"]) (simp add: mpmc_init_def)
qed

section \<open>Properties\<close>

text \<open>The cell a thread is about to access.\<close>

fun touches :: "'a MPMCRingQueue \<Rightarrow> 'a mp_thread \<Rightarrow> nat option" where
  "touches q (PushWrite v p) = Some (mq_index q p)"
| "touches q (PopRead p) = Some (mq_index q p)"
| "touches q _ = None"

lemma touches_owner:
  "mpmc_inv k s \<Longrightarrow> touches (mp_queue s) th = Some c \<Longrightarrow> \<exists>p. c = p mod 2 ^ k \<and> (push_pos th = Some p \<or> pop_pos th = Some p)"
  using mpmc_invD(3) [of k s] by (cases th) (auto simp: mq_index_mask)

lemma mpmc_room:
  assumes "mpmc_inv k s"
  shows "tail_of s \<le> head_of s + 2 ^ k"
  using assms
proof (cases rule: cell_cases [of k s "head_of s"])
  case (free p)
  then show ?thesis using same_cell [OF free(1) [symmetric]] by (auto simp: free_inv_def)
next
  case (full p)
  have "p \<le> head_of s"
  proof (rule ccontr)
    assume "\<not> p \<le> head_of s"
    then have "head_of s \<le> p" "head_of s \<noteq> p" by simp_all
    moreover have "p < head_of s + 2 ^ k" using full(2) unfolding full_inv_def by blast
    ultimately show False using same_cell [OF full(1) [symmetric]] by blast
  qed
  then show ?thesis using full(2) unfolding full_inv_def by linarith
qed

lemma taken_multiset:
  assumes "mpmc_inv k s" and "\<And>i. pop_pos (mp_threads s i) = None"
  shows "mset (map snd (mp_taken s)) = mset (take (head_of s) (mp_pushed s))"
proof -
  note t = taken_invD [OF mpmc_invD(10) [OF assms(1)]]
  have "set (map fst (mp_taken s)) = set [0..<head_of s]"
    unfolding set_upt set_map using t(3) assms(2) by (simp add: set_eq_iff popping_def)
  then have "mset (map fst (mp_taken s)) = mset [0..<head_of s]"
    using t(1) by (subst set_eq_iff_mset_eq_distinct [symmetric]) auto
  moreover have "map snd (mp_taken s) = map (\<lambda>p. mp_pushed s ! p) (map fst (mp_taken s))" using t(2) by force
  moreover have "take (head_of s) (mp_pushed s) = map (\<lambda>p. mp_pushed s ! p) [0..<head_of s]"
    using mpmc_invD(6) [OF assms(1)] by (intro nth_equalityI) auto
  ultimately show ?thesis by (metis mset_map)
qed

text \<open>
  C15: any number of producers and consumers, interleaved at every access to shared memory, with stale
  loads and spurious failures, on a queue asked to hold at least two elements, as long as fewer than
  \<open>2 ^ 62\<close> elements were pushed. Every delivered element is the one pushed at its position, no position is
  delivered twice, each consumer receives its elements in the order in which they were pushed, the queue never
  holds more than its capacity, when no pop is under way what was delivered are exactly the oldest elements,
  and no two threads ever access the data of the same cell at the same time.
\<close>

theorem MPMCRingQueue_concurrent:
  assumes "2 \<le> unat n" and "unat n \<le> 2 ^ 62" and "mpmc_step\<^sup>*\<^sup>* (mpmc_init d n) s" and "length (mp_pushed s) \<le> 2 ^ 62"
  shows "(\<forall>(p, v) \<in> set (mp_taken s). p < length (mp_pushed s) \<and> v = mp_pushed s ! p) \<and> distinct (map fst (mp_taken s)) \<and>
    (\<forall>i. sorted_wrt (<) (mp_log s i)) \<and>
    length (mp_pushed s) \<le> unat (mq_head (mp_queue s)) + length (mq_buffer (mp_queue s)) \<and>
    ((\<forall>i. pop_pos (mp_threads s i) = None) \<longrightarrow>
       mset (map snd (mp_taken s)) = mset (take (unat (mq_head (mp_queue s))) (mp_pushed s))) \<and>
    (\<forall>i j c. i \<noteq> j \<and> touches (mp_queue s) (mp_threads s i) = Some c \<longrightarrow>
       c < length (mq_buffer (mp_queue s)) \<and> touches (mp_queue s) (mp_threads s j) \<noteq> Some c)"
proof -
  have "\<exists>d' n'. 2 \<le> unat n' \<and> unat n' \<le> 2 ^ 62 \<and> mpmc_init d n = mpmc_init d' n'" using assms(1,2) by blast
  from mpmc.Inv_reachable [OF this assms(3)] assms(4) obtain k where k: "mpmc_inv k s" "order_inv s"
    unfolding mpmc_wf_def by blast
  note d = mpmc_invD [OF k(1)] and t = taken_invD [OF mpmc_invD(10) [OF k(1)]]
  have "c < 2 ^ k \<and> touches (mp_queue s) (mp_threads s j) \<noteq> Some c"
    if "i \<noteq> j" "touches (mp_queue s) (mp_threads s i) = Some c" for i j c
    using touches_owner [OF k(1) that(2)] touches_owner [OF k(1), of "mp_threads s j" c] owner_unique [OF k(1)] that(1)
    by (metis mod_less_divisor zero_less_numeral zero_less_power)
  moreover have "\<forall>(p, v) \<in> set (mp_taken s). p < length (mp_pushed s) \<and> v = mp_pushed s ! p"
    using t(2) d(6) by fastforce
  ultimately show ?thesis
    using t(1) k(2) taken_multiset [OF k(1)] mpmc_room [OF k(1)] unfolding d(4) order_inv_def by blast
qed

theorem MPMCRingQueue_concurrent_witness:
  "\<exists>s. mpmc_step\<^sup>*\<^sup>* (mpmc_init (0 :: nat) 2) s \<and> mp_pushed s = [7] \<and> mp_taken s = [(0, 7)] \<and> 7 = mp_pushed s ! 0"
proof -
  have two: "nextPowerOfTwo 2 = 2" by (simp add: nextPowerOfTwo_def Let_def)
  let ?s = "mpmc_init (0 :: nat) 2"
  have q: "mp_queue ?s = \<lparr> mq_capacity = 2, mq_mask = 1,
    mq_buffer = [\<lparr>cell_sequence = 0, cell_data = 0\<rparr>, \<lparr>cell_sequence = 1, cell_data = 0\<rparr>], mq_head = 0, mq_tail = 0 \<rparr>"
    by (simp add: mpmc_init_def MPMCRingQueue_ctor_def two Let_def upt_conv_Cons)
  let ?a = "set_thread 0 (PushSeq 7 0) ?s"
  have a: "mpmc_step ?s ?a" by (rule mp_push_start) (simp_all add: mpmc_init_def)
  let ?b = "set_thread 0 (push_next 7 0 (mq_decide 0 0)) ?a"
  have b: "mpmc_step ?a ?b" by (rule mp_push_check) (simp_all)
  have nb: "push_next 7 0 (mq_decide 0 0) = PushCas (7 :: nat) 0" by (simp add: push_next_def mq_decide_def)
  let ?c = "set_thread 0 (PushWrite 7 0) (?b\<lparr>mp_queue := push_cas 0 (mp_queue ?b), mp_pushed := mp_pushed ?b @ [7]\<rparr>)"
  have c: "mpmc_step ?b ?c" by (rule mp_push_claim) (simp_all add: nb q)
  let ?d = "set_thread 0 (PushStore 7 0) (?c\<lparr>mp_queue := push_data 0 7 (mp_queue ?c)\<rparr>)"
  have d: "mpmc_step ?c ?d" by (rule mp_push_write) simp
  let ?e = "set_thread 0 Idle (?d\<lparr>mp_queue := push_sequence 0 (mp_queue ?d)\<rparr>)"
  have e: "mpmc_step ?d ?e" by (rule mp_push_store) simp
  have qe: "mp_queue ?e = \<lparr> mq_capacity = 2, mq_mask = 1,
    mq_buffer = [\<lparr>cell_sequence = 1, cell_data = 7\<rparr>, \<lparr>cell_sequence = 1, cell_data = 0\<rparr>], mq_head = 0, mq_tail = 1 \<rparr>"
    by (simp add: q push_cas_def push_data_def push_sequence_def mq_index_def)
  let ?f = "set_thread 1 (PopSeq 0) ?e"
  have f: "mpmc_step ?e ?f" by (rule mp_pop_start) (simp_all add: mpmc_init_def)
  let ?g = "set_thread 1 (pop_next 0 (mq_decide 1 (0 + 1))) ?f"
  have g: "mpmc_step ?f ?g"
    by (rule mp_pop_check)
      (simp_all add: mq_sequence_def mq_index_def q push_cas_def push_data_def push_sequence_def)
  have ng: "pop_next 0 (mq_decide 1 (0 + 1)) = PopCas 0" by (simp add: pop_next_def mq_decide_def)
  let ?h = "set_thread 1 (PopRead 0) (?g\<lparr>mp_queue := pop_cas 0 (mp_queue ?g)\<rparr>)"
  have h: "mpmc_step ?g ?h" by (rule mp_pop_claim) (simp_all add: ng [simplified] q push_cas_def)
  let ?q = "push_data 0 0 (mp_queue ?h)"
  let ?i = "set_thread 1 (PopStore 7 0) (?h\<lparr>mp_queue := ?q\<rparr>)"
  have i: "mpmc_step ?h ?i"
    by (rule mp_pop_read [where residue = 0]) (simp, simp add: pop_data_def qe [simplified] pop_cas_def mq_index_def)
  let ?j = "set_thread 1 Idle (?i\<lparr>mp_queue := pop_sequence 0 (mp_queue ?i), mp_taken := mp_taken ?i @ [(unat (0 :: u64), 7)],
    mp_log := (mp_log ?i)(1 := mp_log ?i 1 @ [unat (0 :: u64)])\<rparr>)"
  have j: "mpmc_step ?i ?j" by (rule mp_pop_store) simp
  have run: "mpmc_step\<^sup>*\<^sup>* ?s ?j"
    using a b c d e f g h i j by (meson rtranclp.rtrancl_refl rtranclp.rtrancl_into_rtrancl)
  have "mp_pushed ?j = [7]" "mp_taken ?j = [(0, 7)]" by (simp_all add: mpmc_init_def)
  with MPMCRingQueue_concurrent [OF _ _ run] run show ?thesis by auto
qed

text \<open>
  C16: used by one thread at a time, the queue is a FIFO of exactly its capacity: every history of fewer than
  \<open>2 ^ 62\<close> operations answers as a list of at most that many elements does, and every operation returns.
\<close>

theorem MPMCRingQueue_sequential:
  assumes "2 \<le> unat n" and "unat n \<le> 2 ^ 62" and "length ops \<le> 2 ^ 62"
  shows "\<exists>q. object_run (mq_exec residue) ops (MPMCRingQueue_ctor d n) =
    Some (fst (spec_run (fifo_spec (unat (nextPowerOfTwo n))) ops []), q)"
  using mq_run_holds [OF mq_ctor_holds [OF assms(1,2)]] assms(3) by simp

theorem MPMCRingQueue_sequential_witness:
  "\<exists>q. object_run (mq_exec 0) [Push 1, Push 2, Push (3 :: nat), Pop, Pop, Pop] (MPMCRingQueue_ctor 0 2) =
    Some ([Pushed True, Pushed True, Pushed False, Popped (Some 1), Popped (Some 2), Popped None], q)"
proof -
  let ?ops = "[Push 1, Push 2, Push (3 :: nat), Pop, Pop, Pop]"
  have "unat (nextPowerOfTwo 2) = 2" by (simp add: nextPowerOfTwo_def Let_def)
  then have "fst (spec_run (fifo_spec (unat (nextPowerOfTwo 2))) ?ops []) =
    [Pushed True, Pushed True, Pushed False, Popped (Some 1), Popped (Some 2), Popped None]" by simp
  with MPMCRingQueue_sequential [of 2 ?ops 0 0] show ?thesis by (simp only:) simp
qed

lemma mq_pop_diverges:
  assumes "mq_decide (mq_sequence q (mq_head q)) (mq_head q + 1) = Reload"
  shows "mq_pop residue q = None"
proof (rule ccontr)
  assume "mq_pop residue q \<noteq> None"
  then obtain y where "mq_pop_loop (mq_head q) residue q = Some y" by (auto simp: mq_pop_def)
  then have "\<not> (mq_decide (mq_sequence q (mq_head q)) (mq_head q + 1) = Reload \<and> mq_head q = mq_head q)"
    by (rule mq_pop_loop.raw_induct
        [where P = "\<lambda>pos r q y. \<not> (mq_decide (mq_sequence q pos) (pos + 1) = Reload \<and> pos = mq_head q)", rotated])
      (auto, blast)
  with assms show False by simp
qed

text \<open>
  a queue asked to hold one element (or none) has a single cell, whose sequence number after a push is
  also the one of a free cell: a second push is accepted and overwrites the first element, and the pop that
  follows never returns.
\<close>

theorem MPMCRingQueue_single_cell:
  assumes "unat n \<le> 1"
  shows "\<exists>q1 q2. mq_push x (MPMCRingQueue_ctor d n) = Some (True, q1) \<and> mq_push y q1 = Some (True, q2) \<and>
    length (mq_buffer q2) = 1 \<and> cell_data (mq_buffer q2 ! 0) = y \<and> mq_pop residue q2 = None"
proof -
  have "n = 0 \<or> n = 1" using assms by (metis le_SucE le_zero_eq One_nat_def unat_eq_zero unat_1 word_unat_eq_iff)
  then have one: "nextPowerOfTwo n = 1" by (auto simp: nextPowerOfTwo_def Let_def)
  define q0 where "q0 = \<lparr> mq_capacity = 1, mq_mask = 0, mq_buffer = [\<lparr>cell_sequence = 0, cell_data = d\<rparr>], mq_head = 0, mq_tail = 0 \<rparr>"
  define q1 where "q1 = q0\<lparr>mq_buffer := [\<lparr>cell_sequence = 1, cell_data = x\<rparr>], mq_tail := 1\<rparr>"
  define q2 where "q2 = q0\<lparr>mq_buffer := [\<lparr>cell_sequence = 2, cell_data = y\<rparr>], mq_tail := 2\<rparr>"
  note ops = mq_push_def mq_push_loop.simps mq_sequence_def mq_index_def mq_decide_def push_cas_def push_data_def push_sequence_def
  have "MPMCRingQueue_ctor d n = q0" by (simp add: MPMCRingQueue_ctor_def one q0_def Let_def)
  moreover have "mq_push x q0 = Some (True, q1)" by (simp add: ops q0_def q1_def)
  moreover have "mq_push y q1 = Some (True, q2)" by (simp add: ops q0_def q1_def q2_def)
  moreover have "mq_decide (mq_sequence q2 (mq_head q2)) (mq_head q2 + 1) = Reload"
    by (simp add: mq_sequence_def mq_index_def mq_decide_def q0_def q2_def)
  then have "mq_pop residue q2 = None" by (rule mq_pop_diverges)
  ultimately show ?thesis by (intro exI [of _ q1] exI [of _ q2]) (simp add: q0_def q2_def)
qed

theorem MPMCRingQueue_single_cell_witness:
  "\<exists>q1 q2. mq_push 7 (MPMCRingQueue_ctor (0 :: nat) 1) = Some (True, q1) \<and> mq_push 8 q1 = Some (True, q2) \<and>
    cell_data (mq_buffer q2 ! 0) = 8 \<and> mq_pop 0 q2 = None"
  using MPMCRingQueue_single_cell [of 1 7 "0 :: nat" 8 0] by auto

end
