(* ===== verification/ObjectPool.thy ===== *)
theory ObjectPool
  imports Prelude "HOL-Library.Multiset"
begin

text \<open>
  The class templates \<open>ObjectPool\<close> and \<open>ObjectPool::PooledObject\<close> of
  \<^verbatim>\<open>include/darwincore/foundation/container/ObjectPool.h\<close>. An object is named by the number of the call of the
  create function that made it, and carries its contents; the create function always makes an object. A program that
  uses a pool is a sequence of steps on the pool and on the handles it holds; handles are destroyed, moved and
  detached as the class allows.
\<close>

section \<open>State and operations\<close>

type_synonym 'a object = "nat \<times> 'a"

record 'a ObjectPool =
  op_create :: "nat \<Rightarrow> 'a"
  op_reset :: "('a \<Rightarrow> 'a) option"
  op_maxSize :: nat
  op_createdCount :: nat
  op_pool :: "'a object list"
  op_serial :: nat

record 'a PooledObject =
  po_object :: "'a object option"
  po_pool :: bool

datatype pool_error = invalid_argument

text \<open>A call of \<open>createFunc_\<close>; \<open>op_serial\<close> counts these calls and is never read by the code.\<close>

definition call_create :: "'a ObjectPool \<Rightarrow> 'a object \<times> 'a ObjectPool" where
  "call_create p = ((op_serial p, op_create p (op_serial p)), p\<lparr>op_serial := op_serial p + 1\<rparr>)"

definition push_created :: "'a ObjectPool \<Rightarrow> 'a ObjectPool" where
  "push_created p =
     (let (ob, p) = call_create p
      in p\<lparr>op_pool := ob # op_pool p, op_createdCount := op_createdCount p + 1\<rparr>)"

definition ObjectPool_ctor :: "nat \<Rightarrow> (nat \<Rightarrow> 'a) option \<Rightarrow> ('a \<Rightarrow> 'a) option \<Rightarrow> nat \<Rightarrow> pool_error + 'a ObjectPool" where
  "ObjectPool_ctor initialSize createFunc resetFunc maxSize =
     (case createFunc of
        None \<Rightarrow> Inl invalid_argument
      | Some create \<Rightarrow>
          Inr ((push_created ^^ initialSize)
            \<lparr> op_create = create, op_reset = resetFunc, op_maxSize = maxSize, op_createdCount = 0, op_pool = [], op_serial = 0 \<rparr>))"

definition acquire :: "'a ObjectPool \<Rightarrow> 'a PooledObject \<times> 'a ObjectPool" where
  "acquire p =
     (case op_pool p of
        ob # rest \<Rightarrow> (\<lparr> po_object = Some ob, po_pool = True \<rparr>, p\<lparr>op_pool := rest\<rparr>)
      | [] \<Rightarrow>
          if op_maxSize p = 0 \<or> op_createdCount p < op_maxSize p
          then let (ob, p) = call_create p
               in (\<lparr> po_object = Some ob, po_pool = True \<rparr>, p\<lparr>op_createdCount := op_createdCount p + 1\<rparr>)
          else (\<lparr> po_object = None, po_pool = False \<rparr>, p))"

definition tryAcquire :: "'a ObjectPool \<Rightarrow> 'a PooledObject \<times> 'a ObjectPool" where
  "tryAcquire p =
     (case op_pool p of
        [] \<Rightarrow> (\<lparr> po_object = None, po_pool = False \<rparr>, p)
      | ob # rest \<Rightarrow> (\<lparr> po_object = Some ob, po_pool = True \<rparr>, p\<lparr>op_pool := rest\<rparr>))"

definition available :: "'a ObjectPool \<Rightarrow> nat" where
  "available p = length (op_pool p)"

definition totalCreated :: "'a ObjectPool \<Rightarrow> nat" where
  "totalCreated p = op_createdCount p"

definition borrowed :: "'a ObjectPool \<Rightarrow> nat" where
  "borrowed p = op_createdCount p - length (op_pool p)"

fun clear_loop :: "'a object list \<Rightarrow> nat \<Rightarrow> nat" where
  "clear_loop [] createdCount = createdCount"
| "clear_loop (ob # pool) createdCount = clear_loop pool (createdCount - 1)"

definition op_clear :: "'a ObjectPool \<Rightarrow> 'a ObjectPool" where
  "op_clear p = p\<lparr>op_pool := [], op_createdCount := clear_loop (op_pool p) (op_createdCount p)\<rparr>"

function warmUp :: "nat \<Rightarrow> 'a ObjectPool \<Rightarrow> 'a ObjectPool" where
  "warmUp n p =
     (if length (op_pool p) < n
      then if 0 < op_maxSize p \<and> op_maxSize p \<le> op_createdCount p then p else warmUp n (push_created p)
      else p)"
  by pat_completeness auto
termination
  by (relation "measure (\<lambda>(n, p). n - length (op_pool p))") (auto simp: push_created_def call_create_def)

declare warmUp.simps [simp del]

definition release_object :: "'a object \<Rightarrow> 'a ObjectPool \<Rightarrow> 'a ObjectPool" where
  "release_object ob p =
     (let ob = (case op_reset p of None \<Rightarrow> ob | Some reset \<Rightarrow> (fst ob, reset (snd ob)))
      in p\<lparr>op_pool := ob # op_pool p\<rparr>)"

text \<open>The destructor of a handle, the two moves, and \<open>PooledObject::release\<close>.\<close>

definition po_destroy :: "'a PooledObject \<Rightarrow> 'a ObjectPool \<Rightarrow> 'a ObjectPool" where
  "po_destroy h p = (case po_object h of Some ob \<Rightarrow> if po_pool h then release_object ob p else p | None \<Rightarrow> p)"

definition po_move :: "'a PooledObject \<Rightarrow> 'a PooledObject \<times> 'a PooledObject" where
  "po_move other = (other, \<lparr> po_object = None, po_pool = False \<rparr>)"

definition po_move_assign :: "'a PooledObject \<Rightarrow> 'a PooledObject \<Rightarrow> 'a ObjectPool \<Rightarrow> 'a PooledObject \<times> 'a PooledObject \<times> 'a ObjectPool" where
  "po_move_assign h other p =
     (other, \<lparr> po_object = None, po_pool = False \<rparr>, po_destroy h p)"

definition po_release :: "'a PooledObject \<Rightarrow> 'a object option \<times> 'a PooledObject" where
  "po_release h = (po_object h, \<lparr> po_object = None, po_pool = False \<rparr>)"

section \<open>Programs that use a pool\<close>

record 'a pool_use =
  pu_pool :: "'a ObjectPool"
  pu_handles :: "'a PooledObject list"
  pu_detached :: "'a object list"

text \<open>The names of the objects held by handles, and of all objects that exist.\<close>

definition handle_ids :: "'a PooledObject \<Rightarrow> nat multiset" where
  "handle_ids h = (case po_object h of None \<Rightarrow> {#} | Some ob \<Rightarrow> {#fst ob#})"

definition held :: "'a pool_use \<Rightarrow> nat multiset" where
  "held s = sum_list (map handle_ids (pu_handles s))"

definition live :: "'a pool_use \<Rightarrow> nat multiset" where
  "live s = mset (map fst (op_pool (pu_pool s))) + held s + mset (map fst (pu_detached s))"

definition remove_nth :: "nat \<Rightarrow> 'b list \<Rightarrow> 'b list" where
  "remove_nth i xs = take i xs @ drop (Suc i) xs"

inductive pool_step :: "'a pool_use \<Rightarrow> 'a pool_use \<Rightarrow> bool" where
  step_acquire: "acquire (pu_pool s) = (h, p) \<Longrightarrow>
    pool_step s (s\<lparr>pu_pool := p, pu_handles := pu_handles s @ [h]\<rparr>)"
| step_tryAcquire: "tryAcquire (pu_pool s) = (h, p) \<Longrightarrow>
    pool_step s (s\<lparr>pu_pool := p, pu_handles := pu_handles s @ [h]\<rparr>)"
| step_destroy: "i < length (pu_handles s) \<Longrightarrow>
    pool_step s (s\<lparr>pu_pool := po_destroy (pu_handles s ! i) (pu_pool s), pu_handles := remove_nth i (pu_handles s)\<rparr>)"
| step_move: "i < length (pu_handles s) \<Longrightarrow> po_move (pu_handles s ! i) = (h, other) \<Longrightarrow>
    pool_step s (s\<lparr>pu_handles := (pu_handles s)[i := other] @ [h]\<rparr>)"
| step_assign: "i < length (pu_handles s) \<Longrightarrow> j < length (pu_handles s) \<Longrightarrow> i \<noteq> j \<Longrightarrow>
    po_move_assign (pu_handles s ! i) (pu_handles s ! j) (pu_pool s) = (h, other, p) \<Longrightarrow>
    pool_step s (s\<lparr>pu_pool := p, pu_handles := (pu_handles s)[i := h, j := other]\<rparr>)"
| step_write: "i < length (pu_handles s) \<Longrightarrow> po_object (pu_handles s ! i) = Some (n, v) \<Longrightarrow>
    pool_step s (s\<lparr>pu_handles := (pu_handles s)[i := (pu_handles s ! i)\<lparr>po_object := Some (n, w)\<rparr>]\<rparr>)"
| step_detach: "i < length (pu_handles s) \<Longrightarrow> po_release (pu_handles s ! i) = (Some ob, h) \<Longrightarrow>
    pool_step s (s\<lparr>pu_handles := (pu_handles s)[i := h], pu_detached := pu_detached s @ [ob]\<rparr>)"
| step_clear: "pool_step s (s\<lparr>pu_pool := op_clear (pu_pool s)\<rparr>)"
| step_warmUp: "pool_step s (s\<lparr>pu_pool := warmUp n (pu_pool s)\<rparr>)"

definition pool_start :: "nat \<Rightarrow> (nat \<Rightarrow> 'a) \<Rightarrow> ('a \<Rightarrow> 'a) option \<Rightarrow> nat \<Rightarrow> 'a pool_use \<Rightarrow> bool" where
  "pool_start n create reset m s \<longleftrightarrow> (\<exists>p. ObjectPool_ctor n (Some create) reset m = Inr p \<and>
     s = \<lparr> pu_pool = p, pu_handles = [], pu_detached = [] \<rparr>)"

section \<open>The invariant\<close>

definition clean :: "'a ObjectPool \<Rightarrow> bool" where
  "clean p \<longleftrightarrow> (\<forall>(i, v) \<in> set (op_pool p). v = op_create p i \<or> (case op_reset p of None \<Rightarrow> True | Some reset \<Rightarrow> v \<in> range reset))"

definition pool_inv :: "nat \<Rightarrow> (nat \<Rightarrow> 'a) \<Rightarrow> ('a \<Rightarrow> 'a) option \<Rightarrow> nat \<Rightarrow> 'a pool_use \<Rightarrow> bool" where
  "pool_inv n create reset m s \<longleftrightarrow>
     op_create (pu_pool s) = create \<and> op_reset (pu_pool s) = reset \<and> op_maxSize (pu_pool s) = m \<and>
     op_createdCount (pu_pool s) = size (live s) \<and> (0 < m \<longrightarrow> n \<le> m \<longrightarrow> op_createdCount (pu_pool s) \<le> m) \<and>
     (\<forall>x. count (live s) x \<le> 1) \<and> (\<forall>x \<in># live s. x < op_serial (pu_pool s)) \<and>
     (\<forall>h \<in> set (pu_handles s). po_object h \<noteq> None \<longrightarrow> po_pool h) \<and> clean (pu_pool s)"

lemma held_append [simp]: "sum_list (map handle_ids (hs @ [h])) = sum_list (map handle_ids hs) + handle_ids h"
  by simp

lemma held_update:
  "i < length hs \<Longrightarrow> sum_list (map handle_ids (hs[i := h])) + handle_ids (hs ! i) = sum_list (map handle_ids hs) + handle_ids h"
proof (induction hs arbitrary: i)
  case (Cons x hs)
  then show ?case by (cases i) (auto simp: ac_simps)
qed simp

lemma held_remove:
  "i < length hs \<Longrightarrow> sum_list (map handle_ids (remove_nth i hs)) + handle_ids (hs ! i) = sum_list (map handle_ids hs)"
  unfolding remove_nth_def by (subst (3) id_take_nth_drop [of i]) (simp_all add: ac_simps)

lemma handle_ids_simps [simp]:
  "handle_ids \<lparr> po_object = None, po_pool = b \<rparr> = {#}" "handle_ids \<lparr> po_object = Some ob, po_pool = b \<rparr> = {#fst ob#}"
  by (simp_all add: handle_ids_def)

text \<open>Steps that move objects around: the same objects exist, and the counter is left alone.\<close>

lemma inv_same:
  assumes "pool_inv n create reset m s" and "live t = live s"
    and "op_create (pu_pool t) = op_create (pu_pool s)" "op_reset (pu_pool t) = op_reset (pu_pool s)"
      "op_maxSize (pu_pool t) = op_maxSize (pu_pool s)" "op_createdCount (pu_pool t) = op_createdCount (pu_pool s)"
      "op_serial (pu_pool t) = op_serial (pu_pool s)"
    and "\<And>h. h \<in> set (pu_handles t) \<Longrightarrow> po_object h \<noteq> None \<Longrightarrow> po_pool h" and "clean (pu_pool t)"
  shows "pool_inv n create reset m t"
  using assms unfolding pool_inv_def by auto

text \<open>Steps that make an object: its name is new.\<close>

lemma inv_new:
  assumes "pool_inv n create reset m s" and "live t = add_mset (op_serial (pu_pool s)) (live s)"
    and "op_create (pu_pool t) = op_create (pu_pool s)" "op_reset (pu_pool t) = op_reset (pu_pool s)"
      "op_maxSize (pu_pool t) = op_maxSize (pu_pool s)" "op_createdCount (pu_pool t) = Suc (op_createdCount (pu_pool s))"
      "op_serial (pu_pool t) = Suc (op_serial (pu_pool s))"
    and "\<And>h. h \<in> set (pu_handles t) \<Longrightarrow> po_object h \<noteq> None \<Longrightarrow> po_pool h" and "clean (pu_pool t)"
    and "0 < m \<Longrightarrow> op_createdCount (pu_pool s) < m"
  shows "pool_inv n create reset m t"
proof -
  let ?x = "op_serial (pu_pool s)"
  have "?x \<notin># live s" using assms(1) unfolding pool_inv_def by blast
  then have "count (live s) ?x = 0" by (simp add: not_in_iff)
  with assms show ?thesis unfolding pool_inv_def by (auto simp: less_Suc_eq)
qed

lemma inv_push_created:
  assumes "pool_inv n create reset m s" and "0 < m \<Longrightarrow> op_createdCount (pu_pool s) < m"
  shows "pool_inv n create reset m (s\<lparr>pu_pool := push_created (pu_pool s)\<rparr>)"
  using assms(1) by (rule inv_new)
    (use assms in \<open>auto simp: push_created_def call_create_def live_def held_def clean_def pool_inv_def\<close>)

lemma inv_acquire:
  assumes "pool_inv n create reset m s" and "acquire (pu_pool s) = (h, p)"
  shows "pool_inv n create reset m (s\<lparr>pu_pool := p, pu_handles := pu_handles s @ [h]\<rparr>)"
proof (cases "op_pool (pu_pool s)")
  case (Cons ob rest)
  then have hp: "h = \<lparr> po_object = Some ob, po_pool = True \<rparr>" "p = (pu_pool s)\<lparr>op_pool := rest\<rparr>"
    using assms(2) by (auto simp: acquire_def)
  show ?thesis
    using assms(1) by (rule inv_same) (use assms(1) Cons in \<open>auto simp: hp live_def held_def clean_def pool_inv_def\<close>)
next
  case Nil
  show ?thesis
  proof (cases "op_maxSize (pu_pool s) = 0 \<or> op_createdCount (pu_pool s) < op_maxSize (pu_pool s)")
    case True
    then have hp: "h = \<lparr> po_object = Some (fst (call_create (pu_pool s))), po_pool = True \<rparr>"
      "p = (pu_pool s)\<lparr>op_serial := op_serial (pu_pool s) + 1, op_createdCount := op_createdCount (pu_pool s) + 1\<rparr>"
      using assms(2) Nil by (auto simp: acquire_def call_create_def)
    show ?thesis
      using assms(1)
      by (rule inv_new) (use assms(1) Nil True in \<open>auto simp: hp call_create_def live_def held_def clean_def pool_inv_def\<close>)
  next
    case False
    then have hp: "h = \<lparr> po_object = None, po_pool = False \<rparr>" "p = pu_pool s"
      using assms(2) Nil by (auto simp: acquire_def)
    show ?thesis
      using assms(1) by (rule inv_same) (use assms(1) in \<open>auto simp: hp live_def held_def pool_inv_def\<close>)
  qed
qed

lemma tryAcquire_acquire: "tryAcquire p = (if op_pool p = [] then (\<lparr> po_object = None, po_pool = False \<rparr>, p) else acquire p)"
  by (simp add: tryAcquire_def acquire_def split: list.split)

lemma inv_tryAcquire:
  assumes "pool_inv n create reset m s" and "tryAcquire (pu_pool s) = (h, p)"
  shows "pool_inv n create reset m (s\<lparr>pu_pool := p, pu_handles := pu_handles s @ [h]\<rparr>)"
proof (cases "op_pool (pu_pool s) = []")
  case True
  then have hp: "h = \<lparr> po_object = None, po_pool = False \<rparr>" "p = pu_pool s" using assms(2) by (auto simp: tryAcquire_def)
  show ?thesis
    using assms(1) by (rule inv_same) (use assms(1) in \<open>auto simp: hp live_def held_def pool_inv_def\<close>)
qed (use assms inv_acquire in \<open>auto simp: tryAcquire_acquire\<close>)

text \<open>Destroying a handle gives its object back, reset.\<close>

lemma po_destroy_spec:
  assumes "po_object h \<noteq> None \<longrightarrow> po_pool h"
  shows "mset (map fst (op_pool (po_destroy h p))) = mset (map fst (op_pool p)) + handle_ids h"
    "clean p \<Longrightarrow> clean (po_destroy h p)"
    "op_create (po_destroy h p) = op_create p" "op_reset (po_destroy h p) = op_reset p"
    "op_maxSize (po_destroy h p) = op_maxSize p" "op_createdCount (po_destroy h p) = op_createdCount p"
    "op_serial (po_destroy h p) = op_serial p"
  using assms
  by (auto simp: po_destroy_def release_object_def handle_ids_def clean_def Let_def split: option.splits)

lemma pool_invD:
  assumes "pool_inv n create reset m s"
  shows "h \<in> set (pu_handles s) \<Longrightarrow> po_object h \<noteq> None \<longrightarrow> po_pool h" "clean (pu_pool s)"
    "op_createdCount (pu_pool s) = size (live s)"
  using assms unfolding pool_inv_def by auto

lemma set_remove_nth: "set (remove_nth i xs) \<subseteq> set xs"
  unfolding remove_nth_def by (auto dest: in_set_takeD in_set_dropD)

lemma inv_destroy:
  assumes "pool_inv n create reset m s" and "i < length (pu_handles s)"
  shows "pool_inv n create reset m (s\<lparr>pu_pool := po_destroy (pu_handles s ! i) (pu_pool s), pu_handles := remove_nth i (pu_handles s)\<rparr>)"
proof -
  note d = po_destroy_spec [OF pool_invD(1) [OF assms(1) nth_mem [OF assms(2)]], of "pu_pool s"]
  show ?thesis
    using assms(1)
  proof (rule inv_same)
    show "live (s\<lparr>pu_pool := po_destroy (pu_handles s ! i) (pu_pool s), pu_handles := remove_nth i (pu_handles s)\<rparr>) = live s"
      using held_remove [OF assms(2)] d(1) by (simp add: live_def held_def ac_simps)
  qed (use d pool_invD [OF assms(1)] set_remove_nth in \<open>fastforce+\<close>)
qed

lemma inv_assign:
  assumes "pool_inv n create reset m s" and "i < length (pu_handles s)" "j < length (pu_handles s)" "i \<noteq> j"
    and "po_move_assign (pu_handles s ! i) (pu_handles s ! j) (pu_pool s) = (h, other, p)"
  shows "pool_inv n create reset m (s\<lparr>pu_pool := p, pu_handles := (pu_handles s)[i := h, j := other]\<rparr>)"
proof -
  let ?hs = "pu_handles s"
  note d = po_destroy_spec [OF pool_invD(1) [OF assms(1) nth_mem [OF assms(2)]], of "pu_pool s"]
  have m: "h = ?hs ! j" "other = \<lparr> po_object = None, po_pool = False \<rparr>" "p = po_destroy (?hs ! i) (pu_pool s)"
    using assms(5) by (auto simp: po_move_assign_def)
  have 1: "sum_list (map handle_ids (?hs[i := h])) + handle_ids (?hs ! i) = sum_list (map handle_ids ?hs) + handle_ids h"
    by (rule held_update [OF assms(2)])
  have 2: "sum_list (map handle_ids (?hs[i := h, j := other])) + handle_ids (?hs ! j) = sum_list (map handle_ids (?hs[i := h]))"
    using held_update [of j "?hs[i := h]" other] assms(3,4) by (simp add: m(2))
  have "(sum_list (map handle_ids (?hs[i := h, j := other])) + handle_ids (?hs ! i)) + handle_ids (?hs ! j) =
    (sum_list (map handle_ids (?hs[i := h, j := other])) + handle_ids (?hs ! j)) + handle_ids (?hs ! i)"
    by (simp only: ac_simps)
  also have "\<dots> = sum_list (map handle_ids ?hs) + handle_ids (?hs ! j)" using 1 2 by (simp only: m(1))
  finally have e: "sum_list (map handle_ids (?hs[i := h, j := other])) + handle_ids (?hs ! i) = sum_list (map handle_ids ?hs)"
    by (simp only: add_right_cancel)
  show ?thesis
    using assms(1)
  proof (rule inv_same)
    show "live (s\<lparr>pu_pool := p, pu_handles := ?hs[i := h, j := other]\<rparr>) = live s"
      using e d(1) by (simp add: live_def held_def m(3) ac_simps)
    fix g assume "g \<in> set (pu_handles (s\<lparr>pu_pool := p, pu_handles := ?hs[i := h, j := other]\<rparr>))" "po_object g \<noteq> None"
    then have "g = other \<or> g = h \<or> g \<in> set ?hs" by (auto dest!: subsetD [OF set_update_subset_insert])
    then show "po_pool g" using pool_invD(1) [OF assms(1)] \<open>po_object g \<noteq> None\<close> nth_mem [OF assms(3)] m(1,2) by auto
  qed (use d pool_invD [OF assms(1)] m(3) in simp_all)
qed

text \<open>Moving into a new handle, writing to an object and detaching it change one handle.\<close>

lemma inv_handle:
  assumes "pool_inv n create reset m s" and "i < length (pu_handles s)"
    and "po_object g \<noteq> None \<longrightarrow> po_pool g" and "\<And>h. h \<in> set hs \<Longrightarrow> po_object h \<noteq> None \<longrightarrow> po_pool h"
    and "handle_ids g + sum_list (map handle_ids hs) + mset (map fst obs) = handle_ids (pu_handles s ! i)"
  shows "pool_inv n create reset m (s\<lparr>pu_handles := (pu_handles s)[i := g] @ hs, pu_detached := pu_detached s @ obs\<rparr>)"
  using assms(1)
proof (rule inv_same)
  let ?t = "s\<lparr>pu_handles := (pu_handles s)[i := g] @ hs, pu_detached := pu_detached s @ obs\<rparr>"
  have "sum_list (map handle_ids ((pu_handles s)[i := g])) + sum_list (map handle_ids hs) + mset (map fst obs) =
    sum_list (map handle_ids (pu_handles s))"
    using held_update [OF assms(2), of g] unfolding assms(5) [symmetric]
    by (metis (no_types, lifting) add.assoc add.commute add_right_cancel)
  then show "live ?t = live s" by (simp add: live_def held_def ac_simps)
  show "po_pool h" if "h \<in> set (pu_handles ?t)" "po_object h \<noteq> None" for h
    using that assms(3,4) pool_invD(1) [OF assms(1), of h] by (auto dest: subsetD [OF set_update_subset_insert])
qed (use pool_invD(2) [OF assms(1)] in simp_all)

lemma clear_loop_sub: "clear_loop xs c = c - length xs"
  by (induction xs arbitrary: c) simp_all

lemma inv_clear:
  assumes "pool_inv n create reset m s"
  shows "pool_inv n create reset m (s\<lparr>pu_pool := op_clear (pu_pool s)\<rparr>)"
proof -
  let ?t = "s\<lparr>pu_pool := op_clear (pu_pool s)\<rparr>"
  have l: "live s = mset (map fst (op_pool (pu_pool s))) + live ?t" by (simp add: live_def held_def op_clear_def)
  have i: "op_createdCount (pu_pool s) = size (live s)" "count (live s) x \<le> 1"
    "x \<in># live s \<Longrightarrow> x < op_serial (pu_pool s)" for x using assms unfolding pool_inv_def by auto
  have "op_createdCount (pu_pool ?t) = op_createdCount (pu_pool s) - length (op_pool (pu_pool s))"
    by (simp add: op_clear_def clear_loop_sub)
  then have "op_createdCount (pu_pool ?t) = size (live ?t)" "op_createdCount (pu_pool ?t) \<le> op_createdCount (pu_pool s)"
    unfolding i(1) l by simp_all
  moreover have "count (live ?t) x \<le> 1" for x using i(2) [of x] unfolding l by simp
  moreover have "x \<in># live ?t \<Longrightarrow> x < op_serial (pu_pool s)" for x using i(3) [of x] unfolding l by simp
  ultimately show ?thesis using assms unfolding pool_inv_def by (auto simp: op_clear_def clean_def)
qed

lemma inv_warmUp: "pool_inv n create reset m s \<Longrightarrow> pool_inv n create reset m (s\<lparr>pu_pool := warmUp k (pu_pool s)\<rparr>)"
proof (induction k "pu_pool s" arbitrary: s rule: warmUp.induct)
  case (1 k)
  show ?case
  proof (cases "length (op_pool (pu_pool s)) < k \<and> \<not> (0 < op_maxSize (pu_pool s) \<and> op_maxSize (pu_pool s) \<le> op_createdCount (pu_pool s))")
    case True
    have "0 < m \<Longrightarrow> op_createdCount (pu_pool s) < m" using True "1.prems" by (auto simp: pool_inv_def)
    from inv_push_created [OF "1.prems" this]
    have "pool_inv n create reset m (s\<lparr>pu_pool := push_created (pu_pool s)\<rparr>)" by simp
    with "1.hyps" [of "s\<lparr>pu_pool := push_created (pu_pool s)\<rparr>"] True show ?thesis
      by (subst warmUp.simps) auto
  next
    case False
    then show ?thesis using "1.prems" by (subst warmUp.simps) (auto simp: pool_inv_def live_def held_def)
  qed
qed

lemma push_created_simps [simp]:
  "op_create (push_created p) = op_create p" "op_reset (push_created p) = op_reset p" "op_maxSize (push_created p) = op_maxSize p"
  "op_createdCount (push_created p) = Suc (op_createdCount p)" "op_serial (push_created p) = Suc (op_serial p)"
  "op_pool (push_created p) = (op_serial p, op_create p (op_serial p)) # op_pool p"
  by (simp_all add: push_created_def call_create_def)

lemma pool_inv_start:
  assumes "pool_start n create reset m s"
  shows "pool_inv n create reset m s"
proof -
  define P where "P k = (push_created ^^ k)
    \<lparr> op_create = create, op_reset = reset, op_maxSize = m, op_createdCount = 0, op_pool = [], op_serial = 0 \<rparr>" for k
  define S where "S k = \<lparr> pu_pool = P k, pu_handles = [], pu_detached = [] \<rparr>" for k
  have P: "P (Suc k) = push_created (P k)" for k by (simp add: P_def)
  have "pool_inv k create reset m (S k) \<and> op_createdCount (P k) = k \<and> op_serial (P k) = k" for k
  proof (induction k)
    case 0
    then show ?case by (simp add: S_def P_def pool_inv_def live_def held_def clean_def)
  next
    case (Suc k)
    then have i: "pool_inv k create reset m (S k)" "op_createdCount (P k) = k" "op_serial (P k) = k" by simp_all
    have l: "live (S (Suc k)) = add_mset k (live (S k))" by (simp add: live_def held_def S_def P i(3))
    have "k \<notin># live (S k)" using i(1,3) unfolding pool_inv_def S_def by force
    then have "count (live (S k)) k = 0" by (simp add: not_in_iff)
    moreover have "\<forall>x. count (live (S k)) x \<le> 1" "\<forall>x \<in># live (S k). x < k" "size (live (S k)) = k" "clean (P k)"
      "op_create (P k) = create" "op_reset (P k) = reset" "op_maxSize (P k) = m"
      using i unfolding pool_inv_def by (auto simp: S_def)
    ultimately show ?case
      using i(2,3) unfolding pool_inv_def l by (auto simp: S_def P clean_def less_Suc_eq)
  qed
  then have "pool_inv n create reset m (S n)" by blast
  moreover have "s = S n" using assms by (auto simp: pool_start_def ObjectPool_ctor_def S_def P_def)
  ultimately show ?thesis by simp
qed

interpretation object_pool: invariant_system "pool_start n create reset m" pool_step "pool_inv n create reset m"
  for n create reset m
proof
  fix s t :: "'a pool_use"
  assume i: "pool_inv n create reset m s" and "pool_step s t"
  from \<open>pool_step s t\<close> show "pool_inv n create reset m t"
  proof cases
    case (step_move j h other)
    then have "h = pu_handles s ! j" "other = \<lparr> po_object = None, po_pool = False \<rparr>" by (auto simp: po_move_def)
    with step_move inv_handle [OF i, of j other "[h]" "[]"] pool_invD(1) [OF i, of h] show ?thesis by simp
  next
    case (step_write j k v w)
    with inv_handle [OF i, of j "(pu_handles s ! j)\<lparr>po_object := Some (k, w)\<rparr>" "[]" "[]"] pool_invD(1) [OF i, of "pu_handles s ! j"]
    show ?thesis by (simp add: handle_ids_def)
  next
    case (step_detach j ob h)
    then have "po_object (pu_handles s ! j) = Some ob" "h = \<lparr> po_object = None, po_pool = False \<rparr>" by (auto simp: po_release_def)
    with step_detach inv_handle [OF i, of j h "[]" "[ob]"] show ?thesis by (simp add: handle_ids_def)
  next
    case (step_acquire h p)
    then show ?thesis using inv_acquire [OF i] by simp
  next
    case (step_tryAcquire h p)
    then show ?thesis using inv_tryAcquire [OF i] by simp
  next
    case (step_destroy j)
    then show ?thesis using inv_destroy [OF i] by simp
  next
    case (step_assign j k h other p)
    show ?thesis unfolding step_assign(1) by (rule inv_assign [OF i step_assign(2-5)])
  next
    case step_clear
    then show ?thesis using inv_clear [OF i] by simp
  next
    case (step_warmUp k)
    then show ?thesis using inv_warmUp [OF i] by simp
  qed
qed (rule pool_inv_start)

section \<open>Properties\<close>

text \<open>
  C20: in every state a program can reach, the objects in the pool, those held by handles and those detached are
  distinct, so no object is handed out twice; the counter of created objects is their number, and \<open>borrowed\<close> is
  the number of those outside the pool; with a limit not smaller than the initial size it is never
  exceeded; every object in the pool is as created or as the reset function left it; and \<open>acquire\<close> yields an
  object exactly when one is available or may be created.
\<close>

theorem ObjectPool_accounting:
  assumes "pool_start n create reset m s0" and "pool_step\<^sup>*\<^sup>* s0 s"
  shows "(\<forall>x. count (live s) x \<le> 1) \<and> totalCreated (pu_pool s) = size (live s) \<and>
    borrowed (pu_pool s) = size (held s) + length (pu_detached s) \<and>
    (0 < m \<and> n \<le> m \<longrightarrow> totalCreated (pu_pool s) \<le> m) \<and>
    (\<forall>(i, v) \<in> set (op_pool (pu_pool s)). v = create i \<or> (case reset of None \<Rightarrow> True | Some f \<Rightarrow> v \<in> range f)) \<and>
    (po_object (fst (acquire (pu_pool s))) \<noteq> None \<longleftrightarrow>
       0 < available (pu_pool s) \<or> m = 0 \<or> totalCreated (pu_pool s) < m)"
proof -
  have i: "pool_inv n create reset m s" by (rule object_pool.Inv_reachable [OF assms])
  have "borrowed (pu_pool s) = size (held s) + length (pu_detached s)"
    using pool_invD(3) [OF i] by (simp add: borrowed_def live_def)
  moreover have "po_object (fst (acquire (pu_pool s))) \<noteq> None \<longleftrightarrow>
       0 < available (pu_pool s) \<or> m = 0 \<or> totalCreated (pu_pool s) < m"
    using i by (auto simp: acquire_def call_create_def available_def totalCreated_def pool_inv_def split: list.split)
  ultimately show ?thesis using i by (auto simp: pool_inv_def clean_def totalCreated_def)
qed

theorem ObjectPool_accounting_witness:
  "\<exists>s0 s. pool_start 1 (\<lambda>i. i) (Some (\<lambda>_. 0)) 2 s0 \<and> pool_step\<^sup>*\<^sup>* s0 s \<and>
    totalCreated (pu_pool s) = size (live s) \<and> size (held s) = 1 \<and> borrowed (pu_pool s) = 1"
proof -
  let ?p = "\<lparr> op_create = \<lambda>i. i, op_reset = Some (\<lambda>_. 0), op_maxSize = 2, op_createdCount = 1, op_pool = [(0, 0 :: nat)], op_serial = 1 \<rparr>"
  let ?init = "\<lparr> pu_pool = ?p, pu_handles = [], pu_detached = [] \<rparr>"
  let ?s = "?init\<lparr>pu_pool := ?p\<lparr>op_pool := []\<rparr>, pu_handles := [\<lparr> po_object = Some (0, 0), po_pool = True \<rparr>]\<rparr>"
  have start: "pool_start 1 (\<lambda>i. i) (Some (\<lambda>_. 0)) 2 ?init"
    unfolding pool_start_def by (rule exI [of _ ?p], rule conjI [OF _ refl]) (simp add: ObjectPool_ctor_def push_created_def call_create_def)
  have "pool_step ?init (?init\<lparr>pu_pool := ?p\<lparr>op_pool := []\<rparr>, pu_handles := pu_handles ?init @ [\<lparr> po_object = Some (0, 0), po_pool = True \<rparr>]\<rparr>)"
    by (rule step_acquire) (simp add: acquire_def)
  then have run: "pool_step\<^sup>*\<^sup>* ?init ?s" by simp
  have "size (held ?s) = 1" by (simp add: held_def)
  moreover from this have "borrowed (pu_pool ?s) = 1" using ObjectPool_accounting [OF start run] by simp
  moreover have "totalCreated (pu_pool ?s) = size (live ?s)" using ObjectPool_accounting [OF start run] by blast
  ultimately show ?thesis using start run by blast
qed

text \<open>
  \<open>PooledObject::release\<close> takes an object out of the pool's care but leaves it counted. After as many
  objects were detached as the limit allows, no object is held or available and \<open>acquire\<close> is refused for ever:
  whatever the program does next, as long as it holds no handle with an object, it gets none.
\<close>

theorem ObjectPool_detach_exhausts:
  assumes "0 < m" and "n \<le> m" and "pool_start n create reset m s0" and "pool_step\<^sup>*\<^sup>* s0 s"
    and "length (pu_detached s) = m" and "pool_step\<^sup>*\<^sup>* s t"
  shows "held t = {#} \<and> available (pu_pool t) = 0 \<and> po_object (fst (acquire (pu_pool t))) = None"
proof -
  have i: "pool_inv n create reset m t" using object_pool.Inv_reachable [OF assms(3) rtranclp_trans [OF assms(4,6)]] .
  have "length (pu_detached s) \<le> length (pu_detached t)" using assms(6)
  proof (induction rule: rtranclp_induct)
    case (step y z)
    from step.hyps(2) have "length (pu_detached y) \<le> length (pu_detached z)" by cases auto
    with step.IH show ?case by simp
  qed simp
  moreover have "size (live t) \<le> m" "op_createdCount (pu_pool t) = size (live t)" "op_maxSize (pu_pool t) = m"
    using i assms(1,2) by (auto simp: pool_inv_def)
  ultimately have "op_pool (pu_pool t) = []" "held t = {#}" "op_createdCount (pu_pool t) = m"
    using assms(5) unfolding length_0_conv [symmetric] size_eq_0_iff_empty [symmetric] live_def size_union size_mset length_map
    by linarith+
  with assms(1) \<open>op_maxSize (pu_pool t) = m\<close> show ?thesis by (simp add: available_def acquire_def)
qed

theorem ObjectPool_detach_exhausts_witness:
  "\<exists>s0 s. pool_start 0 (\<lambda>i. i) None 1 s0 \<and> pool_step\<^sup>*\<^sup>* s0 s \<and> length (pu_detached s) = 1 \<and>
    po_object (fst (acquire (pu_pool s))) = None"
proof -
  let ?p = "\<lparr> op_create = \<lambda>i :: nat. i, op_reset = None, op_maxSize = 1, op_createdCount = 0, op_pool = [], op_serial = 0 \<rparr>"
  let ?init = "\<lparr> pu_pool = ?p, pu_handles = [], pu_detached = [] \<rparr>"
  let ?h = "\<lparr> po_object = Some (0, 0 :: nat), po_pool = True \<rparr>"
  let ?mid = "?init\<lparr>pu_pool := ?p\<lparr>op_serial := 1, op_createdCount := 1\<rparr>, pu_handles := pu_handles ?init @ [?h]\<rparr>"
  let ?g = "\<lparr> po_object = None, po_pool = False \<rparr>"
  let ?s = "?mid\<lparr>pu_handles := (pu_handles ?mid)[0 := ?g], pu_detached := pu_detached ?mid @ [(0, 0)]\<rparr>"
  have start: "pool_start 0 (\<lambda>i. i) None 1 ?init"
    unfolding pool_start_def by (rule exI [of _ ?p], rule conjI [OF _ refl]) (simp add: ObjectPool_ctor_def)
  have 1: "pool_step ?init ?mid" by (rule step_acquire) (simp add: acquire_def call_create_def)
  have 2: "pool_step ?mid ?s" using step_detach [of 0 ?mid "(0, 0)" ?g] by (simp add: po_release_def)
  have run: "pool_step\<^sup>*\<^sup>* ?init ?s" using 1 2 by (meson rtranclp.rtrancl_refl rtranclp.rtrancl_into_rtrancl)
  from ObjectPool_detach_exhausts [OF _ _ start run _ rtranclp.rtrancl_refl]
  have "po_object (fst (acquire (pu_pool ?s))) = None" by simp
  moreover have "length (pu_detached ?s) = 1" by simp
  ultimately show ?thesis using start run by blast
qed

end
