(* ===== verification/Sort.thy ===== *)
theory Sort
  imports Prelude "HOL-Library.Multiset"
begin

text \<open>
  The sorting algorithms of \<^verbatim>\<open>include/darwincore/foundation/algorithm/Sort.h\<close> on arrays: quick sort, merge sort,
  heap sort and insertion sort, with the comparison as an argument. A vector is a list that is
  read and updated by index; every index the algorithms use is shown to be in range by the
  proofs that the result is sorted and has the same elements. \<open>isSorted\<close>, \<open>partialSort\<close> and \<open>nthElement\<close> are calls of
  the standard library and are not modelled.
\<close>

section \<open>The algorithms\<close>

type_synonym 'a compare = "'a \<Rightarrow> 'a \<Rightarrow> bool"

definition swap_at :: "'a list \<Rightarrow> nat \<Rightarrow> nat \<Rightarrow> 'a list" where
  "swap_at arr i j = arr[i := arr ! j, j := arr ! i]"

subsection \<open>Quick sort\<close>

function partition_loop :: "'a compare \<Rightarrow> 'a \<Rightarrow> nat \<Rightarrow> nat \<Rightarrow> nat \<Rightarrow> 'a list \<Rightarrow> nat \<times> 'a list" where
  "partition_loop cmp pivot right j i arr =
     (if j < right
      then if cmp (arr ! j) pivot then partition_loop cmp pivot right (j + 1) (i + 1) (swap_at arr i j)
           else partition_loop cmp pivot right (j + 1) i arr
      else (i, arr))"
  by pat_completeness auto
termination by (relation "measure (\<lambda>(cmp, pivot, right, j, i, arr). right - j)") auto

declare partition_loop.simps [simp del]

definition sort_partition :: "'a compare \<Rightarrow> 'a list \<Rightarrow> nat \<Rightarrow> nat \<Rightarrow> nat \<times> 'a list" where
  "sort_partition cmp arr left right =
     (let pivot = arr ! right; (i, arr) = partition_loop cmp pivot right left left arr
      in (i, swap_at arr i right))"

lemma partition_loop_bounds: "i \<le> j \<Longrightarrow> j \<le> right \<Longrightarrow> i \<le> fst (partition_loop cmp pivot right j i arr) \<and>
    fst (partition_loop cmp pivot right j i arr) \<le> right"
proof (induction cmp pivot right j i arr rule: partition_loop.induct)
  case (1 cmp pivot right j i arr)
  then show ?case
    by (subst (1 2) partition_loop.simps) (fastforce simp: partition_loop.simps [of cmp pivot right j])
qed

lemma sort_partition_bounds:
  "left < right \<Longrightarrow> sort_partition cmp arr left right = (p, arr') \<Longrightarrow> left \<le> p \<and> p \<le> right"
  using partition_loop_bounds [of left left right cmp "arr ! right" arr]
  by (auto simp: sort_partition_def Let_def case_prod_beta)

function quickSortImpl :: "'a compare \<Rightarrow> 'a list \<Rightarrow> nat \<Rightarrow> nat \<Rightarrow> 'a list" where
  "quickSortImpl cmp arr left right =
     (if left \<ge> right then arr
      else let (pivot, arr1) = sort_partition cmp arr left right;
               arr2 = (if pivot > 0 then quickSortImpl cmp arr1 left (pivot - 1) else arr1)
           in quickSortImpl cmp arr2 (pivot + 1) right)"
  by pat_completeness auto
termination
  by (relation "measure (\<lambda>(cmp, arr, left, right). right + 1 - left)")
    (auto dest!: sort_partition_bounds [rotated, OF sym])

declare quickSortImpl.simps [simp del]

definition quickSort :: "'a compare \<Rightarrow> 'a list \<Rightarrow> 'a list" where
  "quickSort cmp arr = (if length arr \<le> 1 then arr else quickSortImpl cmp arr 0 (length arr - 1))"

subsection \<open>Merge sort\<close>

text \<open>The loops of \<open>merge\<close>: copying to the auxiliary array, merging back, and the rest of the left half.\<close>

definition merge_copy :: "nat \<Rightarrow> nat \<Rightarrow> 'a list \<Rightarrow> 'a list \<Rightarrow> 'a list" where
  "merge_copy left right arr temp = foldl (\<lambda>t i. t[i := arr ! i]) temp [left..<right + 1]"

function merge_loop :: "'a compare \<Rightarrow> 'a list \<Rightarrow> nat \<Rightarrow> nat \<Rightarrow> nat \<Rightarrow> nat \<Rightarrow> nat \<Rightarrow> 'a list \<Rightarrow> nat \<times> nat \<times> 'a list" where
  "merge_loop cmp temp mid right i j k arr =
     (if i \<le> mid \<and> j \<le> right
      then if cmp (temp ! i) (temp ! j) then merge_loop cmp temp mid right (i + 1) j (k + 1) (arr[k := temp ! i])
           else merge_loop cmp temp mid right i (j + 1) (k + 1) (arr[k := temp ! j])
      else (i, k, arr))"
  by pat_completeness auto
termination
  by (relation "measure (\<lambda>(cmp, temp, mid, right, i, j, k, arr). (mid + 1 - i) + (right + 1 - j))") auto

function merge_rest :: "'a list \<Rightarrow> nat \<Rightarrow> nat \<Rightarrow> nat \<Rightarrow> 'a list \<Rightarrow> 'a list" where
  "merge_rest temp mid i k arr = (if i \<le> mid then merge_rest temp mid (i + 1) (k + 1) (arr[k := temp ! i]) else arr)"
  by pat_completeness auto
termination by (relation "measure (\<lambda>(temp, mid, i, k, arr). mid + 1 - i)") auto

declare merge_loop.simps [simp del] merge_rest.simps [simp del]

definition sort_merge :: "'a compare \<Rightarrow> 'a list \<Rightarrow> 'a list \<Rightarrow> nat \<Rightarrow> nat \<Rightarrow> nat \<Rightarrow> 'a list \<times> 'a list" where
  "sort_merge cmp arr temp left mid right =
     (let temp = merge_copy left right arr temp;
          (i, k, arr) = merge_loop cmp temp mid right left (mid + 1) left arr
      in (merge_rest temp mid i k arr, temp))"

function mergeSortImpl :: "'a compare \<Rightarrow> 'a list \<Rightarrow> 'a list \<Rightarrow> nat \<Rightarrow> nat \<Rightarrow> 'a list \<times> 'a list" where
  "mergeSortImpl cmp arr temp left right =
     (if left \<ge> right then (arr, temp)
      else let mid = left + (right - left) div 2;
               (arr, temp) = mergeSortImpl cmp arr temp left mid;
               (arr, temp) = mergeSortImpl cmp arr temp (mid + 1) right
           in sort_merge cmp arr temp left mid right)"
  by pat_completeness auto
termination by (relation "measure (\<lambda>(cmp, arr, temp, left, right). right - left)") auto

declare mergeSortImpl.simps [simp del]

text \<open>\<open>dflt\<close> is the value the auxiliary vector is filled with.\<close>

definition mergeSort :: "'a \<Rightarrow> 'a compare \<Rightarrow> 'a list \<Rightarrow> 'a list" where
  "mergeSort dflt cmp arr =
     (if length arr \<le> 1 then arr
      else fst (mergeSortImpl cmp arr (replicate (length arr) dflt) 0 (length arr - 1)))"

subsection \<open>Heap sort\<close>

definition largest_child :: "'a compare \<Rightarrow> 'a list \<Rightarrow> nat \<Rightarrow> nat \<Rightarrow> nat" where
  "largest_child cmp arr n i =
     (let left = 2 * i + 1; right = 2 * i + 2;
          largest = (if left < n \<and> cmp (arr ! i) (arr ! left) then left else i)
      in if right < n \<and> cmp (arr ! largest) (arr ! right) then right else largest)"

lemma largest_child_cases:
  "largest_child cmp arr n i = i \<or> i < largest_child cmp arr n i \<and> largest_child cmp arr n i < n"
  by (simp add: largest_child_def Let_def)

function heapify :: "'a compare \<Rightarrow> 'a list \<Rightarrow> nat \<Rightarrow> nat \<Rightarrow> 'a list" where
  "heapify cmp arr n i =
     (let largest = largest_child cmp arr n i
      in if largest \<noteq> i then heapify cmp (swap_at arr i largest) n largest else arr)"
  by pat_completeness auto
termination
proof (relation "measure (\<lambda>(cmp, arr, n, i). n - i)")
  fix cmp :: "'a compare" and arr n i largest
  assume "largest = largest_child cmp arr n i" "largest \<noteq> i"
  then have "i < largest" "largest < n" using largest_child_cases [of cmp arr n i] by auto
  then show "((cmp, swap_at arr i largest, n, largest), cmp, arr, n, i) \<in> measure (\<lambda>(cmp, arr, n, i). n - i)" by simp
qed simp

declare heapify.simps [simp del]

text \<open>The first loop counts an \<open>int\<close> down from \<open>arr.size() / 2 - 1\<close>, which is computed in 64 bits and
  converted to 32.\<close>

definition heap_start :: "nat \<Rightarrow> int" where
  "heap_start n = sint (ucast (word_of_nat (n div 2) - 1 :: 64 word) :: 32 word)"

function heap_build :: "'a compare \<Rightarrow> int \<Rightarrow> 'a list \<Rightarrow> 'a list" where
  "heap_build cmp i arr =
     (if i \<ge> 0 then heap_build cmp (i - 1) (heapify cmp arr (length arr) (nat i)) else arr)"
  by pat_completeness auto
termination by (relation "measure (\<lambda>(cmp, i, arr). nat (i + 1))") auto

declare heap_build.simps [simp del]

fun heap_extract :: "'a compare \<Rightarrow> nat \<Rightarrow> 'a list \<Rightarrow> 'a list" where
  "heap_extract cmp 0 arr = arr"
| "heap_extract cmp (Suc i) arr = heap_extract cmp i (heapify cmp (swap_at arr 0 (Suc i)) (Suc i) 0)"

definition heapSort :: "'a compare \<Rightarrow> 'a list \<Rightarrow> 'a list" where
  "heapSort cmp arr =
     (if length arr \<le> 1 then arr
      else heap_extract cmp (length arr - 1) (heap_build cmp (heap_start (length arr)) arr))"

subsection \<open>Insertion sort\<close>

text \<open>The element being inserted has been moved out: position \<open>j\<close> holds nothing of interest.\<close>

fun insertion_shift :: "'a compare \<Rightarrow> 'a \<Rightarrow> nat \<Rightarrow> 'a list \<Rightarrow> 'a list" where
  "insertion_shift cmp key 0 arr = arr[0 := key]"
| "insertion_shift cmp key (Suc j) arr =
     (if cmp key (arr ! j) then insertion_shift cmp key j (arr[Suc j := arr ! j]) else arr[Suc j := key])"

definition insertionSort :: "'a compare \<Rightarrow> 'a list \<Rightarrow> 'a list" where
  "insertionSort cmp arr = foldl (\<lambda>arr i. insertion_shift cmp (arr ! i) i arr) arr [1..<length arr]"

text \<open>\<open>std::less\<close>, the default comparison.\<close>

definition std_less :: "'a::linorder compare" where
  "std_less a b \<longleftrightarrow> a < b"

section \<open>Rearranging a part of an array\<close>

text \<open>What the standard library requires of a comparison.\<close>

locale strict_weak_order =
  fixes cmp :: "'a compare"
  assumes cmp_irrefl: "\<not> cmp a a"
    and cmp_trans: "cmp a b \<Longrightarrow> cmp b c \<Longrightarrow> cmp a c"
    and incomparable: "\<not> cmp a b \<Longrightarrow> \<not> cmp b c \<Longrightarrow> \<not> cmp a c"
begin

lemma cmp_asym: "cmp a b \<Longrightarrow> \<not> cmp b a"
  using cmp_irrefl cmp_trans by blast

end

interpretation std_less: strict_weak_order std_less
  by unfold_locales (auto simp: std_less_def)

text \<open>The result \<open>a'\<close> has the elements of \<open>a\<close>, those from \<open>l\<close> to \<open>r\<close> at new places from \<open>l\<close> to \<open>r\<close>.\<close>

definition rearr :: "nat \<Rightarrow> nat \<Rightarrow> 'a list \<Rightarrow> 'a list \<Rightarrow> bool" where
  "rearr l r a a' \<longleftrightarrow> mset a' = mset a \<and> (\<forall>k < length a. k < l \<or> r < k \<longrightarrow> a' ! k = a ! k) \<and>
     (\<forall>k. l \<le> k \<and> k \<le> r \<longrightarrow> (\<exists>k'. l \<le> k' \<and> k' \<le> r \<and> a' ! k = a ! k'))"

definition sorted_in :: "'a compare \<Rightarrow> nat \<Rightarrow> nat \<Rightarrow> 'a list \<Rightarrow> bool" where
  "sorted_in cmp l r a \<longleftrightarrow> (\<forall>x y. l \<le> x \<and> x < y \<and> y \<le> r \<longrightarrow> \<not> cmp (a ! y) (a ! x))"

definition sorted_by :: "'a compare \<Rightarrow> 'a list \<Rightarrow> bool" where
  "sorted_by cmp a \<longleftrightarrow> sorted_wrt (\<lambda>x y. \<not> cmp y x) a"

lemma sorted_by_in: "a \<noteq> [] \<Longrightarrow> sorted_by cmp a \<longleftrightarrow> sorted_in cmp 0 (length a - 1) a"
  by (auto simp: sorted_by_def sorted_in_def sorted_wrt_iff_nth_less)

lemma rearr_refl [simp]: "rearr l r a a"
  by (auto simp: rearr_def)

lemma rearr_length: "rearr l r a a' \<Longrightarrow> length a' = length a"
  by (auto simp: rearr_def dest: mset_eq_length)

lemma rearr_trans: "rearr l r a b \<Longrightarrow> rearr l r b c \<Longrightarrow> rearr l r a c"
  using rearr_length [of l r a b] unfolding rearr_def by (metis (no_types, lifting))

lemma rearr_mono:
  assumes "rearr l r a a'" and "l' \<le> l" and "r \<le> r'" and "r' < length a"
  shows "rearr l' r' a a'"
  unfolding rearr_def
proof (intro conjI allI impI)
  show "mset a' = mset a" using assms(1) by (simp add: rearr_def)
  show "a' ! k = a ! k" if "k < length a" "k < l' \<or> r' < k" for k
    using assms that unfolding rearr_def by auto
  show "\<exists>k'. l' \<le> k' \<and> k' \<le> r' \<and> a' ! k = a ! k'" if "l' \<le> k \<and> k \<le> r'" for k
  proof (cases "l \<le> k \<and> k \<le> r")
    case True
    with assms show ?thesis unfolding rearr_def by (meson le_trans)
  next
    case False
    with assms that have "a' ! k = a ! k" unfolding rearr_def by auto
    with that show ?thesis by blast
  qed
qed

lemma sorts_range:
  assumes "a \<noteq> []" and "rearr 0 (length a - 1) a r" and "sorted_in cmp 0 (length a - 1) r"
  shows "mset r = mset a \<and> sorted_by cmp r"
proof -
  have len: "length r = length a" by (rule rearr_length [OF assms(2)])
  with assms(1) have "r \<noteq> []" by auto
  from sorted_by_in [OF this, of cmp] assms(2,3) len show ?thesis by (simp add: rearr_def)
qed

lemma swap_at_simps:
  "i < length a \<Longrightarrow> j < length a \<Longrightarrow> k < length a \<Longrightarrow>
     swap_at a i j ! k = (if k = j then a ! i else if k = i then a ! j else a ! k)"
  "length (swap_at a i j) = length a"
  by (auto simp: swap_at_def nth_list_update)

lemma rearr_swap:
  assumes "l \<le> i" and "i \<le> r" and "l \<le> j" and "j \<le> r" and "r < length a"
  shows "rearr l r a (swap_at a i j)"
proof -
  have "mset (swap_at a i j) = mset a"
    using assms mset_swap [of j a i] by (simp add: swap_at_def)
  moreover have "\<exists>k'. l \<le> k' \<and> k' \<le> r \<and> swap_at a i j ! k = a ! k'" if "l \<le> k" "k \<le> r" for k
    using assms that by (cases "k = j"; cases "k = i") (auto simp: swap_at_simps)
  ultimately show ?thesis using assms by (auto simp: rearr_def swap_at_simps)
qed

section \<open>Quick sort\<close>

lemma partition_loop_spec:
  assumes "left \<le> i" and "i \<le> j" and "j \<le> right" and "right < length arr"
    and "\<And>k. left \<le> k \<Longrightarrow> k < i \<Longrightarrow> cmp (arr ! k) pivot" and "\<And>k. i \<le> k \<Longrightarrow> k < j \<Longrightarrow> \<not> cmp (arr ! k) pivot"
    and "partition_loop cmp pivot right j i arr = (i', arr')"
  shows "i \<le> i' \<and> i' \<le> right \<and> rearr left right arr arr' \<and> arr' ! right = arr ! right \<and>
    (\<forall>k. left \<le> k \<and> k < i' \<longrightarrow> cmp (arr' ! k) pivot) \<and> (\<forall>k. i' \<le> k \<and> k < right \<longrightarrow> \<not> cmp (arr' ! k) pivot)"
  using assms
proof (induction cmp pivot right j i arr rule: partition_loop.induct)
  case (1 cmp pivot right j i arr)
  show ?case
  proof (cases "j < right")
    case False
    then have "i' = i" "arr' = arr" using "1.prems"(7) by (simp_all add: partition_loop.simps [of cmp pivot right j])
    with "1.prems"(1-6) False show ?thesis by auto
  next
    case less: True
    show ?thesis
    proof (cases "cmp (arr ! j) pivot")
      case False
      then show ?thesis
        using "1.prems" less "1.IH"(2) [OF less False] less_Suc_eq
        by (auto simp: partition_loop.simps [of cmp pivot right j])
    next
      case True
      let ?a = "swap_at arr i j"
      have a: "?a ! k = (if k = j then arr ! i else if k = i then arr ! j else arr ! k)" if "k < length arr" for k
        using that "1.prems"(2-4) by (intro swap_at_simps) auto
      have "partition_loop cmp pivot right (j + 1) (i + 1) ?a = (i', arr')"
        using "1.prems"(7) less True by (simp add: partition_loop.simps [of cmp pivot right j])
      moreover have "cmp (?a ! k) pivot" if "left \<le> k" "k < i + 1" for k
        using "1.prems"(2-5) that True by (cases "k = i") (auto simp: a)
      moreover have "\<not> cmp (?a ! k) pivot" if "i + 1 \<le> k" "k < j + 1" for k
        using "1.prems"(2-4,6) that True by (auto simp: a)
      ultimately have ih: "i + 1 \<le> i' \<and> i' \<le> right \<and> rearr left right ?a arr' \<and> arr' ! right = ?a ! right \<and>
        (\<forall>k. left \<le> k \<and> k < i' \<longrightarrow> cmp (arr' ! k) pivot) \<and> (\<forall>k. i' \<le> k \<and> k < right \<longrightarrow> \<not> cmp (arr' ! k) pivot)"
        using "1.prems"(1-4) less by (intro "1.IH"(1) [OF less True]) (auto simp: swap_at_simps)
      have "rearr left right arr ?a" using "1.prems"(1-4) less by (intro rearr_swap) auto
      with ih have "rearr left right arr arr'" by (blast intro: rearr_trans)
      moreover have "?a ! right = arr ! right" using "1.prems"(1-4) less by (simp add: a)
      ultimately show ?thesis using ih by auto
    qed
  qed
qed

lemma sort_partition_spec:
  assumes "left < right" and "right < length arr" and "sort_partition cmp arr left right = (p, arr')"
  shows "left \<le> p \<and> p \<le> right \<and> rearr left right arr arr' \<and>
    (\<forall>k. left \<le> k \<and> k < p \<longrightarrow> cmp (arr' ! k) (arr' ! p)) \<and> (\<forall>k. p < k \<and> k \<le> right \<longrightarrow> \<not> cmp (arr' ! k) (arr' ! p))"
proof -
  obtain a where a: "partition_loop cmp (arr ! right) right left left arr = (p, a)" "arr' = swap_at a p right"
    using assms(3) by (auto simp: sort_partition_def Let_def case_prod_beta) (metis prod.collapse)
  have l: "left \<le> p \<and> p \<le> right \<and> rearr left right arr a \<and> a ! right = arr ! right \<and>
    (\<forall>k. left \<le> k \<and> k < p \<longrightarrow> cmp (a ! k) (arr ! right)) \<and> (\<forall>k. p \<le> k \<and> k < right \<longrightarrow> \<not> cmp (a ! k) (arr ! right))"
    using assms(1,2) by (intro partition_loop_spec [OF _ _ _ _ _ _ a(1)]) auto
  have len: "length a = length arr" using l rearr_length by blast
  have n: "arr' ! k = (if k = right then a ! p else if k = p then a ! right else a ! k)" if "k \<le> right" for k
    using that l assms(2) len by (simp add: a(2) swap_at_simps)
  have "rearr left right a arr'" using l assms(2) len unfolding a(2) by (intro rearr_swap) auto
  with l have "rearr left right arr arr'" by (blast intro: rearr_trans)
  with l show ?thesis by (auto simp: n)
qed

context strict_weak_order
begin

lemma quickSortImpl_spec:
  "right < length arr \<Longrightarrow> rearr left right arr (quickSortImpl cmp arr left right) \<and>
     sorted_in cmp left right (quickSortImpl cmp arr left right)"
proof (induction "right + 1 - left" arbitrary: arr left right rule: less_induct)
  case less
  show ?case
  proof (cases "left \<ge> right")
    case True
    then show ?thesis by (auto simp: quickSortImpl.simps sorted_in_def)
  next
    case False
    obtain p a1 where p: "sort_partition cmp arr left right = (p, a1)" by fastforce
    note P = sort_partition_spec [OF _ less.prems p]
    define a2 where "a2 = (if p > 0 then quickSortImpl cmp a1 left (p - 1) else a1)"
    define a3 where "a3 = quickSortImpl cmp a2 (p + 1) right"
    have res: "quickSortImpl cmp arr left right = a3"
      using False p by (simp add: quickSortImpl.simps [of cmp arr left] a2_def a3_def)
    have l1: "length a1 = length arr" using P False rearr_length [of left right arr a1] by auto
    have pb: "left \<le> p" "p \<le> right" using P False by auto
    have I2: "rearr left (p - 1) a1 a2 \<and> sorted_in cmp left (p - 1) a2"
    proof (cases "p > 0")
      case True
      then have "p - 1 + 1 - left < right + 1 - left" "p - 1 < length a1" using pb less.prems l1 False by auto
      from less.hyps [OF this] True show ?thesis by (simp add: a2_def)
    qed (simp add: a2_def sorted_in_def)
    note I2 = conjunct1 [OF I2] conjunct2 [OF I2]
    have l2: "length a2 = length arr" using I2(1) l1 rearr_length by metis
    have I3: "rearr (p + 1) right a2 a3" "sorted_in cmp (p + 1) right a3"
      using less.hyps [of right "p + 1" a2] less.prems l2 pb False by (auto simp: a3_def)
    have eq: "a3 ! k = a2 ! k" if "k \<le> p" for k
      using I3(1) that pb less.prems l2 by (auto simp: rearr_def)
    have eq2: "a2 ! k = a1 ! k" if "p \<le> k" "k \<le> right" "0 < p" for k
      using I2(1) that pb less.prems l1 by (auto simp: rearr_def)
    have eq2': "a2 ! k = a1 ! k" if "p \<le> k" "k \<le> right" for k
      using eq2 [of k] that by (cases "p > 0") (auto simp: a2_def)
    have low: "cmp (a3 ! k) (a1 ! p)" if "left \<le> k" "k < p" for k
    proof -
      have "\<exists>k'. left \<le> k' \<and> k' \<le> p - 1 \<and> a2 ! k = a1 ! k'" using I2(1) that by (auto simp: rearr_def)
      then obtain k' where "left \<le> k'" "k' \<le> p - 1" "a2 ! k = a1 ! k'" by blast
      with P False that show ?thesis by (auto simp: eq)
    qed
    have high: "\<not> cmp (a3 ! k) (a1 ! p)" if "p < k" "k \<le> right" for k
    proof -
      have "\<exists>k'. p + 1 \<le> k' \<and> k' \<le> right \<and> a3 ! k = a2 ! k'" using I3(1) that by (auto simp: rearr_def)
      then obtain k' where "p + 1 \<le> k'" "k' \<le> right" "a3 ! k = a2 ! k'" by blast
      with P False show ?thesis by (auto simp: eq2')
    qed
    have mid: "a3 ! p = a1 ! p" using eq eq2' pb by simp
    have "sorted_in cmp left right a3"
      unfolding sorted_in_def
    proof (intro allI impI)
      fix x y assume xy: "left \<le> x \<and> x < y \<and> y \<le> right"
      consider "y < p" | "x < p" "y = p" | "x < p" "p < y" | "x = p" | "p < x" using xy by linarith
      then show "\<not> cmp (a3 ! y) (a3 ! x)"
      proof cases
        case 1
        with xy I2(2) show ?thesis by (simp add: eq sorted_in_def)
      next
        case 2
        with xy low show ?thesis using mid cmp_asym by auto
      next
        case 3
        with xy low high show ?thesis using cmp_trans by blast
      next
        case 4
        with xy high show ?thesis using mid by auto
      next
        case 5
        with xy I3(2) show ?thesis by (simp add: sorted_in_def)
      qed
    qed
    moreover have "rearr left right arr a3"
    proof -
      have "rearr left right a1 a2"
        using rearr_mono [OF I2(1), of left right] pb less.prems l1 by simp
      moreover have "rearr left right a2 a3"
        using rearr_mono [OF I3(1), of left right] pb less.prems l2 by simp
      ultimately show ?thesis using P False rearr_trans by (meson not_le)
    qed
    ultimately show ?thesis by (simp add: res)
  qed
qed

lemma quickSort_sorts: "mset (quickSort cmp arr) = mset arr \<and> sorted_by cmp (quickSort cmp arr)"
proof (cases "length arr \<le> 1")
  case True
  then show ?thesis by (cases arr) (auto simp: quickSort_def sorted_by_def)
next
  case False
  then have "arr \<noteq> []" by auto
  with quickSortImpl_spec [of "length arr - 1" arr 0] have "rearr 0 (length arr - 1) arr (quickSortImpl cmp arr 0 (length arr - 1))"
    "sorted_in cmp 0 (length arr - 1) (quickSortImpl cmp arr 0 (length arr - 1))" by simp_all
  from sorts_range [OF \<open>arr \<noteq> []\<close> this] False show ?thesis by (simp add: quickSort_def)
qed

end

section \<open>Merge sort\<close>

definition seg :: "nat \<Rightarrow> nat \<Rightarrow> 'a list \<Rightarrow> 'a list" where
  "seg l r a = take (r + 1 - l) (drop l a)"

lemma seg_Cons: "l \<le> r \<Longrightarrow> l < length a \<Longrightarrow> seg l r a = a ! l # seg (l + 1) r a"
  by (simp add: seg_def Cons_nth_drop_Suc [symmetric] Suc_diff_le)

lemma seg_empty [simp]: "r < l \<Longrightarrow> seg l r a = []"
  by (simp add: seg_def)

lemma seg_split: "l \<le> m \<Longrightarrow> m < r \<Longrightarrow> seg l r a = seg l m a @ seg (m + 1) r a"
proof -
  assume "l \<le> m" "m < r"
  then have "r + 1 - l = (m + 1 - l) + (r - m)" "l + (m + 1 - l) = m + 1" by auto
  then show ?thesis unfolding seg_def by (simp only: take_add drop_drop) (simp add: add.commute)
qed

lemma seg_cong: "(\<And>k. l \<le> k \<Longrightarrow> k \<le> r \<Longrightarrow> a ! k = b ! k) \<Longrightarrow> length a = length b \<Longrightarrow> seg l r a = seg l r b"
  by (rule nth_equalityI) (auto simp: seg_def)

lemma seg_all: "a \<noteq> [] \<Longrightarrow> seg 0 (length a - 1) a = a"
  by (simp add: seg_def)

lemma list_parts: "l \<le> r + 1 \<Longrightarrow> a = take l a @ seg l r a @ drop (r + 1) a"
proof -
  assume "l \<le> r + 1"
  then have "drop (r + 1) a = drop (r + 1 - l) (drop l a)" by simp
  then show ?thesis unfolding seg_def by (simp only: append_take_drop_id)
qed

fun mergel :: "'a compare \<Rightarrow> 'a list \<Rightarrow> 'a list \<Rightarrow> 'a list" where
  "mergel cmp [] ys = ys"
| "mergel cmp xs [] = xs"
| "mergel cmp (x # xs) (y # ys) = (if cmp x y then x # mergel cmp xs (y # ys) else y # mergel cmp (x # xs) ys)"

lemma mergel_Nil [simp]: "mergel cmp xs [] = xs"
  by (cases xs) simp_all

lemma mset_mergel: "mset (mergel cmp xs ys) = mset xs + mset ys"
  by (induction cmp xs ys rule: mergel.induct) simp_all

lemma set_mergel: "set (mergel cmp xs ys) = set xs \<union> set ys"
  by (induction cmp xs ys rule: mergel.induct) auto

lemma length_mergel: "length (mergel cmp xs ys) = length xs + length ys"
  by (induction cmp xs ys rule: mergel.induct) simp_all

lemma merge_copy_spec:
  "length (merge_copy l r arr temp) = length temp"
  "k < length temp \<Longrightarrow> l \<le> k \<Longrightarrow> k \<le> r \<Longrightarrow> merge_copy l r arr temp ! k = arr ! k"
proof -
  have "length (foldl (\<lambda>t i. t[i := arr ! i]) temp is) = length temp \<and>
    (k < length temp \<longrightarrow> foldl (\<lambda>t i. t[i := arr ! i]) temp is ! k = (if k \<in> set is then arr ! k else temp ! k))" for "is" k
    by (induction "is" arbitrary: temp) (auto simp: nth_list_update)
  from this [of "[l..<r + 1]"] show "length (merge_copy l r arr temp) = length temp"
    "k < length temp \<Longrightarrow> l \<le> k \<Longrightarrow> k \<le> r \<Longrightarrow> merge_copy l r arr temp ! k = arr ! k"
    by (simp_all add: merge_copy_def del: upt_Suc)
qed

lemma take_Suc_update: "k < length a \<Longrightarrow> take (k + 1) (a[k := v]) = take k a @ [v]"
  by (simp add: take_Suc_conv_app_nth)

lemma merge_rest_spec:
  "i \<le> mid + 1 \<Longrightarrow> mid < length temp \<Longrightarrow> k + (mid + 1 - i) \<le> length arr \<Longrightarrow>
     merge_rest temp mid i k arr = take k arr @ seg i mid temp @ drop (k + (mid + 1 - i)) arr"
proof (induction temp mid i k arr rule: merge_rest.induct)
  case (1 temp mid i k arr)
  show ?case
  proof (cases "i \<le> mid")
    case False
    with "1.prems" show ?thesis by (simp add: merge_rest.simps)
  next
    case True
    with "1.prems" have k: "k < length arr" "k + 1 + (mid + 1 - (i + 1)) = k + (mid + 1 - i)" by auto
    have "merge_rest temp mid i k arr = merge_rest temp mid (i + 1) (k + 1) (arr[k := temp ! i])"
      using True by (simp add: merge_rest.simps [of temp mid i])
    also have "\<dots> = take (k + 1) (arr[k := temp ! i]) @ seg (i + 1) mid temp @
        drop (k + 1 + (mid + 1 - (i + 1))) (arr[k := temp ! i])"
      using "1.prems" True k by (intro "1.IH") auto
    also have "\<dots> = take k arr @ seg i mid temp @ drop (k + (mid + 1 - i)) arr"
      using True "1.prems"(2) by (simp only: k(2) take_Suc_update [OF k(1)]) (simp add: seg_Cons)
    finally show ?thesis .
  qed
qed

lemma merge_loop_spec:
  assumes "i \<le> mid + 1" and "mid + 1 \<le> j" and "j \<le> right + 1" and "k + mid + 1 = i + j"
    and "right < length arr" and "length temp = length arr"
    and "\<And>k'. k \<le> k' \<Longrightarrow> k' \<le> right \<Longrightarrow> arr ! k' = temp ! k'"
    and "merge_loop cmp temp mid right i j k arr = (i', k', arr')"
  shows "merge_rest temp mid i' k' arr' = take k arr @ mergel cmp (seg i mid temp) (seg j right temp) @ drop (right + 1) arr"
  using assms
proof (induction cmp temp mid right i j k arr rule: merge_loop.induct)
  case (1 cmp temp mid right i j k arr)
  note le = "1.prems"(1-6) and same = "1.prems"(7)
  show ?case
  proof (cases "i \<le> mid \<and> j \<le> right")
    case False
    then have e: "i' = i" "k' = k" "arr' = arr" using "1.prems"(8) by (auto simp: merge_loop.simps)
    show ?thesis
    proof (cases "i \<le> mid")
      case True
      then have "j = right + 1" "k + (mid + 1 - i) = right + 1" using False le by auto
      with le True merge_rest_spec [of i mid temp k arr] show ?thesis by (simp add: e)
    next
      case no: False
      then have kj: "k = j" using le by linarith
      have sg: "seg j right temp = seg j right arr" using same le kj by (intro seg_cong) auto
      have "arr = take j arr @ seg j right arr @ drop (right + 1) arr" using le by (intro list_parts)
      with no show ?thesis by (simp add: e kj sg merge_rest.simps)
    qed
  next
    case True
    then have k: "k < length arr" "k \<le> right" "i < length temp" "j < length temp" using le by auto
    have segs: "seg i mid temp = temp ! i # seg (i + 1) mid temp" "seg j right temp = temp ! j # seg (j + 1) right temp"
      using True k by (simp_all add: seg_Cons)
    show ?thesis
    proof (cases "cmp (temp ! i) (temp ! j)")
      case c: True
      have "merge_loop cmp temp mid right (i + 1) j (k + 1) (arr[k := temp ! i]) = (i', k', arr')"
        using "1.prems"(8) True c by (simp add: merge_loop.simps [of cmp temp mid right i])
      then have "merge_rest temp mid i' k' arr' = take (k + 1) (arr[k := temp ! i]) @
          mergel cmp (seg (i + 1) mid temp) (seg j right temp) @ drop (right + 1) (arr[k := temp ! i])"
        using le True k same by (intro "1.IH"(1) [OF True c]) auto
      with c k show ?thesis by (simp only: take_Suc_update [OF k(1)]) (simp add: segs)
    next
      case c: False
      have "merge_loop cmp temp mid right i (j + 1) (k + 1) (arr[k := temp ! j]) = (i', k', arr')"
        using "1.prems"(8) True c by (simp add: merge_loop.simps [of cmp temp mid right i])
      then have "merge_rest temp mid i' k' arr' = take (k + 1) (arr[k := temp ! j]) @
          mergel cmp (seg i mid temp) (seg (j + 1) right temp) @ drop (right + 1) (arr[k := temp ! j])"
        using le True k same by (intro "1.IH"(2) [OF True c]) auto
      with c k show ?thesis by (simp only: take_Suc_update [OF k(1)]) (simp add: segs)
    qed
  qed
qed

lemma sort_merge_spec:
  assumes "left \<le> mid" and "mid < right" and "right < length arr" and "length temp = length arr"
    and "sort_merge cmp arr temp left mid right = (arr', temp')"
  shows "length temp' = length arr"
    "arr' = take left arr @ mergel cmp (seg left mid arr) (seg (mid + 1) right arr) @ drop (right + 1) arr"
proof -
  define t where "t = merge_copy left right arr temp"
  have t: "length t = length arr" "\<And>k. left \<le> k \<Longrightarrow> k \<le> right \<Longrightarrow> t ! k = arr ! k"
    using assms by (simp_all add: t_def merge_copy_spec)
  obtain i k a where l: "merge_loop cmp t mid right left (mid + 1) left arr = (i, k, a)" by (metis prod_cases3)
  have r: "arr' = merge_rest t mid i k a" "temp' = t"
    using assms(5) unfolding sort_merge_def t_def [symmetric] Let_def l prod.case by auto
  show "length temp' = length arr" by (simp add: r t)
  have "seg left mid t = seg left mid arr" "seg (mid + 1) right t = seg (mid + 1) right arr"
    using t assms(1-3) by (auto intro!: seg_cong)
  moreover have "merge_rest t mid i k a = take left arr @ mergel cmp (seg left mid t) (seg (mid + 1) right t) @ drop (right + 1) arr"
    using assms t by (intro merge_loop_spec [OF _ _ _ _ _ _ _ l]) auto
  ultimately show "arr' = take left arr @ mergel cmp (seg left mid arr) (seg (mid + 1) right arr) @ drop (right + 1) arr"
    by (simp add: r)
qed

context strict_weak_order
begin

lemma sorted_mergel: "sorted_by cmp xs \<Longrightarrow> sorted_by cmp ys \<Longrightarrow> sorted_by cmp (mergel cmp xs ys)"
proof (induction "length xs + length ys" arbitrary: xs ys rule: less_induct)
  case less
  show ?case
  proof (cases "xs = [] \<or> ys = []")
    case True
    with less.prems show ?thesis by auto
  next
    case False
    then obtain x xs' y ys' where e: "xs = x # xs'" "ys = y # ys'" by (meson neq_Nil_conv)
    have s: "sorted_by cmp xs'" "sorted_by cmp ys'" "\<And>z. z \<in> set xs' \<Longrightarrow> \<not> cmp z x" "\<And>z. z \<in> set ys' \<Longrightarrow> \<not> cmp z y"
      using less.prems by (auto simp: e sorted_by_def)
    show ?thesis
    proof (cases "cmp x y")
      case True
      then have "\<not> cmp z x" if "z \<in> set xs' \<union> set (y # ys')" for z
        using that s(3,4) [of z] cmp_asym [of x y] cmp_trans [of z x y] by auto
      moreover have "sorted_by cmp (mergel cmp xs' ys)" using less s by (simp add: e(1))
      ultimately show ?thesis using True by (simp add: e sorted_by_def set_mergel)
    next
      case False
      then have "\<not> cmp z y" if "z \<in> set (x # xs') \<union> set ys'" for z
        using that s(3,4) [of z] incomparable [of z x y] by auto
      moreover have "sorted_by cmp (mergel cmp xs ys')" using less s by (simp add: e(2))
      ultimately show ?thesis using False by (simp add: e sorted_by_def set_mergel)
    qed
  qed
qed

lemma mergeSortImpl_spec:
  "left \<le> right \<Longrightarrow> right < length arr \<Longrightarrow> length temp = length arr \<Longrightarrow>
     mergeSortImpl cmp arr temp left right = (arr', temp') \<Longrightarrow>
     length temp' = length arr \<and> length arr' = length arr \<and>
     take left arr' = take left arr \<and> drop (right + 1) arr' = drop (right + 1) arr \<and>
     mset (seg left right arr') = mset (seg left right arr) \<and> sorted_by cmp (seg left right arr')"
proof (induction "right - left" arbitrary: arr temp left right arr' temp' rule: less_induct)
  case less
  show ?case
  proof (cases "left \<ge> right")
    case True
    with less.prems have "left = right" "arr' = arr" "temp' = temp" by (simp_all add: mergeSortImpl.simps)
    with less.prems show ?thesis by (simp add: seg_Cons sorted_by_def)
  next
    case False
    define mid where "mid = left + (right - left) div 2"
    have mid: "left \<le> mid" "mid < right" using False by (auto simp: mid_def)
    obtain a1 t1 where 1: "mergeSortImpl cmp arr temp left mid = (a1, t1)" by fastforce
    obtain a2 t2 where 2: "mergeSortImpl cmp a1 t1 (mid + 1) right = (a2, t2)" by fastforce
    have m: "sort_merge cmp a2 t2 left mid right = (arr', temp')"
      using less.prems(4) False 1 2 by (simp add: mergeSortImpl.simps [of cmp arr temp left] mid_def [symmetric] Let_def)
    have I1: "length t1 = length arr" "length a1 = length arr" "take left a1 = take left arr"
      "drop (mid + 1) a1 = drop (mid + 1) arr" "mset (seg left mid a1) = mset (seg left mid arr)" "sorted_by cmp (seg left mid a1)"
      using less.hyps [OF _ _ _ _ 1] mid less.prems by auto
    have I2: "length t2 = length arr" "length a2 = length arr" "take (mid + 1) a2 = take (mid + 1) a1"
      "drop (right + 1) a2 = drop (right + 1) a1" "mset (seg (mid + 1) right a2) = mset (seg (mid + 1) right a1)"
      "sorted_by cmp (seg (mid + 1) right a2)"
      using less.hyps [OF _ _ _ _ 2] mid less.prems I1(1,2) by auto
    note M = sort_merge_spec [OF mid _ _ m]
    have lo: "seg left mid a2 = seg left mid a1"
      using I2(3) by (auto simp: seg_def drop_take [symmetric] Suc_diff_le)
    have tk: "take left a2 = take left arr" using arg_cong [OF I2(3), of "take left"] I1(3) mid by (simp add: min_def)
    have hi: "seg (mid + 1) right a1 = seg (mid + 1) right arr" using I1(4) by (simp add: seg_def)
    have dr: "drop (right + 1) a2 = drop (right + 1) arr"
      using I2(4) arg_cong [OF I1(4), of "drop (right - mid)"] mid by simp
    let ?m = "mergel cmp (seg left mid a2) (seg (mid + 1) right a2)"
    have arr': "arr' = take left arr @ ?m @ drop (right + 1) arr"
      using M(2) less.prems(2) I2(1,2) unfolding tk dr by simp
    have len: "length ?m = right + 1 - left"
      using mid less.prems I2(2) by (auto simp: length_mergel seg_def)
    have seg: "seg left right arr' = ?m"
      using less.prems len by (simp add: arr' seg_def)
    show ?thesis
    proof (intro conjI)
      show "length temp' = length arr" using M(1) less.prems I2 by simp
      show "length arr' = length arr" using less.prems len by (simp add: arr')
      show "take left arr' = take left arr" using less.prems by (simp add: arr')
      show "drop (right + 1) arr' = drop (right + 1) arr" using less.prems len by (simp add: arr')
      show "mset (seg left right arr') = mset (seg left right arr)"
        unfolding seg mset_mergel using I1(5) I2(5) mid hi by (simp add: lo seg_split [of left mid right])
      show "sorted_by cmp (seg left right arr')"
        unfolding seg using I1(6) I2(6) by (intro sorted_mergel) (simp_all add: lo)
    qed
  qed
qed

lemma mergeSort_sorts: "mset (mergeSort dflt cmp arr) = mset arr \<and> sorted_by cmp (mergeSort dflt cmp arr)"
proof (cases "length arr \<le> 1")
  case True
  then show ?thesis by (cases arr) (auto simp: mergeSort_def sorted_by_def)
next
  case False
  obtain a t where r: "mergeSortImpl cmp arr (replicate (length arr) dflt) 0 (length arr - 1) = (a, t)" by fastforce
  have s: "length a = length arr" "mset (seg 0 (length arr - 1) a) = mset (seg 0 (length arr - 1) arr)"
    "sorted_by cmp (seg 0 (length arr - 1) a)"
    using mergeSortImpl_spec [OF _ _ _ r] False by auto
  have "arr \<noteq> []" "a \<noteq> []" using False s(1) by auto
  then have "seg 0 (length arr - 1) a = a" "seg 0 (length arr - 1) arr = arr" using seg_all [of a] seg_all [of arr] s(1) by simp_all
  with s False r show ?thesis by (simp add: mergeSort_def)
qed

end

section \<open>Insertion sort\<close>

lemma insertion_shift_spec:
  "\<exists>A B. P = A @ B \<and> insertion_shift cmp key (length P) (P @ y # Q) = A @ key # B @ Q \<and>
     (\<forall>b \<in> set B. cmp key b) \<and> (A \<noteq> [] \<longrightarrow> \<not> cmp key (last A))"
proof (induction P arbitrary: y Q rule: rev_induct)
  case Nil
  then show ?case by simp
next
  case (snoc p P)
  show ?case
  proof (cases "cmp key p")
    case True
    obtain A B where ab: "P = A @ B" "insertion_shift cmp key (length P) (P @ p # p # Q) = A @ key # B @ p # Q"
      "\<forall>b \<in> set B. cmp key b" "A \<noteq> [] \<longrightarrow> \<not> cmp key (last A)"
      using snoc.IH [of p "p # Q"] by blast
    have "(P @ [p] @ y # Q)[Suc (length P) := p] = P @ p # p # Q" by (simp add: list_update_append)
    with True ab show ?thesis by (intro exI [of _ A] exI [of _ "B @ [p]"]) (simp add: nth_append)
  next
    case False
    then show ?thesis by (intro exI [of _ "P @ [p]"] exI [of _ "[]"]) (simp add: nth_append list_update_append)
  qed
qed

context strict_weak_order
begin

lemma sorted_insert:
  assumes "sorted_by cmp (A @ B)" and "\<forall>b \<in> set B. cmp key b" and "A \<noteq> [] \<longrightarrow> \<not> cmp key (last A)"
  shows "sorted_by cmp (A @ key # B)"
proof -
  have "\<not> cmp key a" if "a \<in> set A" for a
  proof -
    from that have A: "A = butlast A @ [last A]" by (cases A rule: rev_cases) auto
    have "\<not> cmp key (last A)" using assms(3) that by auto
    moreover have "a = last A \<or> \<not> cmp (last A) a"
      using that assms(1) by (subst (asm) (1 2) A) (auto simp: sorted_by_def sorted_wrt_append)
    ultimately show ?thesis using incomparable by blast
  qed
  with assms show ?thesis by (auto simp: sorted_by_def sorted_wrt_append dest: cmp_asym)
qed

lemma insertionSort_sorts: "mset (insertionSort cmp arr) = mset arr \<and> sorted_by cmp (insertionSort cmp arr)"
proof -
  let ?f = "\<lambda>a i. insertion_shift cmp (a ! i) i a"
  have "length (foldl ?f arr [1..<m]) = length arr \<and> mset (foldl ?f arr [1..<m]) = mset arr \<and>
      sorted_by cmp (take m (foldl ?f arr [1..<m]))" if "m \<le> length arr" for m
    using that
  proof (induction m)
    case 0
    then show ?case by (simp add: sorted_by_def)
  next
    case (Suc m)
    define a where "a = foldl ?f arr [1..<m]"
    have a: "length a = length arr" "mset a = mset arr" "sorted_by cmp (take m a)" using Suc by (auto simp: a_def)
    show ?case
    proof (cases "m = 0")
      case True
      then show ?thesis using Suc.prems by (cases arr) (auto simp: sorted_by_def)
    next
      case False
      have m: "m < length a" using Suc.prems a(1) by simp
      have sp: "a = take m a @ a ! m # drop (Suc m) a" using m by (simp add: id_take_nth_drop [symmetric])
      have len: "length (take m a) = m" using m by simp
      obtain A B where ab: "take m a = A @ B" "?f a m = A @ a ! m # B @ drop (Suc m) a"
        "\<forall>b \<in> set B. cmp (a ! m) b" "A \<noteq> [] \<longrightarrow> \<not> cmp (a ! m) (last A)"
        using insertion_shift_spec [of "take m a" cmp "a ! m" "a ! m" "drop (Suc m) a"] len sp by metis
      have r: "foldl ?f arr [1..<Suc m] = A @ a ! m # B @ drop (Suc m) a"
        using False ab(2) by (simp add: a_def)
      have lab: "length A + length B = m" using arg_cong [OF ab(1), of length] len by simp
      have "mset (A @ a ! m # B @ drop (Suc m) a) = mset a"
        using arg_cong [OF sp, of mset] ab(1) by simp
      moreover have "take (Suc m) (A @ a ! m # B @ drop (Suc m) a) = A @ a ! m # B" using lab by auto
      moreover have "sorted_by cmp (A @ a ! m # B)" using sorted_insert ab a(3) by simp
      ultimately show ?thesis unfolding r using a lab m by simp
    qed
  qed
  from this [of "length arr"] have "length (insertionSort cmp arr) = length arr \<and> mset (insertionSort cmp arr) = mset arr \<and>
      sorted_by cmp (take (length arr) (insertionSort cmp arr))"
    unfolding insertionSort_def by blast
  then show ?thesis by auto
qed

end

section \<open>Heap sort\<close>

text \<open>No child among the first \<open>n\<close> elements is greater than its parent, for parents from \<open>lo\<close> on other
  than \<open>i\<close>.\<close>

definition heap_but :: "'a compare \<Rightarrow> nat \<Rightarrow> nat \<Rightarrow> nat option \<Rightarrow> 'a list \<Rightarrow> bool" where
  "heap_but cmp n lo i a \<longleftrightarrow>
     (\<forall>p c. (c = 2 * p + 1 \<or> c = 2 * p + 2) \<and> c < n \<and> lo \<le> p \<and> i \<noteq> Some p \<longrightarrow> \<not> cmp (a ! p) (a ! c))"

lemma heap_start: "2 \<le> n \<Longrightarrow> n \<le> 2 ^ 32 \<Longrightarrow> heap_start n = int (n div 2 - 1)"
proof -
  assume n: "2 \<le> n" "n \<le> 2 ^ 32"
  then have m: "n div 2 - 1 < 2 ^ 31" "n div 2 = Suc (n div 2 - 1)" by auto
  have "(word_of_nat (n div 2) :: 64 word) - 1 = word_of_nat (n div 2 - 1)"
    by (subst m(2)) simp
  moreover have "take_bit 64 (n div 2 - 1) = n div 2 - 1" using m(1) by (simp add: take_bit_nat_eq_self)
  ultimately have "heap_start n = sint (word_of_nat (n div 2 - 1) :: 32 word)"
    by (simp only: heap_start_def unsigned_of_nat) simp
  also have "\<dots> = int (n div 2 - 1)"
    using m(1) by (simp add: signed_of_nat signed_take_bit_int_eq_self)
  finally show ?thesis .
qed

context strict_weak_order
begin

lemma largest_child_spec:
  assumes "largest_child cmp a n i = L"
  shows "L = i \<and> (\<forall>c. (c = 2 * i + 1 \<or> c = 2 * i + 2) \<and> c < n \<longrightarrow> \<not> cmp (a ! i) (a ! c)) \<or>
    (L = 2 * i + 1 \<or> L = 2 * i + 2) \<and> L < n \<and> cmp (a ! i) (a ! L) \<and>
    (\<forall>c. (c = 2 * i + 1 \<or> c = 2 * i + 2) \<and> c < n \<longrightarrow> \<not> cmp (a ! L) (a ! c))"
proof -
  let ?l = "2 * i + 1" and ?r = "2 * i + 2"
  have L: "L = (let m = (if ?l < n \<and> cmp (a ! i) (a ! ?l) then ?l else i) in if ?r < n \<and> cmp (a ! m) (a ! ?r) then ?r else m)"
    using assms by (simp only: largest_child_def Let_def)
  note facts = cmp_irrefl cmp_trans [of "a ! i" "a ! ?l" "a ! ?r"] cmp_asym [of "a ! ?l" "a ! ?r"] cmp_trans [of "a ! i" "a ! ?r" "a ! ?l"]
  show ?thesis
  proof (cases "?l < n \<and> cmp (a ! i) (a ! ?l)")
    case True
    have "L = (if ?r < n \<and> cmp (a ! ?l) (a ! ?r) then ?r else ?l)" unfolding L Let_def if_P [OF True] by (rule refl)
    with True facts show ?thesis by (cases "?r < n \<and> cmp (a ! ?l) (a ! ?r)") auto
  next
    case False
    have "L = (if ?r < n \<and> cmp (a ! i) (a ! ?r) then ?r else i)" unfolding L Let_def if_not_P [OF False] by (rule refl)
    with False facts show ?thesis by (cases "?r < n \<and> cmp (a ! i) (a ! ?r)") auto
  qed
qed

lemma heapify_spec:
  assumes "i < n" and "n \<le> length a" and "lo \<le> i" and "heap_but cmp n lo (Some i) a"
    and "\<And>p c. i = 2 * p + 1 \<or> i = 2 * p + 2 \<Longrightarrow> lo \<le> p \<Longrightarrow> c = 2 * i + 1 \<or> c = 2 * i + 2 \<Longrightarrow> c < n \<Longrightarrow> \<not> cmp (a ! p) (a ! c)"
  shows "heap_but cmp n lo None (heapify cmp a n i) \<and> rearr 0 (n - 1) a (heapify cmp a n i)"
  using assms
proof (induction "n - i" arbitrary: a i rule: less_induct)
  case less
  note H = less.prems(4) [unfolded heap_but_def]
  define L where "L = largest_child cmp a n i"
  note LS = largest_child_spec [OF L_def [symmetric]]
  show ?case
  proof (cases "L = i")
    case True
    then have "\<not> cmp (a ! i) (a ! c)" if "c = 2 * i + 1 \<or> c = 2 * i + 2" "c < n" for c
      using LS that by auto
    with H have "heap_but cmp n lo None a" unfolding heap_but_def by blast
    moreover have "heapify cmp a n i = a" using True by (simp add: heapify.simps [of cmp a] L_def)
    ultimately show ?thesis by simp
  next
    case False
    then have L: "L = 2 * i + 1 \<or> L = 2 * i + 2" "L < n" "cmp (a ! i) (a ! L)"
      "\<And>c. c = 2 * i + 1 \<or> c = 2 * i + 2 \<Longrightarrow> c < n \<Longrightarrow> \<not> cmp (a ! L) (a ! c)"
      using LS by auto
    define b where "b = swap_at a i L"
    have res: "heapify cmp a n i = heapify cmp b n L"
      using False by (simp add: heapify.simps [of cmp a] L_def [symmetric] b_def Let_def)
    have b: "b ! k = (if k = L then a ! i else if k = i then a ! L else a ! k)" if "k < n" for k
      using that L(2) less.prems(1,2) by (simp add: b_def swap_at_simps)
    have "heap_but cmp n lo (Some L) b"
      unfolding heap_but_def
    proof (intro allI impI)
      fix p c assume pc: "(c = 2 * p + 1 \<or> c = 2 * p + 2) \<and> c < n \<and> lo \<le> p \<and> Some L \<noteq> Some p"
      then have "p < n" "c = 2 * p + 1 \<or> c = 2 * p + 2" by auto
      then have ne: "p \<noteq> i \<Longrightarrow> c \<noteq> L" using L(1) by presburger
      consider "p = i" "c = L" | "p = i" "c \<noteq> L" | "p \<noteq> i" "c = i" | "p \<noteq> i" "c \<noteq> i" "c \<noteq> L"
        using ne by blast
      then show "\<not> cmp (b ! p) (b ! c)"
      proof cases
        case 1
        with L(2,3) \<open>p < n\<close> False show ?thesis using cmp_asym by (auto simp: b)
      next
        case 2
        with pc L(4) [of c] \<open>p < n\<close> show ?thesis by (auto simp: b)
      next
        case 3
        with pc \<open>p < n\<close> L(1,2) less.prems(5) [of p L] show ?thesis by (auto simp: b)
      next
        case 4
        with pc \<open>p < n\<close> H show ?thesis by (auto simp: b)
      qed
    qed
    moreover have "\<not> cmp (b ! p) (b ! c)"
      if "L = 2 * p + 1 \<or> L = 2 * p + 2" "lo \<le> p" "c = 2 * L + 1 \<or> c = 2 * L + 2" "c < n" for p c
    proof -
      have "p = i" using that(1) L(1) by auto
      moreover have "\<not> cmp (a ! L) (a ! c)" using H that L(1) less.prems(3) by auto
      ultimately show ?thesis using that(3,4) L(1,2) by (auto simp: b)
    qed
    moreover have "n - L < n - i" "lo \<le> L" "n \<le> length b"
      using L(1,2) less.prems(1-3) by (auto simp: b_def swap_at_simps)
    ultimately have ih: "heap_but cmp n lo None (heapify cmp b n L) \<and> rearr 0 (n - 1) b (heapify cmp b n L)"
      using less.hyps [of L b] L(2) by blast
    have "rearr 0 (n - 1) a b" using L(1,2) less.prems(1,2) unfolding b_def by (intro rearr_swap) auto
    with ih show ?thesis unfolding res by (blast intro: rearr_trans)
  qed
qed

lemma heap_build_spec:
  "-1 \<le> i \<Longrightarrow> i < int (length a) \<Longrightarrow> a \<noteq> [] \<Longrightarrow> heap_but cmp (length a) (nat (i + 1)) None a \<Longrightarrow>
     heap_but cmp (length a) 0 None (heap_build cmp i a) \<and> rearr 0 (length a - 1) a (heap_build cmp i a)"
proof (induction cmp' \<equiv> cmp i a rule: heap_build.induct)
  case (1 i a)
  show ?case
  proof (cases "i \<ge> 0")
    case False
    with "1.prems" show ?thesis by (simp add: heap_build.simps)
  next
    case True
    let ?b = "heapify cmp a (length a) (nat i)"
    have h: "heap_but cmp (length a) (nat i) None ?b \<and> rearr 0 (length a - 1) a ?b"
    proof (rule heapify_spec)
      show "heap_but cmp (length a) (nat i) (Some (nat i)) a"
        unfolding heap_but_def
      proof (intro allI impI)
        fix p c assume pc: "(c = 2 * p + 1 \<or> c = 2 * p + 2) \<and> c < length a \<and> nat i \<le> p \<and> Some (nat i) \<noteq> Some p"
        then have "nat (i + 1) \<le> p" using True by auto
        with pc "1.prems"(4) show "\<not> cmp (a ! p) (a ! c)" unfolding heap_but_def by blast
      qed
    qed (use "1.prems" True in auto)
    then have len: "length ?b = length a" by (blast intro: rearr_length)
    have "?b \<noteq> []" using len "1.prems"(3) by auto
    then have "heap_but cmp (length a) 0 None (heap_build cmp (i - 1) ?b) \<and> rearr 0 (length a - 1) ?b (heap_build cmp (i - 1) ?b)"
      using "1.hyps" [OF True] "1.prems" True h by (simp add: len)
    with h True show ?thesis
      by (subst (1 2) heap_build.simps) (auto intro: rearr_trans)
  qed
qed

lemma heap_root: "heap_but cmp n 0 None a \<Longrightarrow> x < n \<Longrightarrow> \<not> cmp (a ! 0) (a ! x)"
proof (induction x rule: less_induct)
  case (less x)
  show ?case
  proof (cases "x = 0")
    case True
    then show ?thesis by (simp add: cmp_irrefl)
  next
    case False
    then obtain p where p: "x = 2 * p + 1 \<or> x = 2 * p + 2" "p < x"
      by (intro that [of "(x - 1) div 2"]) presburger+
    then have "\<not> cmp (a ! p) (a ! x)" using less.prems unfolding heap_but_def by blast
    moreover have "\<not> cmp (a ! 0) (a ! p)" using less.IH [OF p(2) less.prems(1)] p(2) less.prems(2) by simp
    ultimately show ?thesis using incomparable by blast
  qed
qed

lemma heap_extract_spec:
  "k < length a \<Longrightarrow> heap_but cmp (k + 1) 0 None a \<Longrightarrow>
     (\<And>x y. x < y \<Longrightarrow> k < y \<Longrightarrow> y < length a \<Longrightarrow> \<not> cmp (a ! y) (a ! x)) \<Longrightarrow>
     mset (heap_extract cmp k a) = mset a \<and> sorted_by cmp (heap_extract cmp k a)"
proof (induction k arbitrary: a)
  case 0
  then show ?case by (auto simp: sorted_by_def sorted_wrt_iff_nth_less)
next
  case (Suc k)
  define b where "b = swap_at a 0 (Suc k)"
  define c where "c = heapify cmp b (Suc k) 0"
  have b: "b ! x = (if x = Suc k then a ! 0 else if x = 0 then a ! Suc k else a ! x)" if "x < length a" for x
    using that Suc.prems(1) unfolding b_def by (intro swap_at_simps) auto
  have lb: "length b = length a" by (simp add: b_def swap_at_simps)
  have hb: "heap_but cmp (Suc k) 0 (Some 0) b"
    unfolding heap_but_def
  proof (intro allI impI)
    fix p d assume d: "(d = 2 * p + 1 \<or> d = 2 * p + 2) \<and> d < Suc k \<and> 0 \<le> p \<and> Some 0 \<noteq> Some p"
    then have "\<not> cmp (a ! p) (a ! d)" using Suc.prems(2) unfolding heap_but_def by auto
    with d Suc.prems(1) show "\<not> cmp (b ! p) (b ! d)" by (auto simp: b)
  qed
  have c: "heap_but cmp (Suc k) 0 None c \<and> rearr 0 k b c"
    using heapify_spec [of 0 "Suc k" b 0] hb Suc.prems(1) by (simp add: c_def lb)
  have ab: "rearr 0 (Suc k) a b" unfolding b_def using Suc.prems(1) by (intro rearr_swap) auto
  have lc: "length c = length a" using c lb rearr_length by metis
  have from_a: "\<exists>x'. x' \<le> Suc k \<and> c ! x = a ! x'" if "x \<le> Suc k" for x
  proof -
    have "rearr 0 (Suc k) b c" using rearr_mono [OF conjunct2 [OF c], of 0 "Suc k"] Suc.prems(1) lb by simp
    with ab have "rearr 0 (Suc k) a c" by (rule rearr_trans)
    with that show ?thesis unfolding rearr_def by blast
  qed
  have beyond: "c ! y = (if y = Suc k then a ! 0 else a ! y)" if "k < y" "y < length a" for y
    using that c lb by (simp add: rearr_def b)
  have "\<not> cmp (c ! y) (c ! x)" if "x < y" "k < y" "y < length c" for x y
  proof (cases "x \<le> Suc k")
    case True
    then obtain x' where x': "x' \<le> Suc k" "c ! x = a ! x'" using from_a by blast
    show ?thesis
    proof (cases "y = Suc k")
      case True
      with x' heap_root [OF Suc.prems(2), of x'] show ?thesis using that lc by (simp add: beyond)
    next
      case False
      then have "\<not> cmp (a ! y) (a ! x')" using Suc.prems(3) [of x' y] x'(1) that lc by simp
      with False x'(2) that lc show ?thesis by (simp add: beyond)
    qed
  next
    case False
    with Suc.prems(3) [of x y] that lc show ?thesis by (simp add: beyond)
  qed
  then have "mset (heap_extract cmp k c) = mset c \<and> sorted_by cmp (heap_extract cmp k c)"
    using Suc.IH [of c] Suc.prems(1) c lc by simp
  moreover have "heap_extract cmp (Suc k) a = heap_extract cmp k c" by (simp add: c_def b_def)
  moreover have "mset c = mset a" using c ab by (simp add: rearr_def)
  ultimately show ?case by simp
qed

lemma heapSort_sorts:
  assumes "length arr \<le> 2 ^ 32"
  shows "mset (heapSort cmp arr) = mset arr \<and> sorted_by cmp (heapSort cmp arr)"
proof (cases "length arr \<le> 1")
  case True
  then show ?thesis by (cases arr) (auto simp: heapSort_def sorted_by_def)
next
  case False
  define n where "n = length arr"
  define h where "h = heap_build cmp (heap_start n) arr"
  have st: "heap_start n = int (n div 2 - 1)" using False assms unfolding n_def by (intro heap_start) auto
  have "heap_but cmp n (n div 2) None arr" by (auto simp: heap_but_def)
  moreover have "nat (int (n div 2 - 1) + 1) = n div 2" using False by (simp add: n_def)
  ultimately have "heap_but cmp (length arr) (nat (int (n div 2 - 1) + 1)) None arr" by (simp add: n_def)
  moreover have "- 1 \<le> int (n div 2 - 1)" "int (n div 2 - 1) < int (length arr)" "arr \<noteq> []" using False by (auto simp: n_def)
  ultimately have h: "heap_but cmp n 0 None h \<and> rearr 0 (n - 1) arr h"
    unfolding h_def st unfolding n_def by (intro heap_build_spec)
  have lh: "length h = n" using h rearr_length n_def by metis
  have "mset (heap_extract cmp (n - 1) h) = mset h \<and> sorted_by cmp (heap_extract cmp (n - 1) h)"
  proof (rule heap_extract_spec)
    have "n - 1 + 1 = n" using False by (simp add: n_def)
    with h show "heap_but cmp (n - 1 + 1) 0 None h" by simp
  qed (use lh False n_def in auto)
  moreover have "mset h = mset arr" using h by (simp add: rearr_def)
  moreover have "heapSort cmp arr = heap_extract cmp (n - 1) h"
    using False by (simp add: heapSort_def h_def n_def)
  ultimately show ?thesis by simp
qed

end

section \<open>Properties\<close>

text \<open>C17: all four algorithms sort. For every comparison the standard library admits, quick sort, merge sort and
  insertion sort return the elements of the array in order, and so does heap sort for arrays of at most
  \<open>2 ^ 32\<close> elements, where its 32-bit index suffices.\<close>

theorem Sort_sorts:
  assumes "strict_weak_order cmp"
  shows "mset (quickSort cmp arr) = mset arr \<and> sorted_by cmp (quickSort cmp arr) \<and>
    mset (mergeSort dflt cmp arr) = mset arr \<and> sorted_by cmp (mergeSort dflt cmp arr) \<and>
    mset (insertionSort cmp arr) = mset arr \<and> sorted_by cmp (insertionSort cmp arr) \<and>
    (length arr \<le> 2 ^ 32 \<longrightarrow> mset (heapSort cmp arr) = mset arr \<and> sorted_by cmp (heapSort cmp arr))"
  using strict_weak_order.quickSort_sorts [OF assms] strict_weak_order.mergeSort_sorts [OF assms]
    strict_weak_order.insertionSort_sorts [OF assms] strict_weak_order.heapSort_sorts [OF assms] by blast

theorem Sort_sorts_witness:
  "sorted_by std_less (quickSort std_less [3, 1, 2 :: nat]) \<and> sorted_by std_less (mergeSort 0 std_less [3, 1, 2 :: nat]) \<and>
   sorted_by std_less (heapSort std_less [3, 1, 2 :: nat]) \<and> mset (heapSort std_less [3, 1, 2 :: nat]) = mset [3, 1, 2]"
  using Sort_sorts [OF std_less.strict_weak_order_axioms, of "[3, 1, 2 :: nat]" 0] by simp

end
