(* ===== verification/Search.thy ===== *)
theory Search
  imports Sort
begin

text \<open>
  The searches of \<^verbatim>\<open>include/darwincore/foundation/algorithm/Search.h\<close>: binary search and the two bounds by halving an
  interval, and the linear searches. \<open>findMax\<close> and \<open>findMin\<close> call \<open>max_element\<close> and \<open>min_element\<close> of the standard library, which return
  the first such element. \<open>interpolationSearch\<close> computes positions in floating point and is not modelled.
\<close>

section \<open>The algorithms\<close>

function binarySearch_loop :: "'a compare \<Rightarrow> 'a list \<Rightarrow> 'a \<Rightarrow> nat \<Rightarrow> nat \<Rightarrow> nat option" where
  "binarySearch_loop cmp arr target left right =
     (if left < right
      then let mid = left + (right - left) div 2
           in if cmp (arr ! mid) target then binarySearch_loop cmp arr target (mid + 1) right
              else if cmp target (arr ! mid) then binarySearch_loop cmp arr target left mid
              else Some mid
      else None)"
  by pat_completeness auto
termination by (relation "measure (\<lambda>(cmp, arr, target, left, right). right - left)") auto

definition binarySearch :: "'a compare \<Rightarrow> 'a list \<Rightarrow> 'a \<Rightarrow> nat option" where
  "binarySearch cmp arr target = (if arr = [] then None else binarySearch_loop cmp arr target 0 (length arr))"

function lowerBound_loop :: "'a compare \<Rightarrow> 'a list \<Rightarrow> 'a \<Rightarrow> nat \<Rightarrow> nat \<Rightarrow> nat" where
  "lowerBound_loop cmp arr target left right =
     (if left < right
      then let mid = left + (right - left) div 2
           in if cmp (arr ! mid) target then lowerBound_loop cmp arr target (mid + 1) right
              else lowerBound_loop cmp arr target left mid
      else left)"
  by pat_completeness auto
termination by (relation "measure (\<lambda>(cmp, arr, target, left, right). right - left)") auto

definition lowerBound :: "'a compare \<Rightarrow> 'a list \<Rightarrow> 'a \<Rightarrow> nat" where
  "lowerBound cmp arr target = lowerBound_loop cmp arr target 0 (length arr)"

function upperBound_loop :: "'a compare \<Rightarrow> 'a list \<Rightarrow> 'a \<Rightarrow> nat \<Rightarrow> nat \<Rightarrow> nat" where
  "upperBound_loop cmp arr target left right =
     (if left < right
      then let mid = left + (right - left) div 2
           in if cmp target (arr ! mid) then upperBound_loop cmp arr target left mid
              else upperBound_loop cmp arr target (mid + 1) right
      else left)"
  by pat_completeness auto
termination by (relation "measure (\<lambda>(cmp, arr, target, left, right). right - left)") auto

definition upperBound :: "'a compare \<Rightarrow> 'a list \<Rightarrow> 'a \<Rightarrow> nat" where
  "upperBound cmp arr target = upperBound_loop cmp arr target 0 (length arr)"

declare binarySearch_loop.simps [simp del] lowerBound_loop.simps [simp del] upperBound_loop.simps [simp del]

function linearSearch_loop :: "('a \<Rightarrow> bool) \<Rightarrow> 'a list \<Rightarrow> nat \<Rightarrow> nat option" where
  "linearSearch_loop pred arr i =
     (if i < length arr then if pred (arr ! i) then Some i else linearSearch_loop pred arr (i + 1) else None)"
  by pat_completeness auto
termination by (relation "measure (\<lambda>(pred, arr, i). length arr - i)") auto

definition linearSearch :: "'a list \<Rightarrow> ('a \<Rightarrow> bool) \<Rightarrow> nat option" where
  "linearSearch arr pred = linearSearch_loop pred arr 0"

definition findAll :: "'a list \<Rightarrow> ('a \<Rightarrow> bool) \<Rightarrow> nat list" where
  "findAll arr pred = foldl (\<lambda>result i. if pred (arr ! i) then result @ [i] else result) [] [0..<length arr]"

text \<open>The scans of \<open>max_element\<close> and \<open>min_element\<close>.\<close>

definition findMax :: "'a compare \<Rightarrow> 'a list \<Rightarrow> nat option" where
  "findMax cmp arr =
     (if arr = [] then None
      else Some (foldl (\<lambda>m i. if cmp (arr ! m) (arr ! i) then i else m) 0 [1..<length arr]))"

definition findMin :: "'a compare \<Rightarrow> 'a list \<Rightarrow> nat option" where
  "findMin cmp arr =
     (if arr = [] then None
      else Some (foldl (\<lambda>m i. if cmp (arr ! i) (arr ! m) then i else m) 0 [1..<length arr]))"

declare linearSearch_loop.simps [simp del]

section \<open>Halving a partitioned interval\<close>

lemma lowerBound_loop_spec:
  assumes "\<And>x y. x < y \<Longrightarrow> y < length arr \<Longrightarrow> cmp (arr ! y) target \<Longrightarrow> cmp (arr ! x) target"
    and "left \<le> right" and "right \<le> length arr"
    and "\<And>k. k < left \<Longrightarrow> cmp (arr ! k) target" and "\<And>k. right \<le> k \<Longrightarrow> k < length arr \<Longrightarrow> \<not> cmp (arr ! k) target"
  shows "lowerBound_loop cmp arr target left right \<le> length arr \<and>
    (\<forall>k < lowerBound_loop cmp arr target left right. cmp (arr ! k) target) \<and>
    (\<forall>k < length arr. lowerBound_loop cmp arr target left right \<le> k \<longrightarrow> \<not> cmp (arr ! k) target)"
  using assms(2-5)
proof (induction "right - left" arbitrary: left right rule: less_induct)
  case less
  show ?case
  proof (cases "left < right")
    case False
    then have "lowerBound_loop cmp arr target left right = left" by (simp add: lowerBound_loop.simps)
    with False less.prems show ?thesis by auto
  next
    case True
    define mid where "mid = left + (right - left) div 2"
    have mid: "left \<le> mid" "mid < right" using True by (auto simp: mid_def)
    have eq: "lowerBound_loop cmp arr target left right =
       (if cmp (arr ! mid) target then lowerBound_loop cmp arr target (mid + 1) right
        else lowerBound_loop cmp arr target left mid)"
      using True by (simp add: lowerBound_loop.simps [of cmp arr target left] mid_def [symmetric] Let_def)
    show ?thesis
    proof (cases "cmp (arr ! mid) target")
      case c: True
      have "cmp (arr ! k) target" if "k < mid + 1" for k
        using that c mid assms(1) [of k mid] less.prems(2) by (cases "k = mid") auto
      with less.hyps [of right "mid + 1"] less.prems mid c show ?thesis by (simp add: eq)
    next
      case c: False
      have "\<not> cmp (arr ! k) target" if "mid \<le> k" "k < length arr" for k
        using that c assms(1) [of mid k] by (cases "k = mid") auto
      with less.hyps [of mid left] less.prems mid c show ?thesis by (simp add: eq)
    qed
  qed
qed

text \<open>The upper bound is the lower bound of the complementary test.\<close>

lemma upperBound_lowerBound:
  "upperBound_loop cmp arr target left right = lowerBound_loop (\<lambda>x t. \<not> cmp t x) arr target left right"
proof (induction cmp arr target left right rule: upperBound_loop.induct)
  case (1 cmp arr target left right)
  then show ?case
    by (subst upperBound_loop.simps, subst lowerBound_loop.simps) (auto simp: Let_def)
qed

lemma prefix_length:
  assumes "n \<le> length xs" and "\<forall>k < n. P (xs ! k)" and "\<forall>k < length xs. n \<le> k \<longrightarrow> \<not> P (xs ! k)"
  shows "n = length (filter P xs)"
proof -
  have "filter P xs = filter P (take n xs) @ filter P (drop n xs)" by (metis append_take_drop_id filter_append)
  moreover have "filter P (take n xs) = take n xs" using assms(1,2) by (auto simp: filter_id_conv in_set_conv_nth)
  moreover have "filter P (drop n xs) = []" using assms(1,3) by (auto simp: filter_empty_conv in_set_conv_nth)
  ultimately show ?thesis using assms(1) by simp
qed

context strict_weak_order
begin

lemma sorted_nth: "sorted_by cmp arr \<Longrightarrow> x < y \<Longrightarrow> y < length arr \<Longrightarrow> \<not> cmp (arr ! y) (arr ! x)"
  by (simp add: sorted_by_def sorted_wrt_iff_nth_less)

lemma lowerBound_count:
  assumes "sorted_by cmp arr"
  shows "lowerBound cmp arr target = length (filter (\<lambda>x. cmp x target) arr)"
proof -
  have "cmp (arr ! x) target" if "x < y" "y < length arr" "cmp (arr ! y) target" for x y
    using sorted_nth [OF assms that(1,2)] that(3) incomparable by blast
  then have "lowerBound cmp arr target \<le> length arr \<and> (\<forall>k < lowerBound cmp arr target. cmp (arr ! k) target) \<and>
      (\<forall>k < length arr. lowerBound cmp arr target \<le> k \<longrightarrow> \<not> cmp (arr ! k) target)"
    unfolding lowerBound_def by (intro lowerBound_loop_spec) auto
  then show ?thesis by (intro prefix_length) auto
qed

lemma upperBound_count:
  assumes "sorted_by cmp arr"
  shows "upperBound cmp arr target = length (filter (\<lambda>x. \<not> cmp target x) arr)"
proof -
  have "\<not> cmp target (arr ! x)" if "x < y" "y < length arr" "\<not> cmp target (arr ! y)" for x y
    using sorted_nth [OF assms that(1,2)] that(3) incomparable by blast
  then have "upperBound cmp arr target \<le> length arr \<and> (\<forall>k < upperBound cmp arr target. \<not> cmp target (arr ! k)) \<and>
      (\<forall>k < length arr. upperBound cmp arr target \<le> k \<longrightarrow> \<not> \<not> cmp target (arr ! k))"
    unfolding upperBound_def upperBound_lowerBound by (intro lowerBound_loop_spec) auto
  then show ?thesis by (intro prefix_length) auto
qed

lemma binarySearch_loop_spec:
  assumes "sorted_by cmp arr" and "right \<le> length arr"
    and "\<And>k. k < left \<Longrightarrow> cmp (arr ! k) target" and "\<And>k. right \<le> k \<Longrightarrow> k < length arr \<Longrightarrow> cmp target (arr ! k)"
  shows "case binarySearch_loop cmp arr target left right of
      Some i \<Rightarrow> i < length arr \<and> \<not> cmp (arr ! i) target \<and> \<not> cmp target (arr ! i)
    | None \<Rightarrow> \<forall>k < length arr. cmp (arr ! k) target \<or> cmp target (arr ! k)"
  using assms(2-4)
proof (induction "right - left" arbitrary: left right rule: less_induct)
  case less
  show ?case
  proof (cases "left < right")
    case False
    then have "cmp (arr ! k) target \<or> cmp target (arr ! k)" if "k < length arr" for k
      using that less.prems by (cases "k < left") auto
    with False show ?thesis by (simp add: binarySearch_loop.simps)
  next
    case True
    define mid where "mid = left + (right - left) div 2"
    have mid: "left \<le> mid" "mid < right" using True by (auto simp: mid_def)
    have eq: "binarySearch_loop cmp arr target left right =
       (if cmp (arr ! mid) target then binarySearch_loop cmp arr target (mid + 1) right
        else if cmp target (arr ! mid) then binarySearch_loop cmp arr target left mid else Some mid)"
      using True by (simp add: binarySearch_loop.simps [of cmp arr target left] mid_def [symmetric] Let_def)
    consider "cmp (arr ! mid) target" | "\<not> cmp (arr ! mid) target" "cmp target (arr ! mid)"
      | "\<not> cmp (arr ! mid) target" "\<not> cmp target (arr ! mid)" by blast
    then show ?thesis
    proof cases
      case 1
      have "cmp (arr ! k) target" if "k < mid + 1" for k
        using that 1 sorted_nth [OF assms(1), of k mid] mid less.prems(1) incomparable by (cases "k = mid") auto
      with less.hyps [of right "mid + 1"] less.prems mid 1 show ?thesis by (simp add: eq)
    next
      case 2
      have "cmp target (arr ! k)" if "mid \<le> k" "k < length arr" for k
        using that 2 sorted_nth [OF assms(1), of mid k] incomparable by (cases "k = mid") auto
      with less.hyps [of mid left] less.prems mid 2 show ?thesis by (simp add: eq)
    next
      case 3
      with mid less.prems(1) show ?thesis by (simp add: eq)
    qed
  qed
qed

lemma binarySearch_spec:
  assumes "sorted_by cmp arr"
  shows "case binarySearch cmp arr target of
      Some i \<Rightarrow> i < length arr \<and> \<not> cmp (arr ! i) target \<and> \<not> cmp target (arr ! i)
    | None \<Rightarrow> \<forall>x \<in> set arr. cmp x target \<or> cmp target x"
  using binarySearch_loop_spec [OF assms, of "length arr" 0 target]
  by (auto simp: binarySearch_def in_set_conv_nth split: option.splits)

lemma findMax_spec:
  "findMax cmp arr = Some m \<Longrightarrow> m < length arr \<and> (\<forall>k < length arr. \<not> cmp (arr ! m) (arr ! k)) \<and> (\<forall>k < m. cmp (arr ! k) (arr ! m))"
proof -
  assume m: "findMax cmp arr = Some m"
  let ?f = "\<lambda>m i. if cmp (arr ! m) (arr ! i) then i else m"
  have "0 < n \<Longrightarrow> n \<le> length arr \<Longrightarrow> foldl ?f 0 [1..<n] < n \<and> (\<forall>k < n. \<not> cmp (arr ! foldl ?f 0 [1..<n]) (arr ! k)) \<and>
      (\<forall>k < foldl ?f 0 [1..<n]. cmp (arr ! k) (arr ! foldl ?f 0 [1..<n]))" for n
  proof (induction n)
    case (Suc n)
    show ?case
    proof (cases "n = 0")
      case True
      then show ?thesis by (simp add: cmp_irrefl)
    next
      case False
      define b where "b = foldl ?f 0 [1..<n]"
      have b: "b < n" "\<And>k. k < n \<Longrightarrow> \<not> cmp (arr ! b) (arr ! k)" "\<And>k. k < b \<Longrightarrow> cmp (arr ! k) (arr ! b)"
        using Suc False by (auto simp: b_def)
      have eq: "foldl ?f 0 [1..<Suc n] = ?f b n" using False by (simp add: b_def)
      show ?thesis
      proof (cases "cmp (arr ! b) (arr ! n)")
        case True
        then have "cmp (arr ! k) (arr ! n)" if "k < n" for k using b(2) [OF that] incomparable by blast
        with True show ?thesis unfolding eq using cmp_asym cmp_irrefl by (auto simp: less_Suc_eq)
      next
        case False
        with b show ?thesis unfolding eq by (auto simp: less_Suc_eq)
      qed
    qed
  qed simp
  from this [of "length arr"] m show ?thesis by (auto simp: findMax_def split: if_splits)
qed

end

lemma findMin_findMax: "findMin cmp arr = findMax (\<lambda>x y. cmp y x) arr"
  by (simp add: findMin_def findMax_def)

lemma findAll_filter: "findAll arr pred = filter (\<lambda>i. pred (arr ! i)) [0..<length arr]"
proof -
  have "foldl (\<lambda>result i. if pred (arr ! i) then result @ [i] else result) r is = r @ filter (\<lambda>i. pred (arr ! i)) is" for r "is"
    by (induction "is" arbitrary: r) simp_all
  then show ?thesis by (simp add: findAll_def)
qed

lemma linearSearch_findAll: "linearSearch arr pred = (case findAll arr pred of [] \<Rightarrow> None | i # is \<Rightarrow> Some i)"
proof -
  have "linearSearch_loop pred arr i = (case filter (\<lambda>i. pred (arr ! i)) [i..<length arr] of [] \<Rightarrow> None | i # is \<Rightarrow> Some i)" for i
  proof (induction pred arr i rule: linearSearch_loop.induct)
    case (1 pred arr i)
    then show ?case by (subst linearSearch_loop.simps) (simp add: upt_conv_Cons)
  qed
  then show ?thesis by (simp add: linearSearch_def findAll_filter)
qed

section \<open>Properties\<close>

text \<open>C24: on an array sorted by an admissible comparison, binary search finds an equivalent element
  exactly when there is one, the lower bound is the number of smaller elements and the upper bound the
  number of elements that are not greater; and after any of the sorts of an array, binary search answers
  whether the array has an equivalent element.\<close>

theorem Search_correct:
  assumes "strict_weak_order cmp"
  shows "(sorted_by cmp arr \<longrightarrow>
      (case binarySearch cmp arr target of
         Some i \<Rightarrow> i < length arr \<and> \<not> cmp (arr ! i) target \<and> \<not> cmp target (arr ! i)
       | None \<Rightarrow> \<forall>x \<in> set arr. cmp x target \<or> cmp target x) \<and>
      lowerBound cmp arr target = length (filter (\<lambda>x. cmp x target) arr) \<and>
      upperBound cmp arr target = length (filter (\<lambda>x. \<not> cmp target x) arr)) \<and>
    (result \<in> {quickSort cmp arr, mergeSort dflt cmp arr, insertionSort cmp arr} \<longrightarrow>
      (binarySearch cmp result target \<noteq> None \<longleftrightarrow> (\<exists>x \<in> set arr. \<not> cmp x target \<and> \<not> cmp target x)))"
proof -
  note spec = strict_weak_order.binarySearch_spec [OF assms]
  have s: "sorted_by cmp result" "mset result = mset arr" if "result \<in> {quickSort cmp arr, mergeSort dflt cmp arr, insertionSort cmp arr}"
    using that strict_weak_order.quickSort_sorts [OF assms] strict_weak_order.mergeSort_sorts [OF assms]
      strict_weak_order.insertionSort_sorts [OF assms] by auto
  have "binarySearch cmp result target \<noteq> None \<longleftrightarrow> (\<exists>x \<in> set arr. \<not> cmp x target \<and> \<not> cmp target x)"
    if "result \<in> {quickSort cmp arr, mergeSort dflt cmp arr, insertionSort cmp arr}"
    using spec [OF s(1) [OF that], of target] mset_eq_setD [OF s(2) [OF that]]
    by (auto split: option.splits dest: nth_mem)
  then show ?thesis
    using spec strict_weak_order.lowerBound_count [OF assms] strict_weak_order.upperBound_count [OF assms] by blast
qed

theorem Search_correct_witness:
  "lowerBound std_less [1, 2, 2, 5 :: nat] 2 = 1 \<and> upperBound std_less [1, 2, 2, 5 :: nat] 2 = 3 \<and>
   binarySearch std_less (quickSort std_less [3, 1, 2 :: nat]) 2 \<noteq> None"
proof -
  have "sorted_by std_less [1, 2, 2, 5 :: nat]" by (simp add: sorted_by_def std_less_def)
  then have "lowerBound std_less [1, 2, 2, 5 :: nat] 2 = 1 \<and> upperBound std_less [1, 2, 2, 5 :: nat] 2 = 3"
    using Search_correct [OF std_less.strict_weak_order_axioms, of "[1, 2, 2, 5 :: nat]" 2] by (simp add: std_less_def)
  moreover have "binarySearch std_less (quickSort std_less [3, 1, 2 :: nat]) 2 \<noteq> None"
    using Search_correct [OF std_less.strict_weak_order_axioms, of "[3, 1, 2 :: nat]" 2 "quickSort std_less [3, 1, 2]"]
    by (simp add: std_less_def)
  ultimately show ?thesis by blast
qed

end
