(* ===== verification/BitSet.thy ===== *)
theory BitSet
  imports Prelude
begin

unbundle bit_operations_syntax

text \<open>
  The class \<open>BitSet\<close> of \<^verbatim>\<open>include/darwincore/foundation/container/BitSet.h\<close> and \<^verbatim>\<open>BitSet.cpp\<close>: a set of positions
  below a size, packed into 64-bit words. It is shown to implement a finite set. The compiler's bit counting
  functions are given by what they are documented to return.
\<close>

section \<open>Operations\<close>

record BitSet =
  bs_size :: nat
  bs_bits :: "u64 list"

text \<open>
  \<open>out_of_range\<close> is the exception of \<open>checkBounds\<close>; \<open>bad_access\<close> stands for a position of the vector that
  does not exist, on which the code has no check and no defined behaviour.
\<close>

datatype bitset_error = out_of_range | bad_access

text \<open>\<open>(size + 63) / 64\<close> on \<open>size_t\<close>, where the sum may wrap around.\<close>

definition word_count :: "nat \<Rightarrow> nat" where
  "word_count n = (n + 63) mod 2 ^ 64 div 64"

definition BitSet_ctor :: "nat \<Rightarrow> BitSet" where
  "BitSet_ctor n = \<lparr> bs_size = n, bs_bits = replicate (word_count n) 0 \<rparr>"

definition checkBounds :: "nat \<Rightarrow> BitSet \<Rightarrow> bool" where
  "checkBounds pos b \<longleftrightarrow> pos < bs_size b"

definition clearUnusedBits :: "BitSet \<Rightarrow> BitSet" where
  "clearUnusedBits b =
     (if bs_size b mod 64 \<noteq> 0 \<and> bs_bits b \<noteq> []
      then b\<lparr>bs_bits := (bs_bits b)[length (bs_bits b) - 1 := last (bs_bits b) AND (push_bit (bs_size b mod 64) 1 - 1)]\<rparr>
      else b)"

definition bs_set :: "nat \<Rightarrow> bool \<Rightarrow> BitSet \<Rightarrow> bitset_error + BitSet" where
  "bs_set pos value b =
     (if \<not> checkBounds pos b then Inl out_of_range
      else if length (bs_bits b) \<le> pos div 64 then Inl bad_access
      else let i = pos div 64; w = bs_bits b ! i
      in Inr (b\<lparr>bs_bits := (bs_bits b)[i := if value then w OR push_bit (pos mod 64) 1
                                           else w AND NOT (push_bit (pos mod 64) 1)]\<rparr>))"

definition bs_get :: "nat \<Rightarrow> BitSet \<Rightarrow> bitset_error + bool" where
  "bs_get pos b =
     (if \<not> checkBounds pos b then Inl out_of_range
      else if length (bs_bits b) \<le> pos div 64 then Inl bad_access
      else Inr (drop_bit (pos mod 64) (bs_bits b ! (pos div 64)) AND 1 \<noteq> 0))"

definition bs_flip :: "nat \<Rightarrow> BitSet \<Rightarrow> bitset_error + BitSet" where
  "bs_flip pos b =
     (if \<not> checkBounds pos b then Inl out_of_range
      else if length (bs_bits b) \<le> pos div 64 then Inl bad_access
      else Inr (b\<lparr>bs_bits := (bs_bits b)[pos div 64 := bs_bits b ! (pos div 64) XOR push_bit (pos mod 64) 1]\<rparr>))"

definition bs_flipAll :: "BitSet \<Rightarrow> BitSet" where
  "bs_flipAll b = clearUnusedBits (b\<lparr>bs_bits := map NOT (bs_bits b)\<rparr>)"

definition bs_setAll :: "BitSet \<Rightarrow> BitSet" where
  "bs_setAll b = clearUnusedBits (b\<lparr>bs_bits := map (\<lambda>_. NOT 0) (bs_bits b)\<rparr>)"

definition bs_reset :: "BitSet \<Rightarrow> BitSet" where
  "bs_reset b = b\<lparr>bs_bits := map (\<lambda>_. 0) (bs_bits b)\<rparr>"

definition popcountll :: "u64 \<Rightarrow> nat" where
  "popcountll w = length (filter (bit w) [0..<64])"

definition bs_count :: "BitSet \<Rightarrow> nat" where
  "bs_count b = foldl (\<lambda>total w. total + popcountll w) 0 (bs_bits b)"

definition bs_any :: "BitSet \<Rightarrow> bool" where
  "bs_any b \<longleftrightarrow> list_ex (\<lambda>w. w \<noteq> 0) (bs_bits b)"

definition bs_none :: "BitSet \<Rightarrow> bool" where
  "bs_none b \<longleftrightarrow> \<not> bs_any b"

definition bs_all :: "BitSet \<Rightarrow> bool" where
  "bs_all b \<longleftrightarrow> bs_count b = bs_size b"

definition bs_resize :: "nat \<Rightarrow> BitSet \<Rightarrow> BitSet" where
  "bs_resize n b =
     (let k = word_count n
      in clearUnusedBits (b\<lparr>bs_bits := take k (bs_bits b) @ replicate (k - length (bs_bits b)) 0, bs_size := n\<rparr>))"

definition word_at :: "BitSet \<Rightarrow> nat \<Rightarrow> u64" where
  "word_at b i = (if i < length (bs_bits b) then bs_bits b ! i else 0)"

definition bs_and :: "BitSet \<Rightarrow> BitSet \<Rightarrow> BitSet" where
  "bs_and a b =
     (let r = BitSet_ctor (max (bs_size a) (bs_size b)); minWords = min (length (bs_bits a)) (length (bs_bits b))
      in r\<lparr>bs_bits := foldl (\<lambda>ws i. ws[i := bs_bits a ! i AND bs_bits b ! i]) (bs_bits r) [0..<minWords]\<rparr>)"

definition bs_or :: "BitSet \<Rightarrow> BitSet \<Rightarrow> BitSet" where
  "bs_or a b =
     (let r = BitSet_ctor (max (bs_size a) (bs_size b))
      in r\<lparr>bs_bits := map (\<lambda>i. word_at a i OR word_at b i) [0..<length (bs_bits r)]\<rparr>)"

definition bs_xor :: "BitSet \<Rightarrow> BitSet \<Rightarrow> BitSet" where
  "bs_xor a b =
     (let r = BitSet_ctor (max (bs_size a) (bs_size b))
      in r\<lparr>bs_bits := map (\<lambda>i. word_at a i XOR word_at b i) [0..<length (bs_bits r)]\<rparr>)"

text \<open>The loop of \<open>toString\<close> from position i, with the text built so far.\<close>

function toString_loop :: "BitSet \<Rightarrow> nat \<Rightarrow> string \<Rightarrow> bitset_error + string" where
  "toString_loop b i s =
     (if i < bs_size b
      then case bs_get i b of
             Inl e \<Rightarrow> Inl e
           | Inr v \<Rightarrow> toString_loop b (i + 1) (if v then s[bs_size b - 1 - i := CHR ''1''] else s)
      else Inr s)"
  by pat_completeness auto
termination by (relation "measure (\<lambda>(b, i, s). bs_size b - i)") auto

definition bs_toString :: "BitSet \<Rightarrow> bitset_error + string" where
  "bs_toString b = toString_loop b 0 (replicate (bs_size b) CHR ''0'')"

declare toString_loop.simps [simp del]

text \<open>The position of the lowest bit, for a word that is not 0.\<close>

definition ctzll :: "u64 \<Rightarrow> nat" where
  "ctzll w = hd (filter (bit w) [0..<64])"

fun findFirst_loop :: "nat \<Rightarrow> nat \<Rightarrow> u64 list \<Rightarrow> nat" where
  "findFirst_loop n i [] = n"
| "findFirst_loop n i (w # ws) =
     (if w \<noteq> 0 then let pos = i * 64 + ctzll w in if pos < n then pos else n else findFirst_loop n (i + 1) ws)"

definition bs_findFirst :: "BitSet \<Rightarrow> nat" where
  "bs_findFirst b = findFirst_loop (bs_size b) 0 (bs_bits b)"

section \<open>The set of a bit set\<close>

fun members :: "u64 list \<Rightarrow> nat set" where
  "members ws = {i. i div 64 < length ws \<and> bit (ws ! (i div 64)) (i mod 64)}"

declare members.simps [simp del]

definition bs_abs :: "BitSet \<Rightarrow> nat \<times> nat set" where
  "bs_abs b = (bs_size b, members (bs_bits b))"

definition bs_invar :: "BitSet \<Rightarrow> bool" where
  "bs_invar b \<longleftrightarrow> bs_size b + 63 < 2 ^ 64 \<and> length (bs_bits b) = (bs_size b + 63) div 64 \<and> members (bs_bits b) \<subseteq> {..<bs_size b}"

lemma mem_iff: "i \<in> members ws \<longleftrightarrow> i div 64 < length ws \<and> bit (ws ! (i div 64)) (i mod 64)"
  by (simp add: members.simps)

lemma div_mod_64: "(i :: nat) div 64 = j div 64 \<Longrightarrow> i mod 64 = j mod 64 \<Longrightarrow> i = j"
  by (metis div_mult_mod_eq)

lemma members_update:
  assumes "k < length ws"
  shows "members (ws[k := w]) = {i. i \<in> members ws \<and> i div 64 \<noteq> k \<or> i div 64 = k \<and> bit w (i mod 64)}"
  using assms by (auto simp: mem_iff nth_list_update split: if_splits)

lemma in_range: "(pos :: nat) < n \<Longrightarrow> pos div 64 < (n + 63) div 64"
  by linarith

lemma bit_single: "bit ((2 :: u64) ^ (p mod 64)) i \<longleftrightarrow> i = p mod 64"
  by (auto simp: bit_exp_iff possible_bit_def)

lemma members_set:
  assumes "pos < bs_size b" and "bs_invar b"
  shows "members ((bs_bits b)[pos div 64 := bs_bits b ! (pos div 64) OR push_bit (pos mod 64) 1]) = insert pos (members (bs_bits b))"
    "members ((bs_bits b)[pos div 64 := bs_bits b ! (pos div 64) AND NOT (push_bit (pos mod 64) 1)]) = members (bs_bits b) - {pos}"
    "members ((bs_bits b)[pos div 64 := bs_bits b ! (pos div 64) XOR push_bit (pos mod 64) 1]) =
       (if pos \<in> members (bs_bits b) then members (bs_bits b) - {pos} else insert pos (members (bs_bits b)))"
proof -
  have k: "pos div 64 < length (bs_bits b)" using assms in_range by (simp add: bs_invar_def)
  show "members ((bs_bits b)[pos div 64 := bs_bits b ! (pos div 64) OR push_bit (pos mod 64) 1]) = insert pos (members (bs_bits b))"
    using k by (auto simp: members_update mem_iff bit_or_iff bit_single dest: div_mod_64)
  show "members ((bs_bits b)[pos div 64 := bs_bits b ! (pos div 64) AND NOT (push_bit (pos mod 64) 1)]) = members (bs_bits b) - {pos}"
    using k by (auto simp: members_update mem_iff bit_and_iff bit_not_iff bit_single dest: div_mod_64)
  show "members ((bs_bits b)[pos div 64 := bs_bits b ! (pos div 64) XOR push_bit (pos mod 64) 1]) =
       (if pos \<in> members (bs_bits b) then members (bs_bits b) - {pos} else insert pos (members (bs_bits b)))"
    using k by (auto simp: members_update mem_iff bit_xor_iff bit_single dest: div_mod_64)
qed

lemma last_bits:
  assumes "length ws = (n + 63) div 64" and "0 < n"
  shows "ws \<noteq> []" "length ws - 1 = (n - 1) div 64"
proof -
  have "length ws = (n - 1) div 64 + 1" using assms by linarith
  then show "ws \<noteq> []" "length ws - 1 = (n - 1) div 64" by auto
qed

text \<open>Clearing the unused bits keeps the positions below the size and drops the others.\<close>

lemma clearUnusedBits_spec:
  assumes "length (bs_bits b) = (bs_size b + 63) div 64"
  shows "bs_size (clearUnusedBits b) = bs_size b" "members (bs_bits (clearUnusedBits b)) = members (bs_bits b) \<inter> {..<bs_size b}"
    "length (bs_bits (clearUnusedBits b)) = (bs_size b + 63) div 64"
proof -
  let ?n = "bs_size b" and ?ws = "bs_bits b"
  show "bs_size (clearUnusedBits b) = ?n" "length (bs_bits (clearUnusedBits b)) = (?n + 63) div 64"
    using assms by (simp_all add: clearUnusedBits_def)
  show "members (bs_bits (clearUnusedBits b)) = members ?ws \<inter> {..<?n}"
  proof (cases "?n mod 64 \<noteq> 0 \<and> ?ws \<noteq> []")
    case True
    then have n: "0 < ?n" by (cases "?n = 0") auto
    let ?k = "length ?ws - 1"
    have k: "?k < length ?ws" "last ?ws = ?ws ! ?k" using True by (simp_all add: last_conv_nth)
    have "(?n - 1) div 64 = ?n div 64" using True n by (metis One_nat_def Suc_pred div_Suc)
    then have kn: "?k = ?n div 64" using last_bits [OF assms n] by simp
    have "push_bit (?n mod 64) (1 :: u64) - 1 = mask (?n mod 64)" by (simp add: mask_eq_exp_minus_1)
    then have m: "bit (last ?ws AND (push_bit (?n mod 64) 1 - 1)) j \<longleftrightarrow> bit (?ws ! ?k) j \<and> j < ?n mod 64" for j
      using k(2) by (auto simp: bit_and_iff bit_mask_iff possible_bit_def dest: bit_imp_le_length)
    have "i < ?n \<longleftrightarrow> i mod 64 < ?n mod 64" if "i div 64 = ?k" for i
      using that kn div_mult_mod_eq [of i 64] div_mult_mod_eq [of ?n 64] by (metis nat_add_left_cancel_less)
    moreover have "i < ?n" if "i div 64 \<noteq> ?k" "i div 64 < length ?ws" for i
    proof -
      have "i div 64 < ?n div 64" using that k(1) kn by linarith
      then show ?thesis by (metis div_le_mono leD leI)
    qed
    ultimately have "i \<in> members (bs_bits (clearUnusedBits b)) \<longleftrightarrow> i \<in> members ?ws \<and> i < ?n" for i
      using True k(1) m by (auto simp: clearUnusedBits_def members_update) (auto simp: mem_iff)
    then show ?thesis by auto
  next
    case False
    have "i < ?n" if "i div 64 < (?n + 63) div 64" "?n mod 64 = 0" for i
    proof -
      from that(2) obtain q where q: "?n = 64 * q" by (auto simp: mod_eq_0_iff_dvd)
      have "(?n + 63) div 64 = q" unfolding q by simp
      with that(1) have "i div 64 < q" by simp
      then show ?thesis unfolding q by (metis div_less_iff_less_mult mult.commute zero_less_numeral)
    qed
    with False have "members ?ws \<subseteq> {..<?n}" using assms by (auto simp: mem_iff)
    with False show ?thesis by (auto simp: clearUnusedBits_def)
  qed
qed

lemma clearUnusedBits_invar:
  assumes "bs_size b + 63 < 2 ^ 64" and "length (bs_bits b) = (bs_size b + 63) div 64"
  shows "bs_invar (clearUnusedBits b)" "bs_abs (clearUnusedBits b) = (bs_size b, members (bs_bits b) \<inter> {..<bs_size b})"
  using clearUnusedBits_spec [OF assms(2)] assms(1) by (simp_all add: bs_invar_def bs_abs_def)

lemma members_map: "members (map f ws) = {i. i div 64 < length ws \<and> bit (f (ws ! (i div 64))) (i mod 64)}"
  by (auto simp: mem_iff)

lemma members_Nil [simp]: "members [] = {}"
  by (auto simp: mem_iff)

lemma members_Cons: "members (w # ws) = {i. i < 64 \<and> bit w i} \<union> (\<lambda>i. i + 64) ` members ws"
proof (intro set_eqI iffI)
  fix i assume i: "i \<in> members (w # ws)"
  show "i \<in> {i. i < 64 \<and> bit w i} \<union> (\<lambda>i. i + 64) ` members ws"
  proof (cases "i < 64")
    case True
    with i show ?thesis by (simp add: mem_iff)
  next
    case False
    then have "i = (i - 64) + 64" "i div 64 = Suc ((i - 64) div 64)" "i mod 64 = (i - 64) mod 64"
      by (simp_all add: le_div_geq le_mod_geq)
    with i have "i - 64 \<in> members ws" by (simp add: mem_iff)
    with \<open>i = (i - 64) + 64\<close> show ?thesis by blast
  qed
next
  fix i assume "i \<in> {i. i < 64 \<and> bit w i} \<union> (\<lambda>i. i + 64) ` members ws"
  moreover have "(j + 64) div 64 = Suc (j div 64)" for j :: nat by simp
  ultimately show "i \<in> members (w # ws)" by (auto simp: mem_iff simp del: div_add_self2)
qed

lemma finite_members [simp]: "finite (members ws)"
  by (induction ws) (simp_all add: members_Cons)

lemma card_members: "card (members ws) = sum_list (map popcountll ws)"
proof (induction ws)
  case (Cons w ws)
  have "card {i. i < 64 \<and> bit w i} = popcountll w"
    unfolding popcountll_def by (subst distinct_card [symmetric]) (auto intro: arg_cong [where f = card])
  moreover have "card ((\<lambda>i. i + 64) ` members ws) = card (members ws)" by (rule card_image) (simp add: inj_on_def)
  moreover have "{i. i < 64 \<and> bit w i} \<inter> (\<lambda>i. i + 64) ` members ws = {}" by auto
  ultimately show ?case using Cons by (simp add: members_Cons card_Un_disjoint)
qed simp

lemma bs_count_card: "bs_count b = card (members (bs_bits b))"
proof -
  have "foldl (\<lambda>total w. total + popcountll w) n ws = n + sum_list (map popcountll ws)" for n ws
    by (induction ws arbitrary: n) simp_all
  then show ?thesis by (simp add: bs_count_def card_members)
qed

lemma word_nonzero: "(w :: u64) \<noteq> 0 \<longleftrightarrow> (\<exists>i < 64. bit w i)"
  by (auto simp: bit_eq_iff dest: bit_imp_le_length)

lemma bs_any_members: "list_ex (\<lambda>w. w \<noteq> 0) ws \<longleftrightarrow> members ws \<noteq> {}"
  by (induction ws) (auto simp: members_Cons word_nonzero)

lemma ctzll_least: "w \<noteq> 0 \<Longrightarrow> ctzll w < 64 \<and> bit w (ctzll w) \<and> (\<forall>i < ctzll w. \<not> bit w i)"
proof -
  assume "w \<noteq> 0"
  then obtain j where j: "j < 64" "bit w j" using word_nonzero by blast
  then have "filter (bit w) [0..<64] \<noteq> []" by (auto simp: filter_empty_conv)
  then obtain x xs where f: "filter (bit w) [0..<64] = x # xs" by (cases "filter (bit w) [0..<64]") auto
  have "x \<in> set (filter (bit w) [0..<64])" by (simp add: f)
  then have "x < 64" "bit w x" by auto
  moreover have "\<not> bit w i" if "i < x" for i
  proof
    assume "bit w i"
    then have "i \<in> set (x # xs)" using that calculation(1) unfolding f [symmetric] by simp
    moreover have "sorted (x # xs)" unfolding f [symmetric] by (simp add: sorted_wrt_filter)
    ultimately show False using that by auto
  qed
  ultimately show ?thesis by (simp add: ctzll_def f)
qed

lemma findFirst_loop_spec:
  "findFirst_loop n i ws = (if members ws = {} then n else min n (i * 64 + Min (members ws)))"
proof (induction ws arbitrary: i)
  case (Cons w ws)
  show ?case
  proof (cases "w = 0")
    case True
    then have m: "members (w # ws) = (\<lambda>i. i + 64) ` members ws" by (simp add: members_Cons)
    show ?thesis
    proof (cases "members ws = {}")
      case False
      then have "Min (members (w # ws)) = Min (members ws) + 64"
        unfolding m by (subst mono_Min_commute [of "\<lambda>i. i + 64", symmetric]) (auto simp: mono_def)
      with Cons True False m show ?thesis by simp
    qed (use Cons True m in simp)
  next
    case False
    have "ctzll w \<in> members (w # ws)" using ctzll_least [OF False] by (simp add: members_Cons)
    moreover have "ctzll w \<le> i" if "i \<in> members (w # ws)" for i
      using that ctzll_least [OF False] by (fastforce simp: members_Cons not_less [symmetric])
    ultimately have "Min (members (w # ws)) = ctzll w" "members (w # ws) \<noteq> {}" by (auto intro: Min_eqI)
    with False show ?thesis by (simp add: Let_def min_def)
  qed
qed simp

section \<open>A finite set as specification\<close>

datatype bitset_op = SetBit nat bool | GetBit nat | FlipBit nat | FlipAll | SetAll | ResetAll | CountBits | AnyBit | NoneBit
  | AllBits | ResizeTo nat | AndWith BitSet | OrWith BitSet | XorWith BitSet | ToString | FindFirst

datatype bitset_out = Done | Bool bool | Number nat | Text string | Error bitset_error

definition checked :: "(bitset_error + 'r) \<Rightarrow> ('r \<Rightarrow> bitset_out \<times> BitSet) \<Rightarrow> BitSet \<Rightarrow> (bitset_out \<times> BitSet) option" where
  "checked r k b = (case r of Inl out_of_range \<Rightarrow> Some (Error out_of_range, b) | Inl bad_access \<Rightarrow> None | Inr x \<Rightarrow> Some (k x))"

fun bs_exec :: "bitset_op \<Rightarrow> BitSet \<Rightarrow> (bitset_out \<times> BitSet) option" where
  "bs_exec (SetBit pos v) b = checked (bs_set pos v b) (\<lambda>b1. (Done, b1)) b"
| "bs_exec (GetBit pos) b = checked (bs_get pos b) (\<lambda>v. (Bool v, b)) b"
| "bs_exec (FlipBit pos) b = checked (bs_flip pos b) (\<lambda>b1. (Done, b1)) b"
| "bs_exec FlipAll b = Some (Done, bs_flipAll b)"
| "bs_exec SetAll b = Some (Done, bs_setAll b)"
| "bs_exec ResetAll b = Some (Done, bs_reset b)"
| "bs_exec CountBits b = Some (Number (bs_count b), b)"
| "bs_exec AnyBit b = Some (Bool (bs_any b), b)"
| "bs_exec NoneBit b = Some (Bool (bs_none b), b)"
| "bs_exec AllBits b = Some (Bool (bs_all b), b)"
| "bs_exec (ResizeTo n) b = Some (Done, bs_resize n b)"
| "bs_exec (AndWith c) b = Some (Done, bs_and b c)"
| "bs_exec (OrWith c) b = Some (Done, bs_or b c)"
| "bs_exec (XorWith c) b = Some (Done, bs_xor b c)"
| "bs_exec ToString b = checked (bs_toString b) (\<lambda>s. (Text s, b)) b"
| "bs_exec FindFirst b = Some (Number (bs_findFirst b), b)"

text \<open>A set S of numbers below n, and what each operation answers and does to it.\<close>

fun set_spec :: "bitset_op \<Rightarrow> nat \<times> nat set \<Rightarrow> bitset_out \<times> nat \<times> nat set" where
  "set_spec (SetBit pos v) (n, S) =
     (if n \<le> pos then (Error out_of_range, n, S) else (Done, n, if v then insert pos S else S - {pos}))"
| "set_spec (GetBit pos) (n, S) = (if n \<le> pos then (Error out_of_range, n, S) else (Bool (pos \<in> S), n, S))"
| "set_spec (FlipBit pos) (n, S) =
     (if n \<le> pos then (Error out_of_range, n, S) else (Done, n, if pos \<in> S then S - {pos} else insert pos S))"
| "set_spec FlipAll (n, S) = (Done, n, {..<n} - S)"
| "set_spec SetAll (n, S) = (Done, n, {..<n})"
| "set_spec ResetAll (n, S) = (Done, n, {})"
| "set_spec CountBits (n, S) = (Number (card S), n, S)"
| "set_spec AnyBit (n, S) = (Bool (S \<noteq> {}), n, S)"
| "set_spec NoneBit (n, S) = (Bool (S = {}), n, S)"
| "set_spec AllBits (n, S) = (Bool (S = {..<n}), n, S)"
| "set_spec (ResizeTo m) (n, S) = (Done, m, S \<inter> {..<m})"
| "set_spec (AndWith c) (n, S) = (Done, max n (bs_size c), S \<inter> members (bs_bits c))"
| "set_spec (OrWith c) (n, S) = (Done, max n (bs_size c), S \<union> members (bs_bits c))"
| "set_spec (XorWith c) (n, S) = (Done, max n (bs_size c), (S - members (bs_bits c)) \<union> (members (bs_bits c) - S))"
| "set_spec ToString (n, S) = (Text (map (\<lambda>i. if n - 1 - i \<in> S then CHR ''1'' else CHR ''0'') [0..<n]), n, S)"
| "set_spec FindFirst (n, S) = (Number (if S = {} then n else Min S), n, S)"

text \<open>The sizes for which the number of words does not wrap around.\<close>

fun bs_op_ok :: "bitset_op \<Rightarrow> bool" where
  "bs_op_ok (ResizeTo n) \<longleftrightarrow> n + 63 < 2 ^ 64"
| "bs_op_ok (AndWith c) \<longleftrightarrow> bs_invar c"
| "bs_op_ok (OrWith c) \<longleftrightarrow> bs_invar c"
| "bs_op_ok (XorWith c) \<longleftrightarrow> bs_invar c"
| "bs_op_ok _ \<longleftrightarrow> True"

lemma bs_invarD:
  assumes "bs_invar b"
  shows "bs_size b + 63 < 2 ^ 64" "length (bs_bits b) = (bs_size b + 63) div 64" "i \<in> members (bs_bits b) \<Longrightarrow> i < bs_size b"
    "pos < bs_size b \<Longrightarrow> \<not> length (bs_bits b) \<le> pos div 64"
  using assms in_range [of pos "bs_size b"] by (auto simp: bs_invar_def)

lemma word_count_small: "n + 63 < 2 ^ 64 \<Longrightarrow> word_count n = (n + 63) div 64"
  by (simp add: word_count_def)

lemma drop_and_one: "drop_bit k (w :: u64) AND 1 \<noteq> 0 \<longleftrightarrow> bit w k"
  by (simp add: and_one_eq bit_iff_odd_drop_bit odd_iff_mod_2_eq_one)

lemma bs_get_spec: "bs_invar b \<Longrightarrow> pos < bs_size b \<Longrightarrow> bs_get pos b = Inr (pos \<in> members (bs_bits b))"
  using bs_invarD(4) [of b pos] unfolding bs_get_def checkBounds_def drop_and_one by (simp add: mem_iff)

lemma bs_set_spec: "bs_invar b \<Longrightarrow> pos < bs_size b \<Longrightarrow> \<exists>b1. bs_set pos v b = Inr b1 \<and> bs_invar b1 \<and>
  bs_abs b1 = (bs_size b, if v then insert pos (members (bs_bits b)) else members (bs_bits b) - {pos})"
  using bs_invarD [of b] members_set [of pos b]
  by (auto simp: bs_set_def checkBounds_def Let_def bs_invar_def bs_abs_def)

lemma bs_flip_spec: "bs_invar b \<Longrightarrow> pos < bs_size b \<Longrightarrow> \<exists>b1. bs_flip pos b = Inr b1 \<and> bs_invar b1 \<and>
  bs_abs b1 = (bs_size b, if pos \<in> members (bs_bits b) then members (bs_bits b) - {pos} else insert pos (members (bs_bits b)))"
  using bs_invarD [of b] members_set(3) [of pos b]
  by (auto simp: bs_flip_def checkBounds_def Let_def bs_invar_def bs_abs_def)

lemma below_words: "(i :: nat) < n \<Longrightarrow> i div 64 < (n + 63) div 64"
  by (rule in_range)

lemma bs_fill_spec:
  assumes "bs_invar b"
  shows "bs_invar (bs_flipAll b)" "bs_abs (bs_flipAll b) = (bs_size b, {..<bs_size b} - members (bs_bits b))"
    "bs_invar (bs_setAll b)" "bs_abs (bs_setAll b) = (bs_size b, {..<bs_size b})"
proof -
  note i = bs_invarD [OF assms]
  let ?f = "b\<lparr>bs_bits := map NOT (bs_bits b)\<rparr>" and ?s = "b\<lparr>bs_bits := map (\<lambda>_. NOT 0) (bs_bits b)\<rparr>"
  have b64: "bit (NOT w) (j mod 64) \<longleftrightarrow> \<not> bit w (j mod 64)" for w :: u64 and j
    by (simp add: bit_not_iff possible_bit_def)
  have f: "members (bs_bits ?f) \<inter> {..<bs_size b} = {..<bs_size b} - members (bs_bits b)"
    unfolding members_map by (auto simp: b64 mem_iff i(2) dest: below_words)
  have s: "members (bs_bits ?s) \<inter> {..<bs_size b} = {..<bs_size b}"
    by (auto simp: members_map i(2) bit_minus_1_iff possible_bit_def dest: below_words)
  show "bs_invar (bs_flipAll b)" "bs_abs (bs_flipAll b) = (bs_size b, {..<bs_size b} - members (bs_bits b))"
    using clearUnusedBits_invar [of ?f] i(1,2) f by (simp_all add: bs_flipAll_def)
  show "bs_invar (bs_setAll b)" "bs_abs (bs_setAll b) = (bs_size b, {..<bs_size b})"
    using clearUnusedBits_invar [of ?s] i(1,2) s by (simp_all add: bs_setAll_def)
qed

lemma bs_reset_spec: "bs_invar b \<Longrightarrow> bs_invar (bs_reset b) \<and> bs_abs (bs_reset b) = (bs_size b, {})"
  by (auto simp: bs_reset_def bs_invar_def bs_abs_def members_map)

text \<open>Growing appends words of zeros, shrinking drops the last words.\<close>

lemma members_resized:
  "members (take k ws @ replicate (k - length ws) 0) = {i. i \<in> members ws \<and> i div 64 < k}"
  by (auto simp: mem_iff nth_append split: if_splits)

lemma bs_resize_spec:
  assumes "bs_invar b" and "n + 63 < 2 ^ 64"
  shows "bs_invar (bs_resize n b)" "bs_abs (bs_resize n b) = (n, members (bs_bits b) \<inter> {..<n})"
proof -
  let ?k = "(n + 63) div 64"
  let ?b = "b\<lparr>bs_bits := take ?k (bs_bits b) @ replicate (?k - length (bs_bits b)) 0, bs_size := n\<rparr>"
  have r: "bs_resize n b = clearUnusedBits ?b" by (simp only: bs_resize_def word_count_small [OF assms(2)] Let_def)
  have l: "length (bs_bits ?b) = (bs_size ?b + 63) div 64" by simp
  have "members (bs_bits ?b) \<inter> {..<n} = members (bs_bits b) \<inter> {..<n}"
    by (auto simp: members_resized dest: below_words)
  then show "bs_invar (bs_resize n b)" "bs_abs (bs_resize n b) = (n, members (bs_bits b) \<inter> {..<n})"
    using clearUnusedBits_invar [OF _ l] assms(2) by (simp_all add: r)
qed

section \<open>The operators\<close>

lemma word_at_members: "bit (word_at b (i div 64)) (i mod 64) \<longleftrightarrow> i \<in> members (bs_bits b)"
  by (simp add: word_at_def mem_iff)

text \<open>A result of the larger size whose words combine those of the operands, missing words counting as 0.\<close>

lemma combined:
  assumes "bs_invar a" and "bs_invar b"
    and "c = (BitSet_ctor (max (bs_size a) (bs_size b)))
      \<lparr>bs_bits := map (\<lambda>i. f (word_at a i) (word_at b i)) [0..<(max (bs_size a) (bs_size b) + 63) div 64]\<rparr>"
    and "\<And>u v i. i < 64 \<Longrightarrow> bit (f u v) i \<longleftrightarrow> P (bit u i) (bit v i)" and "\<not> P False False"
  shows "bs_invar c" "bs_abs c = (max (bs_size a) (bs_size b), {i. P (i \<in> members (bs_bits a)) (i \<in> members (bs_bits b))})"
proof -
  let ?n = "max (bs_size a) (bs_size b)"
  note ia = bs_invarD [OF assms(1)] and ib = bs_invarD [OF assms(2)]
  have small: "i < ?n" if "P (i \<in> members (bs_bits a)) (i \<in> members (bs_bits b))" for i
    using that assms(5) ia(3) [of i] ib(3) [of i] by (cases "i \<in> members (bs_bits a)"; cases "i \<in> members (bs_bits b)") auto
  have c: "bs_size c = ?n" "length (bs_bits c) = (?n + 63) div 64" by (simp_all add: assms(3) BitSet_ctor_def)
  have "i \<in> members (bs_bits c) \<longleftrightarrow> i div 64 < (?n + 63) div 64 \<and> P (i \<in> members (bs_bits a)) (i \<in> members (bs_bits b))" for i
    by (auto simp: assms(3,4) members_map word_at_members)
  then have m: "members (bs_bits c) = {i. P (i \<in> members (bs_bits a)) (i \<in> members (bs_bits b))}"
    using small below_words by blast
  have "?n + 63 < 2 ^ 64" using ia(1) ib(1) by (simp add: max_def)
  with m small c show "bs_invar c" "bs_abs c = (?n, {i. P (i \<in> members (bs_bits a)) (i \<in> members (bs_bits b))})"
    by (auto simp: bs_invar_def bs_abs_def)
qed

lemma max_words: "bs_invar a \<Longrightarrow> bs_invar b \<Longrightarrow> word_count (max (bs_size a) (bs_size b)) = (max (bs_size a) (bs_size b) + 63) div 64"
  by (rule word_count_small) (auto simp: bs_invar_def max_def)

lemma bs_or_xor_spec:
  assumes "bs_invar a" and "bs_invar b"
  shows "bs_invar (bs_or a b)"
    "bs_abs (bs_or a b) = (max (bs_size a) (bs_size b), members (bs_bits a) \<union> members (bs_bits b))"
    "bs_invar (bs_xor a b)"
    "bs_abs (bs_xor a b) = (max (bs_size a) (bs_size b),
       (members (bs_bits a) - members (bs_bits b)) \<union> (members (bs_bits b) - members (bs_bits a)))"
  using combined [OF assms, of "bs_or a b" "(OR)" "(\<or>)"] combined [OF assms, of "bs_xor a b" "(XOR)" "(\<noteq>)"] max_words [OF assms]
  by (auto simp: bs_or_def bs_xor_def BitSet_ctor_def bit_or_iff bit_xor_iff)

text \<open>The loop of \<open>operator&\<close> writes the words both operands have; the others are the zeros of the new bit set.\<close>

lemma foldl_updates:
  "k \<le> length ws \<Longrightarrow> foldl (\<lambda>ws i. ws[i := g i]) ws [0..<k] = map g [0..<k] @ drop k ws"
proof (induction k)
  case (Suc k)
  then show ?case by (simp add: Cons_nth_drop_Suc [symmetric] list_update_append)
qed simp

lemma bs_and_words:
  assumes "bs_invar a" and "bs_invar b"
  defines "n \<equiv> (max (bs_size a) (bs_size b) + 63) div 64"
  shows "bs_bits (bs_and a b) = map (\<lambda>i. word_at a i AND word_at b i) [0..<n]"
proof -
  let ?k = "min (length (bs_bits a)) (length (bs_bits b))"
  have k: "?k \<le> n" using bs_invarD(2) [OF assms(1)] bs_invarD(2) [OF assms(2)] unfolding n_def
    by (auto simp: min_def max_def intro: div_le_mono)
  have "bs_bits (bs_and a b) = map (\<lambda>i. bs_bits a ! i AND bs_bits b ! i) [0..<?k] @ drop ?k (replicate n 0)"
    unfolding bs_and_def Let_def using k
    by (simp add: BitSet_ctor_def max_words [OF assms(1,2)] n_def [symmetric] foldl_updates)
  also have "\<dots> = map (\<lambda>i. word_at a i AND word_at b i) [0..<n]"
    by (rule nth_equalityI) (use k in \<open>auto simp: nth_append word_at_def\<close>)
  finally show ?thesis .
qed

lemma bs_and_spec:
  assumes "bs_invar a" and "bs_invar b"
  shows "bs_invar (bs_and a b)"
    "bs_abs (bs_and a b) = (max (bs_size a) (bs_size b), members (bs_bits a) \<inter> members (bs_bits b))"
proof -
  have "bs_and a b = (BitSet_ctor (max (bs_size a) (bs_size b)))
      \<lparr>bs_bits := map (\<lambda>i. word_at a i AND word_at b i) [0..<(max (bs_size a) (bs_size b) + 63) div 64]\<rparr>"
    using bs_and_words [OF assms] by (simp add: bs_and_def Let_def)
  from combined [OF assms this, of "(\<and>)"] show "bs_invar (bs_and a b)"
    "bs_abs (bs_and a b) = (max (bs_size a) (bs_size b), members (bs_bits a) \<inter> members (bs_bits b))"
    by (auto simp: bit_and_iff)
qed

section \<open>Printing\<close>

lemma toString_loop_spec:
  assumes "bs_invar b"
  shows "length s = bs_size b \<Longrightarrow> i \<le> bs_size b \<Longrightarrow>
    toString_loop b i s = Inr (map (\<lambda>j. if i \<le> bs_size b - 1 - j
       then (if bs_size b - 1 - j \<in> members (bs_bits b) then CHR ''1'' else s ! j) else s ! j) [0..<bs_size b])"
proof (induction "bs_size b - i" arbitrary: i s)
  case 0
  then have "toString_loop b i s = Inr s" by (subst toString_loop.simps) simp
  with 0 show ?case by (auto intro!: nth_equalityI)
next
  case (Suc d)
  let ?n = "bs_size b"
  define s1 where "s1 = (if i \<in> members (bs_bits b) then s[?n - 1 - i := CHR ''1''] else s)"
  have i: "i < ?n" using Suc.hyps(2) by simp
  have "toString_loop b i s = toString_loop b (i + 1) s1"
    using i bs_get_spec [OF assms i] by (subst toString_loop.simps) (simp add: s1_def)
  also have "\<dots> = Inr (map (\<lambda>j. if i + 1 \<le> ?n - 1 - j
       then (if ?n - 1 - j \<in> members (bs_bits b) then CHR ''1'' else s1 ! j) else s1 ! j) [0..<?n])"
    using Suc.hyps(2) Suc.prems i by (intro Suc.hyps(1)) (auto simp: s1_def)
  also have "\<dots> = Inr (map (\<lambda>j. if i \<le> ?n - 1 - j
       then (if ?n - 1 - j \<in> members (bs_bits b) then CHR ''1'' else s ! j) else s ! j) [0..<?n])"
  proof -
    have "(if i + 1 \<le> ?n - 1 - j then (if ?n - 1 - j \<in> members (bs_bits b) then CHR ''1'' else s1 ! j) else s1 ! j) =
          (if i \<le> ?n - 1 - j then (if ?n - 1 - j \<in> members (bs_bits b) then CHR ''1'' else s ! j) else s ! j)"
      if "j < ?n" for j
      using that i Suc.prems(1) by (cases "i = ?n - 1 - j") (auto simp: s1_def nth_list_update)
    then show ?thesis by simp
  qed
  finally show ?case .
qed

lemma bs_toString_spec:
  assumes "bs_invar b"
  shows "bs_toString b = Inr (map (\<lambda>i. if bs_size b - 1 - i \<in> members (bs_bits b) then CHR ''1'' else CHR ''0'') [0..<bs_size b])"
  using toString_loop_spec [OF assms, of "replicate (bs_size b) CHR ''0''" 0] by (simp add: bs_toString_def)

lemma bs_findFirst_spec:
  assumes "bs_invar b"
  shows "bs_findFirst b = (if members (bs_bits b) = {} then bs_size b else Min (members (bs_bits b)))"
proof (cases "members (bs_bits b) = {}")
  case False
  then have "Min (members (bs_bits b)) < bs_size b" using bs_invarD(3) [OF assms] by simp
  with False show ?thesis by (simp add: bs_findFirst_def findFirst_loop_spec)
qed (simp add: bs_findFirst_def findFirst_loop_spec)

lemma bs_all_spec:
  assumes "bs_invar b"
  shows "bs_all b \<longleftrightarrow> members (bs_bits b) = {..<bs_size b}"
proof -
  have sub: "members (bs_bits b) \<subseteq> {..<bs_size b}" using assms by (simp add: bs_invar_def)
  have "bs_all b \<longleftrightarrow> card (members (bs_bits b)) = card {..<bs_size b}" by (simp add: bs_all_def bs_count_card)
  also have "\<dots> \<longleftrightarrow> members (bs_bits b) = {..<bs_size b}" using card_subset_eq [OF _ sub] by fastforce
  finally show ?thesis .
qed

section \<open>Every history of operations\<close>

interpretation bitset: guarded_refinement bs_invar bs_abs bs_op_ok bs_exec set_spec
proof
  fix op and b :: BitSet
  assume ok: "bs_op_ok op" and i: "bs_invar b"
  have abs: "bs_abs b = (bs_size b, members (bs_bits b))" by (simp add: bs_abs_def)
  show "\<exists>b'. bs_exec op b = Some (fst (set_spec op (bs_abs b)), b') \<and> bs_invar b' \<and>
    bs_abs b' = snd (set_spec op (bs_abs b))"
  proof (cases op)
    case (SetBit pos v)
    show ?thesis
    proof (cases "pos < bs_size b")
      case True
      with SetBit bs_set_spec [OF i True, of v] abs show ?thesis by (auto simp: checked_def)
    qed (use SetBit i abs in \<open>simp add: checked_def bs_set_def checkBounds_def\<close>)
  next
    case (GetBit pos)
    with i abs bs_get_spec [OF i, of pos] show ?thesis
      by (cases "pos < bs_size b") (simp_all add: checked_def bs_get_def checkBounds_def)
  next
    case (FlipBit pos)
    show ?thesis
    proof (cases "pos < bs_size b")
      case True
      with FlipBit bs_flip_spec [OF i True] abs show ?thesis by (auto simp: checked_def)
    qed (use FlipBit i abs in \<open>simp add: checked_def bs_flip_def checkBounds_def\<close>)
  next
    case FlipAll
    with bs_fill_spec [OF i] abs show ?thesis by simp
  next
    case SetAll
    with bs_fill_spec [OF i] abs show ?thesis by simp
  next
    case ResetAll
    with bs_reset_spec [OF i] abs show ?thesis by simp
  next
    case CountBits
    with i abs show ?thesis by (simp add: bs_count_card)
  next
    case AnyBit
    with i abs show ?thesis by (simp add: bs_any_def bs_any_members)
  next
    case NoneBit
    with i abs show ?thesis by (simp add: bs_none_def bs_any_def bs_any_members)
  next
    case AllBits
    with i abs show ?thesis by (simp add: bs_all_spec)
  next
    case (ResizeTo n)
    with ok abs bs_resize_spec [OF i, of n] show ?thesis by simp
  next
    case (AndWith c)
    with ok abs bs_and_spec [OF i, of c] show ?thesis by simp
  next
    case (OrWith c)
    with ok abs bs_or_xor_spec [OF i, of c] show ?thesis by simp
  next
    case (XorWith c)
    with ok abs bs_or_xor_spec [OF i, of c] show ?thesis by simp
  next
    case ToString
    with i abs show ?thesis by (simp add: bs_toString_spec checked_def)
  next
    case FindFirst
    with i abs show ?thesis by (simp add: bs_findFirst_spec)
  qed
qed

lemma BitSet_ctor_spec: "n + 63 < 2 ^ 64 \<Longrightarrow> bs_invar (BitSet_ctor n) \<and> bs_abs (BitSet_ctor n) = (n, {})"
  by (auto simp: BitSet_ctor_def bs_invar_def bs_abs_def word_count_small mem_iff)

text \<open>
  C18: a bit set is a finite set of numbers below its size. Whatever sequence of operations follows its
  construction, with sizes for which the number of words does not wrap around, each of them answers as the
  corresponding operation on the set does (with the exception for a position past the size), none reads or
  writes past the vector, and the bits that are set are the elements of the set.
\<close>

theorem BitSet_refines:
  assumes "n + 63 < 2 ^ 64" and "list_all bs_op_ok ops"
  shows "\<exists>b. object_run bs_exec ops (BitSet_ctor n) = Some (fst (spec_run set_spec ops (n, {})), b) \<and>
    bs_abs b = snd (spec_run set_spec ops (n, {})) \<and> members (bs_bits b) \<subseteq> {..<bs_size b}"
proof -
  have "bs_invar (BitSet_ctor n)" "bs_abs (BitSet_ctor n) = (n, {})" using BitSet_ctor_spec [OF assms(1)] by simp_all
  with bitset.run_refines [OF assms(2), of "BitSet_ctor n"] show ?thesis by (auto simp: bs_invar_def)
qed

theorem BitSet_refines_witness:
  "\<exists>b. object_run bs_exec [SetBit 3 True, SetBit 70 True, FlipBit 3, GetBit 70, FindFirst, SetBit 100 True]
      (BitSet_ctor 100) =
    Some ([Done, Done, Done, Bool True, Number 70, Error out_of_range], b)"
proof -
  let ?ops = "[SetBit 3 True, SetBit 70 True, FlipBit 3, GetBit 70, FindFirst, SetBit 100 True]"
  have "insert 3 {70 :: nat} - {3} = {70}" "insert 70 {3 :: nat} - {3} = {70}" by auto
  then have "fst (spec_run set_spec ?ops (100, {})) = [Done, Done, Done, Bool True, Number 70, Error out_of_range]" by simp
  with BitSet_refines [of 100 ?ops] show ?thesis by (fastforce simp del: object_run.simps spec_run.simps)
qed

text \<open>
  for a size within 62 of the largest \<open>size_t\<close> the sum \<open>size + 63\<close> wraps around and no word is
  allocated, although every position below the size passes the bounds check: setting any of them accesses
  the vector out of its bounds.
\<close>

theorem BitSet_size_wraps:
  assumes "2 ^ 64 - 63 \<le> n" and "n < 2 ^ 64" and "pos < n"
  shows "bs_bits (BitSet_ctor n) = [] \<and> bs_set pos v (BitSet_ctor n) = Inl bad_access"
proof -
  have "(n + 63) mod 2 ^ 64 = n + 63 - 2 ^ 64" using assms(1,2) by (simp add: mod_if)
  then have "word_count n = 0" using assms(2) by (simp add: word_count_def)
  with assms(3) show ?thesis by (simp add: BitSet_ctor_def bs_set_def checkBounds_def)
qed

theorem BitSet_size_wraps_witness:
  "bs_bits (BitSet_ctor 18446744073709551615) = [] \<and> bs_set 0 True (BitSet_ctor 18446744073709551615) = Inl bad_access"
  using BitSet_size_wraps [of 18446744073709551615 0 True] by simp

end
