(* ===== verification/Hash.thy ===== *)
theory Hash
  imports CRC32
begin

unbundle bit_operations_syntax

text \<open>
  The hash functions of \<^verbatim>\<open>include/darwincore/foundation/algorithm/Hash.h\<close> and \<^verbatim>\<open>Hash.cpp\<close> on byte strings, with the
  wrap-around of their unsigned arithmetic. \<open>murmur3_32\<close> reads its blocks as integers of the host, which is
  little-endian on the targets. The overloads that take a string view hash its bytes.
\<close>

section \<open>The functions\<close>

definition fnv1a32 :: "bytes \<Rightarrow> u32" where
  "fnv1a32 data = foldl (\<lambda>hash b. (hash XOR ucast b) * 0x01000193) 0x811c9dc5 data"

definition fnv1a64 :: "bytes \<Rightarrow> u64" where
  "fnv1a64 data = foldl (\<lambda>hash b. (hash XOR ucast b) * 0x00000100000001B3) 0xcbf29ce484222325 data"

definition rotl32 :: "u32 \<Rightarrow> nat \<Rightarrow> u32" where
  "rotl32 x r = push_bit r x OR drop_bit (32 - r) x"

definition fmix32 :: "u32 \<Rightarrow> u32" where
  "fmix32 h =
     (let h = h XOR drop_bit 16 h;
          h = h * 0x85ebca6b;
          h = h XOR drop_bit 13 h;
          h = h * 0xc2b2ae35
      in h XOR drop_bit 16 h)"

definition murmur_mix :: "u32 \<Rightarrow> u32" where
  "murmur_mix k1 = rotl32 (k1 * 0xcc9e2d51) 15 * 0x1b873593"

definition murmur_block :: "u32 \<Rightarrow> u32 \<Rightarrow> u32" where
  "murmur_block h1 block = rotl32 (h1 XOR murmur_mix block) 13 * 5 + 0xe6546b64"

definition murmur_blocks :: "bytes \<Rightarrow> u32 list" where
  "murmur_blocks data = map (\<lambda>i. from_le (take 4 (drop (4 * i) data))) [0..<length data div 4]"

text \<open>The switch on \<open>length & 3\<close>, whose cases fall through.\<close>

definition murmur_tail :: "bytes \<Rightarrow> u32 \<Rightarrow> u32" where
  "murmur_tail tail h1 =
     (case tail of
        [a, b, c] \<Rightarrow> h1 XOR murmur_mix (push_bit 16 (ucast c) XOR push_bit 8 (ucast b) XOR ucast a)
      | [a, b] \<Rightarrow> h1 XOR murmur_mix (push_bit 8 (ucast b) XOR ucast a)
      | [a] \<Rightarrow> h1 XOR murmur_mix (ucast a)
      | _ \<Rightarrow> h1)"

definition murmur3_32 :: "bytes \<Rightarrow> u32 \<Rightarrow> u32" where
  "murmur3_32 data seed =
     (let h1 = foldl murmur_block seed (murmur_blocks data);
          h1 = murmur_tail (drop (length data div 4 * 4) data) h1
      in fmix32 (h1 XOR word_of_nat (length data)))"

definition djb2 :: "bytes \<Rightarrow> u32" where
  "djb2 str = foldl (\<lambda>hash c. (push_bit 5 hash + hash) + ucast c) 5381 str"

definition hash_combine :: "u64 \<Rightarrow> u64 \<Rightarrow> u64" where
  "hash_combine seed hash = seed XOR (hash + 0x9e3779b9 + push_bit 6 seed + drop_bit 2 seed)"

definition hash_table :: "u32 list" where
  "hash_table = [
     0x00000000, 0x77073096, 0xee0e612c, 0x990951ba, 0x076dc419, 0x706af48f, 0xe963a535, 0x9e6495a3,
     0x0edb8832, 0x79dcb8a4, 0xe0d5e91e, 0x97d2d988, 0x09b64c2b, 0x7eb17cbd, 0xe7b82d07, 0x90bf1d91,
     0x1db71064, 0x6ab020f2, 0xf3b97148, 0x84be41de, 0x1adad47d, 0x6ddde4eb, 0xf4d4b551, 0x83d385c7,
     0x136c9856, 0x646ba8c0, 0xfd62f97a, 0x8a65c9ec, 0x14015c4f, 0x63066cd9, 0xfa0f3d63, 0x8d080df5,
     0x3b6e20c8, 0x4c69105e, 0xd56041e4, 0xa2677172, 0x3c03e4d1, 0x4b04d447, 0xd20d85fd, 0xa50ab56b,
     0x35b5a8fa, 0x42b2986c, 0xdbbbc9d6, 0xacbcf940, 0x32d86ce3, 0x45df5c75, 0xdcd60dcf, 0xabd13d59,
     0x26d930ac, 0x51de003a, 0xc8d75180, 0xbfd06116, 0x21b4f4b5, 0x56b3c423, 0xcfba9599, 0xb8bda50f,
     0x2802b89e, 0x5f058808, 0xc60cd9b2, 0xb10be924, 0x2f6f7c87, 0x58684c11, 0xc1611dab, 0xb6662d3d,
     0x76dc4190, 0x01db7106, 0x98d220bc, 0xefd5102a, 0x71b18589, 0x06b6b51f, 0x9fbfe4a5, 0xe8b8d433,
     0x7807c9a2, 0x0f00f934, 0x9609a88e, 0xe10e9818, 0x7f6a0dbb, 0x086d3d2d, 0x91646c97, 0xe6635c01,
     0x6b6b51f4, 0x1c6c6162, 0x856530d8, 0xf262004e, 0x6c0695ed, 0x1b01a57b, 0x8208f4c1, 0xf50fc457,
     0x65b0d9c6, 0x12b7e950, 0x8bbeb8ea, 0xfcb9887c, 0x62dd1ddf, 0x15da2d49, 0x8cd37cf3, 0xfbd44c65,
     0x4db26158, 0x3ab551ce, 0xa3bc0074, 0xd4bb30e2, 0x4adfa541, 0x3dd895d7, 0xa4d1c46d, 0xd3d6f4fb,
     0x4369e96a, 0x346ed9fc, 0xad678846, 0xda60b8d0, 0x44042d73, 0x33031de5, 0xaa0a4c5f, 0xdd0d7cc9,
     0x5005713c, 0x270241aa, 0xbe0b1010, 0xc90c2086, 0x5768b525, 0x206f85b3, 0xb966d409, 0xce61e49f,
     0x5edef90e, 0x29d9c998, 0xb0d09822, 0xc7d7a8b4, 0x59b33d17, 0x2eb40d81, 0xb7bd5c3b, 0xc0ba6cad,
     0xedb88320, 0x9abfb3b6, 0x03b6e20c, 0x74b1d29a, 0xead54739, 0x9dd277af, 0x04db2615, 0x73dc1683,
     0xe3630b12, 0x94643b84, 0x0d6d6a3e, 0x7a6a5aa8, 0xe40ecf0b, 0x9309ff9d, 0x0a00ae27, 0x7d079eb1,
     0xf00f9344, 0x8708a3d2, 0x1e01f268, 0x6906c2fe, 0xf762575d, 0x806567cb, 0x196c3671, 0x6e6b06e7,
     0xfed41b76, 0x89d32be0, 0x10da7a5a, 0x67dd4acc, 0xf9b9df6f, 0x8ebeeff9, 0x17b7be43, 0x60b08ed5,
     0xd6d6a3e8, 0xa1d1937e, 0x38d8c2c4, 0x4fdff252, 0xd1bb67f1, 0xa6bc5767, 0x3fb506dd, 0x48b2364b,
     0xd80d2bda, 0xaf0a1b4c, 0x36034af6, 0x41047a60, 0xdf60efc3, 0xa867df55, 0x316e8eef, 0x4669be79,
     0xcb61b38c, 0xbc66831a, 0x256fd2a0, 0x5268e236, 0xcc0c7795, 0xbb0b4703, 0x220216b9, 0x5505262f,
     0xc5ba3bbe, 0xb2bd0b28, 0x2bb45a92, 0x5cb36a04, 0xc2d7ffa7, 0xb5d0cf31, 0x2cd99e8b, 0x5bdeae1d,
     0x9b64c2b0, 0xec63f226, 0x756aa39c, 0x026d930a, 0x9c0906a9, 0xeb0e363f, 0x72076785, 0x05005713,
     0x95bf4a82, 0xe2b87a14, 0x7bb12bae, 0x0cb61b38, 0x92d28e9b, 0xe5d5be0d, 0x7cdcefb7, 0x0bdbdf21,
     0x86d3d2d4, 0xf1d4e242, 0x68ddb3f8, 0x1fda836e, 0x81be16cd, 0xf6b9265b, 0x6fb077e1, 0x18b74777,
     0x88085ae6, 0xff0f6a70, 0x66063bca, 0x11010b5c, 0x8f659eff, 0xf862ae69, 0x616bffd3, 0x166ccf45,
     0xa00ae278, 0xd70dd2ee, 0x4e048354, 0x3903b3c2, 0xa7672661, 0xd06016f7, 0x4969474d, 0x3e6e77db,
     0xaed16a4a, 0xd9d65adc, 0x40df0b66, 0x37d83bf0, 0xa9bcae53, 0xdebb9ec5, 0x47b2cf7f, 0x30b5ffe9,
     0xbdbdf21c, 0xcabac28a, 0x53b39330, 0x24b4a3a6, 0xbad03605, 0xcdd70693, 0x54de5729, 0x23d967bf,
     0xb3667a2e, 0xc4614ab8, 0x5d681b02, 0x2a6f2b94, 0xb40bbe37, 0xc30c8ea1, 0x5a05df1b, 0x2d02ef8d]"

definition hash_crc32 :: "bytes \<Rightarrow> u32" where
  "hash_crc32 data =
     foldl (\<lambda>crc b. hash_table ! unat ((crc XOR ucast b) AND 0xff) XOR drop_bit 8 crc) 0xffffffff data XOR 0xffffffff"

section \<open>Properties\<close>

lemma hash_table_protocol: "hash_table = CRC_TABLE"
  by (simp only: hash_table_def CRC_TABLE_def)

text \<open>The steps of the hash functions are injective, in the state and in the input.\<close>

lemma inj_mult: "x * c = y * c \<Longrightarrow> c * d = 1 \<Longrightarrow> x = (y :: 'a::len word)"
  by (metis mult.assoc mult.right_neutral)

lemma xor_cancel: "a XOR b = a XOR c \<longleftrightarrow> b = (c :: 'a::len word)"
  by (metis xor.assoc xor.left_neutral xor_self_eq)

lemma ucast_inj: "LENGTH('b) \<le> LENGTH('a) \<Longrightarrow> (ucast (a :: 'b::len word) :: 'a::len word) = ucast b \<longleftrightarrow> a = b"
  by (metis bit_word_eqI bit_unsigned_iff bit_imp_le_length order.strict_trans2 possible_bit_word)

lemma xorshift_inj:
  fixes x y :: u32
  assumes "x XOR drop_bit k x = y XOR drop_bit k y" and "0 < k"
  shows "x = y"
proof -
  have b: "bit x i \<noteq> bit x (i + k) \<longleftrightarrow> bit y i \<noteq> bit y (i + k)" for i
    using arg_cong [OF assms(1), of "\<lambda>w. bit w i"] by (simp add: bit_simps add.commute)
  have "bit x i = bit y i" for i
  proof (induction "32 - i" arbitrary: i rule: less_induct)
    case less
    show ?case
    proof (cases "i < 32")
      case True
      then have "bit x (i + k) = bit y (i + k)" using less [of "i + k"] assms(2) by simp
      with b [of i] show ?thesis by blast
    qed (auto dest: bit_imp_le_length)
  qed
  then show ?thesis by (simp add: bit_eq_iff)
qed

lemma rotl32_word_rotl:
  assumes "0 < r" and "r < 32"
  shows "rotl32 x r = word_rotl r x"
proof (rule bit_word_eqI)
  fix n :: nat assume n: "n < LENGTH(32)"
  show "bit (rotl32 x r) n = bit (word_rotl r x) n"
  proof (cases "n < r")
    case True
    then have "(n + (32 - r)) mod 32 = n + (32 - r)" using assms by simp
    then have "bit (word_rotl r x) n = bit x (n + (32 - r))" using n assms(2) by (simp only: bit_word_rotl_iff) simp
    moreover have "bit (rotl32 x r) n = bit x (32 - r + n)" using True by (simp only: rotl32_def bit_or_iff bit_push_bit_iff bit_drop_bit_eq o_apply) simp
    moreover have "n + (32 - r) = 32 - r + n" by simp
    ultimately show ?thesis by (simp only:)
  next
    case False
    then have "(n + (32 - r)) mod 32 = n - r" using assms n by (simp add: mod_if)
    moreover have "\<not> bit x (32 - r + n)" using False assms by (auto dest: bit_imp_le_length)
    ultimately show ?thesis using False assms n by (auto simp: rotl32_def bit_simps)
  qed
qed

lemma rotl32_inj: "rotl32 x r = rotl32 y r \<Longrightarrow> 0 < r \<Longrightarrow> r < 32 \<Longrightarrow> x = y"
  by (metis rotl32_word_rotl word_rot_lr)

lemma fmix32_inj: "fmix32 x = fmix32 y \<Longrightarrow> x = y"
  unfolding fmix32_def Let_def
  by (drule xorshift_inj, simp, drule inj_mult [where d = "0x7ed1b41d"], simp, drule xorshift_inj, simp,
      drule inj_mult [where d = "0xa5cb9243"], simp, drule xorshift_inj, simp, assumption)

lemma murmur_mix_inj: "murmur_mix x = murmur_mix y \<Longrightarrow> x = y"
  unfolding murmur_mix_def
  by (drule inj_mult [where d = "0x56ed309b"], simp, drule rotl32_inj, simp, simp, drule inj_mult [where d = "0xdee13bb1"], simp, assumption)

lemma foldl_single:
  assumes "\<And>x y b. f x b = f y b \<Longrightarrow> x = y" and "\<And>x a b. f x a = f x b \<Longrightarrow> a = b"
    and "i < length xs" and "b \<noteq> xs ! i"
  shows "foldl f h (xs[i := b]) \<noteq> foldl f h xs"
proof -
  have fold: "x \<noteq> y \<Longrightarrow> foldl f x post \<noteq> foldl f y post" for x y post
    by (induction post arbitrary: x y) (auto dest: assms(1))
  let ?x = "foldl f h (take i xs)"
  have "f ?x b \<noteq> f ?x (xs ! i)" using assms(2,4) by blast
  then have "foldl f (f ?x b) (drop (Suc i) xs) \<noteq> foldl f (f ?x (xs ! i)) (drop (Suc i) xs)" by (rule fold)
  moreover have "foldl f h xs = foldl f h (take i xs @ xs ! i # drop (Suc i) xs)"
    using id_take_nth_drop [OF assms(3)] by simp
  ultimately show ?thesis using assms(3) by (simp add: upd_conv_take_nth_drop)
qed

lemma murmur_block_inj:
  "murmur_block x b = murmur_block y b \<Longrightarrow> x = y" "murmur_block x a = murmur_block x b \<Longrightarrow> a = b"
proof -
  have "u = v" if "rotl32 u 13 * 5 + 0xe6546b64 = rotl32 v 13 * 5 + 0xe6546b64" for u v
  proof -
    from that have "rotl32 u 13 * 5 = rotl32 v 13 * 5" by simp
    then have "rotl32 u 13 = rotl32 v 13" by (rule inj_mult [where d = "0xcccccccd"]) simp
    then show ?thesis by (rule rotl32_inj) simp_all
  qed
  then show "murmur_block x b = murmur_block y b \<Longrightarrow> x = y" "murmur_block x a = murmur_block x b \<Longrightarrow> a = b"
    unfolding murmur_block_def using xor_cancel xor_right_cancel murmur_mix_inj by metis+
qed

lemma from_le_inj:
  assumes "length xs = length ys" and "length xs \<le> 4" and "(from_le xs :: u32) = from_le ys"
  shows "xs = ys"
proof (rule nth_equalityI [OF assms(1)], rule bit_word_eqI)
  fix i n assume i: "i < length xs" and n: "n < LENGTH(8)"
  have "8 * i + n < 32" "(8 * i + n) div 8 = i" "(8 * i + n) mod 8 = n" using i n assms(2) by auto
  then show "bit (xs ! i) n = bit (ys ! i) n"
    using arg_cong [OF assms(3), of "\<lambda>w. bit w (8 * i + n)"] i assms(1) by (simp add: bit_from_le)
qed

text \<open>The tail of at most three bytes is mixed in as one more block.\<close>

lemma murmur_tail_from_le:
  assumes "length tail < 4"
  shows "murmur_tail tail h1 = (if tail = [] then h1 else h1 XOR murmur_mix (from_le tail))"
proof -
  have 3: "push_bit 16 (ucast c) XOR push_bit 8 (ucast b) XOR ucast a = (from_le [a, b, c] :: u32)" for a b c :: u8
    by (rule bit_word_eqI) (auto simp: bit_simps dest: bit_imp_le_length)
  have 2: "push_bit 8 (ucast b) XOR ucast a = (from_le [a, b] :: u32)" for a b :: u8
    by (rule bit_word_eqI) (auto simp: bit_simps dest: bit_imp_le_length)
  consider "tail = []" | a where "tail = [a]" | a b where "tail = [a, b]" | a b c where "tail = [a, b, c]"
    using assms by (cases tail; cases "tl tail"; cases "tl (tl tail)"; cases "tl (tl (tl tail))") auto
  then show ?thesis
    using 2 3 by cases (auto simp: murmur_tail_def)
qed

lemma murmur3_32_single:
  assumes "i < length data" and "b \<noteq> data ! i"
  shows "murmur3_32 (data[i := b]) seed \<noteq> murmur3_32 data seed"
proof -
  let ?d = "data[i := b]" and ?q = "length data div 4"
  let ?h = "\<lambda>d. foldl murmur_block seed (murmur_blocks d)" and ?t = "\<lambda>d. drop (?q * 4) d"
  have tl: "length (?t data) < 4" "length (?t ?d) < 4" by simp_all
  have "murmur_tail (?t ?d) (?h ?d) \<noteq> murmur_tail (?t data) (?h data)"
  proof (cases "i < ?q * 4")
    case True
    let ?k = "i div 4"
    have k: "?k < ?q" using True by (simp add: div_less_iff_less_mult)
    have ki: "4 * ?k \<le> i" "i < 4 * ?k + 4" by linarith+
    have chunk: "take 4 (drop (4 * j) ?d) = (if j = ?k then (take 4 (drop (4 * ?k) data))[i - 4 * ?k := b] else take 4 (drop (4 * j) data))" for j
    proof (cases "i < 4 * j")
      case False
      then have "take 4 (drop (4 * j) ?d) = (take 4 (drop (4 * j) data))[i - 4 * j := b]"
        by (simp add: drop_update_swap take_update_swap)
      moreover have "4 \<le> i - 4 * j" if "j \<noteq> ?k" using False that by linarith
      ultimately show ?thesis by (auto simp: list_update_beyond)
    qed (use ki in auto)
    have "murmur_blocks ?d = (murmur_blocks data)[?k := from_le ((take 4 (drop (4 * ?k) data))[i - 4 * ?k := b])]"
      by (rule nth_equalityI) (auto simp: murmur_blocks_def chunk nth_list_update k)
    moreover have "from_le ((take 4 (drop (4 * ?k) data))[i - 4 * ?k := b]) \<noteq> murmur_blocks data ! ?k"
    proof
      assume e: "from_le ((take 4 (drop (4 * ?k) data))[i - 4 * ?k := b]) = murmur_blocks data ! ?k"
      have "(take 4 (drop (4 * ?k) data))[i - 4 * ?k := b] = take 4 (drop (4 * ?k) data)"
        by (rule from_le_inj) (use e k in \<open>simp_all add: murmur_blocks_def\<close>)
      then have "(take 4 (drop (4 * ?k) data)) ! (i - 4 * ?k) = b"
        using ki assms(1) by (metis diff_less_mono length_drop length_take less_diff_conv2 min_less_iff_conj nth_list_update_eq
            add.commute)
      with ki assms show False by simp
    qed
    moreover have "?k < length (murmur_blocks data)" using k by (simp add: murmur_blocks_def)
    ultimately have "?h ?d \<noteq> ?h data" using foldl_single [of murmur_block, OF murmur_block_inj] by simp
    moreover have "?t ?d = ?t data" using True by simp
    ultimately show ?thesis using tl by (simp add: murmur_tail_from_le xor_right_cancel)
  next
    case False
    have "murmur_blocks ?d = murmur_blocks data"
      using False by (auto simp: murmur_blocks_def drop_update_swap take_update_swap list_update_beyond)
    moreover have t: "?t ?d = (?t data)[i - ?q * 4 := b]" using False by (simp add: drop_update_swap)
    moreover have "(?t data) ! (i - ?q * 4) = data ! i" "i - ?q * 4 < length (?t data)" using False assms(1) by simp_all
    then have "?t ?d \<noteq> ?t data" unfolding t using assms(2) by (metis nth_list_update_eq)
    then have "(from_le (?t ?d) :: u32) \<noteq> from_le (?t data)" using from_le_inj [of "?t ?d" "?t data"] tl by auto
    ultimately show ?thesis
      using False assms(1) tl by (auto simp: murmur_tail_from_le xor_cancel dest: murmur_mix_inj)
  qed
  then show ?thesis using fmix32_inj xor_right_cancel by (metis (no_types, lifting) length_list_update murmur3_32_def)
qed

lemma hash_crc32_bytes: "hash_crc32 data = foldl crc_byte 0xffffffff data XOR 0xffffffff"
proof -
  have "(\<lambda>crc b. hash_table ! unat ((crc XOR ucast b) AND 0xff) XOR drop_bit 8 crc) = crc_byte"
    by (simp add: crc_step_eq [symmetric] crc_step_def hash_table_protocol fun_eq_iff)
  then show ?thesis unfolding hash_crc32_def by (simp only:)
qed

lemma xor_mult_inj:
  fixes c d x y :: "'a::len word"
  assumes "c * d = 1" and "8 \<le> LENGTH('a)"
  shows "(x XOR ucast (b :: u8)) * c = (y XOR ucast b) * c \<Longrightarrow> x = y"
    "(x XOR ucast (a :: u8)) * c = (x XOR ucast b) * c \<Longrightarrow> a = b"
proof -
  show "(x XOR ucast b) * c = (y XOR ucast b) * c \<Longrightarrow> x = y" using inj_mult [OF _ assms(1)] xor_right_cancel by blast
  assume "(x XOR ucast a) * c = (x XOR ucast b) * c"
  then have "x XOR ucast a = x XOR ucast b" using inj_mult [OF _ assms(1)] by blast
  then have "(ucast a :: 'a word) = ucast b" by (simp only: xor_cancel)
  then show "a = b" using ucast_inj [where ?'a = 'a and ?'b = 8] assms(2) by simp
qed

lemma foldl_xor_mult_single:
  fixes c d h :: "'a::len word" and xs :: "u8 list"
  assumes "c * d = 1" and "8 \<le> LENGTH('a)" and "i < length xs" and "b \<noteq> xs ! i"
  shows "foldl (\<lambda>h b. (h XOR ucast b) * c) h (xs[i := b]) \<noteq> foldl (\<lambda>h b. (h XOR ucast b) * c) h xs"
proof (rule foldl_single [OF _ _ assms(3,4)])
  show "x = y" if "(x XOR ucast a) * c = (y XOR ucast a) * c" for x y and a :: u8
    by (rule xor_mult_inj(1) [OF assms(1,2) that])
  show "a = a'" if "(x XOR ucast a) * c = (x XOR ucast a') * c" for x and a a' :: u8
    by (rule xor_mult_inj(2) [OF assms(1,2) that])
qed

lemma djb2_inj:
  fixes x y :: u32 and a b :: u8
  shows "(push_bit 5 x + x) + ucast b = (push_bit 5 y + y) + ucast b \<Longrightarrow> x = y"
    "(push_bit 5 x + x) + ucast a = (push_bit 5 x + x) + ucast b \<Longrightarrow> a = b"
proof -
  have e: "push_bit 5 z + z = z * 33" for z :: u32 by (simp add: push_bit_eq_mult)
  show "x = y" if "(push_bit 5 x + x) + ucast b = (push_bit 5 y + y) + ucast b"
  proof -
    from that have "x * 33 = y * 33" unfolding e add_right_cancel .
    then show ?thesis by (rule inj_mult [where d = "0x3e0f83e1"]) simp
  qed
  show "a = b" if "(push_bit 5 x + x) + ucast a = (push_bit 5 x + x) + ucast b"
    using that ucast_inj [where ?'a = 32 and ?'b = 8, of a b] by simp
qed

text \<open>
  changing one byte of the input changes every hash: the steps of the hash functions and the
  finaliser of \<open>murmur3_32\<close> lose nothing. The CRC of the foundation is the bitwise CRC-32, the same
  function as the one of the network protocol.
\<close>

theorem Hash_single_byte:
  assumes "i < length data" and "b \<noteq> data ! i"
  shows "fnv1a32 (data[i := b]) \<noteq> fnv1a32 data \<and> fnv1a64 (data[i := b]) \<noteq> fnv1a64 data \<and>
    murmur3_32 (data[i := b]) seed \<noteq> murmur3_32 data seed \<and> djb2 (data[i := b]) \<noteq> djb2 data \<and>
    hash_crc32 (data[i := b]) \<noteq> hash_crc32 data \<and> hash_crc32 data = crc_spec data"
proof (intro conjI)
  show "fnv1a32 (data[i := b]) \<noteq> fnv1a32 data"
    unfolding fnv1a32_def
    by (rule foldl_xor_mult_single [where d = "0x359c449b"]) (simp_all add: assms)
  show "fnv1a64 (data[i := b]) \<noteq> fnv1a64 data"
    unfolding fnv1a64_def
    by (rule foldl_xor_mult_single [where d = "0xce965057aff6957b"]) (simp_all add: assms)
  show "murmur3_32 (data[i := b]) seed \<noteq> murmur3_32 data seed" by (rule murmur3_32_single [OF assms])
  show "djb2 (data[i := b]) \<noteq> djb2 data" unfolding djb2_def by (rule foldl_single [OF djb2_inj assms])
  have "foldl crc_byte c (data[i := b]) \<noteq> foldl crc_byte c data" for c
  proof (rule foldl_single [OF _ _ assms])
    show "x = y" if "crc_byte x b = crc_byte y b" for x y b
      using that by (simp add: crc_byte_def crc8_inj xor_right_cancel)
    show "a = b" if "crc_byte x a = crc_byte x b" for x a b
      using that ucast_inj [where ?'a = 32 and ?'b = 8, of a b] by (simp add: crc_byte_def crc8_inj xor_cancel)
  qed
  then show "hash_crc32 (data[i := b]) \<noteq> hash_crc32 data" by (simp add: hash_crc32_bytes xor_right_cancel)
  have "(0xFFFFFFFF :: u32) = - 1" by simp
  then show "hash_crc32 data = crc_spec data" unfolding hash_crc32_bytes crc_spec_def by (simp only:) simp
qed

theorem Hash_single_byte_witness:
  "fnv1a64 [0x61, 0x63] \<noteq> fnv1a64 [0x61, 0x62] \<and> murmur3_32 [0x61, 0x63] 7 \<noteq> murmur3_32 [0x61, 0x62] 7"
  using Hash_single_byte [of 1 "[0x61, 0x62]" "0x63" 7] by simp

end
