(* ===== verification/BloomFilter.thy ===== *)
theory BloomFilter
  imports Hash
begin

unbundle bit_operations_syntax

text \<open>
  The class \<open>BloomFilter\<close> of \<^verbatim>\<open>include/darwincore/foundation/algorithm/BloomFilter.h\<close> and
  \<^verbatim>\<open>BloomFilter.cpp\<close>, on the hash functions of \<open>Hash\<close>. The index arithmetic is that of \<open>uint64_t\<close>; a
  remainder by a bit count of zero is undefined behaviour: None. The constructor from a rate of false positives
  and the two estimates compute in floating point and are left out.
\<close>

section \<open>State and operations\<close>

record BloomFilter =
  numHashes :: nat
  bf_bits :: "bool list"
  bf_count :: u64

datatype bloom_error = bloom_invalid_argument

definition BloomFilter_ctor :: "nat \<Rightarrow> nat \<Rightarrow> BloomFilter" where
  "BloomFilter_ctor bitCount hashCount =
     \<lparr> numHashes = hashCount, bf_bits = replicate bitCount False, bf_count = 0 \<rparr>"

definition doubleHash :: "bytes \<Rightarrow> u64 \<times> u64" where
  "doubleHash data = (fnv1a64 data, ucast (murmur3_32 data 0x9747b28c))"

definition bloom_index :: "u64 \<Rightarrow> u64 \<Rightarrow> nat \<Rightarrow> nat \<Rightarrow> nat option" where
  "bloom_index h1 h2 i n = (if n = 0 then None else Some (unat (h1 + word_of_nat i * h2) mod n))"

text \<open>The two loops: \<open>n\<close> rounds are left, the counter is \<open>i\<close>.\<close>

fun bloom_add_loop :: "u64 \<Rightarrow> u64 \<Rightarrow> nat \<Rightarrow> nat \<Rightarrow> bool list \<Rightarrow> bool list option" where
  "bloom_add_loop h1 h2 0 i bits = Some bits"
| "bloom_add_loop h1 h2 (Suc n) i bits =
     (case bloom_index h1 h2 i (length bits) of
        None \<Rightarrow> None
      | Some index \<Rightarrow> bloom_add_loop h1 h2 n (Suc i) (bits[index := True]))"

definition bloom_add :: "bytes \<Rightarrow> BloomFilter \<Rightarrow> BloomFilter option" where
  "bloom_add data f =
     (case doubleHash data of
        (h1, h2) \<Rightarrow>
          (case bloom_add_loop h1 h2 (numHashes f) 0 (bf_bits f) of
             None \<Rightarrow> None
           | Some bits \<Rightarrow> Some (f\<lparr>bf_bits := bits, bf_count := bf_count f + 1\<rparr>)))"

fun mightContain_loop :: "u64 \<Rightarrow> u64 \<Rightarrow> nat \<Rightarrow> nat \<Rightarrow> bool list \<Rightarrow> bool option" where
  "mightContain_loop h1 h2 0 i bits = Some True"
| "mightContain_loop h1 h2 (Suc n) i bits =
     (case bloom_index h1 h2 i (length bits) of
        None \<Rightarrow> None
      | Some index \<Rightarrow> if \<not> bits ! index then Some False else mightContain_loop h1 h2 n (Suc i) bits)"

definition mightContain :: "bytes \<Rightarrow> BloomFilter \<Rightarrow> bool option" where
  "mightContain data f =
     (case doubleHash data of (h1, h2) \<Rightarrow> mightContain_loop h1 h2 (numHashes f) 0 (bf_bits f))"

definition bloom_clear :: "BloomFilter \<Rightarrow> BloomFilter" where
  "bloom_clear f = f\<lparr>bf_bits := map (\<lambda>_. False) (bf_bits f), bf_count := 0\<rparr>"

definition bloom_merge :: "BloomFilter \<Rightarrow> BloomFilter \<Rightarrow> bloom_error + BloomFilter" where
  "bloom_merge other f =
     (if length (bf_bits f) \<noteq> length (bf_bits other) \<or> numHashes f \<noteq> numHashes other then Inl bloom_invalid_argument
      else Inr (f\<lparr>bf_bits := map2 (\<or>) (bf_bits f) (bf_bits other), bf_count := bf_count f + bf_count other\<rparr>))"

section \<open>The positions of an element\<close>

text \<open>What the class promises is stated over the set of positions that an element selects.\<close>

definition positions :: "nat \<Rightarrow> nat \<Rightarrow> bytes \<Rightarrow> nat set" where
  "positions n k data =
     (\<lambda>i. unat (fst (doubleHash data) + word_of_nat i * snd (doubleHash data)) mod n) ` {..<k}"

definition set_bits_of :: "bool list \<Rightarrow> nat set" where
  "set_bits_of bits = {i. i < length bits \<and> bits ! i}"

lemma positions_bound: "0 < n \<Longrightarrow> positions n k data \<subseteq> {..<n}"
  by (auto simp: positions_def)

lemma set_bits_of_update: "i < length bits \<Longrightarrow> set_bits_of (bits[i := True]) = insert i (set_bits_of bits)"
  by (auto simp: set_bits_of_def nth_list_update)

lemma set_bits_of_replicate [simp]: "set_bits_of (replicate n False) = {}"
  by (auto simp: set_bits_of_def)

lemma set_bits_of_or:
  "length xs = length ys \<Longrightarrow> set_bits_of (map2 (\<or>) xs ys) = set_bits_of xs \<union> set_bits_of ys"
  by (auto simp: set_bits_of_def)

lemma bloom_add_loop_spec:
  assumes "0 < length bits"
  shows "\<exists>bits'. bloom_add_loop h1 h2 n i bits = Some bits' \<and> length bits' = length bits \<and>
    set_bits_of bits' = set_bits_of bits \<union> (\<lambda>j. unat (h1 + word_of_nat j * h2) mod length bits) ` {i..<i + n}"
  using assms
proof (induction n arbitrary: i bits)
  case (Suc n)
  let ?b = "bits[unat (h1 + word_of_nat i * h2) mod length bits := True]"
  obtain bits' where "bloom_add_loop h1 h2 n (Suc i) ?b = Some bits'" "length bits' = length bits"
    "set_bits_of bits' = set_bits_of ?b \<union> (\<lambda>j. unat (h1 + word_of_nat j * h2) mod length bits) ` {Suc i..<Suc i + n}"
    using Suc.IH [of ?b "Suc i"] Suc.prems by auto
  moreover have "{i..<i + Suc n} = insert i {Suc i..<Suc i + n}" by auto
  ultimately show ?case using Suc.prems by (simp add: bloom_index_def set_bits_of_update)
qed simp

lemma bloom_add_spec:
  assumes "0 < length (bf_bits f)"
  shows "\<exists>f'. bloom_add data f = Some f' \<and> length (bf_bits f') = length (bf_bits f) \<and> numHashes f' = numHashes f \<and>
    bf_count f' = bf_count f + 1 \<and>
    set_bits_of (bf_bits f') = set_bits_of (bf_bits f) \<union> positions (length (bf_bits f)) (numHashes f) data"
  using bloom_add_loop_spec [OF assms, of "fst (doubleHash data)" "snd (doubleHash data)" "numHashes f" 0]
  by (auto simp: bloom_add_def positions_def lessThan_atLeast0 split_beta)

lemma mightContain_loop_spec:
  "0 < length bits \<Longrightarrow> mightContain_loop h1 h2 n i bits =
     Some ((\<lambda>j. unat (h1 + word_of_nat j * h2) mod length bits) ` {i..<i + n} \<subseteq> set_bits_of bits)"
proof (induction n arbitrary: i)
  case (Suc n)
  have "{i..<i + Suc n} = insert i {Suc i..<Suc i + n}" by auto
  then show ?case using Suc by (simp add: bloom_index_def set_bits_of_def)
qed simp

lemma mightContain_spec:
  assumes "0 < length (bf_bits f)"
  shows "mightContain data f = Some (positions (length (bf_bits f)) (numHashes f) data \<subseteq> set_bits_of (bf_bits f))"
  using mightContain_loop_spec [OF assms, of "fst (doubleHash data)" "snd (doubleHash data)" "numHashes f" 0]
  by (auto simp: mightContain_def positions_def lessThan_atLeast0 split_beta)

section \<open>Histories\<close>

text \<open>
  A filter together with the elements added to it, by itself or by the filters merged into it, since it was
  constructed or cleared.
\<close>

inductive bloom_hist :: "nat \<Rightarrow> nat \<Rightarrow> BloomFilter \<Rightarrow> bytes list \<Rightarrow> bool" for n k where
  ctor: "bloom_hist n k (BloomFilter_ctor n k) []"
| add: "bloom_hist n k f xs \<Longrightarrow> bloom_add x f = Some f' \<Longrightarrow> bloom_hist n k f' (x # xs)"
| clear: "bloom_hist n k f xs \<Longrightarrow> bloom_hist n k (bloom_clear f) []"
| merge: "bloom_hist n k f xs \<Longrightarrow> bloom_hist n k g ys \<Longrightarrow> bloom_merge g f = Inr f' \<Longrightarrow> bloom_hist n k f' (ys @ xs)"

lemma bloom_hist_inv:
  assumes "bloom_hist n k f xs" and "0 < n"
  shows "length (bf_bits f) = n \<and> numHashes f = k \<and> bf_count f = word_of_nat (length xs) \<and>
    set_bits_of (bf_bits f) = (\<Union>x\<in>set xs. positions n k x)"
  using assms
proof (induction rule: bloom_hist.induct)
  case ctor
  then show ?case by (simp add: BloomFilter_ctor_def)
next
  case (add f xs x f')
  then show ?case using bloom_add_spec [of f x] by (auto simp: Un_commute)
next
  case (clear f xs)
  then show ?case by (auto simp: bloom_clear_def set_bits_of_def)
next
  case (merge f xs g ys f')
  then show ?case by (auto simp: bloom_merge_def set_bits_of_or)
qed

text \<open>
  C23: whatever sequence of insertions, clears and merges led to a filter with at least one bit, an
  insertion returns, a query returns, and it answers true exactly when every position of the element was set by
  some element of the history. So an element that was added is never denied, two filters of the same parameters
  merge, and the counter is the number of insertions, modulo the width of \<open>size_t\<close>.
\<close>

theorem BloomFilter_no_false_negative:
  assumes "bloom_hist n k f xs" and "bloom_hist n k g ys" and "0 < n"
  shows "mightContain x f = Some (positions n k x \<subseteq> (\<Union>y\<in>set xs. positions n k y)) \<and>
    (x \<in> set xs \<longrightarrow> mightContain x f = Some True) \<and>
    (\<exists>f'. bloom_add x f = Some f') \<and>
    (\<exists>f'. bloom_merge g f = Inr f' \<and> (x \<in> set xs \<union> set ys \<longrightarrow> mightContain x f' = Some True)) \<and>
    bf_count f = word_of_nat (length xs)"
proof -
  note inv = bloom_hist_inv [OF assms(1,3)] and inv' = bloom_hist_inv [OF assms(2,3)]
  have query: "mightContain x f = Some (positions n k x \<subseteq> (\<Union>y\<in>set xs. positions n k y))"
    using mightContain_spec [of f x] inv assms(3) by simp
  obtain f' where m: "bloom_merge g f = Inr f'" using inv inv' by (simp add: bloom_merge_def)
  have "mightContain x f' = Some (positions n k x \<subseteq> (\<Union>y\<in>set (ys @ xs). positions n k y))"
    using mightContain_spec [of f' x] bloom_hist_inv [OF bloom_hist.merge [OF assms(1,2) m] assms(3)] assms(3) by simp
  then have "x \<in> set xs \<union> set ys \<longrightarrow> mightContain x f' = Some True" by auto
  moreover have "\<exists>f'. bloom_add x f = Some f'" using bloom_add_spec [of f x] inv assms(3) by auto
  ultimately show ?thesis using query m inv by auto
qed

theorem BloomFilter_no_false_negative_witness:
  "\<exists>f. bloom_hist 16 2 f [[0x61]] \<and> mightContain [0x61] f = Some True \<and>
     mightContain [0x62] (BloomFilter_ctor 16 2) = Some False"
proof -
  have new: "bloom_hist 16 2 (BloomFilter_ctor 16 2) []" by (rule bloom_hist.ctor)
  from BloomFilter_no_false_negative [OF new new, of "[0x61]"] obtain f
    where f: "bloom_add [0x61] (BloomFilter_ctor 16 2) = Some f" by auto
  have h: "bloom_hist 16 2 f [[0x61]]" by (rule bloom_hist.add [OF new f])
  have "positions 16 2 [0x62] \<noteq> {}" by (simp add: positions_def lessThan_empty_iff)
  then show ?thesis
    using BloomFilter_no_false_negative [OF h new, of "[0x61]"] BloomFilter_no_false_negative [OF new new, of "[0x62]"] h
    by auto
qed

text \<open>
  filters of different parameters are not merged, and a filter with no bits and at least one hash
  function, which the constructor accepts, divides by zero on its first use.
\<close>

theorem BloomFilter_errors:
  "(length (bf_bits f) \<noteq> length (bf_bits g) \<or> numHashes f \<noteq> numHashes g \<longleftrightarrow> bloom_merge g f = Inl bloom_invalid_argument) \<and>
   bloom_add x (BloomFilter_ctor 0 (Suc k)) = None \<and> mightContain x (BloomFilter_ctor 0 (Suc k)) = None \<and>
   mightContain x (BloomFilter_ctor n 0) = Some True"
  by (simp add: bloom_merge_def bloom_add_def mightContain_def BloomFilter_ctor_def bloom_index_def split_beta)

end
