(* ===== verification/MemoryPool.thy ===== *)
theory MemoryPool
  imports Prelude "HOL-Library.Multiset"
begin

text \<open>
  The free-list allocator \<open>MemoryPool\<close> and the STL allocator \<open>MemoryAllocator\<close> on top of it, of
  \<^verbatim>\<open>include/darwincore/foundation/memory/MemoryAllocator.h\<close> and \<^verbatim>\<open>MemoryAllocator.cpp\<close>. An address is a
  number, a pointer an address or None (\<open>nullptr\<close>); of the memory, the model keeps the pointer stored at an
  address (\<open>Block::next\<close>). The answer of \<open>::operator new\<close> is an argument. An access outside the array of the
  free lists, and one through \<open>nullptr\<close>, is None.
\<close>

section \<open>State and operations\<close>

record MemoryPool =
  free_lists :: "nat option list"
  mp_next :: "nat \<Rightarrow> nat option"

definition mp_initial :: "(nat \<Rightarrow> nat option) \<Rightarrow> MemoryPool" where
  "mp_initial memory = \<lparr> free_lists = replicate (128 div 8) None, mp_next = memory \<rparr>"

definition mp_index :: "u64 \<Rightarrow> u64" where
  "mp_index n = (n + 8 - 1) div 8 - 1"

text \<open>\<open>block->next = free_lists[index]; free_lists[index] = block\<close>\<close>

definition push_block :: "nat \<Rightarrow> nat \<Rightarrow> MemoryPool \<Rightarrow> MemoryPool" where
  "push_block index block mp =
     mp\<lparr>mp_next := (mp_next mp)(block := free_lists mp ! index),
        free_lists := (free_lists mp)[index := Some block]\<rparr>"

definition refill :: "nat \<Rightarrow> nat \<Rightarrow> MemoryPool \<Rightarrow> MemoryPool" where
  "refill chunk index mp =
     (let block_size = (index + 1) * 8
      in fold (\<lambda>i. push_block index (chunk + i * block_size)) [0..<10] mp)"

definition mp_allocate :: "nat \<Rightarrow> u64 \<Rightarrow> MemoryPool \<Rightarrow> (nat \<times> MemoryPool) option" where
  "mp_allocate fresh n mp =
     (if 128 < n then Some (fresh, mp)
      else
        let index = unat (mp_index n)
        in if length (free_lists mp) \<le> index then None
           else
             let mp = (if free_lists mp ! index = None then refill fresh index mp else mp)
             in case free_lists mp ! index of
                  None \<Rightarrow> None
                | Some block \<Rightarrow> Some (block, mp\<lparr>free_lists := (free_lists mp)[index := mp_next mp block]\<rparr>))"

definition mp_deallocate :: "nat \<Rightarrow> u64 \<Rightarrow> MemoryPool \<Rightarrow> MemoryPool option" where
  "mp_deallocate p n mp =
     (if 128 < n then Some mp
      else
        let index = unat (mp_index n)
        in if length (free_lists mp) \<le> index then None else Some (push_block index p mp))"

datatype alloc_error = bad_alloc

text \<open>\<open>MemoryAllocator<T>\<close>, with the size of \<open>T\<close>.\<close>

definition ma_max_size :: u64 where
  "ma_max_size = 1024"

definition ma_allocate :: "u64 \<Rightarrow> nat \<Rightarrow> u64 \<Rightarrow> MemoryPool \<Rightarrow> (alloc_error + nat \<times> MemoryPool) option" where
  "ma_allocate sizeof_T fresh n mp =
     (if ma_max_size < n then Some (Inl bad_alloc) else map_option Inr (mp_allocate fresh (n * sizeof_T) mp))"

definition ma_deallocate :: "u64 \<Rightarrow> nat \<Rightarrow> u64 \<Rightarrow> MemoryPool \<Rightarrow> MemoryPool option" where
  "ma_deallocate sizeof_T p n mp = mp_deallocate p (n * sizeof_T) mp"

section \<open>Programs that use the pool\<close>

text \<open>
  The state of a program: the pool, the blocks it holds with the sizes it asked for, and the storage that
  \<open>::operator new\<close> gave and \<open>::operator delete\<close> has not taken back. The storage that
  \<open>::operator new\<close> gives is disjoint from all storage it gave before, as its documentation says, and aligned to
  16 bytes. The program writes where it likes, but not into free blocks.
\<close>

record mp_use =
  u_pool :: MemoryPool
  u_live :: "(nat \<times> u64) multiset"
  u_storage :: "(nat \<times> nat) multiset"

definition byte_range :: "nat \<Rightarrow> nat \<Rightarrow> nat multiset" where
  "byte_range a n = mset [a..<a + n]"

definition storage_bytes :: "(nat \<times> nat) multiset \<Rightarrow> nat multiset" where
  "storage_bytes S = (\<Sum>(a, n)\<in>#S. byte_range a n)"

text \<open>The bytes a block really has, and those it is given from the system with.\<close>

definition extent :: "u64 \<Rightarrow> nat" where
  "extent n = (if 128 < n then unat n else 8 * ((unat n + 7) div 8))"

definition chunk_size :: "u64 \<Rightarrow> nat" where
  "chunk_size n = (if 128 < n then unat n else 10 * extent n)"

definition live_bytes :: "(nat \<times> u64) multiset \<Rightarrow> nat multiset" where
  "live_bytes L = (\<Sum>(p, n)\<in>#L. byte_range p (extent n))"

definition takes_chunk :: "u64 \<Rightarrow> MemoryPool \<Rightarrow> bool" where
  "takes_chunk n mp \<longleftrightarrow> 128 < n \<or> free_lists mp ! unat (mp_index n) = None"

inductive mp_step :: "mp_use \<Rightarrow> mp_use \<Rightarrow> bool" where
  alloc: "0 < n \<Longrightarrow> fresh mod 16 = 0 \<Longrightarrow>
     set_mset (byte_range fresh (chunk_size n)) \<inter> set_mset (storage_bytes (u_storage s)) = {} \<Longrightarrow>
     mp_allocate fresh n (u_pool s) = Some (p, mp) \<Longrightarrow>
     mp_step s (s\<lparr>u_pool := mp, u_live := add_mset (p, n) (u_live s),
       u_storage := (if takes_chunk n (u_pool s) then add_mset (fresh, chunk_size n) (u_storage s) else u_storage s)\<rparr>)"
| dealloc: "(p, n) \<in># u_live s \<Longrightarrow> mp_deallocate p n (u_pool s) = Some mp \<Longrightarrow>
     mp_step s (s\<lparr>u_pool := mp, u_live := u_live s - {#(p, n)#},
       u_storage := (if 128 < n then u_storage s - {#(p, unat n)#} else u_storage s)\<rparr>)"
| store: "\<forall>b. set_mset (byte_range b 8) \<subseteq> set_mset (storage_bytes (u_storage s)) - set_mset (live_bytes (u_live s)) \<longrightarrow>
       memory b = mp_next (u_pool s) b \<Longrightarrow>
     mp_step s (s\<lparr>u_pool := (u_pool s)\<lparr>mp_next := memory\<rparr>\<rparr>)"

definition mp_start :: "mp_use \<Rightarrow> bool" where
  "mp_start s \<longleftrightarrow> u_pool s = mp_initial (mp_next (u_pool s)) \<and> u_live s = {#} \<and> u_storage s = {#}"

section \<open>Free lists\<close>

primrec free_list :: "(nat \<Rightarrow> nat option) \<Rightarrow> nat option \<Rightarrow> nat list \<Rightarrow> bool" where
  "free_list memory p [] \<longleftrightarrow> p = None"
| "free_list memory p (a # as) \<longleftrightarrow> p = Some a \<and> free_list memory (memory a) as"

lemma free_list_agree: "free_list memory p as \<Longrightarrow> (\<And>a. a \<in> set as \<Longrightarrow> memory' a = memory a) \<Longrightarrow> free_list memory' p as"
  by (induction as arbitrary: p) auto

definition lists_ok :: "nat list list \<Rightarrow> MemoryPool \<Rightarrow> bool" where
  "lists_ok fs mp \<longleftrightarrow> length fs = 16 \<and> length (free_lists mp) = 16 \<and>
     (\<forall>i < 16. free_list (mp_next mp) (free_lists mp ! i) (fs ! i))"

definition free_bytes :: "nat list list \<Rightarrow> nat multiset" where
  "free_bytes fs = (\<Sum>i<16. \<Sum>a\<leftarrow>fs ! i. byte_range a (8 * (i + 1)))"

lemma set_byte_range [simp]: "set_mset (byte_range a n) = {a..<a + n}"
  by (simp add: byte_range_def)

lemma byte_range_split: "byte_range a (k * n) = (\<Sum>i\<leftarrow>[0..<k]. byte_range (a + i * n) n)"
proof (induction k)
  case (Suc k)
  have "byte_range a (Suc k * n) = byte_range a (k * n) + byte_range (a + k * n) n"
    unfolding byte_range_def mset_append [symmetric] using upt_add_eq_append [of a "a + k * n" n]
    by (simp add: algebra_simps del: mset_upt mset_append)
  with Suc show ?case by simp
qed (simp add: byte_range_def)

lemma free_bytes_update:
  assumes "i < 16" and "length fs = 16"
  shows "free_bytes (fs[i := xs]) + (\<Sum>a\<leftarrow>fs ! i. byte_range a (8 * (i + 1))) =
    free_bytes fs + (\<Sum>a\<leftarrow>xs. byte_range a (8 * (i + 1)))"
proof -
  let ?g = "\<lambda>fs j. \<Sum>a\<leftarrow>fs ! j. byte_range a (8 * (j + 1))"
  have "(\<Sum>j<16. ?g fs' j) = ?g fs' i + (\<Sum>j\<in>{..<16} - {i}. ?g fs' j)" for fs'
    by (rule sum.remove) (use assms in auto)
  moreover have "(\<Sum>j\<in>{..<16} - {i}. ?g (fs[i := xs]) j) = (\<Sum>j\<in>{..<16} - {i}. ?g fs j)"
    by (rule sum.cong) auto
  ultimately show ?thesis using assms by (simp add: free_bytes_def algebra_simps)
qed

lemma free_member:
  assumes "i < 16" and "a \<in> set (fs ! i)"
  shows "byte_range a (8 * (i + 1)) \<subseteq># free_bytes fs"
proof -
  have "byte_range a (8 * (i + 1)) \<subseteq># (\<Sum>a\<leftarrow>fs ! i. byte_range a (8 * (i + 1)))"
    using assms(2) by (auto simp: in_set_conv_decomp)
  also have "\<dots> \<subseteq># free_bytes fs"
    unfolding free_bytes_def
    by (subst sum.remove [of _ i]) (use assms in auto)
  finally show ?thesis .
qed

lemma push_block_ok:
  assumes "lists_ok fs mp" and "i < 16" and "\<And>j. j < 16 \<Longrightarrow> b \<notin> set (fs ! j)"
  shows "lists_ok (fs[i := b # fs ! i]) (push_block i b mp)"
proof -
  have "free_list ((mp_next mp)(b := v)) (free_lists mp ! j) (fs ! j)" if "j < 16" for j v
    by (rule free_list_agree [of "mp_next mp"]) (use assms that in \<open>auto simp: lists_ok_def\<close>)
  then show ?thesis using assms(1,2) by (auto simp: lists_ok_def push_block_def nth_list_update)
qed

lemma push_blocks_ok:
  assumes "lists_ok fs mp" and "i < 16" and "distinct bs" and "\<And>b j. b \<in> set bs \<Longrightarrow> j < 16 \<Longrightarrow> b \<notin> set (fs ! j)"
  shows "lists_ok (fs[i := rev bs @ fs ! i]) (fold (push_block i) bs mp)"
  using assms
proof (induction bs arbitrary: fs mp)
  case (Cons b bs)
  have "length fs = 16" using Cons.prems(1) by (simp add: lists_ok_def)
  moreover have "lists_ok (fs[i := b # fs ! i]) (push_block i b mp)"
    using push_block_ok [OF Cons.prems(1,2)] Cons.prems(4) by simp
  moreover have "c \<notin> set (fs[i := b # fs ! i] ! j)" if "c \<in> set bs" "j < 16" for c j
    using Cons.prems(3,4) that calculation(1) by (cases "j = i") auto
  ultimately show ?case
    using Cons.IH [of "fs[i := b # fs ! i]" "push_block i b mp"] Cons.prems(2,3) by simp
qed simp

section \<open>Nothing is lost, nothing is given twice\<close>

definition mp_inv :: "mp_use \<Rightarrow> bool" where
  "mp_inv s \<longleftrightarrow> (\<exists>fs. lists_ok fs (u_pool s) \<and> (\<forall>i < 16. \<forall>a\<in>set (fs ! i). a mod 8 = 0) \<and>
     free_bytes fs + live_bytes (u_live s) = storage_bytes (u_storage s)) \<and>
   (\<forall>x. count (storage_bytes (u_storage s)) x \<le> 1) \<and>
   (\<forall>(p, n) \<in># u_live s. 0 < n \<and> p mod 8 = 0) \<and>
   (\<forall>(p, n) \<in># u_live s. 128 < n \<longrightarrow> (p, unat n) \<in># u_storage s)"

lemma pop_block_ok:
  assumes "lists_ok fs mp" and "i < 16" and "fs ! i = a # as"
  shows "free_lists mp ! i = Some a" "lists_ok (fs[i := as]) (mp\<lparr>free_lists := (free_lists mp)[i := mp_next mp a]\<rparr>)"
proof -
  have "free_list (mp_next mp) (free_lists mp ! i) (a # as)" using assms by (auto simp: lists_ok_def)
  then show "free_lists mp ! i = Some a" "lists_ok (fs[i := as]) (mp\<lparr>free_lists := (free_lists mp)[i := mp_next mp a]\<rparr>)"
    using assms by (auto simp: lists_ok_def nth_list_update)
qed

lemma index_small:
  assumes "0 < n" and "n \<le> (128 :: u64)"
  shows "unat (mp_index n) < 16" "extent n = 8 * (unat (mp_index n) + 1)"
proof -
  have "unat (n + 7) = unat n + 7" using assms(2) by (subst unat_add_lem [THEN iffD1]) (auto simp: word_le_nat_alt)
  moreover have "0 < (unat n + 7) div 8" using assms(1) by (simp add: word_less_nat_alt unat_0)
  moreover have "(n + 8 - 1) = n + 7" by simp
  moreover from calculation have d: "unat ((n + 7) div 8) = (unat n + 7) div 8" by (simp add: unat_div)
  moreover from calculation have "(n + 7) div 8 \<noteq> 0" by (metis less_irrefl unat_0)
  ultimately have "unat (mp_index n) = (unat n + 7) div 8 - 1"
    using unat_minus_one [of "(n + 7) div 8"] unfolding mp_index_def by (simp add: add.commute [of 7])
  then show "unat (mp_index n) < 16" "extent n = 8 * (unat (mp_index n) + 1)"
    using assms by (auto simp: word_le_nat_alt word_less_nat_alt extent_def)
qed

lemma free_member_head: "i < 16 \<Longrightarrow> a \<in> set (fs ! i) \<Longrightarrow> a \<in># free_bytes fs"
  using mset_subset_eqD [OF free_member [of i a fs]] by simp

lemma allocate_small:
  assumes ok: "lists_ok fs mp" and n: "0 < n" "n \<le> 128"
    and fresh: "takes_chunk n mp \<Longrightarrow> {fresh..<fresh + chunk_size n} \<inter> set_mset (free_bytes fs) = {}"
    and aligned: "fresh mod 16 = 0" "\<forall>i < 16. \<forall>a\<in>set (fs ! i). a mod 8 = 0"
  shows "\<exists>p mp' fs'. mp_allocate fresh n mp = Some (p, mp') \<and> lists_ok fs' mp' \<and> p mod 8 = 0 \<and>
    (\<forall>i < 16. \<forall>a\<in>set (fs' ! i). a mod 8 = 0) \<and>
    free_bytes fs' + byte_range p (extent n) =
      free_bytes fs + (if takes_chunk n mp then byte_range fresh (chunk_size n) else {#})"
proof -
  define i where "i = unat (mp_index n)"
  let ?s = "8 * (i + 1)" and ?bs = "map (\<lambda>j. fresh + j * (8 * (i + 1))) [0..<10]"
  have i: "i < 16" and ext: "extent n = ?s" using index_small [OF n] by (simp_all add: i_def)
  have chunk: "chunk_size n = 10 * ?s" using n(2) ext by (simp add: chunk_size_def leD)
  have l: "length fs = 16" "length (free_lists mp) = 16" using ok by (auto simp: lists_ok_def)
  define mp1 where "mp1 = (if free_lists mp ! i = None then refill fresh i mp else mp)"
  define fs1 where "fs1 = (if free_lists mp ! i = None then fs[i := rev ?bs @ fs ! i] else fs)"
  have takes: "takes_chunk n mp \<longleftrightarrow> free_lists mp ! i = None" using n by (auto simp: takes_chunk_def i_def)
  have "lists_ok fs1 mp1"
  proof (cases "free_lists mp ! i = None")
    case True
    have "b \<notin> set (fs ! j)" if "b \<in> set ?bs" "j < 16" for b j
    proof -
      from that(1) obtain m where "m < 10" "b = fresh + m * ?s" by (auto simp del: upt_conv_Cons upt_rec_numeral)
      then have "b < fresh + 10 * ?s" using mult_strict_right_mono [of m 10 ?s] by simp
      then have "b \<in> {fresh..<fresh + chunk_size n}" using \<open>b = _\<close> ext chunk by simp
      then have "b \<notin># free_bytes fs" using fresh True takes by blast
      then show ?thesis using free_member_head [OF that(2)] by blast
    qed
    moreover have "distinct ?bs" by (simp add: distinct_map inj_on_def)
    ultimately have "lists_ok (fs[i := rev ?bs @ fs ! i]) (fold (push_block i) ?bs mp)"
      by (intro push_blocks_ok ok i) blast+
    moreover have "refill fresh i mp = fold (push_block i) ?bs mp"
      by (simp only: refill_def Let_def fold_map o_def mult.commute)
    ultimately show ?thesis using True by (simp add: mp1_def fs1_def)
  next
    case False
    then show ?thesis using ok unfolding mp1_def fs1_def by (simp only: if_False)
  qed
  moreover have "free_bytes fs1 = free_bytes fs + (if takes_chunk n mp then byte_range fresh (chunk_size n) else {#})"
    using free_bytes_update [OF i l(1), of "rev ?bs @ fs ! i"] byte_range_split [of fresh 10 ?s]
    by (simp add: fs1_def takes chunk sum_list_rev o_def flip: rev_map del: upt_conv_Cons upt_rec_numeral)
  moreover have al: "\<forall>j < 16. \<forall>a\<in>set (fs1 ! j). a mod 8 = 0"
  proof -
    from aligned(1) have "8 dvd fresh" by presburger
    then have "(fresh + m * ?s) mod 8 = 0" for m by (simp flip: dvd_eq_mod_eq_0)
    then show ?thesis
      using aligned(2) l i by (auto simp: fs1_def nth_list_update simp del: upt_conv_Cons upt_rec_numeral split: if_splits)
  qed
  moreover obtain a as where f: "fs1 ! i = a # as"
  proof (cases "fs1 ! i")
    case Nil
    then have "free_lists mp ! i \<noteq> None" using l i by (auto simp: fs1_def split: if_splits)
    moreover have "free_list (mp_next mp) (free_lists mp ! i) (fs ! i)" using ok i by (simp add: lists_ok_def)
    ultimately show ?thesis using Nil by (auto simp: fs1_def)
  qed
  moreover have "length fs1 = 16" using l by (simp add: fs1_def)
  moreover have "mp_allocate fresh n mp = Some (a, mp1\<lparr>free_lists := (free_lists mp1)[i := mp_next mp1 a]\<rparr>)"
    using pop_block_ok(1) [OF \<open>lists_ok fs1 mp1\<close> i f] n l i
    by (simp add: mp_allocate_def Let_def not_less [symmetric] flip: i_def mp1_def)
  ultimately show ?thesis
    using pop_block_ok(2) [OF _ i f, of mp1] free_bytes_update [OF i, of fs1 as] i
    by (intro exI conjI) (assumption | auto simp: ext nth_list_update algebra_simps)+
qed

lemma bytes_add [simp]:
  "live_bytes (add_mset (p, n) L) = byte_range p (extent n) + live_bytes L"
  "storage_bytes (add_mset (a, k) S) = byte_range a k + storage_bytes S"
  by (simp_all add: live_bytes_def storage_bytes_def)

lemma count_byte_range: "count (byte_range a n) x = (if a \<le> x \<and> x < a + n then 1 else 0)"
  by (simp add: byte_range_def distinct_count_atmost_1 [THEN iffD1, rule_format] count_mset_set)

lemma mp_invE:
  assumes "mp_inv s"
  obtains fs where "lists_ok fs (u_pool s)" "\<forall>i < 16. \<forall>a\<in>set (fs ! i). a mod 8 = 0"
    "free_bytes fs + live_bytes (u_live s) = storage_bytes (u_storage s)"
    "\<forall>x. count (free_bytes fs + live_bytes (u_live s)) x \<le> 1"
  using assms by (auto simp: mp_inv_def)

lemma live_once: "mp_inv s \<Longrightarrow> \<forall>x. count (live_bytes (u_live s)) x \<le> 1"
  by (erule mp_invE) (metis add_leD2 count_union)

lemma once_disjoint:
  assumes "\<forall>x. count (A + B) x \<le> 1" and "x \<in># A"
  shows "x \<notin># B"
proof
  assume "x \<in># B"
  then have "0 < count A x" "0 < count B x" using assms(2) by simp_all
  moreover have "count A x + count B x \<le> 1" using assms(1) by simp
  ultimately show False by linarith
qed

lemma live_not_free:
  assumes "\<forall>x. count (free_bytes fs + L) x \<le> 1" and "x \<in># L" and "j < 16"
  shows "x \<notin> set (fs ! j)"
  using once_disjoint [OF assms(1)] free_member_head [OF assms(3)] assms(2) by blast

lemma extent_pos: "0 < n \<Longrightarrow> unat n \<le> extent n \<and> 0 < extent n"
  by (auto simp: extent_def word_less_nat_alt unat_0)

lemma inv_alloc:
  assumes inv: "mp_inv s" and n: "0 < n" and fresh: "fresh mod 16 = 0"
    "{fresh..<fresh + chunk_size n} \<inter> set_mset (storage_bytes (u_storage s)) = {}"
  shows "\<exists>p mp. mp_allocate fresh n (u_pool s) = Some (p, mp) \<and>
    mp_inv (s\<lparr>u_pool := mp, u_live := add_mset (p, n) (u_live s),
      u_storage := (if takes_chunk n (u_pool s) then add_mset (fresh, chunk_size n) (u_storage s) else u_storage s)\<rparr>)"
proof -
  obtain fs where fs: "lists_ok fs (u_pool s)" "\<forall>i < 16. \<forall>a\<in>set (fs ! i). a mod 8 = 0"
    "free_bytes fs + live_bytes (u_live s) = storage_bytes (u_storage s)"
    using mp_invE [OF inv] by metis
  let ?S = "if takes_chunk n (u_pool s) then add_mset (fresh, chunk_size n) (u_storage s) else u_storage s"
  have once: "\<forall>x. count (storage_bytes (u_storage s)) x \<le> 1" using inv by (simp add: mp_inv_def)
  have new: "\<forall>x. count (storage_bytes ?S) x \<le> 1"
  proof
    fix x show "count (storage_bytes ?S) x \<le> 1"
      using once [rule_format, of x] fresh(2) by (auto simp: count_byte_range not_in_iff dest: disjoint_iff [THEN iffD1])
  qed
  have "\<exists>p mp fs'. mp_allocate fresh n (u_pool s) = Some (p, mp) \<and> lists_ok fs' mp \<and> p mod 8 = 0 \<and>
    (\<forall>i < 16. \<forall>a\<in>set (fs' ! i). a mod 8 = 0) \<and>
    free_bytes fs' + byte_range p (extent n) + live_bytes (u_live s) = storage_bytes ?S \<and>
    (128 < n \<longrightarrow> p = fresh)"
  proof (cases "128 < n")
    case True
    moreover have "8 dvd fresh" using fresh(1) by presburger
    ultimately show ?thesis
      using fs by (intro exI [of _ fresh] exI [of _ "u_pool s"] exI [of _ fs])
        (auto simp: mp_allocate_def takes_chunk_def extent_def chunk_size_def ac_simps)
  next
    case False
    have "set_mset (free_bytes fs) \<subseteq> set_mset (storage_bytes (u_storage s))" by (simp flip: fs(3))
    then have "{fresh..<fresh + chunk_size n} \<inter> set_mset (free_bytes fs) = {}" using fresh(2) by blast
    from allocate_small [OF fs(1) n _ this fresh(1) fs(2)] False obtain p mp fs' where
      "mp_allocate fresh n (u_pool s) = Some (p, mp)" "lists_ok fs' mp" "p mod 8 = 0" "\<forall>i < 16. \<forall>a\<in>set (fs' ! i). a mod 8 = 0"
      "free_bytes fs' + byte_range p (extent n) =
        free_bytes fs + (if takes_chunk n (u_pool s) then byte_range fresh (chunk_size n) else {#})"
      by (auto simp: not_less)
    then show ?thesis using False fs(3) by (intro exI conjI) (assumption | auto simp: ac_simps)+
  qed
  then obtain p mp fs' where a: "mp_allocate fresh n (u_pool s) = Some (p, mp)" "lists_ok fs' mp" "p mod 8 = 0"
    "\<forall>i < 16. \<forall>a\<in>set (fs' ! i). a mod 8 = 0"
    "free_bytes fs' + byte_range p (extent n) + live_bytes (u_live s) = storage_bytes ?S" "128 < n \<longrightarrow> p = fresh"
    by (elim exE conjE) (rule that)
  moreover have "(fresh, unat n) \<in># ?S" if "128 < n" using that by (simp add: takes_chunk_def chunk_size_def)
  moreover have "x \<in># u_storage s \<Longrightarrow> x \<in># ?S" for x by simp
  ultimately show ?thesis
    using inv new n by (intro exI [of _ p] exI [of _ mp] conjI a(1)) (auto simp: mp_inv_def ac_simps)
qed

lemma inv_dealloc:
  assumes inv: "mp_inv s" and live: "(p, n) \<in># u_live s"
  shows "\<exists>mp. mp_deallocate p n (u_pool s) = Some mp \<and>
    mp_inv (s\<lparr>u_pool := mp, u_live := u_live s - {#(p, n)#},
      u_storage := (if 128 < n then u_storage s - {#(p, unat n)#} else u_storage s)\<rparr>)"
proof -
  obtain fs where fs: "lists_ok fs (u_pool s)" "\<forall>i < 16. \<forall>a\<in>set (fs ! i). a mod 8 = 0"
    "free_bytes fs + live_bytes (u_live s) = storage_bytes (u_storage s)"
    "\<forall>x. count (free_bytes fs + live_bytes (u_live s)) x \<le> 1"
    by (rule mp_invE [OF inv])
  obtain L where L: "u_live s = add_mset (p, n) L" using live by (auto dest: multi_member_split)
  have n: "0 < n" and al: "p mod 8 = 0" using inv live by (auto simp: mp_inv_def)
  have p: "p \<in># live_bytes (u_live s)" using extent_pos [OF n] by (simp add: L)
  show ?thesis
  proof (cases "128 < n")
    case True
    then have "(p, unat n) \<in># u_storage s" using inv live by (auto simp: mp_inv_def)
    then obtain S where S: "u_storage s = add_mset (p, unat n) S" by (auto dest: multi_member_split)
    have "(p, n) \<notin># L"
    proof
      assume "(p, n) \<in># L"
      then obtain L' where "L = add_mset (p, n) L'" by (auto dest: multi_member_split)
      then show False using fs(4) [rule_format, of p] extent_pos [OF n] by (simp add: L count_byte_range)
    qed
    have "(q, unat m) \<in># S" if "(q, m) \<in># L" "128 < m" for q m
    proof -
      have "(q, unat m) \<in># u_storage s" using that inv by (auto simp: mp_inv_def L)
      moreover have "(q, unat m) \<noteq> (p, unat n)" using that \<open>(p, n) \<notin># L\<close> by (auto simp flip: word_unat_eq_iff)
      ultimately show ?thesis by (auto simp: S)
    qed
    moreover have "free_bytes fs + live_bytes L = storage_bytes S" using fs(3) True by (simp add: L S extent_def)
    moreover have "\<forall>x. count (storage_bytes S) x \<le> 1"
      using fs(4) unfolding fs(3) S by (auto intro: add_leD2)
    ultimately show ?thesis
      using True fs(1,2) inv L S by (auto simp: mp_deallocate_def mp_inv_def intro!: exI [of _ fs])
  next
    case False
    define i where "i = unat (mp_index n)"
    have i: "i < 16" and ext: "extent n = 8 * (i + 1)" using index_small [OF n] False by (auto simp: i_def)
    have l: "length fs = 16" "length (free_lists (u_pool s)) = 16" using fs(1) by (auto simp: lists_ok_def)
    have "lists_ok (fs[i := p # fs ! i]) (push_block i p (u_pool s))"
      by (rule push_block_ok [OF fs(1) i]) (rule live_not_free [OF fs(4) p])
    moreover have "free_bytes (fs[i := p # fs ! i]) + live_bytes L = storage_bytes (u_storage s)"
      using free_bytes_update [OF i l(1), of "p # fs ! i"] fs(3) by (simp add: L ext ac_simps)
    moreover have "\<forall>j < 16. \<forall>a\<in>set (fs[i := p # fs ! i] ! j). a mod 8 = 0"
      using fs(2) al l i by (auto simp: nth_list_update)
    ultimately show ?thesis
      using False inv l i by (auto simp: mp_deallocate_def mp_inv_def L not_le simp flip: i_def)
  qed
qed

lemma inv_store:
  assumes inv: "mp_inv s"
    and keeps: "\<forall>b. {b..<b + 8} \<subseteq> set_mset (storage_bytes (u_storage s)) - set_mset (live_bytes (u_live s)) \<longrightarrow>
      memory b = mp_next (u_pool s) b"
  shows "mp_inv (s\<lparr>u_pool := (u_pool s)\<lparr>mp_next := memory\<rparr>\<rparr>)"
proof -
  obtain fs where fs: "lists_ok fs (u_pool s)" "\<forall>i < 16. \<forall>a\<in>set (fs ! i). a mod 8 = 0"
    "free_bytes fs + live_bytes (u_live s) = storage_bytes (u_storage s)"
    "\<forall>x. count (free_bytes fs + live_bytes (u_live s)) x \<le> 1"
    by (rule mp_invE [OF inv])
  have "memory a = mp_next (u_pool s) a" if "i < 16" "a \<in> set (fs ! i)" for i a
  proof (rule keeps [rule_format])
    have "x \<in># free_bytes fs" if "x \<in> {a..<a + 8}" for x
      using mset_subset_eqD [OF free_member [OF \<open>i < 16\<close> \<open>a \<in> set (fs ! i)\<close>], of x] that by simp
    moreover have "x \<notin># live_bytes (u_live s)" if "x \<in># free_bytes fs" for x
      by (rule once_disjoint [OF fs(4) that])
    ultimately show "{a..<a + 8} \<subseteq> set_mset (storage_bytes (u_storage s)) - set_mset (live_bytes (u_live s))"
      unfolding fs(3) [symmetric] by auto
  qed
  then have "lists_ok fs ((u_pool s)\<lparr>mp_next := memory\<rparr>)"
    using fs(1) by (auto simp: lists_ok_def intro: free_list_agree)
  then show ?thesis using inv fs by (auto simp: mp_inv_def)
qed

interpretation memory_pool: invariant_system mp_start mp_step mp_inv
proof
  show "mp_inv s" if "mp_start s" for s
  proof -
    have "u_pool s = mp_initial (mp_next (u_pool s))" "u_live s = {#}" "u_storage s = {#}"
      using that by (simp_all add: mp_start_def)
    moreover have "lists_ok (replicate 16 []) (mp_initial memory)" for memory
      by (simp add: lists_ok_def mp_initial_def)
    then have "lists_ok (replicate 16 []) (u_pool s)" using calculation(1) by metis
    ultimately show ?thesis
      unfolding mp_inv_def
      by (intro conjI exI [of _ "replicate 16 []"]) (auto simp: free_bytes_def live_bytes_def storage_bytes_def)
  qed
  show "mp_inv t" if "mp_inv s" "mp_step s t" for s t
    using that(2,1)
  proof cases
    case (alloc n fresh p mp)
    then show ?thesis using inv_alloc [OF that(1), of n fresh] by auto
  next
    case (dealloc p n mp)
    then show ?thesis using inv_dealloc [OF that(1), of p n] by auto
  next
    case (store memory)
    then show ?thesis using inv_store [OF that(1), of memory] by simp
  qed
qed

section \<open>Properties\<close>

text \<open>
  C21: in every state a program can reach, every byte of the storage taken from the system belongs to exactly
  one block, free or held, so no two blocks held overlap and none is lost; a block held has at least the bytes that were
  asked for and is aligned to 8 bytes. Every request for at least one byte is answered, by a block disjoint from all
  others, and every block held can be given back.
\<close>

theorem MemoryPool_blocks:
  assumes "mp_start s0" and "mp_step\<^sup>*\<^sup>* s0 s"
  shows "(\<forall>p n q m L. u_live s = add_mset (p, n) (add_mset (q, m) L) \<longrightarrow>
      {p..<p + unat n} \<inter> {q..<q + unat m} = {}) \<and>
    (\<forall>p n. (p, n) \<in># u_live s \<longrightarrow> p mod 8 = 0 \<and> {p..<p + unat n} \<subseteq> set_mset (storage_bytes (u_storage s)) \<and>
      (\<exists>mp. mp_deallocate p n (u_pool s) = Some mp)) \<and>
    (\<exists>fs. lists_ok fs (u_pool s) \<and> free_bytes fs + live_bytes (u_live s) = storage_bytes (u_storage s)) \<and>
    (\<forall>x. count (storage_bytes (u_storage s)) x \<le> 1) \<and>
    (\<forall>n fresh. 0 < n \<longrightarrow> fresh mod 16 = 0 \<longrightarrow>
      {fresh..<fresh + chunk_size n} \<inter> set_mset (storage_bytes (u_storage s)) = {} \<longrightarrow>
      (\<exists>p mp. mp_allocate fresh n (u_pool s) = Some (p, mp) \<and>
        {p..<p + unat n} \<inter> set_mset (live_bytes (u_live s)) = {}))"
proof -
  have inv: "mp_inv s" by (rule memory_pool.Inv_reachable [OF assms])
  obtain fs where fs: "lists_ok fs (u_pool s)" "free_bytes fs + live_bytes (u_live s) = storage_bytes (u_storage s)"
    "\<forall>x. count (free_bytes fs + live_bytes (u_live s)) x \<le> 1"
    by (rule mp_invE [OF inv])
  have big: "{p..<p + unat n} \<subseteq> {p..<p + extent n}" if "0 < n" for p n using extent_pos [OF that] by auto
  have pos: "0 < n \<and> p mod 8 = 0" if "(p, n) \<in># u_live s" for p n using inv that by (auto simp: mp_inv_def)
  have held: "x \<in># live_bytes (u_live s)" if "(p, n) \<in># u_live s" "x \<in> {p..<p + unat n}" for p n x
  proof -
    from multi_member_split [OF that(1)] obtain L where "u_live s = add_mset (p, n) L" by blast
    then show ?thesis using big [of n p] pos [OF that(1)] that(2) by auto
  qed
  have "{p..<p + unat n} \<inter> {q..<q + unat m} = {}" if "u_live s = add_mset (p, n) (add_mset (q, m) L)" for p n q m L
  proof (rule ccontr)
    have "0 < n" "0 < m" using pos [of p n] pos [of q m] by (simp_all add: that)
    moreover assume "{p..<p + unat n} \<inter> {q..<q + unat m} \<noteq> {}"
    ultimately obtain x where "x \<in> {p..<p + extent n}" "x \<in> {q..<q + extent m}"
      using big [of n p] big [of m q] by blast
    then show False using fs(3) [rule_format, of x] by (simp add: that count_byte_range)
  qed
  moreover have "{p..<p + unat n} \<subseteq> set_mset (storage_bytes (u_storage s))" if "(p, n) \<in># u_live s" for p n
    using held [OF that] fs(2) [symmetric] by auto
  moreover have "{p..<p + unat n} \<inter> set_mset (live_bytes (u_live s)) = {}"
    if "0 < n" "mp_inv (s\<lparr>u_pool := mp, u_live := add_mset (p, n) (u_live s), u_storage := S\<rparr>)" for p n mp S
  proof (rule ccontr)
    assume "{p..<p + unat n} \<inter> set_mset (live_bytes (u_live s)) \<noteq> {}"
    then obtain x where x: "x \<in> {p..<p + unat n}" "x \<in># live_bytes (u_live s)" by blast
    have "x \<in># byte_range p (extent n)" using subsetD [OF big [OF that(1)] x(1)] by simp
    have "\<forall>x. count (byte_range p (extent n) + live_bytes (u_live s)) x \<le> 1" using live_once [OF that(2)] by simp
    from once_disjoint [OF this \<open>x \<in># byte_range p (extent n)\<close>] x(2) show False by blast
  qed
  moreover have "\<forall>x. count (storage_bytes (u_storage s)) x \<le> 1" using fs(3) unfolding fs(2) .
  moreover have "\<exists>p mp. mp_allocate fresh n (u_pool s) = Some (p, mp) \<and> {p..<p + unat n} \<inter> set_mset (live_bytes (u_live s)) = {}"
    if "0 < n" "fresh mod 16 = 0" "{fresh..<fresh + chunk_size n} \<inter> set_mset (storage_bytes (u_storage s)) = {}" for n fresh
    using inv_alloc [OF inv that] calculation(3) [OF that(1)] by blast
  moreover have "\<exists>mp. mp_deallocate p n (u_pool s) = Some mp" if "(p, n) \<in># u_live s" for p n
    using inv_dealloc [OF inv that] by blast
  ultimately show ?thesis using pos fs(1,2) by (intro conjI allI impI) (simp_all, blast)
qed

theorem MemoryPool_blocks_witness:
  "\<exists>s0 s. mp_start s0 \<and> mp_step\<^sup>*\<^sup>* s0 s \<and> u_live s = {#(72, 8)#} \<and>
     (\<exists>p mp. mp_allocate 800 8 (u_pool s) = Some (p, mp) \<and> {p..<p + 8} \<inter> {72..<80} = {})"
proof -
  let ?init = "\<lparr> u_pool = mp_initial (\<lambda>_. None), u_live = {#}, u_storage = {#} \<rparr>"
  have st: "mp_start ?init" by (simp add: mp_start_def mp_initial_def)
  have "mp_index 8 = 0" by (simp add: mp_index_def)
  have "map_option fst (mp_allocate 0 8 (mp_initial (\<lambda>_. None))) = Some 72" by code_simp
  then obtain mp where mp: "mp_allocate 0 8 (mp_initial (\<lambda>_. None)) = Some (72, mp)" by auto
  let ?s = "\<lparr> u_pool = mp, u_live = {#(72, 8)#}, u_storage = {#(0, 80)#} \<rparr>"
  have "takes_chunk 8 (mp_initial (\<lambda>_. None))" using \<open>mp_index 8 = 0\<close> by (simp add: takes_chunk_def mp_initial_def)
  moreover have c: "chunk_size 8 = 80" "extent 8 = 8" by (simp_all add: chunk_size_def extent_def)
  ultimately have "mp_step ?init ?s"
    using mp_step.alloc [of 8 0 ?init 72 mp] mp by (simp add: storage_bytes_def)
  then have r: "mp_step\<^sup>*\<^sup>* ?init ?s" by blast
  have "storage_bytes {#(0, 80)#} = byte_range 0 80" "live_bytes {#(72, 8)#} = byte_range 72 8"
    by (simp_all add: storage_bytes_def live_bytes_def c)
  then have "\<exists>p mp'. mp_allocate 800 8 mp = Some (p, mp') \<and> {p..<p + 8} \<inter> {72..<80} = {}"
    using MemoryPool_blocks [OF st r, THEN conjunct2, THEN conjunct2, THEN conjunct2, THEN conjunct2, rule_format, of 8 800]
    by (simp add: c)
  with st r show ?thesis by (intro exI [of _ ?init] exI [of _ ?s] conjI) simp_all
qed

text \<open>
  a request for no bytes makes the pool index its array of free lists with the largest \<open>size_t\<close>; the STL
  allocator passes such a request on, and refuses more than 1024 elements of any type.
\<close>

theorem MemoryPool_zero:
  assumes "length (free_lists mp) = 16"
  shows "mp_allocate fresh 0 mp = None \<and> mp_deallocate p 0 mp = None \<and> ma_allocate sizeof_T fresh 0 mp = None \<and>
    (1024 < n \<longrightarrow> ma_allocate sizeof_T fresh n mp = Some (Inl bad_alloc))"
proof -
  have "15 < mp_index 0" by (simp add: mp_index_def)
  then have "16 \<le> unat (mp_index 0)" by (simp add: word_less_nat_alt)
  then show ?thesis
    using assms by (simp add: mp_allocate_def mp_deallocate_def ma_allocate_def ma_max_size_def)
qed

theorem MemoryPool_zero_witness:
  "mp_allocate 0 0 (mp_initial (\<lambda>_. None)) = None \<and> ma_allocate 4 0 2000 (mp_initial (\<lambda>_. None)) = Some (Inl bad_alloc)"
  using MemoryPool_zero [of "mp_initial (\<lambda>_. None)" 0 0 4 2000] by (simp add: mp_initial_def)

end
