(* ===== verification/Calendar.thy ===== *)
theory Calendar
  imports Prelude "HOL-Library.Signed_Division"
begin

text \<open>
  The class \<open>Calendar\<close> of \<^verbatim>\<open>include/darwincore/foundation/date/Calendar.h\<close> and \<^verbatim>\<open>Calendar.cpp\<close>: the proleptic Gregorian
  calendar on the numbers of year, month and day. The division of the code truncates (\<open>sdiv\<close>, \<open>smod\<close>). The
  integers are unbounded; \<open>Calendar_bounds\<close> says for which years no \<open>int\<close> of the code overflows. An access outside
  a table is None.
\<close>

section \<open>The functions\<close>

definition isLeapYear :: "int \<Rightarrow> bool" where
  "isLeapYear year \<longleftrightarrow> (year smod 4 = 0 \<and> year smod 100 \<noteq> 0) \<or> year smod 400 = 0"

definition daysInMonth :: "int \<Rightarrow> int \<Rightarrow> int" where
  "daysInMonth year month =
     (if month < 1 \<or> 12 < month then 0
      else if month = 2 \<and> isLeapYear year then 29
      else [0, 31, 28, 31, 30, 31, 30, 31, 31, 30, 31, 30, 31] ! nat month)"

definition daysInYear :: "int \<Rightarrow> int" where
  "daysInYear year = (if isLeapYear year then 366 else 365)"

definition dayOfWeek :: "int \<Rightarrow> int \<Rightarrow> int \<Rightarrow> int" where
  "dayOfWeek year month day =
     (let (month, year) = (if month < 3 then (month + 12, year - 1) else (month, year));
          k = year smod 100;
          j = year sdiv 100;
          h = (day + (13 * (month + 1)) sdiv 5 + k + k sdiv 4 + j sdiv 4 - 2 * j) smod 7
      in (h + 6) smod 7)"

definition dayOfWeekName :: "int \<Rightarrow> bool \<Rightarrow> string" where
  "dayOfWeekName dow abbreviated =
     (if dow < 0 \<or> 6 < dow then ''''
      else if abbreviated then [''Sun'', ''Mon'', ''Tue'', ''Wed'', ''Thu'', ''Fri'', ''Sat''] ! nat dow
      else [''Sunday'', ''Monday'', ''Tuesday'', ''Wednesday'', ''Thursday'', ''Friday'', ''Saturday''] ! nat dow)"

definition monthName :: "int \<Rightarrow> bool \<Rightarrow> string" where
  "monthName month abbreviated =
     (if month < 1 \<or> 12 < month then ''''
      else if abbreviated then
        ['''', ''Jan'', ''Feb'', ''Mar'', ''Apr'', ''May'', ''Jun'', ''Jul'', ''Aug'', ''Sep'', ''Oct'', ''Nov'', ''Dec''] ! nat month
      else
        ['''', ''January'', ''February'', ''March'', ''April'', ''May'', ''June'', ''July'', ''August'', ''September'',
         ''October'', ''November'', ''December''] ! nat month)"

definition firstDayOfMonth :: "int \<Rightarrow> int \<Rightarrow> int" where
  "firstDayOfMonth year month = dayOfWeek year month 1"

definition weeksInMonth :: "int \<Rightarrow> int \<Rightarrow> int" where
  "weeksInMonth year month = (firstDayOfMonth year month + daysInMonth year month + 6) sdiv 7"

definition toJulianDay :: "int \<Rightarrow> int \<Rightarrow> int \<Rightarrow> int" where
  "toJulianDay year month day =
     (let a = (14 - month) sdiv 12;
          y = year + 4800 - a;
          m = month + 12 * a - 3
      in day + (153 * m + 2) sdiv 5 + 365 * y + y sdiv 4 - y sdiv 100 + y sdiv 400 - 32045)"

definition fromJulianDay :: "int \<Rightarrow> int \<times> int \<times> int" where
  "fromJulianDay jd =
     (let a = jd + 32044;
          b = (4 * a + 3) sdiv 146097;
          c = a - 146097 * b sdiv 4;
          d = (4 * c + 3) sdiv 1461;
          e = c - 1461 * d sdiv 4;
          m = (5 * e + 2) sdiv 153
      in (100 * b + d - 4800 + m sdiv 10, m + 3 - 12 * (m sdiv 10), e - (153 * m + 2) sdiv 5 + 1))"

definition daysBetween :: "int \<Rightarrow> int \<Rightarrow> int \<Rightarrow> int \<Rightarrow> int \<Rightarrow> int \<Rightarrow> int" where
  "daysBetween y1 m1 d1 y2 m2 d2 = toJulianDay y2 m2 d2 - toJulianDay y1 m1 d1"

definition addDays :: "int \<Rightarrow> int \<Rightarrow> int \<Rightarrow> int \<Rightarrow> int \<times> int \<times> int" where
  "addDays year month day days = fromJulianDay (toJulianDay year month day + days)"

text \<open>The two loops of \<open>addMonths\<close>.\<close>

function months_down :: "int \<Rightarrow> int \<Rightarrow> int \<times> int" where
  "months_down year month = (if 12 < month then months_down (year + 1) (month - 12) else (year, month))"
  by pat_completeness auto
termination by (relation "measure (\<lambda>(year, month). nat month)") auto

function months_up :: "int \<Rightarrow> int \<Rightarrow> int \<times> int" where
  "months_up year month = (if month < 1 then months_up (year - 1) (month + 12) else (year, month))"
  by pat_completeness auto
termination by (relation "measure (\<lambda>(year, month). nat (1 - month))") auto

declare months_down.simps [simp del] months_up.simps [simp del]

definition addMonths :: "int \<Rightarrow> int \<Rightarrow> int \<Rightarrow> int \<Rightarrow> int \<times> int \<times> int" where
  "addMonths year month day months =
     (let (year, month) = months_down year (month + months);
          (year, month) = months_up year month;
          maxDay = daysInMonth year month
      in (year, month, if maxDay < day then maxDay else day))"

definition dayOfYear :: "int \<Rightarrow> int \<Rightarrow> int \<Rightarrow> int option" where
  "dayOfYear year month day =
     (if month < 0 \<or> 12 < month then None
      else
        let doy = [0, 0, 31, 59, 90, 120, 151, 181, 212, 243, 273, 304, 334] ! nat month + day
        in Some (if 2 < month \<and> isLeapYear year then doy + 1 else doy))"

partial_function (option) weekOfYear :: "int \<Rightarrow> int \<Rightarrow> int \<Rightarrow> int option" where
  "weekOfYear year month day =
     (case dayOfYear year month day of
        None \<Rightarrow> None
      | Some doy \<Rightarrow>
          let dow = dayOfWeek year month day;
              woy = (10 + doy - dow) sdiv 7
          in if woy = 0 then weekOfYear (year - 1) 12 31
             else if woy = 53 \<and> dayOfWeek (year + 1) 1 1 \<le> 4 then Some 1
             else Some woy)"

definition isWeekday :: "int \<Rightarrow> int \<Rightarrow> int \<Rightarrow> bool" where
  "isWeekday year month day \<longleftrightarrow> (let dow = dayOfWeek year month day in 1 \<le> dow \<and> dow \<le> 5)"

definition isWeekend :: "int \<Rightarrow> int \<Rightarrow> int \<Rightarrow> bool" where
  "isWeekend year month day \<longleftrightarrow> \<not> isWeekday year month day"

partial_function (option) nextWeekday :: "int \<Rightarrow> int \<Rightarrow> int \<Rightarrow> (int \<times> int \<times> int) option" where
  "nextWeekday year month day =
     (case addDays year month day 1 of
        (year, month, day) \<Rightarrow> if isWeekend year month day then nextWeekday year month day else Some (year, month, day))"

section \<open>The calendar as a succession of days\<close>

type_synonym civil = "int \<times> int \<times> int"

definition valid_date :: "civil \<Rightarrow> bool" where
  "valid_date = (\<lambda>(y, m, d). 1 \<le> y \<and> 1 \<le> m \<and> m \<le> 12 \<and> 1 \<le> d \<and> d \<le> daysInMonth y m)"

definition next_day :: "civil \<Rightarrow> civil" where
  "next_day = (\<lambda>(y, m, d).
     if d < daysInMonth y m then (y, m, d + 1) else if m < 12 then (y, m + 1, 1) else (y + 1, 1, 1))"

abbreviation day_number :: "civil \<Rightarrow> int" where
  "day_number \<equiv> \<lambda>(y, m, d). toJulianDay y m d"

lemma sdiv_nonneg: "0 \<le> a \<Longrightarrow> 0 < b \<Longrightarrow> a sdiv b = a div (b :: int)"
  by (simp add: signed_divide_int_def sgn_if)

lemma smod_nonneg: "0 \<le> a \<Longrightarrow> 0 < b \<Longrightarrow> a smod b = a mod (b :: int)"
  by (simp add: signed_modulo_int_def sgn_if)

lemma isLeapYear_iff: "isLeapYear y \<longleftrightarrow> 4 dvd y \<and> (100 dvd y \<longrightarrow> 400 dvd y)"
proof -
  have "y smod k = 0 \<longleftrightarrow> k dvd y" if "0 < k" for k
    using that by (auto simp: signed_modulo_int_def mod_eq_0_iff_dvd sgn_0_0)
  then show ?thesis by (auto simp: isLeapYear_def intro: dvd_trans [of 4 400 y])
qed

lemma div_succ:
  fixes n k :: int
  assumes "0 < k"
  shows "(n + 1) div k = n div k + (if k dvd n + 1 then 1 else 0)"
proof (cases "k dvd n + 1")
  case True
  then obtain q where q: "n + 1 = k * q" by (rule dvdE)
  then have "n = k * (q - 1) + (k - 1)" by (simp add: algebra_simps)
  then have "n div k = q - 1" using assms by (simp add: div_mult_self4 [of k])
  then show ?thesis using True q assms by simp
next
  case False
  have "(n + 1) mod k \<noteq> 0" using False by (simp add: dvd_eq_mod_eq_0)
  then have "n mod k + 1 < k"
    using pos_mod_bound [OF assms, of n] mod_add_left_eq [of n k 1] by (cases "n mod k + 1 = k") auto
  then have "(n mod k + 1) div k = 0" using pos_mod_sign [OF assms, of n] by (simp add: div_pos_pos_trivial)
  moreover have "n + 1 = (n mod k + 1) + k * (n div k)" by simp
  then have "(n + 1) div k = n div k + (n mod k + 1) div k"
    using div_mult_self2 [of k "n mod k + 1" "n div k"] assms by (metis less_irrefl)
  ultimately show ?thesis using False by simp
qed

lemma month_cases:
  fixes m :: int
  assumes "1 \<le> m" and "m \<le> 12"
  obtains "m = 1" | "m = 2" | "m = 3" | "m = 4" | "m = 5" | "m = 6" | "m = 7" | "m = 8" | "m = 9" | "m = 10" | "m = 11" | "m = 12"
proof -
  have "m = 1 \<or> m = 2 \<or> m = 3 \<or> m = 4 \<or> m = 5 \<or> m = 6 \<or> m = 7 \<or> m = 8 \<or> m = 9 \<or> m = 10 \<or> m = 11 \<or> m = 12"
    using assms by arith
  with that show ?thesis by blast
qed

text \<open>The closed form of the day number, with the years counted from March.\<close>

definition century_days :: "int \<Rightarrow> int" where
  "century_days y = 365 * y + y div 4 - y div 100 + y div 400"

lemma leap_days:
  "(c \<longrightarrow> b) \<Longrightarrow> (b \<longrightarrow> a) \<Longrightarrow>
    (if a then 1 else 0) - (if b then 1 else 0) + (if c then 1 else 0) = (if a \<and> (b \<longrightarrow> c) then 1 else 0 :: int)"
  by (cases a; cases b; cases c) simp_all

lemma century_days_succ: "century_days (y + 1) = century_days y + 365 + (if isLeapYear (y + 1) then 1 else 0)"
proof -
  have "100 dvd (400 :: int)" "4 dvd (100 :: int)" by simp_all
  then have "400 dvd y + 1 \<longrightarrow> 100 dvd y + 1" "100 dvd y + 1 \<longrightarrow> 4 dvd y + 1"
    by (blast intro: dvd_trans)+
  note leap_days [OF this, folded isLeapYear_iff]
  moreover have "(y + 1) div 4 = y div 4 + (if 4 dvd y + 1 then 1 else 0)"
    "(y + 1) div 100 = y div 100 + (if 100 dvd y + 1 then 1 else 0)"
    "(y + 1) div 400 = y div 400 + (if 400 dvd y + 1 then 1 else 0)"
    by (rule div_succ; simp)+
  moreover have "365 * (y + 1) = 365 * y + 365" by simp
  ultimately show ?thesis unfolding century_days_def by linarith
qed

lemma isLeapYear_shift: "isLeapYear (y + 4800) \<longleftrightarrow> isLeapYear y"
  by (simp add: isLeapYear_iff dvd_add_left_iff)

lemma century_4800: "century_days (y + 4800) = century_days (y + 4799) + 365 + (if isLeapYear y then 1 else 0)"
  using century_days_succ [of "y + 4799"] isLeapYear_shift [of y] by (simp only: add.assoc one_add_one numeral_plus_one) simp

lemma toJulianDay_eq:
  assumes "0 \<le> y" and "1 \<le> m" and "m \<le> 12"
  shows "toJulianDay y m d = d - 32045 +
    (if m < 3 then (153 * (m + 9) + 2) div 5 + century_days (y + 4799) else (153 * (m - 3) + 2) div 5 + century_days (y + 4800))"
proof (cases "m < 3")
  case True
  then have "(14 - m) sdiv 12 = 1" using assms by (simp add: sdiv_nonneg)
  with True show ?thesis using assms by (simp add: toJulianDay_def century_days_def sdiv_nonneg Let_def add.commute [of 4799])
next
  case False
  then have "(14 - m) sdiv 12 = 0" using assms by (simp add: sdiv_nonneg)
  with False show ?thesis using assms by (simp add: toJulianDay_def century_days_def sdiv_nonneg Let_def)
qed

lemma next_day_number:
  assumes "valid_date t"
  shows "day_number (next_day t) = day_number t + 1" "valid_date (next_day t)"
proof -
  obtain y m d where t: "t = (y, m, d)" by (cases t)
  have v: "1 \<le> y" "1 \<le> m" "m \<le> 12" "1 \<le> d" "d \<le> daysInMonth y m" using assms by (auto simp: t valid_date_def)
  note c = century_4800 [of y]
  from v(2,3) show "day_number (next_day t) = day_number t + 1"
    by (rule month_cases) (use v c in \<open>auto simp: t next_day_def toJulianDay_eq daysInMonth_def add.commute [of 4800] split: if_splits\<close>)
  from v(2,3) show "valid_date (next_day t)"
    by (rule month_cases) (use v in \<open>auto simp: t next_day_def valid_date_def daysInMonth_def split: if_splits\<close>)
qed

section \<open>Day numbers\<close>

lemma div_of: "a = b * q + r \<Longrightarrow> 0 \<le> r \<Longrightarrow> r < b \<Longrightarrow> a div b = (q :: int)"
  by (rule int_div_pos_eq)

lemma century_split:
  assumes "0 \<le> r" and "r < 100"
  shows "century_days (100 * q + r) = 36524 * q + q div 4 + 365 * r + r div 4"
proof -
  have "0 \<le> r mod 4" "r mod 4 < 4" "4 * (r div 4) = r - r mod 4" by (simp_all add: minus_mod_eq_mult_div)
  then have d4: "(100 * q + r) div 4 = 25 * q + r div 4"
    by (intro div_of [where r = "r mod 4"]) (simp_all add: algebra_simps)
  have d100: "(100 * q + r) div 100 = q" by (rule div_of [where r = r]) (use assms in simp_all)
  have "(0 :: int) \<le> 4" by simp
  from zdiv_zmult2_eq [OF this, of "100 * q + r" 100] have d400: "(100 * q + r) div 400 = q div 4" unfolding d100 by simp
  have "365 * (100 * q + r) + (25 * q + r div 4) - q + q div 4 = 36524 * q + q div 4 + 365 * r + r div 4"
    by (simp add: algebra_simps)
  then show ?thesis unfolding century_days_def d4 d100 d400 .
qed

lemma split_century:
  fixes q c :: int
  assumes "0 \<le> c" and "4 * c + 3 - q mod 4 < 146097"
  shows "(4 * (36524 * q + q div 4 + c) + 3) div 146097 = q" "146097 * q div 4 = 36524 * q + q div 4"
proof -
  have v: "0 \<le> q mod 4" "q mod 4 < 4" "4 * (q div 4) = q - q mod 4" by (simp_all add: minus_mod_eq_mult_div)
  show "(4 * (36524 * q + q div 4 + c) + 3) div 146097 = q"
    by (rule div_of [where r = "4 * c + 3 - q mod 4"]) (use assms v in \<open>simp_all add: algebra_simps\<close>)
  show "146097 * q div 4 = 36524 * q + q div 4"
    by (rule div_of [where r = "q mod 4"]) (use v in \<open>simp_all add: algebra_simps\<close>)
qed

lemma split_year:
  fixes r e :: int
  assumes "0 \<le> e" and "4 * e + 3 - r mod 4 < 1461"
  shows "(4 * (365 * r + r div 4 + e) + 3) div 1461 = r" "1461 * r div 4 = 365 * r + r div 4"
proof -
  have v: "0 \<le> r mod 4" "r mod 4 < 4" "4 * (r div 4) = r - r mod 4" by (simp_all add: minus_mod_eq_mult_div)
  show "(4 * (365 * r + r div 4 + e) + 3) div 1461 = r"
    by (rule div_of [where r = "4 * e + 3 - r mod 4"]) (use assms v in \<open>simp_all add: algebra_simps\<close>)
  show "1461 * r div 4 = 365 * r + r div 4"
    by (rule div_of [where r = "r mod 4"]) (use v in \<open>simp_all add: algebra_simps\<close>)
qed

lemma leap_end:
  assumes "isLeapYear (100 * q + r + 1)" and "0 \<le> r" and "r < 100"
  shows "r mod 4 = 3" "r = 99 \<Longrightarrow> q mod 4 = 3"
proof -
  have "4 dvd 100 * q + r + 1" using assms(1) by (simp add: isLeapYear_iff)
  moreover have "4 dvd 100 * q" by simp
  ultimately have "4 dvd r + 1" by (metis add.assoc dvd_add_right_iff)
  then show "r mod 4 = 3" by presburger
  show "q mod 4 = 3" if "r = 99"
  proof -
    have "100 * q + r + 1 = 100 * (q + 1)" using that by simp
    then have "isLeapYear (100 * (q + 1))" using assms(1) by (simp only:)
    then have "400 dvd 100 * (q + 1)" unfolding isLeapYear_iff using dvd_triv_left by blast
    moreover have "(400 :: int) = 100 * 4" by simp
    ultimately have "100 * 4 dvd 100 * (q + 1)" by (simp only:)
    then have "4 dvd q + 1" unfolding dvd_mult_cancel_left by simp
    then show ?thesis by presburger
  qed
qed

text \<open>The inverse, for a day \<open>e\<close> of a year \<open>y\<close> that begins in March.\<close>

lemma fromJulianDay_eq:
  assumes y: "0 \<le> y" and e: "0 \<le> e" "e < 365 \<or> e = 365 \<and> isLeapYear (y + 1)"
  shows "fromJulianDay (century_days y + e - 32044) =
    (let m = (5 * e + 2) div 153 in (y - 4800 + m div 10, m + 3 - 12 * (m div 10), e - (153 * m + 2) div 5 + 1))"
proof -
  define q r where "q = y div 100" and "r = y mod 100"
  have y': "y = 100 * q + r" and r: "0 \<le> r" "r < 100" and q: "0 \<le> q" using y by (simp_all add: q_def r_def)
  have r4: "0 \<le> r mod 4" "r mod 4 < 4" "0 \<le> q mod 4" "0 \<le> r div 4" "0 \<le> q div 4" using r q by simp_all
  have leap: "r mod 4 = 3 \<and> (r = 99 \<longrightarrow> q mod 4 = 3)" if "e = 365"
  proof -
    from that e(2) have "isLeapYear (100 * q + r + 1)" unfolding y' by blast
    then show ?thesis using leap_end [OF _ r] by blast
  qed
  have "4 * e + 3 - r mod 4 < 1461"
  proof (cases "e = 365")
    case True
    then show ?thesis using leap by linarith
  next
    case False
    then have "e < 365" using e(2) by blast
    then show ?thesis using r4 by linarith
  qed
  note year = split_year [OF e(1) this]
  define c where "c = 365 * r + r div 4 + e"
  have c: "0 \<le> c" using e(1) r r4 by (simp add: c_def)
  have "4 * c + 3 - q mod 4 < 146097"
  proof (cases "r = 99 \<and> e = 365")
    case True
    moreover from True have "c = 36524" by (simp add: c_def)
    ultimately show ?thesis using leap by linarith
  next
    case False
    have "r div 4 \<le> 24" using r by simp
    then have "c \<le> 36523" using False e(2) r unfolding c_def by linarith
    then show ?thesis using r4 by linarith
  qed
  note century = split_century [OF c this]
  have a: "century_days y + e = 36524 * q + q div 4 + c" using century_split [OF r] by (simp add: y' c_def)
  define m where "m = (5 * e + 2) div 153"
  have m: "(5 * e + 2) sdiv 153 = m" "m sdiv 10 = m div 10" "(153 * m + 2) sdiv 5 = (153 * m + 2) div 5"
    using e(1) by (simp_all add: m_def sdiv_nonneg)
  have b: "(4 * (36524 * q + q div 4 + c) + 3) sdiv 146097 = q"
    using century(1) q r4 c by (simp only: sdiv_nonneg)
  have b': "146097 * q sdiv 4 = 36524 * q + q div 4" using century(2) q by (simp only: sdiv_nonneg)
  have d: "(4 * c + 3) sdiv 1461 = r" using year(1) [folded c_def] c by (simp only: sdiv_nonneg)
  have d': "1461 * r sdiv 4 = 365 * r + r div 4" using year(2) r by (simp only: sdiv_nonneg)
  have a': "century_days y + e - 32044 + 32044 = 36524 * q + q div 4 + c" using a by linarith
  have c': "36524 * q + q div 4 + c - (36524 * q + q div 4) = c" "c - (365 * r + r div 4) = e" by (simp_all add: c_def)
  show ?thesis
    unfolding fromJulianDay_def Let_def a' b b' c' d d' m m_def [symmetric] by (simp only: y')
qed

lemma march_month:
  fixes m d :: int
  assumes "0 \<le> m" and "m \<le> 11" and "1 \<le> d" and "d \<le> (if m = 11 then 29 else if m \<in> {1, 3, 6, 8} then 30 else 31)"
  shows "(5 * ((153 * m + 2) div 5 + d - 1) + 2) div 153 = m"
proof -
  let ?r = "5 * ((153 * m + 2) div 5 + d - 1) + 2 - 153 * m"
  have "m = 0 \<or> m = 1 \<or> m = 2 \<or> m = 3 \<or> m = 4 \<or> m = 5 \<or> m = 6 \<or> m = 7 \<or> m = 8 \<or> m = 9 \<or> m = 10 \<or> m = 11"
    using assms(1,2) by arith
  then have "0 \<le> ?r \<and> ?r < 153" using assms(3,4) by (elim disjE) simp_all
  then show ?thesis by (intro div_of [where r = ?r]) simp_all
qed

lemma from_to:
  assumes "valid_date (y, m, d)"
  shows "fromJulianDay (toJulianDay y m d) = (y, m, d)"
proof -
  have v: "1 \<le> y" "1 \<le> m" "m \<le> 12" "1 \<le> d" "d \<le> daysInMonth y m" using assms by (auto simp: valid_date_def)
  define Y mm where "Y = (if m < 3 then y + 4799 else y + 4800)" and "mm = (if m < 3 then m + 9 else m - 3)"
  define e where "e = (153 * mm + 2) div 5 + d - 1"
  have mm: "0 \<le> mm" "mm \<le> 11" using v by (auto simp: mm_def)
  have leap: "isLeapYear (Y + 1) \<longleftrightarrow> isLeapYear y" if "mm = 11"
    using that v isLeapYear_shift [of y] by (simp add: mm_def Y_def add.commute split: if_splits)
  have d: "d \<le> (if mm = 11 then 29 else if mm \<in> {1, 3, 6, 8} then 30 else 31)"
    "mm = 11 \<longrightarrow> d = 29 \<longrightarrow> isLeapYear y"
    using v(2,3) by (rule month_cases; use v(5) in \<open>simp add: mm_def daysInMonth_def split: if_splits\<close>)+
  have "toJulianDay y m d = century_days Y + e - 32044"
    using v by (simp add: toJulianDay_eq Y_def mm_def e_def)
  moreover have "0 \<le> e" using mm(1) v(4) by (simp add: e_def)
  moreover have "e < 365 \<or> e = 365 \<and> isLeapYear (Y + 1)"
  proof (cases "mm = 11")
    case True
    then have "e = d + 336" by (simp add: e_def)
    then show ?thesis using True d leap by auto
  next
    case False
    then have "(153 * mm + 2) div 5 \<le> (153 * 10 + 2) div 5" using mm by (intro zdiv_mono1) simp_all
    moreover have "d \<le> 31" using d(1) by (simp split: if_splits)
    ultimately show ?thesis by (simp add: e_def)
  qed
  moreover have "(5 * e + 2) div 153 = mm" unfolding e_def by (rule march_month [OF mm v(4) d(1)])
  ultimately show ?thesis
    using fromJulianDay_eq [of Y e] v by (auto simp: Y_def mm_def e_def Let_def)
qed

lemma next_days:
  assumes "valid_date t"
  shows "valid_date ((next_day ^^ n) t)" "day_number ((next_day ^^ n) t) = day_number t + int n"
proof -
  have "valid_date ((next_day ^^ n) t) \<and> day_number ((next_day ^^ n) t) = day_number t + int n"
  proof (induction n)
    case (Suc n)
    then show ?case using next_day_number [of "(next_day ^^ n) t"] by simp
  qed (simp add: assms)
  then show "valid_date ((next_day ^^ n) t)" "day_number ((next_day ^^ n) t) = day_number t + int n" by blast+
qed

lemma addDays_next:
  assumes "valid_date (y, m, d)"
  shows "addDays y m d (int n) = (next_day ^^ n) (y, m, d)"
proof -
  obtain y' m' d' where t: "(next_day ^^ n) (y, m, d) = (y', m', d')" by (metis prod_cases3)
  then show ?thesis
    using next_days [OF assms, of n] from_to [of y' m' d'] by (simp add: addDays_def)
qed

end
