(* ===== verification/CalendarProperties.thy ===== *)
theory CalendarProperties
  imports Calendar
begin

text \<open>
  What the functions of \<open>Calendar\<close> compute: the day of the week, the week of the year, and the arithmetic on days and
  months, against the succession of days.
\<close>

section \<open>Days of the week\<close>

lemma zeller_mod: "(x smod 7 + 6) smod 7 = (x + 6) mod (7 :: int)"
proof (cases "0 \<le> x")
  case True
  then show ?thesis by (simp add: smod_nonneg mod_add_left_eq)
next
  case False
  then have "x smod 7 = - ((- x) mod 7)" by (simp add: signed_modulo_int_def sgn_if)
  moreover have "(- x) mod 7 < 7" by simp
  ultimately show ?thesis using mod_diff_right_eq [of 6 "- x" 7] by (simp add: smod_nonneg algebra_simps)
qed

lemma dayOfWeek_eq:
  assumes "0 \<le> y" and "1 \<le> y \<or> 3 \<le> m" and "1 \<le> m" and "m \<le> 12"
  shows "dayOfWeek y m d = (toJulianDay y m d + 1) mod 7"
proof -
  define Z mm where "Z = (if m < 3 then y - 1 else y)" and "mm = (if m < 3 then m + 9 else m - 3)"
  define q r where "q = Z div 100" and "r = Z mod 100"
  have Z: "0 \<le> Z" using assms by (auto simp: Z_def)
  have mm: "0 \<le> mm" using assms by (auto simp: mm_def)
  have q: "0 \<le> q" "0 \<le> r" "r < 100" "Z = 100 * q + r" using Z by (simp_all add: q_def r_def)
  have "3 * mm + 2 + 5 * (30 * mm) = 153 * mm + 2" "3 * mm + 2 + 5 * (2 * mm + 10) = 13 * (mm + 4)" by simp_all
  moreover have "(3 * mm + 2 + 5 * k) div 5 = k + (3 * mm + 2) div 5" for k by (rule div_mult_self2) simp
  ultimately have d5: "(153 * mm + 2) div 5 = 30 * mm + (3 * mm + 2) div 5" "13 * (mm + 4) div 5 = 2 * mm + 10 + (3 * mm + 2) div 5"
    by metis+
  let ?x = "d + 13 * (mm + 4) div 5 + r + r div 4 + q div 4 - 2 * q"
  have dow: "dayOfWeek y m d = (?x + 6) mod 7"
  proof -
    have "Z smod 100 = r" "Z sdiv 100 = q" using smod_nonneg [OF Z, of 100] sdiv_nonneg [OF Z, of 100] by (simp_all only: q_def r_def)
    moreover have "r sdiv 4 = r div 4" "q sdiv 4 = q div 4" "13 * (mm + 4) sdiv 5 = 13 * (mm + 4) div 5"
      by (rule sdiv_nonneg; use mm q(1,2) in simp)+
    moreover have "(if m < 3 then (m + 12, y - 1) else (m, y)) = (mm + 3, Z)" by (simp add: Z_def mm_def)
    moreover have "mm + 3 + 1 = mm + 4" by simp
    ultimately show ?thesis unfolding zeller_mod [symmetric] dayOfWeek_def Let_def by (simp only: prod.case)
  qed
  have jd: "toJulianDay y m d = d - 32045 + (153 * mm + 2) div 5 + century_days (Z + 4800)"
    using assms by (simp add: toJulianDay_eq Z_def mm_def add.commute [of 4799])
  have cd: "century_days (Z + 4800) = 36524 * (q + 48) + (q div 4 + 12) + 365 * r + r div 4"
  proof -
    have "Z + 4800 = 100 * (q + 48) + r" using q(4) by simp
    moreover have "(q + 48) div 4 = q div 4 + 12" by simp
    ultimately show ?thesis using century_split [OF q(2,3), of "q + 48"] by (simp only:)
  qed
  have "toJulianDay y m d + 1 = (?x + 6) + 7 * (4 * mm + 5218 * q + 52 * r + 245872)"
    unfolding jd cd d5 by (simp add: algebra_simps)
  then have "(toJulianDay y m d + 1) mod 7 = (?x + 6) mod 7" by (simp only: mod_mult_self2)
  with dow show ?thesis by (simp only:)
qed

lemma dayOfWeek_valid: "valid_date (y, m, d) \<Longrightarrow> dayOfWeek y m d = (toJulianDay y m d + 1) mod 7"
  by (rule dayOfWeek_eq) (auto simp: valid_date_def)

lemma dayOfWeek_next:
  assumes "valid_date (y, m, d)" and "next_day (y, m, d) = (y', m', d')"
  shows "dayOfWeek y' m' d' = (dayOfWeek y m d + 1) mod 7"
  using next_day_number [OF assms(1)] assms(2) dayOfWeek_valid [OF assms(1)] dayOfWeek_valid [of y' m' d']
  by (simp add: mod_add_left_eq)

section \<open>Weeks\<close>

text \<open>ISO 8601: a week begins on Monday and belongs to the year of its Thursday.\<close>

definition thursday :: "civil \<Rightarrow> int" where
  "thursday t = day_number t - day_number t mod 7 + 3"

definition iso_week :: "civil \<Rightarrow> int \<Rightarrow> bool" where
  "iso_week t w \<longleftrightarrow> (\<exists>y. toJulianDay y 1 1 \<le> thursday t \<and> thursday t < toJulianDay (y + 1) 1 1 \<and>
     w = (thursday t - toJulianDay y 1 1) div 7 + 1)"

lemma dayOfYear_eq:
  assumes "valid_date (y, m, d)"
  shows "dayOfYear y m d = Some (toJulianDay y m d - toJulianDay y 1 1 + 1)"
proof -
  have v: "1 \<le> y" "1 \<le> m" "m \<le> 12" using assms by (auto simp: valid_date_def)
  note c = century_4800 [of y]
  from v(2,3) show ?thesis
    by (rule month_cases) (use v(1) c in \<open>simp_all add: dayOfYear_def toJulianDay_eq\<close>)
qed

lemma year_length:
  assumes "0 \<le> y"
  shows "toJulianDay (y + 1) 1 1 = toJulianDay y 1 1 + daysInYear y"
  using century_days_succ [of "y + 4799"] isLeapYear_shift [of y] assms
  by (simp add: toJulianDay_eq daysInYear_def ac_simps)

lemma in_year:
  assumes "valid_date (y, m, d)"
  shows "toJulianDay y 1 1 \<le> toJulianDay y m d" "toJulianDay y m d < toJulianDay (y + 1) 1 1"
proof -
  have v: "1 \<le> y" "1 \<le> m" "m \<le> 12" "1 \<le> d" "d \<le> daysInMonth y m" using assms by (auto simp: valid_date_def)
  note c = century_4800 [of y]
  from v(2,3) show "toJulianDay y 1 1 \<le> toJulianDay y m d"
    by (rule month_cases) (use v c in \<open>simp_all add: toJulianDay_eq split: if_splits\<close>)
  from v(2,3) show "toJulianDay y m d < toJulianDay (y + 1) 1 1"
    by (rule month_cases) (use v c in \<open>simp_all add: toJulianDay_eq daysInMonth_def add.commute [of 4800] split: if_splits\<close>)
qed

lemma length_year: "daysInYear y = 365 \<or> daysInYear y = 366"
  by (simp add: daysInYear_def)

lemma thursday_mod: "(j - (j + 1) mod 7 + 4) mod 7 = (3 :: int)"
proof -
  have "j - (j + 1) mod 7 + 4 = (j + 4) - (j + 1) mod 7" by simp
  also have "\<dots> mod 7 = ((j + 4) - (j + 1)) mod 7" by (rule mod_diff_right_eq)
  finally show ?thesis by simp
qed

lemma week_here:
  assumes v: "valid_date (y, m, d)"
  defines "th \<equiv> toJulianDay y m d - dayOfWeek y m d + 4"
  assumes th: "toJulianDay y 1 1 \<le> th"
  shows "weekOfYear y m d = Some (if th < toJulianDay (y + 1) 1 1 then (th - toJulianDay y 1 1) div 7 + 1 else 1)"
    "th \<le> toJulianDay (y + 1) 1 1 + 3"
proof -
  define D where "D = th - toJulianDay y 1 1"
  define rest where "rest = toJulianDay (y + 1) 1 1 - th"
  have y: "1 \<le> y" using v by (simp add: valid_date_def)
  have dow: "dayOfWeek y m d = (toJulianDay y m d + 1) mod 7" by (rule dayOfWeek_valid [OF v])
  have jan: "dayOfWeek (y + 1) 1 1 = (th + rest + 1) mod 7" using y by (simp add: dayOfWeek_eq rest_def)
  have th7: "th mod 7 = 3" unfolding th_def dow by (rule thursday_mod)
  have "dayOfWeek (y + 1) 1 1 = (th mod 7 + (rest + 1)) mod 7" unfolding jan by (simp only: mod_add_left_eq add.assoc)
  then have jan': "dayOfWeek (y + 1) 1 1 = (rest + 4) mod 7" unfolding th7 by (simp add: add.commute)
  have len: "D + rest = 365 \<or> D + rest = 366"
    using year_length [of y] length_year [of y] y by (auto simp: D_def rest_def)
  have "0 \<le> dayOfWeek y m d" by (simp add: dow)
  then show r: "th \<le> toJulianDay (y + 1) 1 1 + 3" using in_year [OF v] by (simp add: th_def)
  have D: "0 \<le> D" "D \<le> 369" using th r len by (auto simp: D_def rest_def)
  have "(10 + (toJulianDay y m d - toJulianDay y 1 1 + 1) - dayOfWeek y m d) sdiv 7 = (D + 7) div 7"
    using D(1) by (subst sdiv_nonneg) (auto simp: D_def th_def algebra_simps)
  then have woy: "(10 + (toJulianDay y m d - toJulianDay y 1 1 + 1) - dayOfWeek y m d) sdiv 7 = D div 7 + 1" by simp
  have "0 \<le> D div 7" using D(1) by simp
  then have unfolded: "weekOfYear y m d = (if D div 7 + 1 = 53 \<and> dayOfWeek (y + 1) 1 1 \<le> 4 then Some 1 else Some (D div 7 + 1))"
    by (subst weekOfYear.simps) (simp only: dayOfYear_eq [OF v] woy option.case Let_def, simp)
  show "weekOfYear y m d = Some (if th < toJulianDay (y + 1) 1 1 then (th - toJulianDay y 1 1) div 7 + 1 else 1)"
  proof (cases "0 < rest")
    case True
    have "\<not> (D div 7 + 1 = 53 \<and> dayOfWeek (y + 1) 1 1 \<le> 4)"
    proof
      assume a: "D div 7 + 1 = 53 \<and> dayOfWeek (y + 1) 1 1 \<le> 4"
      then have "D div 7 = 52" by simp
      then have "364 \<le> D" using div_mult_mod_eq [of D 7] pos_mod_sign [of 7 D] by linarith
      with len True have "rest = 1 \<or> rest = 2" by auto
      then have "dayOfWeek (y + 1) 1 1 = 5 \<or> dayOfWeek (y + 1) 1 1 = 6" unfolding jan' by (elim disjE) simp_all
      with a show False by linarith
    qed
    then show ?thesis unfolding unfolded using True by (simp add: rest_def D_def)
  next
    case False
    then have k: "rest = 0 \<or> rest = - 1 \<or> rest = - 2 \<or> rest = - 3" using r by (auto simp: rest_def)
    then have "dayOfWeek (y + 1) 1 1 \<le> 4" unfolding jan' by (elim disjE) simp_all
    moreover have "365 \<le> D" using len k by auto
    then have "D div 7 = 52" using D(2) by (intro div_of [where r = "D - 364"]) simp_all
    ultimately show ?thesis unfolding unfolded using False by (simp add: rest_def)
  qed
qed

lemma weekOfYear_thursday:
  assumes v: "valid_date (y, m, d)" and y: "1 < y"
  defines "th \<equiv> toJulianDay y m d - dayOfWeek y m d + 4"
  shows "\<exists>w Y. weekOfYear y m d = Some w \<and> toJulianDay Y 1 1 \<le> th \<and> th < toJulianDay (Y + 1) 1 1 \<and>
    w = (th - toJulianDay Y 1 1) div 7 + 1"
proof (cases "toJulianDay y 1 1 \<le> th")
  case True
  note here = week_here [OF v, folded th_def, OF True]
  show ?thesis
  proof (cases "th < toJulianDay (y + 1) 1 1")
    case True
    then show ?thesis using here(1) \<open>toJulianDay y 1 1 \<le> th\<close> by auto
  next
    case False
    then have "th - toJulianDay (y + 1) 1 1 \<in> {0..3}" using here(2) by simp
    then have "(th - toJulianDay (y + 1) 1 1) div 7 = 0" by simp
    moreover have "th < toJulianDay (y + 1 + 1) 1 1"
      using here(2) year_length [of "y + 1"] length_year [of "y + 1"] y by auto
    ultimately show ?thesis using False here(1) by (intro exI [of _ 1] exI [of _ "y + 1"]) auto
  qed
next
  case False
  define J where "J = toJulianDay y 1 1"
  have dow: "dayOfWeek y m d = (toJulianDay y m d + 1) mod 7" by (rule dayOfWeek_valid [OF v])
  have v': "valid_date (y - 1, 12, 31)" using y by (simp add: valid_date_def daysInMonth_def)
  have prev: "J = toJulianDay (y - 1) 1 1 + daysInYear (y - 1)" using year_length [of "y - 1"] y by (simp add: J_def)
  have dec: "toJulianDay (y - 1) 12 31 = J - 1"
    using next_day_number(1) [OF v'] by (simp add: next_day_def daysInMonth_def J_def)
  have th7: "th mod 7 = 3" unfolding th_def dow by (rule thursday_mod)
  have "th = J - 1 \<or> th = J - 2"
    using False in_year(1) [OF v] pos_mod_bound [of 7 "toJulianDay y m d + 1"] by (auto simp: th_def dow J_def)
  then have same: "th = J - 1 - dayOfWeek (y - 1) 12 31 + 4"
    and "0 < 10 + (toJulianDay y m d - J + 1) - dayOfWeek y m d"
    and "10 + (toJulianDay y m d - J + 1) - dayOfWeek y m d < 7"
    using th7 unfolding dayOfWeek_valid [OF v'] dec by (auto simp: th_def) presburger+
  then have "(10 + (toJulianDay y m d - J + 1) - dayOfWeek y m d) sdiv 7 = 0" by (simp add: sdiv_nonneg div_pos_pos_trivial)
  then have "weekOfYear y m d = weekOfYear (y - 1) 12 31"
    by (subst weekOfYear.simps) (simp only: dayOfYear_eq [OF v] J_def [symmetric] option.case Let_def if_True refl)
  moreover have "toJulianDay (y - 1) 1 1 \<le> th" "th < J"
    using \<open>th = J - 1 \<or> th = J - 2\<close> prev length_year [of "y - 1"] by auto
  moreover have "toJulianDay (y - 1) 12 31 - dayOfWeek (y - 1) 12 31 + 4 = th" using same dec by simp
  moreover have "toJulianDay (y - 1 + 1) 1 1 = J" by (simp add: J_def)
  ultimately show ?thesis
    using week_here(1) [OF v'] by (intro exI [of _ "(th - toJulianDay (y - 1) 1 1) div 7 + 1"] exI [of _ "y - 1"]) (simp only: if_True simp_thms)
qed

section \<open>Months and working days\<close>

lemma months_down_eq: "\<exists>y' m'. months_down y m = (y', m') \<and> 12 * y' + m' = 12 * y + m \<and> m' \<le> 12"
proof (induction y m rule: months_down.induct)
  case (1 y m)
  then show ?case by (subst months_down.simps) auto
qed

lemma months_up_eq:
  "m \<le> 12 \<Longrightarrow> \<exists>y' m'. months_up y m = (y', m') \<and> 12 * y' + m' = 12 * y + m \<and> 1 \<le> m' \<and> m' \<le> 12"
proof (induction y m rule: months_up.induct)
  case (1 y m)
  then show ?case by (subst months_up.simps) auto
qed

lemma addMonths_eq:
  "\<exists>y' m'. addMonths y m d n = (y', m', min d (daysInMonth y' m')) \<and> 12 * y' + m' = 12 * y + m + n \<and> 1 \<le> m' \<and> m' \<le> 12"
proof -
  obtain y1 m1 where 1: "months_down y (m + n) = (y1, m1)" "12 * y1 + m1 = 12 * y + (m + n)" "m1 \<le> 12"
    using months_down_eq by blast
  obtain y2 m2 where "months_up y1 m1 = (y2, m2)" "12 * y2 + m2 = 12 * y1 + m1" "1 \<le> m2" "m2 \<le> 12"
    using months_up_eq [OF 1(3)] by blast
  then show ?thesis using 1 by (intro exI [of _ y2] exI [of _ m2]) (auto simp: addMonths_def min_def)
qed

definition weekday :: "civil \<Rightarrow> int" where
  "weekday t = (case t of (y, m, d) \<Rightarrow> dayOfWeek y m d)"

lemma weekday_next:
  assumes "valid_date t"
  shows "weekday ((next_day ^^ n) t) = (weekday t + int n) mod 7"
proof -
  have "weekday u = (day_number u + 1) mod 7" if "valid_date u" for u
    using that by (cases u) (simp add: weekday_def dayOfWeek_valid)
  then show ?thesis
    using next_days [OF assms, of n] assms by (simp add: mod_add_left_eq add.assoc add.commute [of "int n"])
qed

lemma nextWeekday_step:
  assumes "valid_date t"
  shows "(case t of (y, m, d) \<Rightarrow> nextWeekday y m d) =
    (if 1 \<le> weekday (next_day t) \<and> weekday (next_day t) \<le> 5 then Some (next_day t)
     else case next_day t of (y, m, d) \<Rightarrow> nextWeekday y m d)"
proof -
  obtain y m d y' m' d' where t: "t = (y, m, d)" "next_day (y, m, d) = (y', m', d')" by (metis prod_cases3)
  then have "addDays y m d 1 = (y', m', d')" using addDays_next [of y m d 1] assms by simp
  then have "nextWeekday y m d = (if isWeekend y' m' d' then nextWeekday y' m' d' else Some (y', m', d'))"
    by (subst nextWeekday.simps) simp
  then show ?thesis by (auto simp: t weekday_def isWeekend_def isWeekday_def Let_def)
qed

text \<open>From Friday and Saturday the loop turns three times and twice, otherwise once.\<close>

definition weekday_steps :: "int \<Rightarrow> nat" where
  "weekday_steps dow = (if dow = 5 then 3 else if dow = 6 then 2 else 1)"

lemma nextWeekday_eq:
  assumes "valid_date t"
  shows "(case t of (y, m, d) \<Rightarrow> nextWeekday y m d) = Some ((next_day ^^ weekday_steps (weekday t)) t)"
proof -
  let ?t = "\<lambda>n. (next_day ^^ n) t"
  have v: "valid_date (?t n)" for n by (rule next_days(1) [OF assms])
  have step: "(case ?t n of (y, m, d) \<Rightarrow> nextWeekday y m d) =
    (if 1 \<le> (weekday t + int (Suc n)) mod 7 \<and> (weekday t + int (Suc n)) mod 7 \<le> 5 then Some (?t (Suc n))
     else case ?t (Suc n) of (y, m, d) \<Rightarrow> nextWeekday y m d)" for n
    using nextWeekday_step [OF v, of n] weekday_next [OF assms, of "Suc n"] by simp
  have "weekday t = weekday t mod 7" using weekday_next [OF assms, of 0] by simp
  then have "weekday t \<in> {0..6}" using pos_mod_bound [of 7 "weekday t"] pos_mod_sign [of 7 "weekday t"] by simp
  then have "weekday t = 0 \<or> weekday t = 1 \<or> weekday t = 2 \<or> weekday t = 3 \<or> weekday t = 4 \<or> weekday t = 5 \<or> weekday t = 6"
    by auto
  then show ?thesis
    using step [of 0] step [of "Suc 0"] step [of "Suc (Suc 0)"]
    by (elim disjE) (simp_all add: weekday_steps_def numeral_3_eq_3 numeral_2_eq_2)
qed

text \<open>Up to the year 1000000 no \<open>int\<close> of the code overflows on the way to a day number and back.\<close>

lemma century_days_bound: "0 \<le> y \<Longrightarrow> 0 \<le> century_days y \<and> century_days y \<le> 366 * y"
proof -
  assume y: "0 \<le> y"
  have "y div 400 \<le> y div 100" "y div 100 \<le> y div 4" using y by (simp_all add: zdiv_mono2)
  moreover have "y div 4 \<le> y" "0 \<le> y div 400" using y zdiv_mono2 [of y 1 4] by simp_all
  ultimately show ?thesis using y unfolding century_days_def by simp
qed

lemma Calendar_bounds:
  assumes "valid_date (y, m, d)" and "y \<le> 1000000"
  shows "0 \<le> toJulianDay y m d + 32044" "4 * (toJulianDay y m d + 32044) + 3 < 2 ^ 31"
    "146097 * ((4 * (toJulianDay y m d + 32044) + 3) div 146097) < 2 ^ 31" "365 * (y + 4800) + (y + 4800) div 4 < 2 ^ 31"
proof -
  have y: "1 \<le> y" using assms(1) by (simp add: valid_date_def)
  have "toJulianDay y m d < century_days (y + 4800) - 31738" "century_days (y + 4799) - 31738 \<le> toJulianDay y m d"
    using in_year [OF assms(1)] y by (simp_all add: toJulianDay_eq ac_simps)
  moreover have "0 \<le> century_days (y + 4799)" "century_days (y + 4800) \<le> 366 * (y + 4800)"
    using century_days_bound [of "y + 4799"] century_days_bound [of "y + 4800"] y by simp_all
  ultimately show b: "0 \<le> toJulianDay y m d + 32044" "4 * (toJulianDay y m d + 32044) + 3 < 2 ^ 31"
    using assms(2) by simp_all
  then show "146097 * ((4 * (toJulianDay y m d + 32044) + 3) div 146097) < 2 ^ 31"
    using minus_mod_eq_mult_div [of "4 * (toJulianDay y m d + 32044) + 3" 146097]
      pos_mod_sign [of 146097 "4 * (toJulianDay y m d + 32044) + 3"] by linarith
  have "(y + 4800) div 4 \<le> y + 4800" using y zdiv_mono2 [of "y + 4800" 1 4] by simp
  then show "365 * (y + 4800) + (y + 4800) div 4 < 2 ^ 31" using assms(2) by simp
qed

section \<open>Properties\<close>



text \<open>
  the day of the week advances by one each day, modulo seven, and is right on one day, so it is right on
  all; \<open>nextWeekday\<close> returns, with the first of the following days that is neither Saturday nor Sunday; \<open>addMonths\<close>
  moves by that many months and keeps the day unless the month is too short.
\<close>

theorem Calendar_weekdays:
  assumes "valid_date (y, m, d)"
  shows "weekday ((next_day ^^ n) (y, m, d)) = (dayOfWeek y m d + int n) mod 7 \<and> dayOfWeek 1970 1 1 = 4 \<and>
    (\<exists>n. nextWeekday y m d = Some ((next_day ^^ n) (y, m, d)) \<and> 0 < n \<and> weekday ((next_day ^^ n) (y, m, d)) \<in> {1..5} \<and>
      (\<forall>k. 0 < k \<and> k < n \<longrightarrow> weekday ((next_day ^^ k) (y, m, d)) \<notin> {1..5})) \<and>
    (\<exists>y' m'. addMonths y m d k = (y', m', min d (daysInMonth y' m')) \<and> 12 * y' + m' = 12 * y + m + k \<and> 1 \<le> m' \<and> m' \<le> 12)"
proof (intro conjI)
  let ?w = "weekday (y, m, d)"
  have w: "?w = dayOfWeek y m d" by (simp add: weekday_def)
  show "weekday ((next_day ^^ n) (y, m, d)) = (dayOfWeek y m d + int n) mod 7" using weekday_next [OF assms] w by simp
  show "dayOfWeek 1970 1 1 = 4" by code_simp
  show "\<exists>y' m'. addMonths y m d k = (y', m', min d (daysInMonth y' m')) \<and> 12 * y' + m' = 12 * y + m + k \<and> 1 \<le> m' \<and> m' \<le> 12"
    by (rule addMonths_eq)
  have "0 \<le> ?w \<and> ?w < 7" unfolding w dayOfWeek_valid [OF assms] by simp
  then have range: "?w = 0 \<or> ?w = 1 \<or> ?w = 2 \<or> ?w = 3 \<or> ?w = 4 \<or> ?w = 5 \<or> ?w = 6" by auto
  then have last_day: "(?w + int (weekday_steps ?w)) mod 7 \<in> {1..5}" by (elim disjE) (simp_all add: weekday_steps_def)
  have between: "(?w + int k) mod 7 \<notin> {1..5}" if "0 < k" "k < weekday_steps ?w" for k
  proof -
    have "k = 1 \<or> k = 2" using that by (auto simp: weekday_steps_def split: if_splits)
    with range that(2) show ?thesis by (elim disjE) (simp_all add: weekday_steps_def)
  qed
  show "\<exists>n. nextWeekday y m d = Some ((next_day ^^ n) (y, m, d)) \<and> 0 < n \<and> weekday ((next_day ^^ n) (y, m, d)) \<in> {1..5} \<and>
      (\<forall>k. 0 < k \<and> k < n \<longrightarrow> weekday ((next_day ^^ k) (y, m, d)) \<notin> {1..5})"
    using nextWeekday_eq [OF assms] last_day between
    by (intro exI [of _ "weekday_steps ?w"]) (auto simp: weekday_next [OF assms] weekday_steps_def)
qed

theorem Calendar_weekdays_witness:
  "\<exists>n. nextWeekday 2024 3 1 = Some ((next_day ^^ n) (2024, 3, 1)) \<and> 0 < n \<and> addMonths 2024 1 31 1 = (2024, 2, 29)"
proof -
  have v: "valid_date (2024, 3, 1)" "valid_date (2024, 1, 31)" by code_simp+
  have "daysInMonth 2024 2 = 29" by code_simp
  moreover obtain y' m' where "addMonths 2024 1 31 1 = (y', m', min 31 (daysInMonth y' m'))" "12 * y' + m' = 12 * 2024 + 2" "1 \<le> m'" "m' \<le> 12"
    using Calendar_weekdays [OF v(2), of 0 1] by auto
  moreover from calculation(3-5) have "y' = 2024" "m' = 2" by presburger+
  ultimately show ?thesis using Calendar_weekdays [OF v(1), of 0 0] by auto
qed

text \<open>
  \<open>weekOfYear\<close>, documented as the week of ISO 8601, returns it for Monday to Saturday; on a Sunday it
  returns the week of the following Monday.
\<close>

theorem Calendar_weekOfYear:
  assumes "valid_date (y, m, d)" and "1 < y"
  shows "\<exists>w. weekOfYear y m d = Some w \<and>
    iso_week (if dayOfWeek y m d = 0 then next_day (y, m, d) else (y, m, d)) w"
proof -
  define th where "th = toJulianDay y m d - dayOfWeek y m d + 4"
  have dow: "dayOfWeek y m d = (toJulianDay y m d + 1) mod 7" by (rule dayOfWeek_valid [OF assms(1)])
  define u where "u = (if dayOfWeek y m d = 0 then next_day (y, m, d) else (y, m, d))"
  have th: "thursday u = th"
  proof (cases "dayOfWeek y m d = 0")
    case True
    then have "day_number u = toJulianDay y m d + 1" using next_day_number(1) [OF assms(1)] by (simp add: u_def)
    moreover have "(toJulianDay y m d + 1) mod 7 = 0" using True by (simp only: dow)
    ultimately show ?thesis using True by (simp only: thursday_def th_def)
  next
    case False
    have "toJulianDay y m d mod 7 + 1 = dayOfWeek y m d"
      using False mod_add_left_eq [of "toJulianDay y m d" 7 1] pos_mod_bound [of 7 "toJulianDay y m d"]
      unfolding dow by (cases "toJulianDay y m d mod 7 = 6") (simp_all add: mod_pos_pos_trivial)
    then show ?thesis using False by (simp add: u_def thursday_def th_def)
  qed
  obtain w Y where "weekOfYear y m d = Some w" "toJulianDay Y 1 1 \<le> th" "th < toJulianDay (Y + 1) 1 1"
    "w = (th - toJulianDay Y 1 1) div 7 + 1"
    using weekOfYear_thursday [OF assms] unfolding th_def by blast
  then have "weekOfYear y m d = Some w \<and> iso_week u w" unfolding iso_week_def th by blast
  then show ?thesis unfolding u_def by blast
qed

theorem Calendar_weekOfYear_witness:
  "\<exists>w. weekOfYear 2023 1 2 = Some w \<and> iso_week (2023, 1, 2) w"
proof -
  have "valid_date (2023, 1, 2)" "dayOfWeek 2023 1 2 = 1" by code_simp+
  then show ?thesis using Calendar_weekOfYear [of 2023 1 2] by simp
qed

end
