(* ===== verification/Encoding.thy ===== *)
theory Encoding
  imports Prelude
begin

unbundle bit_operations_syntax

text \<open>
  The portable part of \<open>EncodingConverter\<close> (\<^verbatim>\<open>include/darwincore/foundation/string/Encoding.h\<close>, \<^verbatim>\<open>Encoding.cpp\<close>):
  conversions between UTF-8, UTF-16 and UTF-32, the check of UTF-8 and the count of characters. A \<open>char\<close> is a
  byte. Only \<open>utf8ToUtf32\<close> can fail to return, and only it can read past the end of its argument; both are shown
  not to happen for strings that pass the check. The conversion through CoreFoundation is not modelled.
\<close>

section \<open>Single characters\<close>

definition utf8CharLength :: "u8 \<Rightarrow> nat" where
  "utf8CharLength c =
     (if c AND 0x80 = 0 then 1
      else if c AND 0xE0 = 0xC0 then 2
      else if c AND 0xF0 = 0xE0 then 3
      else if c AND 0xF8 = 0xF0 then 4
      else 0)"

definition encodeUtf8Char :: "u32 \<Rightarrow> bytes" where
  "encodeUtf8Char cp =
     (if cp < 0x80 then [ucast cp]
      else if cp < 0x800 then [ucast (0xC0 OR drop_bit 6 cp), ucast (0x80 OR (cp AND 0x3F))]
      else if cp < 0x10000 then
        [ucast (0xE0 OR drop_bit 12 cp), ucast (0x80 OR (drop_bit 6 cp AND 0x3F)), ucast (0x80 OR (cp AND 0x3F))]
      else
        [ucast (0xF0 OR drop_bit 18 cp), ucast (0x80 OR (drop_bit 12 cp AND 0x3F)),
         ucast (0x80 OR (drop_bit 6 cp AND 0x3F)), ucast (0x80 OR (cp AND 0x3F))])"

text \<open>The code points put together from two, three and four bytes.\<close>

definition join2 :: "u8 \<Rightarrow> u8 \<Rightarrow> u32" where
  "join2 a b = push_bit 6 (ucast a AND 0x1F) OR (ucast b AND 0x3F)"

definition join3 :: "u8 \<Rightarrow> u8 \<Rightarrow> u8 \<Rightarrow> u32" where
  "join3 a b c = push_bit 12 (ucast a AND 0x0F) OR push_bit 6 (ucast b AND 0x3F) OR (ucast c AND 0x3F)"

definition join4 :: "u8 \<Rightarrow> u8 \<Rightarrow> u8 \<Rightarrow> u8 \<Rightarrow> u32" where
  "join4 a b c d = push_bit 18 (ucast a AND 0x07) OR push_bit 12 (ucast b AND 0x3F) OR
     push_bit 6 (ucast c AND 0x3F) OR (ucast d AND 0x3F)"

datatype encoding_error = bad_access

text \<open>\<open>operator[]\<close> of a string: the position after the last character holds a zero, those beyond do not exist.\<close>

definition str_at :: "bytes \<Rightarrow> nat \<Rightarrow> encoding_error + u8" where
  "str_at str i = (if i < length str then Inr (str ! i) else if i = length str then Inr 0 else Inl bad_access)"

text \<open>Reading n characters from position i.\<close>

definition str_chars :: "bytes \<Rightarrow> nat \<Rightarrow> nat \<Rightarrow> encoding_error + bytes" where
  "str_chars str i n = traverse (str_at str) [i..<i + n]"

definition decodeUtf8Char :: "bytes \<Rightarrow> nat \<Rightarrow> encoding_error + u32 \<times> nat" where
  "decodeUtf8Char str i =
     (case str_at str i of Inl e \<Rightarrow> Inl e | Inr c \<Rightarrow>
        let len = utf8CharLength c in
        (case str_chars str i len of
           Inl e \<Rightarrow> Inl e
         | Inr [a] \<Rightarrow> Inr (ucast a, i + len)
         | Inr [a, b] \<Rightarrow> Inr (join2 a b, i + len)
         | Inr [a, b, c] \<Rightarrow> Inr (join3 a b c, i + len)
         | Inr [a, b, c, d] \<Rightarrow> Inr (join4 a b c d, i + len)
         | Inr _ \<Rightarrow> Inr (0, i + len)))"

section \<open>Strings\<close>

definition utf32ToUtf8 :: "u32 list \<Rightarrow> bytes" where
  "utf32ToUtf8 utf32 = foldl (\<lambda>result cp. result @ encodeUtf8Char cp) [] utf32"

partial_function (option) utf8ToUtf32_loop :: "bytes \<Rightarrow> nat \<Rightarrow> u32 list \<Rightarrow> (encoding_error + u32 list) option" where
  "utf8ToUtf32_loop utf8 i result =
     (if i < length utf8
      then (case decodeUtf8Char utf8 i of
              Inl e \<Rightarrow> Some (Inl e)
            | Inr (cp, j) \<Rightarrow> utf8ToUtf32_loop utf8 j (result @ [cp]))
      else Some (Inr result))"

definition utf8ToUtf32 :: "bytes \<Rightarrow> (encoding_error + u32 list) option" where
  "utf8ToUtf32 utf8 = utf8ToUtf32_loop utf8 0 []"

definition utf16_codepoint :: "bytes \<Rightarrow> nat \<Rightarrow> u32 option" where
  "utf16_codepoint utf8 i =
     (let len = utf8CharLength (utf8 ! i) in
      if len = 1 then Some (ucast (utf8 ! i))
      else if len = 2 \<and> i + 1 < length utf8 then Some (join2 (utf8 ! i) (utf8 ! (i + 1)))
      else if len = 3 \<and> i + 2 < length utf8 then Some (join3 (utf8 ! i) (utf8 ! (i + 1)) (utf8 ! (i + 2)))
      else if len = 4 \<and> i + 3 < length utf8
        then Some (join4 (utf8 ! i) (utf8 ! (i + 1)) (utf8 ! (i + 2)) (utf8 ! (i + 3)))
      else None)"

definition utf16_units :: "u32 \<Rightarrow> u16 list" where
  "utf16_units codepoint =
     (if codepoint \<le> 0xFFFF then [ucast codepoint]
      else let codepoint = codepoint - 0x10000
           in [ucast (0xD800 + drop_bit 10 codepoint), ucast (0xDC00 + (codepoint AND 0x3FF))])"

function utf8ToUtf16_loop :: "bytes \<Rightarrow> nat \<Rightarrow> u16 list \<Rightarrow> u16 list" where
  "utf8ToUtf16_loop utf8 i result =
     (if i < length utf8
      then (case utf16_codepoint utf8 i of
              None \<Rightarrow> utf8ToUtf16_loop utf8 (i + 1) result
            | Some codepoint \<Rightarrow>
                utf8ToUtf16_loop utf8 (i + utf8CharLength (utf8 ! i)) (result @ utf16_units codepoint))
      else result)"
  by pat_completeness auto
termination
  by (relation "measure (\<lambda>(utf8, i, result). length utf8 - i)")
    (auto simp: utf16_codepoint_def Let_def split: if_splits)

definition utf8ToUtf16 :: "bytes \<Rightarrow> u16 list" where
  "utf8ToUtf16 utf8 = utf8ToUtf16_loop utf8 0 []"

text \<open>The code point at position i and the number of units it takes.\<close>

definition utf16_at :: "u16 list \<Rightarrow> nat \<Rightarrow> u32 \<times> nat" where
  "utf16_at utf16 i =
     (let codepoint = ucast (utf16 ! i) :: u32 in
      if 0xD800 \<le> codepoint \<and> codepoint \<le> 0xDBFF \<and> i + 1 < length utf16
      then let low = utf16 ! (i + 1)
           in if 0xDC00 \<le> low \<and> low \<le> 0xDFFF
              then (0x10000 + push_bit 10 (codepoint - 0xD800) + (ucast low - 0xDC00), 2)
              else (codepoint, 1)
      else (codepoint, 1))"

function utf16ToUtf8_loop :: "u16 list \<Rightarrow> nat \<Rightarrow> bytes \<Rightarrow> bytes" where
  "utf16ToUtf8_loop utf16 i result =
     (if i < length utf16
      then let (codepoint, n) = utf16_at utf16 i
           in utf16ToUtf8_loop utf16 (i + n) (result @ encodeUtf8Char codepoint)
      else result)"
  by pat_completeness auto
termination
  by (relation "measure (\<lambda>(utf16, i, result). length utf16 - i)")
    (auto simp: utf16_at_def Let_def split: if_splits)

definition utf16ToUtf8 :: "u16 list \<Rightarrow> bytes" where
  "utf16ToUtf8 utf16 = utf16ToUtf8_loop utf16 0 []"

function isValidUtf8_loop :: "bytes \<Rightarrow> nat \<Rightarrow> bool" where
  "isValidUtf8_loop str i =
     (if i < length str
      then let len = utf8CharLength (str ! i)
           in if len = 0 \<or> length str < i + len then False
              else if list_ex (\<lambda>j. str ! (i + j) AND 0xC0 \<noteq> 0x80) [1..<len] then False
              else isValidUtf8_loop str (i + len)
      else True)"
  by pat_completeness auto
termination by (relation "measure (\<lambda>(str, i). length str - i)") auto

definition isValidUtf8 :: "bytes \<Rightarrow> bool" where
  "isValidUtf8 str = isValidUtf8_loop str 0"

function utf8CharCount_loop :: "bytes \<Rightarrow> nat \<Rightarrow> nat \<Rightarrow> nat" where
  "utf8CharCount_loop str i count =
     (if i < length str
      then let len = utf8CharLength (str ! i)
           in if len = 0 then count else utf8CharCount_loop str (i + len) (count + 1)
      else count)"
  by pat_completeness auto
termination by (relation "measure (\<lambda>(str, i, count). length str - i)") auto

definition utf8CharCount :: "bytes \<Rightarrow> nat" where
  "utf8CharCount str = utf8CharCount_loop str 0 0"

declare utf8ToUtf16_loop.simps [simp del] utf16ToUtf8_loop.simps [simp del] isValidUtf8_loop.simps [simp del]
  utf8CharCount_loop.simps [simp del]

section \<open>Encoding and decoding a character\<close>

lemma join_bits: "push_bit n (take_bit m (drop_bit n w)) OR take_bit n w = take_bit (n + m) (w :: 'a::len word)"
  by (rule bit_word_eqI) (auto simp: bit_simps)

lemma ucast_take: "ucast (ucast x :: u8) = take_bit 8 (x :: u32)"
  by (rule bit_word_eqI) (auto simp: bit_simps)

lemma small_word: "unat (w :: 'a::len word) < 2 ^ n \<Longrightarrow> take_bit n w = w"
  by (simp add: word_unat_eq_iff unsigned_take_bit_eq take_bit_nat_eq_self)

text \<open>What the masks select: the payload of a first byte and of a continuation byte.\<close>

lemma and_payload:
  "take_bit 8 (0xC0 OR x) AND 0x1F = take_bit 5 (x :: u32)" "take_bit 8 (0xE0 OR x) AND 0x0F = take_bit 4 x"
  "take_bit 8 (0xF0 OR x) AND 0x07 = take_bit 3 x" "take_bit 8 (0x80 OR (x AND 0x3F)) AND 0x3F = take_bit 6 x"
  by (simp_all add: take_bit_eq_mask mask_eq_exp_minus_1 bit.conj_disj_distrib2 and.assoc)

lemma join_encoded:
  "cp < 0x800 \<Longrightarrow> join2 (ucast (0xC0 OR drop_bit 6 cp)) (ucast (0x80 OR (cp AND 0x3F))) = cp"
  "cp < 0x10000 \<Longrightarrow> join3 (ucast (0xE0 OR drop_bit 12 cp)) (ucast (0x80 OR (drop_bit 6 cp AND 0x3F)))
     (ucast (0x80 OR (cp AND 0x3F))) = cp"
  "cp < 0x200000 \<Longrightarrow> join4 (ucast (0xF0 OR drop_bit 18 cp)) (ucast (0x80 OR (drop_bit 12 cp AND 0x3F)))
     (ucast (0x80 OR (drop_bit 6 cp AND 0x3F))) (ucast (0x80 OR (cp AND 0x3F))) = cp"
proof -
  have 1: "push_bit 6 (take_bit 5 (drop_bit 6 cp)) OR take_bit 6 cp = take_bit 11 cp"
    using join_bits [of 6 5 cp] by simp
  have 2: "push_bit 12 (take_bit 4 (drop_bit 12 cp)) OR push_bit 6 (take_bit 6 (drop_bit 6 cp)) OR take_bit 6 cp = take_bit 16 cp"
    using join_bits [of 6 6 cp] join_bits [of 12 4 cp] by (simp add: or.assoc)
  have 3: "push_bit 18 (take_bit 3 (drop_bit 18 cp)) OR push_bit 12 (take_bit 6 (drop_bit 12 cp)) OR
      push_bit 6 (take_bit 6 (drop_bit 6 cp)) OR take_bit 6 cp = take_bit 21 cp"
    using join_bits [of 6 6 cp] join_bits [of 12 6 cp] join_bits [of 18 3 cp] by (simp add: or.assoc)
  show "join2 (ucast (0xC0 OR drop_bit 6 cp)) (ucast (0x80 OR (cp AND 0x3F))) = cp" if "cp < 0x800"
    unfolding join2_def ucast_take and_payload using that 1 small_word [of cp 11] by (simp add: word_less_nat_alt)
  show "join3 (ucast (0xE0 OR drop_bit 12 cp)) (ucast (0x80 OR (drop_bit 6 cp AND 0x3F)))
     (ucast (0x80 OR (cp AND 0x3F))) = cp" if "cp < 0x10000"
    unfolding join3_def ucast_take and_payload using that 2 small_word [of cp 16] by (simp add: word_less_nat_alt)
  show "join4 (ucast (0xF0 OR drop_bit 18 cp)) (ucast (0x80 OR (drop_bit 12 cp AND 0x3F)))
     (ucast (0x80 OR (drop_bit 6 cp AND 0x3F))) (ucast (0x80 OR (cp AND 0x3F))) = cp" if "cp < 0x200000"
    unfolding join4_def ucast_take and_payload using that 3 small_word [of cp 21] by (simp add: word_less_nat_alt)
qed

lemma and_above: "unat (y :: u8) < 2 ^ n \<Longrightarrow> mask n AND m = 0 \<Longrightarrow> y AND m = 0"
  by (metis and.assoc and_zero_eq small_word take_bit_eq_mask)

text \<open>The first byte tells the length.\<close>

lemma lead_length:
  "unat y < 32 \<Longrightarrow> utf8CharLength (0xC0 OR y) = 2" "unat y < 16 \<Longrightarrow> utf8CharLength (0xE0 OR y) = 3"
  "unat y < 8 \<Longrightarrow> utf8CharLength (0xF0 OR y) = 4" "unat y < 128 \<Longrightarrow> utf8CharLength y = 1"
proof -
  note m = mask_eq_exp_minus_1 [where ?'a = u8]
  have "y AND 0x80 = 0" "y AND 0xE0 = 0" if "unat y < 32"
    using that and_above [of y 5 "0x80"] and_above [of y 5 "0xE0"] by (simp_all add: m)
  then show "unat y < 32 \<Longrightarrow> utf8CharLength (0xC0 OR y) = 2"
    by (simp add: utf8CharLength_def bit.conj_disj_distrib2)
  have "y AND 0x80 = 0" "y AND 0xE0 = 0" "y AND 0xF0 = 0" if "unat y < 16"
    using that and_above [of y 4 "0x80"] and_above [of y 4 "0xE0"] and_above [of y 4 "0xF0"] by (simp_all add: m)
  then show "unat y < 16 \<Longrightarrow> utf8CharLength (0xE0 OR y) = 3"
    by (simp add: utf8CharLength_def bit.conj_disj_distrib2)
  have "y AND 0x80 = 0" "y AND 0xE0 = 0" "y AND 0xF0 = 0" "y AND 0xF8 = 0" if "unat y < 8"
    using that and_above [of y 3 "0x80"] and_above [of y 3 "0xE0"] and_above [of y 3 "0xF0"] and_above [of y 3 "0xF8"]
    by (simp_all add: m)
  then show "unat y < 8 \<Longrightarrow> utf8CharLength (0xF0 OR y) = 4"
    by (simp add: utf8CharLength_def bit.conj_disj_distrib2)
  show "unat y < 128 \<Longrightarrow> utf8CharLength y = 1"
    using and_above [of y 7 "0x80"] by (simp add: m utf8CharLength_def)
qed

lemma ucast_or: "ucast (a OR b :: u32) = (ucast a OR ucast b :: u8)"
  by (rule bit_word_eqI) (auto simp: bit_simps)

lemma unat_ucast8: "unat (x :: u32) < 256 \<Longrightarrow> unat (ucast x :: u8) = unat x"
  by (simp add: unsigned_ucast_eq take_bit_nat_eq_self)

lemma unat_shifted: "unat (x :: u32) < 2 ^ (n + m) \<Longrightarrow> unat (drop_bit n x) < 2 ^ m"
  by (simp add: unat_drop_bit_eq drop_bit_eq_div [where ?'a = nat] less_mult_imp_div_less power_add mult.commute)

lemma continuation: "ucast (0x80 OR (x AND 0x3F) :: u32) AND 0xC0 = (0x80 :: u8)"
proof -
  have "ucast (x AND 0x3F) = (ucast x AND 0x3F :: u8)" by (rule bit_word_eqI) (auto simp: bit_simps)
  then show ?thesis by (simp add: ucast_or bit.conj_disj_distrib2 and.assoc)
qed

lemma encoded_length:
  assumes "cp < 0x200000"
  shows "utf8CharLength (hd (encodeUtf8Char cp)) = length (encodeUtf8Char cp)"
proof -
  have n: "unat cp < 0x200000" using assms by (simp add: word_less_nat_alt)
  have "unat (drop_bit 6 cp) < 32" if "cp < 0x800" using unat_shifted [of cp 6 5] that by (simp add: word_less_nat_alt)
  moreover have "unat (drop_bit 12 cp) < 16" if "cp < 0x10000" using unat_shifted [of cp 12 4] that by (simp add: word_less_nat_alt)
  moreover have "unat (drop_bit 18 cp) < 8" using unat_shifted [of cp 18 3] n by simp
  moreover have "unat cp < 128" if "cp < 0x80" using that by (simp add: word_less_nat_alt)
  ultimately show ?thesis
    by (auto simp: encodeUtf8Char_def ucast_or lead_length unat_ucast8)
qed

lemma encoded_nonempty [simp]: "encodeUtf8Char cp \<noteq> []"
  by (simp add: encodeUtf8Char_def)

lemma encoded_hd: "(encodeUtf8Char cp @ post) ! 0 = hd (encodeUtf8Char cp)"
  by (cases "encodeUtf8Char cp") simp_all

text \<open>The bytes of a character, wherever it stands in a string.\<close>

lemma str_chars_in: "i + n \<le> length str \<Longrightarrow> str_chars str i n = Inr (take n (drop i str))"
proof -
  assume le: "i + n \<le> length str"
  then have "str_chars str i n = Inr (map (\<lambda>j. str ! j) [i..<i + n])"
    unfolding str_chars_def by (intro traverse_Inr) (auto simp: str_at_def)
  also have "map (\<lambda>j. str ! j) [i..<i + n] = take n (drop i str)" using le by (intro nth_equalityI) auto
  finally show ?thesis .
qed

lemma decode_at:
  assumes "cp < 0x200000" and "str = pre @ encodeUtf8Char cp @ post"
  shows "decodeUtf8Char str (length pre) = Inr (cp, length pre + length (encodeUtf8Char cp))"
    "utf16_codepoint str (length pre) = Some cp"
    "utf8CharLength (str ! length pre) = length (encodeUtf8Char cp)"
proof -
  have at: "str ! length pre = hd (encodeUtf8Char cp)" using encoded_hd [of cp post] by (simp add: assms(2) nth_append)
  have lt: "length pre < length str" by (simp add: assms(2))
  show len: "utf8CharLength (str ! length pre) = length (encodeUtf8Char cp)" using encoded_length [OF assms(1)] at by simp
  have chars: "str_chars str (length pre) (length (encodeUtf8Char cp)) = Inr (encodeUtf8Char cp)"
    using str_chars_in [of "length pre" "length (encodeUtf8Char cp)" str] by (simp add: assms(2))
  have one: "ucast (ucast cp :: u8) = cp" if "cp < 0x80"
    using that small_word [of cp 8] by (simp add: ucast_take word_less_nat_alt)
  show "decodeUtf8Char str (length pre) = Inr (cp, length pre + length (encodeUtf8Char cp))"
    using lt len chars one assms(1)
    by (auto simp: decodeUtf8Char_def str_at_def encodeUtf8Char_def join_encoded)
  show "utf16_codepoint str (length pre) = Some cp"
    using len one assms(1)
    by (auto simp: utf16_codepoint_def Let_def assms(2) nth_append encodeUtf8Char_def join_encoded split: if_splits)
qed

section \<open>UTF-16 units of a character\<close>

definition is_scalar :: "u32 \<Rightarrow> bool" where
  "is_scalar cp \<longleftrightarrow> cp < 0xD800 \<or> 0xDFFF < cp \<and> cp < 0x110000"

lemma scalar_small: "is_scalar cp \<Longrightarrow> cp < 0x200000"
  by (auto simp: is_scalar_def word_less_nat_alt)

lemma ucast16:
  assumes "unat (x :: u32) < 2 ^ 16"
  shows "ucast (ucast x :: u16) = x" "unat (ucast x :: u16) = unat x"
proof -
  have "ucast (ucast x :: u16) = take_bit 16 x" by (rule bit_word_eqI) (auto simp: bit_simps)
  then show "ucast (ucast x :: u16) = x" using small_word [OF assms] by simp
  show "unat (ucast x :: u16) = unat x" using assms by (simp add: unsigned_ucast_eq take_bit_nat_eq_self)
qed

lemma surrogates:
  assumes "unat c < 0x100000"
  defines "hi \<equiv> 0xD800 + drop_bit 10 (c :: u32)" and "lo \<equiv> 0xDC00 + (c AND 0x3FF)"
  shows "unat hi < 2 ^ 16" "unat lo < 2 ^ 16" "0xD800 \<le> hi" "hi \<le> 0xDBFF" "0xDC00 \<le> unat lo" "unat lo \<le> 0xDFFF"
    "push_bit 10 (hi - 0xD800) + (lo - 0xDC00) = c"
proof -
  have and10: "c AND 0x3FF = take_bit 10 c" by (simp add: take_bit_eq_mask mask_eq_exp_minus_1)
  have h: "unat (drop_bit 10 c) < 1024" using unat_shifted [of c 10 10] assms(1) by simp
  have l: "unat (take_bit 10 c) < 1024" by (simp add: unsigned_take_bit_eq take_bit_eq_mod [where ?'a = nat])
  have hi: "unat hi = 0xD800 + unat (drop_bit 10 c)" using h unfolding hi_def by (subst unat_word_ariths) simp
  have lo: "unat lo = 0xDC00 + unat (take_bit 10 c)" using l unfolding lo_def and10 by (subst unat_word_ariths) simp
  show "unat hi < 2 ^ 16" "unat lo < 2 ^ 16" "0xDC00 \<le> unat lo" "unat lo \<le> 0xDFFF" using h l hi lo by simp_all
  show "0xD800 \<le> hi" "hi \<le> 0xDBFF" using h hi by (simp_all add: word_le_nat_alt)
  show "push_bit 10 (hi - 0xD800) + (lo - 0xDC00) = c"
    using bits_ident [of 10 c] unfolding hi_def lo_def and10 by simp
qed

lemma utf16_at_units:
  assumes "is_scalar cp" and "utf16 = pre @ utf16_units cp @ post"
  shows "utf16_at utf16 (length pre) = (cp, length (utf16_units cp))"
proof (cases "cp \<le> 0xFFFF")
  case True
  then have "ucast (ucast cp :: u16) = cp" by (intro ucast16(1)) (simp add: word_le_nat_alt)
  moreover have "\<not> (0xD800 \<le> cp \<and> cp \<le> 0xDBFF)"
    using assms(1) by (auto simp: is_scalar_def word_le_nat_alt word_less_nat_alt)
  ultimately show ?thesis using True by (auto simp: utf16_at_def assms(2) utf16_units_def nth_append Let_def)
next
  case False
  define c where "c = cp - 0x10000"
  have "unat cp < 0x110000" "0x10000 \<le> cp" "0x10000 \<le> unat cp"
    using assms(1) False by (auto simp: is_scalar_def word_le_nat_alt word_less_nat_alt)
  then have c: "unat c < 0x100000" by (simp add: c_def unat_sub)
  note s = surrogates [OF c]
  have u: "utf16_units cp = [ucast (0xD800 + drop_bit 10 c), ucast (0xDC00 + (c AND 0x3FF))]"
    using False by (simp add: utf16_units_def c_def Let_def)
  have "0xDC00 \<le> (ucast (0xDC00 + (c AND 0x3FF)) :: u16)" "(ucast (0xDC00 + (c AND 0x3FF)) :: u16) \<le> 0xDFFF"
    using s(5,6) by (simp_all add: word_le_nat_alt ucast16(2) [OF s(2)])
  moreover have "0x10000 + push_bit 10 (0xD800 + drop_bit 10 c - 0xD800) + (0xDC00 + (c AND 0x3FF) - 0xDC00) = cp"
    using s(7) by (simp add: c_def add.assoc)
  ultimately show ?thesis
    using s(3,4) by (simp add: utf16_at_def assms(2) u nth_append Let_def ucast16(1) [OF s(1)] ucast16(1) [OF s(2)])
qed

lemma utf16_units_nonempty [simp]: "utf16_units cp \<noteq> []"
  by (simp add: utf16_units_def Let_def)

section \<open>Whole strings\<close>

lemma utf32ToUtf8_concat: "utf32ToUtf8 cps = concat (map encodeUtf8Char cps)"
proof -
  have "foldl (\<lambda>result cp. result @ encodeUtf8Char cp) r cps = r @ concat (map encodeUtf8Char cps)" for r
    by (induction cps arbitrary: r) simp_all
  then show ?thesis by (simp add: utf32ToUtf8_def)
qed

lemma encoded_continuation: "0 < j \<Longrightarrow> j < length (encodeUtf8Char cp) \<Longrightarrow> encodeUtf8Char cp ! j AND 0xC0 = 0x80"
  by (auto simp: encodeUtf8Char_def continuation nth_Cons' split: if_splits)

text \<open>Each loop at the beginning of a sequence of encoded characters.\<close>

lemma utf8ToUtf32_loop_encoded:
  "list_all (\<lambda>cp. cp < 0x200000) cps \<Longrightarrow>
     utf8ToUtf32_loop (pre @ concat (map encodeUtf8Char cps)) (length pre) r = Some (Inr (r @ cps))"
proof (induction cps arbitrary: pre r)
  case Nil
  then show ?case by (simp add: utf8ToUtf32_loop.simps)
next
  case (Cons cp cps)
  then have "cp < 0x200000" by simp
  from decode_at(1) [OF this refl, of pre "concat (map encodeUtf8Char cps)"]
    Cons.IH [of "pre @ encodeUtf8Char cp" "r @ [cp]"] Cons.prems
  show ?case by (simp add: utf8ToUtf32_loop.simps [of _ "length pre"])
qed

lemma utf8ToUtf16_loop_encoded:
  "list_all (\<lambda>cp. cp < 0x200000) cps \<Longrightarrow>
     utf8ToUtf16_loop (pre @ concat (map encodeUtf8Char cps)) (length pre) r = r @ concat (map utf16_units cps)"
proof (induction cps arbitrary: pre r)
  case Nil
  then show ?case by (simp add: utf8ToUtf16_loop.simps)
next
  case (Cons cp cps)
  then have "cp < 0x200000" by simp
  from decode_at(2,3) [OF this refl, of pre "concat (map encodeUtf8Char cps)"]
    Cons.IH [of "pre @ encodeUtf8Char cp" "r @ utf16_units cp"] Cons.prems
  show ?case by (simp add: utf8ToUtf16_loop.simps [of _ "length pre"])
qed

lemma utf8CharCount_loop_encoded:
  "list_all (\<lambda>cp. cp < 0x200000) cps \<Longrightarrow>
     utf8CharCount_loop (pre @ concat (map encodeUtf8Char cps)) (length pre) n = n + length cps"
proof (induction cps arbitrary: pre n)
  case Nil
  then show ?case by (simp add: utf8CharCount_loop.simps)
next
  case (Cons cp cps)
  then have "cp < 0x200000" by simp
  from decode_at(3) [OF this refl, of pre "concat (map encodeUtf8Char cps)"]
    Cons.IH [of "pre @ encodeUtf8Char cp" "n + 1"] Cons.prems
  show ?case by (simp add: utf8CharCount_loop.simps [of _ "length pre"] Let_def)
qed

lemma isValidUtf8_loop_encoded:
  "list_all (\<lambda>cp. cp < 0x200000) cps \<Longrightarrow> isValidUtf8_loop (pre @ concat (map encodeUtf8Char cps)) (length pre)"
proof (induction cps arbitrary: pre)
  case Nil
  then show ?case by (simp add: isValidUtf8_loop.simps)
next
  case (Cons cp cps)
  then have "cp < 0x200000" by simp
  note d = decode_at(3) [OF this refl, of pre "concat (map encodeUtf8Char cps)"]
  have "(pre @ encodeUtf8Char cp @ concat (map encodeUtf8Char cps)) ! (length pre + j) AND 0xC0 = 0x80"
    if "0 < j" "j < length (encodeUtf8Char cp)" for j
    using encoded_continuation [OF that] that by (simp add: nth_append)
  with d Cons.IH [of "pre @ encodeUtf8Char cp"] Cons.prems show ?case
    by (auto simp: isValidUtf8_loop.simps [of _ "length pre"] Let_def list_ex_iff)
qed

lemma utf16ToUtf8_loop_units:
  "list_all is_scalar cps \<Longrightarrow>
     utf16ToUtf8_loop (pre @ concat (map utf16_units cps)) (length pre) r = r @ concat (map encodeUtf8Char cps)"
proof (induction cps arbitrary: pre r)
  case Nil
  then show ?case by (simp add: utf16ToUtf8_loop.simps)
next
  case (Cons cp cps)
  then have "is_scalar cp" by simp
  from utf16_at_units [OF this refl, of pre "concat (map utf16_units cps)"]
    Cons.IH [of "pre @ utf16_units cp" "r @ encodeUtf8Char cp"] Cons.prems
  show ?case by (simp add: utf16ToUtf8_loop.simps [of _ "length pre"] Let_def)
qed

section \<open>Strings that pass the check\<close>

lemma decode_len:
  assumes "i < length str" and "i + utf8CharLength (str ! i) \<le> length str"
  shows "\<exists>cp. decodeUtf8Char str i = Inr (cp, i + utf8CharLength (str ! i))"
  using assms str_chars_in [OF assms(2)]
  by (auto simp: decodeUtf8Char_def str_at_def Let_def split: list.split)

lemma valid_decodes:
  "isValidUtf8_loop str i \<Longrightarrow> \<exists>cps. utf8ToUtf32_loop str i r = Some (Inr (r @ cps)) \<and>
     utf8CharCount_loop str i n = n + length cps"
proof (induction str i arbitrary: r n rule: isValidUtf8_loop.induct)
  case (1 str i)
  show ?case
  proof (cases "i < length str")
    case True
    let ?len = "utf8CharLength (str ! i)"
    have v: "?len \<noteq> 0" "i + ?len \<le> length str" "isValidUtf8_loop str (i + ?len)"
      "\<not> list_ex (\<lambda>j. str ! (i + j) AND 0xC0 \<noteq> 0x80) [1..<?len]"
      using "1.prems" True unfolding isValidUtf8_loop.simps [of str i] by (auto simp: Let_def split: if_splits)
    obtain cp where cp: "decodeUtf8Char str i = Inr (cp, i + ?len)" using decode_len [OF True v(2)] by blast
    obtain cps where "utf8ToUtf32_loop str (i + ?len) (r @ [cp]) = Some (Inr ((r @ [cp]) @ cps))"
      "utf8CharCount_loop str (i + ?len) (n + 1) = n + 1 + length cps"
      using "1.IH" [OF True refl _ v(4,3), of "r @ [cp]" "n + 1"] v(1,2) by auto
    with True v(1) cp show ?thesis
      by (intro exI [of _ "cp # cps"])
        (simp add: utf8ToUtf32_loop.simps [of _ i] utf8CharCount_loop.simps [of _ i] Let_def)
  qed (simp add: utf8ToUtf32_loop.simps utf8CharCount_loop.simps)
qed

text \<open>The decoder passes over a valid prefix.\<close>

lemma valid_prefix:
  "isValidUtf8_loop p i \<Longrightarrow> i \<le> length p \<Longrightarrow> \<exists>r'. utf8ToUtf32_loop (p @ q) i r = utf8ToUtf32_loop (p @ q) (length p) r'"
proof (induction p i arbitrary: r rule: isValidUtf8_loop.induct)
  case (1 p i)
  show ?case
  proof (cases "i < length p")
    case True
    let ?len = "utf8CharLength (p ! i)"
    have v: "?len \<noteq> 0" "i + ?len \<le> length p" "isValidUtf8_loop p (i + ?len)"
      "\<not> list_ex (\<lambda>j. p ! (i + j) AND 0xC0 \<noteq> 0x80) [1..<?len]"
      using "1.prems" True unfolding isValidUtf8_loop.simps [of p i] by (auto simp: Let_def split: if_splits)
    have at: "(p @ q) ! i = p ! i" using True by (simp add: nth_append)
    then obtain cp where cp: "decodeUtf8Char (p @ q) i = Inr (cp, i + ?len)"
      using decode_len [of i "p @ q"] True v(2) by auto
    obtain r' where "utf8ToUtf32_loop (p @ q) (i + ?len) (r @ [cp]) = utf8ToUtf32_loop (p @ q) (length p) r'"
      using "1.IH" [OF True refl _ v(4,3) v(2), of "r @ [cp]"] v(1,2) by auto
    with True cp show ?thesis by (intro exI [of _ r']) (simp add: utf8ToUtf32_loop.simps [of _ i])
  qed (use "1.prems" in auto)
qed

lemma zero_length_hangs:
  assumes "i < length str" and "utf8CharLength (str ! i) = 0"
  shows "utf8ToUtf32_loop str i r = None"
proof (rule ccontr)
  assume "utf8ToUtf32_loop str i r \<noteq> None"
  then obtain y where "utf8ToUtf32_loop str i r = Some y" by blast
  then have "\<not> (i < length str \<and> utf8CharLength (str ! i) = 0)"
  proof (rule utf8ToUtf32_loop.raw_induct
      [where P = "\<lambda>str i r y. \<not> (i < length str \<and> utf8CharLength (str ! i) = 0)", rotated])
    fix loop str i r y
    assume ih: "\<And>str i r y. loop str i r = Some y \<Longrightarrow> \<not> (i < length str \<and> utf8CharLength (str ! i) = 0)"
      and b: "(if i < length str then case decodeUtf8Char str i of Inl e \<Rightarrow> Some (Inl e)
          | Inr (cp, j) \<Rightarrow> loop str j (r @ [cp]) else Some (Inr r)) = Some y"
    show "\<not> (i < length str \<and> utf8CharLength (str ! i) = 0)"
    proof
      assume i: "i < length str \<and> utf8CharLength (str ! i) = 0"
      then have "decodeUtf8Char str i = Inr (0, i)"
        by (simp add: decodeUtf8Char_def str_at_def str_chars_def Let_def)
      with b i have "loop str i (r @ [0]) = Some y" by simp
      with ih i show False by blast
    qed
  qed
  with assms show False by simp
qed

section \<open>Properties\<close>

text \<open>
  C19: text survives the conversions. For every sequence of Unicode scalar values, its UTF-8 form passes the
  check, has that many characters and is decoded to the same sequence; and converting it to UTF-16 and back
  gives the same bytes.
\<close>

theorem Encoding_roundtrip:
  assumes "list_all is_scalar cps"
  shows "isValidUtf8 (utf32ToUtf8 cps) \<and> utf8CharCount (utf32ToUtf8 cps) = length cps \<and>
    utf8ToUtf32 (utf32ToUtf8 cps) = Some (Inr cps) \<and>
    utf16ToUtf8 (utf8ToUtf16 (utf32ToUtf8 cps)) = utf32ToUtf8 cps"
proof -
  have small: "list_all (\<lambda>cp. cp < 0x200000) cps" using assms scalar_small by (auto simp: list_all_iff)
  show ?thesis
    using isValidUtf8_loop_encoded [OF small, of "[]"] utf8CharCount_loop_encoded [OF small, of "[]" 0]
      utf8ToUtf32_loop_encoded [OF small, of "[]" "[]"] utf8ToUtf16_loop_encoded [OF small, of "[]" "[]"]
      utf16ToUtf8_loop_units [OF assms, of "[]" "[]"]
    by (simp add: utf32ToUtf8_concat isValidUtf8_def utf8CharCount_def utf8ToUtf32_def utf8ToUtf16_def utf16ToUtf8_def)
qed

theorem Encoding_roundtrip_witness:
  "utf8ToUtf32 (utf32ToUtf8 [0x41, 0xE9, 0x4E2D, 0x1F600]) = Some (Inr [0x41, 0xE9, 0x4E2D, 0x1F600]) \<and>
   utf16ToUtf8 (utf8ToUtf16 (utf32ToUtf8 [0x41, 0xE9, 0x4E2D, 0x1F600])) = utf32ToUtf8 [0x41, 0xE9, 0x4E2D, 0x1F600]"
  using Encoding_roundtrip [of "[0x41, 0xE9, 0x4E2D, 0x1F600]"] by (simp add: is_scalar_def)

text \<open>
  a string that passes the check is decoded without reading past its end, to as many code points as it
  has characters. A string that begins like a valid one and goes on with a byte that cannot start a character
  makes \<open>utf8ToUtf32\<close> run for ever: it adds a zero at every round and never advances.
\<close>

theorem Encoding_decode_returns:
  "(isValidUtf8 str \<longrightarrow> (\<exists>cps. utf8ToUtf32 str = Some (Inr cps) \<and> length cps = utf8CharCount str)) \<and>
   (isValidUtf8 str \<and> utf8CharLength b = 0 \<longrightarrow> utf8ToUtf32 (str @ b # rest) = None)"
proof (intro conjI impI)
  assume "isValidUtf8 str"
  then show "\<exists>cps. utf8ToUtf32 str = Some (Inr cps) \<and> length cps = utf8CharCount str"
    using valid_decodes [of str 0 "[]" 0] by (auto simp: isValidUtf8_def utf8ToUtf32_def utf8CharCount_def)
next
  assume "isValidUtf8 str \<and> utf8CharLength b = 0"
  then show "utf8ToUtf32 (str @ b # rest) = None"
    using valid_prefix [of str 0 "b # rest" "[]"] zero_length_hangs [of "length str" "str @ b # rest"]
    by (auto simp: isValidUtf8_def utf8ToUtf32_def)
qed

theorem Encoding_decode_returns_witness:
  "utf8ToUtf32 [0x41, 0x80] = None \<and> (\<exists>cps. utf8ToUtf32 [0x41] = Some (Inr cps) \<and> length cps = utf8CharCount [0x41])"
proof -
  have "isValidUtf8 [0x41]" "utf8CharLength 0x80 = 0"
    by (simp_all add: isValidUtf8_def isValidUtf8_loop.simps utf8CharLength_def)
  then show ?thesis using Encoding_decode_returns [of "[0x41]" "0x80" "[]"] by simp
qed

text \<open>
  the check looks at the form of a character only: it accepts the two-byte form of the code point 0,
  which no encoder produces and which changes when it is decoded and encoded again.
\<close>

theorem Encoding_accepts_overlong:
  "isValidUtf8 [0xC0, 0x80] \<and> utf8ToUtf32 [0xC0, 0x80] = Some (Inr [0]) \<and> utf32ToUtf8 [0] \<noteq> [0xC0, 0x80]"
proof -
  have l: "utf8CharLength 0xC0 = 2" by (simp add: utf8CharLength_def)
  have d: "decodeUtf8Char [0xC0, 0x80] 0 = Inr (0, 2)"
    using str_chars_in [of 0 2 "[0xC0, 0x80]"] l by (simp add: decodeUtf8Char_def str_at_def join2_def)
  have "isValidUtf8 [0xC0, 0x80]"
    by (simp add: isValidUtf8_def isValidUtf8_loop.simps l numeral_2_eq_2)
  moreover have "utf8ToUtf32 [0xC0, 0x80] = Some (Inr [0])"
    by (simp add: utf8ToUtf32_def utf8ToUtf32_loop.simps d)
  ultimately show ?thesis by (simp add: utf32ToUtf8_def encodeUtf8Char_def)
qed

end
