(* ===== verification/Events.thy ===== *)
theory Events
  imports Prelude
begin

text \<open>
  The data that cross the threads of the network module: \<^verbatim>\<open>include/darwincore/network/event.h\<close> and
  the configuration of \<^verbatim>\<open>include/darwincore/network/configuration.h\<close>.
\<close>

datatype NetworkEventType = kConnected | kData | kDisconnected | kError

datatype NetworkError = kPeerClosed | kResetByPeer | kTimeout | kConnectionRefused
  | kNetworkUnreachable | kProtocolViolation | kSyscallFailure

record ConnectionInformation =
  ci_connection_id :: u64
  ci_peer_address :: string
  ci_peer_port :: u16
  ci_is_unix_domain :: bool

definition ConnectionInformation_ctor :: "u64 \<Rightarrow> string \<Rightarrow> u16 \<Rightarrow> bool \<Rightarrow> ConnectionInformation" where
  "ConnectionInformation_ctor i address port unix_domain = \<lparr> ci_connection_id = i,
     ci_peer_address = address, ci_peer_port = port, ci_is_unix_domain = unix_domain \<rparr>"

record NetworkEvent =
  ne_type :: NetworkEventType
  ne_connection_id :: u64
  ne_payload :: bytes
  ne_connection_info :: "ConnectionInformation option"
  ne_error :: "NetworkError option"
  ne_error_message :: string

definition NetworkEvent_ctor :: "NetworkEventType \<Rightarrow> u64 \<Rightarrow> NetworkEvent" where
  "NetworkEvent_ctor t i = \<lparr> ne_type = t, ne_connection_id = i, ne_payload = [],
     ne_connection_info = None, ne_error = None, ne_error_message = [] \<rparr>"

datatype SocketProtocol = kIPv4 | kIPv6 | kUniversalIP | kUnixDomain

fun ToString :: "SocketProtocol \<Rightarrow> string" where
  "ToString kIPv4 = ''IPv4''"
| "ToString kIPv6 = ''IPv6''"
| "ToString kUniversalIP = ''UniversalIP''"
| "ToString kUnixDomain = ''UnixDomain''"

record SocketConfiguration =
  cfg_protocol :: SocketProtocol
  cfg_host :: string
  cfg_port :: u16
  cfg_backlog :: int

definition kDefaultWorkerCount :: nat where "kDefaultWorkerCount = 4"
definition kDefaultEventBatchSize :: nat where "kDefaultEventBatchSize = 64"
definition kDefaultReceiveBufferSize :: nat where "kDefaultReceiveBufferSize = 8192"
definition kDefaultMaxQueueSize :: nat where "kDefaultMaxQueueSize = 10000"

definition SocketConfiguration_ctor :: SocketConfiguration where
  "SocketConfiguration_ctor = \<lparr> cfg_protocol = kIPv4, cfg_host = ''0.0.0.0'', cfg_port = 0,
     cfg_backlog = 128 \<rparr>"

definition SocketConfiguration_IPv4 :: "string \<Rightarrow> u16 \<Rightarrow> int \<Rightarrow> SocketConfiguration" where
  "SocketConfiguration_IPv4 host port backlog = SocketConfiguration_ctor\<lparr>cfg_protocol := kIPv4,
     cfg_host := host, cfg_port := port, cfg_backlog := backlog\<rparr>"

definition SocketConfiguration_IPv6 :: "string \<Rightarrow> u16 \<Rightarrow> int \<Rightarrow> SocketConfiguration" where
  "SocketConfiguration_IPv6 host port backlog = SocketConfiguration_ctor\<lparr>cfg_protocol := kIPv6,
     cfg_host := host, cfg_port := port, cfg_backlog := backlog\<rparr>"

definition SocketConfiguration_UniversalIP :: "string \<Rightarrow> u16 \<Rightarrow> int \<Rightarrow> SocketConfiguration" where
  "SocketConfiguration_UniversalIP host port backlog = SocketConfiguration_ctor\<lparr>cfg_protocol := kUniversalIP,
     cfg_host := host, cfg_port := port, cfg_backlog := backlog\<rparr>"

definition SocketConfiguration_UnixDomain :: "string \<Rightarrow> int \<Rightarrow> SocketConfiguration" where
  "SocketConfiguration_UnixDomain path backlog = SocketConfiguration_ctor\<lparr>cfg_protocol := kUnixDomain,
     cfg_host := path, cfg_port := 0, cfg_backlog := backlog\<rparr>"

end
