(* ===== verification/ConcurrentQueue.thy ===== *)
theory ConcurrentQueue
  imports Prelude
begin

text \<open>
  The class template \<open>ConcurrentQueue\<close> of \<^verbatim>\<open>src/darwincore/network/concurrent_queue.h\<close>. Every
  operation holds the mutex from its first read to its last write, so operations of concurrent
  threads are a sequence of atomic steps. A call that waits on a condition variable takes its step
  when its condition holds (or when its timeout has passed); until then it changes nothing. \<open>Enqueue\<close>
  on a full queue that is not stopped is such a wait: the model returns None.
\<close>

section \<open>State and operations\<close>

record 'a ConcurrentQueue =
  cq_queue :: "'a list"
  cq_max_size :: nat
  cq_is_stopped :: bool

definition ConcurrentQueue_ctor :: "nat \<Rightarrow> 'a ConcurrentQueue" where
  "ConcurrentQueue_ctor max_size = \<lparr> cq_queue = [], cq_max_size = max_size, cq_is_stopped = False \<rparr>"

definition Enqueue :: "'a \<Rightarrow> 'a ConcurrentQueue \<Rightarrow> (bool \<times> 'a ConcurrentQueue) option" where
  "Enqueue v q =
     (if cq_max_size q > 0 \<and> \<not> (length (cq_queue q) < cq_max_size q \<or> cq_is_stopped q) then None
      else if cq_is_stopped q then Some (False, q)
      else Some (True, q\<lparr>cq_queue := cq_queue q @ [v]\<rparr>))"

definition TryEnqueue :: "'a \<Rightarrow> 'a ConcurrentQueue \<Rightarrow> bool \<times> 'a ConcurrentQueue" where
  "TryEnqueue v q =
     (if cq_max_size q > 0 \<and> length (cq_queue q) \<ge> cq_max_size q then (False, q)
      else if cq_is_stopped q then (False, q)
      else (True, q\<lparr>cq_queue := cq_queue q @ [v]\<rparr>))"

definition TryDequeue :: "'a ConcurrentQueue \<Rightarrow> 'a option \<times> 'a ConcurrentQueue" where
  "TryDequeue q = (case cq_queue q of [] \<Rightarrow> (None, q) | v # vs \<Rightarrow> (Some v, q\<lparr>cq_queue := vs\<rparr>))"

text \<open>\<open>wait_for\<close> returns the predicate's value: at wake-up or when the timeout has passed.\<close>

definition WaitDequeue :: "'a ConcurrentQueue \<Rightarrow> 'a option \<times> 'a ConcurrentQueue" where
  "WaitDequeue q =
     (let success = (cq_queue q \<noteq> [] \<or> cq_is_stopped q)
      in if \<not> success \<or> cq_is_stopped q \<or> cq_queue q = [] then (None, q)
         else (Some (hd (cq_queue q)), q\<lparr>cq_queue := tl (cq_queue q)\<rparr>))"

definition NotifyStop :: "'a ConcurrentQueue \<Rightarrow> 'a ConcurrentQueue" where
  "NotifyStop q = q\<lparr>cq_is_stopped := True\<rparr>"

definition ResetStopped :: "'a ConcurrentQueue \<Rightarrow> 'a ConcurrentQueue" where
  "ResetStopped q = q\<lparr>cq_is_stopped := False\<rparr>"

definition IsEmpty :: "'a ConcurrentQueue \<Rightarrow> bool" where
  "IsEmpty q \<longleftrightarrow> cq_queue q = []"

definition Size :: "'a ConcurrentQueue \<Rightarrow> nat" where
  "Size q = length (cq_queue q)"

definition IsFull :: "'a ConcurrentQueue \<Rightarrow> bool" where
  "IsFull q \<longleftrightarrow> cq_max_size q > 0 \<and> length (cq_queue q) \<ge> cq_max_size q"

section \<open>The non-blocking operations are a bounded FIFO\<close>

definition cq_invar :: "'a ConcurrentQueue \<Rightarrow> bool" where
  "cq_invar q \<longleftrightarrow> (cq_max_size q > 0 \<longrightarrow> length (cq_queue q) \<le> cq_max_size q)"

definition cq_room :: "'a ConcurrentQueue \<Rightarrow> bool" where
  "cq_room q \<longleftrightarrow> \<not> IsFull q \<and> \<not> cq_is_stopped q"

lemmas cq_defs = Enqueue_def TryEnqueue_def TryDequeue_def WaitDequeue_def NotifyStop_def
  ResetStopped_def IsFull_def cq_room_def cq_invar_def

interpretation cq: bounded_fifo cq_invar cq_queue cq_room TryEnqueue TryDequeue
  by unfold_locales (auto simp: cq_defs split: list.splits)

section \<open>Concurrent use\<close>

text \<open>One atomic step of some thread, with what it put in and what it took out.\<close>

inductive cq_step :: "'a ConcurrentQueue \<Rightarrow> 'a list \<Rightarrow> 'a list \<Rightarrow> 'a ConcurrentQueue \<Rightarrow> bool" where
  enqueue: "Enqueue v q = Some (ok, q') \<Longrightarrow> cq_step q (if ok then [v] else []) [] q'"
| try_enqueue: "TryEnqueue v q = (ok, q') \<Longrightarrow> cq_step q (if ok then [v] else []) [] q'"
| try_dequeue: "TryDequeue q = (r, q') \<Longrightarrow> cq_step q [] (case r of None \<Rightarrow> [] | Some v \<Rightarrow> [v]) q'"
| wait_dequeue: "WaitDequeue q = (r, q') \<Longrightarrow> cq_step q [] (case r of None \<Rightarrow> [] | Some v \<Rightarrow> [v]) q'"
| notify_stop: "cq_step q [] [] (NotifyStop q)"
| reset: "cq_step q [] [] (ResetStopped q)"

inductive cq_trace :: "'a ConcurrentQueue \<Rightarrow> 'a list \<Rightarrow> 'a list \<Rightarrow> 'a ConcurrentQueue \<Rightarrow> bool" where
  nil: "cq_trace q [] [] q"
| cons: "cq_step q ins outs q1 \<Longrightarrow> cq_trace q1 ins' outs' q2 \<Longrightarrow>
    cq_trace q (ins @ ins') (outs @ outs') q2"

lemma cq_step_facts:
  "cq_step q ins outs q' \<Longrightarrow> cq_queue q @ ins = outs @ cq_queue q' \<and>
     cq_max_size q' = cq_max_size q \<and> (cq_invar q \<longrightarrow> cq_invar q')"
proof (induction rule: cq_step.induct)
  case (wait_dequeue q r q')
  then show ?case by (cases "cq_queue q") (auto simp: cq_defs Let_def split: if_splits)
qed (auto simp: cq_defs split: if_splits list.splits)

lemma cq_trace_facts:
  "cq_trace q ins outs q' \<Longrightarrow> cq_queue q @ ins = outs @ cq_queue q' \<and>
     cq_max_size q' = cq_max_size q \<and> (cq_invar q \<longrightarrow> cq_invar q')"
proof (induction rule: cq_trace.induct)
  case (cons q ins outs q1 ins' outs' q2)
  from cq_step_facts [OF cons.hyps(1)] cons.IH show ?case by (metis append.assoc)
qed simp

lemma Enqueue_blocks: "Enqueue v q = None \<longleftrightarrow> IsFull q \<and> \<not> cq_is_stopped q"
  by (auto simp: cq_defs)

lemma Enqueue_TryEnqueue: "Enqueue v q = Some r \<Longrightarrow> \<not> IsFull q \<Longrightarrow> TryEnqueue v q = r"
  by (auto simp: cq_defs split: if_splits)

section \<open>Properties\<close>

text \<open>C9: whatever the threads do, in any interleaving, what they take out of a queue built with a
  capacity is a prefix of what was put in, in the order it was put in, the rest is still queued, and
  the queue never holds more than its capacity.\<close>

theorem ConcurrentQueue_linear:
  assumes "cq_trace (ConcurrentQueue_ctor max_size) ins outs q"
  shows "ins = outs @ cq_queue q \<and> (max_size > 0 \<longrightarrow> Size q \<le> max_size)"
  using cq_trace_facts [OF assms] by (auto simp: ConcurrentQueue_ctor_def cq_invar_def Size_def)

theorem ConcurrentQueue_linear_witness:
  "cq_trace (ConcurrentQueue_ctor 1) [7] [7 :: nat] (ConcurrentQueue_ctor 1) \<and>
     [7 :: nat] = [7] @ cq_queue (ConcurrentQueue_ctor 1)"
proof -
  let ?q = "\<lparr> cq_queue = [7 :: nat], cq_max_size = 1, cq_is_stopped = False \<rparr>"
  have 1: "cq_step (ConcurrentQueue_ctor 1) [7 :: nat] [] ?q"
    using enqueue [of 7 "ConcurrentQueue_ctor 1" True ?q] by (simp add: Enqueue_def ConcurrentQueue_ctor_def)
  have 2: "cq_step ?q [] [7] (ConcurrentQueue_ctor 1)"
    using try_dequeue [of ?q "Some 7"] by (simp add: TryDequeue_def ConcurrentQueue_ctor_def)
  from cq_trace.cons [OF 1 cq_trace.cons [OF 2 cq_trace.nil]]
  have t: "cq_trace (ConcurrentQueue_ctor 1) [7] [7 :: nat] (ConcurrentQueue_ctor 1)" by simp
  with ConcurrentQueue_linear [OF t] show ?thesis by simp
qed

text \<open>stopping. After \<open>NotifyStop\<close> no call waits any more, nothing is accepted and
  \<open>WaitDequeue\<close> delivers nothing, but \<open>TryDequeue\<close> still drains what was queued; a blocking
  \<open>Enqueue\<close> waits exactly when the queue is full and not stopped.\<close>

theorem ConcurrentQueue_stopped:
  "Enqueue v (NotifyStop q) = Some (False, NotifyStop q) \<and>
   fst (TryEnqueue v (NotifyStop q)) = False \<and>
   WaitDequeue (NotifyStop q) = (None, NotifyStop q) \<and>
   fst (TryDequeue (NotifyStop q)) = (case cq_queue q of [] \<Rightarrow> None | x # xs \<Rightarrow> Some x) \<and>
   (Enqueue v q = None \<longleftrightarrow> IsFull q \<and> \<not> cq_is_stopped q)"
  by (auto simp: cq_defs split: list.splits)

end
