(* ===== verification/WorkerPool.thy ===== *)
theory WorkerPool
  imports Events ConcurrentQueue
begin

text \<open>
  The class \<open>WorkerPool\<close> of \<^verbatim>\<open>src/darwincore/network/worker_pool.cpp\<close>: one event queue and one
  thread per worker. A worker loops while the pool runs, taking one event at a time and passing it to
  the callback, and afterwards drains its queue. The threads and the callers of \<open>SubmitEvent\<close>,
  \<open>TrySubmitEvent\<close> and \<open>Stop\<close> run concurrently; their atomic steps are the steps of \<open>wp_step\<close>.
\<close>

section \<open>State and operations\<close>

datatype worker_phase = Looping | Draining | Exited

text \<open>\<open>wp_calls\<close> is the sequence of events passed to the callback.\<close>

record WorkerPool =
  wp_worker_count :: nat
  wp_max_queue_size :: nat
  wp_worker_threads :: "worker_phase list"
  wp_event_queues :: "NetworkEvent ConcurrentQueue list"
  wp_event_callback :: bool
  wp_is_running :: bool
  wp_submit_failures :: u64
  wp_calls :: "NetworkEvent list"

definition WorkerPool_ctor :: "nat \<Rightarrow> nat \<Rightarrow> WorkerPool" where
  "WorkerPool_ctor worker_count max_queue_size =
     (let n = (if worker_count = 0 then kDefaultWorkerCount else worker_count)
      in \<lparr> wp_worker_count = n, wp_max_queue_size = max_queue_size, wp_worker_threads = [],
           wp_event_queues = replicate n (ConcurrentQueue_ctor max_queue_size),
           wp_event_callback = False, wp_is_running = False, wp_submit_failures = 0, wp_calls = [] \<rparr>)"

text \<open>\<open>spawn_ok\<close>: whether every thread could be created. A failed start joins the threads it made.\<close>

definition wp_Start :: "bool \<Rightarrow> WorkerPool \<Rightarrow> bool \<times> WorkerPool" where
  "wp_Start spawn_ok p =
     (if wp_is_running p then (False, p)
      else if spawn_ok
        then (True, p\<lparr>wp_is_running := True,
                wp_worker_threads := wp_worker_threads p @ replicate (wp_worker_count p) Looping\<rparr>)
        else (False, p\<lparr>wp_is_running := False, wp_worker_threads := []\<rparr>))"

definition worker_id_of :: "WorkerPool \<Rightarrow> NetworkEvent \<Rightarrow> nat" where
  "worker_id_of p e = unat (ne_connection_id e) mod wp_worker_count p"

abbreviation submit_failed :: "WorkerPool \<Rightarrow> WorkerPool" where
  "submit_failed p \<equiv> p\<lparr>wp_submit_failures := wp_submit_failures p + 1\<rparr>"

text \<open>None: the call waits for room in the queue.\<close>

definition SubmitEvent :: "NetworkEvent \<Rightarrow> WorkerPool \<Rightarrow> (bool \<times> WorkerPool) option" where
  "SubmitEvent e p =
     (if \<not> wp_is_running p then Some (False, submit_failed p)
      else let w = worker_id_of p e
      in case Enqueue e (wp_event_queues p ! w) of
          None \<Rightarrow> None
        | Some (True, q) \<Rightarrow> Some (True, p\<lparr>wp_event_queues := (wp_event_queues p)[w := q]\<rparr>)
        | Some (False, q) \<Rightarrow> Some (False, submit_failed (p\<lparr>wp_event_queues := (wp_event_queues p)[w := q]\<rparr>)))"

definition TrySubmitEvent :: "NetworkEvent \<Rightarrow> WorkerPool \<Rightarrow> bool \<times> WorkerPool" where
  "TrySubmitEvent e p =
     (let w = worker_id_of p e; (success, q) = TryEnqueue e (wp_event_queues p ! w);
          p = p\<lparr>wp_event_queues := (wp_event_queues p)[w := q]\<rparr>
      in (success, if success then p else submit_failed p))"

definition wp_SetEventCallback :: "bool \<Rightarrow> WorkerPool \<Rightarrow> WorkerPool" where
  "wp_SetEventCallback callback p = p\<lparr>wp_event_callback := callback\<rparr>"

definition GetTotalQueueSize :: "WorkerPool \<Rightarrow> nat" where
  "GetTotalQueueSize p = foldl (\<lambda>n q. n + Size q) 0 (wp_event_queues p)"

definition GetSubmitFailures :: "WorkerPool \<Rightarrow> u64" where
  "GetSubmitFailures p = wp_submit_failures p"

text \<open>The result of a dequeue by worker \<open>i\<close>: put the queue back, call the callback on an event.\<close>

definition worker_took :: "nat \<Rightarrow> NetworkEvent option \<times> NetworkEvent ConcurrentQueue \<Rightarrow> WorkerPool \<Rightarrow> WorkerPool" where
  "worker_took i rq p = p\<lparr>wp_event_queues := (wp_event_queues p)[i := snd rq],
     wp_calls := wp_calls p @
       (case fst rq of Some e \<Rightarrow> if wp_event_callback p then [e] else [] | None \<Rightarrow> [])\<rparr>"

abbreviation set_phase :: "nat \<Rightarrow> worker_phase \<Rightarrow> WorkerPool \<Rightarrow> WorkerPool" where
  "set_phase i ph p \<equiv> p\<lparr>wp_worker_threads := (wp_worker_threads p)[i := ph]\<rparr>"

text \<open>One round of the loop of \<open>WorkerLoop\<close>, by its phase.\<close>

definition WorkerLoop_round :: "nat \<Rightarrow> WorkerPool \<Rightarrow> WorkerPool" where
  "WorkerLoop_round i p =
     (case wp_worker_threads p ! i of
        Looping \<Rightarrow>
          (if wp_is_running p then worker_took i (WaitDequeue (wp_event_queues p ! i)) p
           else set_phase i Draining p)
      | Draining \<Rightarrow>
          (case TryDequeue (wp_event_queues p ! i) of
             (None, q) \<Rightarrow> set_phase i Exited p
           | (Some e, q) \<Rightarrow> worker_took i (Some e, q) p)
      | Exited \<Rightarrow> p)"

text \<open>\<open>Stop\<close> in its steps: clear the running flag, notify each queue, join, forget the threads.\<close>

definition Stop_begin :: "WorkerPool \<Rightarrow> WorkerPool" where
  "Stop_begin p = p\<lparr>wp_is_running := False\<rparr>"

definition Stop_notify :: "nat \<Rightarrow> WorkerPool \<Rightarrow> WorkerPool" where
  "Stop_notify i p =
     p\<lparr>wp_event_queues := (wp_event_queues p)[i := NotifyStop (wp_event_queues p ! i)]\<rparr>"

definition Stop_joined :: "WorkerPool \<Rightarrow> bool" where
  "Stop_joined p \<longleftrightarrow> list_all (\<lambda>ph. ph = Exited) (wp_worker_threads p)"

definition Stop_clear :: "WorkerPool \<Rightarrow> WorkerPool" where
  "Stop_clear p = p\<lparr>wp_worker_threads := []\<rparr>"

section \<open>Concurrent runs\<close>

text \<open>One atomic step, with the events it accepted.\<close>

inductive wp_step :: "WorkerPool \<Rightarrow> NetworkEvent list \<Rightarrow> WorkerPool \<Rightarrow> bool" where
  wp_start: "wp_worker_threads p = [] \<Longrightarrow> wp_step p [] (snd (wp_Start spawn_ok p))"
| wp_submit: "SubmitEvent e p = Some (ok, p') \<Longrightarrow> wp_step p (if ok then [e] else []) p'"
| wp_try_submit: "TrySubmitEvent e p = (ok, p') \<Longrightarrow> wp_step p (if ok then [e] else []) p'"
| wp_round: "i < length (wp_worker_threads p) \<Longrightarrow> i < wp_worker_count p \<Longrightarrow>
    wp_step p [] (WorkerLoop_round i p)"
| wp_stop_begin: "wp_step p [] (Stop_begin p)"
| wp_stop_notify: "i < wp_worker_count p \<Longrightarrow> wp_step p [] (Stop_notify i p)"
| wp_stop_clear: "Stop_joined p \<Longrightarrow> wp_step p [] (Stop_clear p)"

inductive wp_run :: "WorkerPool \<Rightarrow> NetworkEvent list \<Rightarrow> WorkerPool \<Rightarrow> bool" where
  wp_nil: "wp_run p [] p"
| wp_cons: "wp_step p acc p1 \<Longrightarrow> wp_run p1 acc' p2 \<Longrightarrow> wp_run p (acc @ acc') p2"

abbreviation of_conn :: "u64 \<Rightarrow> NetworkEvent list \<Rightarrow> NetworkEvent list" where
  "of_conn c es \<equiv> filter (\<lambda>e. ne_connection_id e = c) es"

abbreviation queue_of :: "nat \<Rightarrow> WorkerPool \<Rightarrow> NetworkEvent list" where
  "queue_of i p \<equiv> cq_queue (wp_event_queues p ! i)"

definition conn_queue :: "u64 \<Rightarrow> WorkerPool \<Rightarrow> NetworkEvent list" where
  "conn_queue c p = of_conn c (queue_of (unat c mod wp_worker_count p) p)"

text \<open>Every queued event waits in the queue of its connection's worker.\<close>

definition wp_invar :: "WorkerPool \<Rightarrow> bool" where
  "wp_invar p \<longleftrightarrow> 0 < wp_worker_count p \<and> length (wp_event_queues p) = wp_worker_count p \<and>
     wp_event_callback p \<and>
     (\<forall>i < wp_worker_count p. \<forall>e \<in> set (queue_of i p). worker_id_of p e = i)"

text \<open>What a step does: it appends to the calls some events taken from the front of one queue, and
  appends the accepted ones to the queue of their worker.\<close>

definition wp_moves :: "WorkerPool \<Rightarrow> NetworkEvent list \<Rightarrow> WorkerPool \<Rightarrow> bool" where
  "wp_moves p acc p' \<longleftrightarrow> wp_worker_count p' = wp_worker_count p \<and>
     wp_event_callback p' = wp_event_callback p \<and>
     length (wp_event_queues p') = length (wp_event_queues p) \<and>
     (\<exists>j out. j < wp_worker_count p \<and> wp_calls p' = wp_calls p @ out \<and>
        (\<forall>i < wp_worker_count p. (if i = j then out else []) @ queue_of i p' =
           queue_of i p @ filter (\<lambda>e. worker_id_of p e = i) acc))"

lemma worker_id_less: "wp_invar p \<Longrightarrow> worker_id_of p e < wp_worker_count p"
  by (simp add: wp_invar_def worker_id_of_def)

lemma wp_moves_enqueue:
  assumes "wp_invar p" and "w = worker_id_of p e"
    and "cq_queue q = queue_of w p @ acc" and "set acc \<subseteq> {e}"
    and "wp_event_queues p' = (wp_event_queues p)[w := q]" and "wp_calls p' = wp_calls p"
    and "wp_worker_count p' = wp_worker_count p" and "wp_event_callback p' = wp_event_callback p"
  shows "wp_moves p acc p'"
proof -
  have w: "w < wp_worker_count p" using worker_id_less assms(1,2) by simp
  have "filter (\<lambda>x. worker_id_of p x = i) acc = (if i = w then acc else [])" for i
    using assms(4) unfolding assms(2) by (induction acc) auto
  moreover have "queue_of i p' = queue_of i p @ (if i = w then acc else [])" if "i < wp_worker_count p" for i
    using that assms(1,3) w unfolding assms(5) by (simp add: wp_invar_def)
  ultimately have "\<forall>i < wp_worker_count p. (if i = w then [] else []) @ queue_of i p' =
      queue_of i p @ filter (\<lambda>x. worker_id_of p x = i) acc" by simp
  moreover have "wp_calls p' = wp_calls p @ []" "length (wp_event_queues p') = length (wp_event_queues p)"
    using assms(5,6) by simp_all
  ultimately show ?thesis using w assms(7,8) unfolding wp_moves_def by blast
qed

lemma wp_moves_dequeue:
  assumes "wp_invar p" and "i < wp_worker_count p" and "queue_of i p = out @ cq_queue q"
    and "wp_event_queues p' = (wp_event_queues p)[i := q]" and "wp_calls p' = wp_calls p @ out"
    and "wp_worker_count p' = wp_worker_count p" and "wp_event_callback p' = wp_event_callback p"
  shows "wp_moves p [] p'"
  using assms by (auto simp: wp_moves_def wp_invar_def nth_list_update intro!: exI [of _ i])

lemma wp_moves_same:
  assumes "wp_invar p" and "wp_event_queues p' = wp_event_queues p" and "wp_calls p' = wp_calls p"
    and "wp_worker_count p' = wp_worker_count p" and "wp_event_callback p' = wp_event_callback p"
  shows "wp_moves p [] p'"
  using assms by (auto simp: wp_moves_def wp_invar_def)

lemma wp_round_moves:
  assumes "wp_invar p" and "i < wp_worker_count p"
  shows "wp_moves p [] (WorkerLoop_round i p)"
proof -
  have cb: "wp_event_callback p" using assms(1) by (simp add: wp_invar_def)
  have took: "wp_moves p [] (worker_took i rq p)"
    if "queue_of i p = (case fst rq of Some e \<Rightarrow> [e] | None \<Rightarrow> []) @ cq_queue (snd rq)" for rq
    using assms that cb
    by (intro wp_moves_dequeue [where i = i and q = "snd rq"]) (auto simp: worker_took_def split: option.splits)
  have wait: "queue_of i p = (case fst (WaitDequeue (wp_event_queues p ! i)) of Some e \<Rightarrow> [e] | None \<Rightarrow> [])
      @ cq_queue (snd (WaitDequeue (wp_event_queues p ! i)))"
    by (auto simp: WaitDequeue_def Let_def)
  have phase: "wp_moves p [] (set_phase i ph p)" for ph using assms by (intro wp_moves_same) simp_all
  show ?thesis
  proof (cases "wp_worker_threads p ! i")
    case Draining
    then show ?thesis
      using took [of "TryDequeue (wp_event_queues p ! i)"] phase
      by (cases "cq_queue (wp_event_queues p ! i)") (auto simp: WorkerLoop_round_def TryDequeue_def)
  next
    case Exited
    then show ?thesis using assms by (simp add: WorkerLoop_round_def wp_moves_same)
  qed (use took [OF wait] phase in \<open>simp add: WorkerLoop_round_def\<close>)
qed

lemma wp_step_moves: "wp_step p acc p' \<Longrightarrow> wp_invar p \<Longrightarrow> wp_moves p acc p'"
proof (induction rule: wp_step.induct)
  case (wp_submit e p ok p')
  show ?case
  proof (cases "wp_is_running p")
    case False
    with wp_submit show ?thesis by (auto simp: SubmitEvent_def intro: wp_moves_same)
  next
    case True
    with wp_submit show ?thesis
    by (intro wp_moves_enqueue [where e = e and w = "worker_id_of p e" and
          q = "snd (the (Enqueue e (wp_event_queues p ! worker_id_of p e)))"])
      (auto simp: SubmitEvent_def Enqueue_def Let_def split: if_splits)
  qed
next
  case (wp_try_submit e p ok p')
  then show ?case
    by (intro wp_moves_enqueue [where e = e and w = "worker_id_of p e" and
          q = "snd (TryEnqueue e (wp_event_queues p ! worker_id_of p e))"])
      (auto simp: TrySubmitEvent_def TryEnqueue_def Let_def split: if_splits)
next
  case (wp_round i p)
  then show ?case by (simp add: wp_round_moves)
next
  case (wp_stop_notify i p)
  then show ?case
    by (intro wp_moves_dequeue [where i = i and out = "[]"]) (simp_all add: Stop_notify_def NotifyStop_def)
qed (simp_all add: wp_moves_same wp_Start_def Stop_begin_def Stop_clear_def)

lemma wp_moves_invar:
  assumes "wp_moves p acc p'" and "wp_invar p"
  shows "wp_invar p'"
proof -
  obtain j out where q: "\<forall>i < wp_worker_count p. (if i = j then out else []) @ queue_of i p' =
      queue_of i p @ filter (\<lambda>e. worker_id_of p e = i) acc"
    using assms(1) by (auto simp: wp_moves_def)
  have "worker_id_of p' = worker_id_of p" using assms(1) by (auto simp: wp_moves_def worker_id_of_def)
  moreover have "worker_id_of p e = i" if "i < wp_worker_count p" "e \<in> set (queue_of i p')" for i e
  proof -
    have "e \<in> set (queue_of i p @ filter (\<lambda>e. worker_id_of p e = i) acc)"
      using q that by (metis Un_iff set_append)
    then show ?thesis using assms(2) that(1) by (auto simp: wp_invar_def)
  qed
  ultimately show ?thesis using assms by (simp add: wp_moves_def wp_invar_def)
qed

lemma wp_moves_conn:
  assumes "wp_moves p acc p'" and "wp_invar p"
  shows "of_conn c (wp_calls p) @ conn_queue c p @ of_conn c acc = of_conn c (wp_calls p') @ conn_queue c p'"
proof -
  let ?w = "unat c mod wp_worker_count p"
  obtain j out where j: "j < wp_worker_count p" "wp_calls p' = wp_calls p @ out"
    and q: "\<forall>i < wp_worker_count p. (if i = j then out else []) @ queue_of i p' =
      queue_of i p @ filter (\<lambda>e. worker_id_of p e = i) acc"
    using assms(1) by (auto simp: wp_moves_def)
  have w: "?w < wp_worker_count p" using assms(2) by (simp add: wp_invar_def)
  have acc: "of_conn c (filter (\<lambda>e. worker_id_of p e = ?w) acc) = of_conn c acc"
    by (auto simp: worker_id_of_def intro: filter_cong)
  have "of_conn c out = []" if "?w \<noteq> j"
  proof -
    have "out @ queue_of j p' = queue_of j p @ filter (\<lambda>e. worker_id_of p e = j) acc"
      using q [rule_format, OF j(1)] by simp
    then have "set out \<subseteq> set (queue_of j p @ filter (\<lambda>e. worker_id_of p e = j) acc)"
      by (metis Un_upper1 set_append)
    then have "worker_id_of p e = j" if "e \<in> set out" for e
      using that assms(2) j(1) by (auto simp: wp_invar_def)
    then show ?thesis using that by (auto simp: filter_empty_conv worker_id_of_def)
  qed
  moreover have "of_conn c ((if ?w = j then out else []) @ queue_of ?w p') = of_conn c (queue_of ?w p) @ of_conn c acc"
    unfolding q [rule_format, OF w] by (simp only: filter_append acc)
  ultimately show ?thesis
    using assms(1) by (auto simp: j(2) conn_queue_def wp_moves_def split: if_splits)
qed

lemma wp_run_conn:
  "wp_run p acc p' \<Longrightarrow> wp_invar p \<Longrightarrow> wp_invar p' \<and>
     of_conn c (wp_calls p) @ conn_queue c p @ of_conn c acc = of_conn c (wp_calls p') @ conn_queue c p'"
proof (induction rule: wp_run.induct)
  case (wp_cons p acc p1 acc' p2)
  note m = wp_step_moves [OF wp_cons.hyps(1) wp_cons.prems]
  note ih = wp_cons.IH [OF wp_moves_invar [OF m wp_cons.prems]]
  have "of_conn c (wp_calls p) @ conn_queue c p @ of_conn c (acc @ acc') =
      (of_conn c (wp_calls p) @ conn_queue c p @ of_conn c acc) @ of_conn c acc'" by simp
  also have "\<dots> = of_conn c (wp_calls p1) @ conn_queue c p1 @ of_conn c acc'"
    unfolding wp_moves_conn [OF m wp_cons.prems, of c] by simp
  finally show ?case using ih by simp
qed simp

definition all_stopped :: "WorkerPool \<Rightarrow> bool" where
  "all_stopped p \<longleftrightarrow> (\<forall>i < wp_worker_count p. cq_is_stopped (wp_event_queues p ! i))"

lemma wp_step_stopped:
  "wp_step p acc p' \<Longrightarrow> wp_invar p \<Longrightarrow> all_stopped p \<Longrightarrow> acc = [] \<and> all_stopped p'"
proof (induction rule: wp_step.induct)
  case (wp_submit e p ok p')
  then have "cq_is_stopped (wp_event_queues p ! worker_id_of p e)"
    using worker_id_less by (auto simp: all_stopped_def)
  with wp_submit show ?case
    by (auto simp: SubmitEvent_def Enqueue_def all_stopped_def Let_def split: if_splits)
next
  case (wp_try_submit e p ok p')
  then have "cq_is_stopped (wp_event_queues p ! worker_id_of p e)"
    using worker_id_less by (auto simp: all_stopped_def)
  with wp_try_submit show ?case
    by (auto simp: TrySubmitEvent_def TryEnqueue_def all_stopped_def Let_def split: if_splits)
next
  case (wp_round i p)
  then show ?case
    by (cases "wp_worker_threads p ! i"; cases "queue_of i p")
      (auto simp: WorkerLoop_round_def all_stopped_def worker_took_def WaitDequeue_def TryDequeue_def
        wp_invar_def nth_list_update)
next
  case (wp_stop_notify i p)
  then show ?case by (auto simp: Stop_notify_def NotifyStop_def all_stopped_def wp_invar_def nth_list_update)
qed (auto simp: all_stopped_def wp_Start_def Stop_begin_def Stop_clear_def)

lemma wp_run_stopped: "wp_run p acc p' \<Longrightarrow> wp_invar p \<Longrightarrow> all_stopped p \<Longrightarrow> acc = []"
proof (induction rule: wp_run.induct)
  case (wp_cons p acc p1 acc' p2)
  then show ?case
    using wp_step_stopped wp_moves_invar [OF wp_step_moves] by (metis append_Nil)
qed simp

definition new_pool :: "nat \<Rightarrow> nat \<Rightarrow> WorkerPool" where
  "new_pool worker_count max_queue_size = wp_SetEventCallback True (WorkerPool_ctor worker_count max_queue_size)"

lemma wp_invar_new: "wp_invar (new_pool n m)"
  by (simp add: wp_invar_def new_pool_def wp_SetEventCallback_def WorkerPool_ctor_def Let_def
      ConcurrentQueue_ctor_def kDefaultWorkerCount_def)

section \<open>Properties\<close>

text \<open>C6: per-connection order. Whatever the submitters, the workers and \<open>Stop\<close> do, in any
  interleaving, the events of one connection reach the callback in the order in which they were
  accepted, each once; those not yet delivered wait in the queue of the connection's worker.\<close>

theorem WorkerPool_connection_order:
  assumes "wp_run (new_pool n m) acc p"
  shows "of_conn c acc = of_conn c (wp_calls p) @ conn_queue c p"
proof -
  have "wp_calls (new_pool n m) = []" "conn_queue c (new_pool n m) = []"
    by (simp_all add: conn_queue_def new_pool_def wp_SetEventCallback_def WorkerPool_ctor_def Let_def
        ConcurrentQueue_ctor_def kDefaultWorkerCount_def)
  then show ?thesis using wp_run_conn [OF assms wp_invar_new, of c] by simp
qed

definition sample_event :: NetworkEvent where
  "sample_event = NetworkEvent_ctor kData 5"

lemmas wp_eval = new_pool_def wp_SetEventCallback_def WorkerPool_ctor_def wp_Start_def TrySubmitEvent_def
  TryEnqueue_def ConcurrentQueue_ctor_def worker_id_of_def sample_event_def NetworkEvent_ctor_def
  Stop_begin_def Stop_notify_def NotifyStop_def WorkerLoop_round_def TryDequeue_def worker_took_def
  WaitDequeue_def

theorem WorkerPool_connection_order_witness:
  "\<exists>p. wp_run (new_pool 1 0) [sample_event] p \<and> wp_calls p = [] \<and> conn_queue 5 p = [sample_event]"
proof -
  let ?p = "snd (TrySubmitEvent sample_event (new_pool 1 0))"
  have "wp_step (new_pool 1 0) [sample_event] ?p"
    using wp_try_submit [of sample_event "new_pool 1 0" True ?p] by (simp add: wp_eval)
  from wp_cons [OF this wp_nil] have r: "wp_run (new_pool 1 0) [sample_event] ?p" by simp
  moreover have "wp_calls ?p = []" by (simp add: wp_eval)
  ultimately show ?thesis
    using WorkerPool_connection_order [OF r, of 5] by (auto simp: sample_event_def NetworkEvent_ctor_def)
qed

text \<open>an accepted event can be lost at shutdown. \<open>Stop\<close> clears the running flag before it stops
  the queues; a worker that has drained its queue and left in between leaves behind an event that a
  submitter enqueues after it, with success reported. All workers have then been joined and the event
  is never passed to the callback.\<close>

theorem WorkerPool_stop_loses_event:
  "\<exists>p. wp_run (new_pool 1 0) [sample_event] p \<and> \<not> wp_is_running p \<and> Stop_joined p \<and>
     all_stopped p \<and> wp_calls p = [] \<and> conn_queue 5 p = [sample_event]"
proof -
  let ?p1 = "snd (wp_Start True (new_pool 1 0))"
  let ?p2 = "Stop_begin ?p1"
  let ?p3 = "WorkerLoop_round 0 ?p2"
  let ?p4 = "WorkerLoop_round 0 ?p3"
  let ?p5 = "snd (TrySubmitEvent sample_event ?p4)"
  let ?p6 = "Stop_notify 0 ?p5"
  have 1: "wp_step (new_pool 1 0) [] ?p1" by (rule wp_start) (simp add: wp_eval)
  have 2: "wp_step ?p1 [] ?p2" by (rule wp_stop_begin)
  have 3: "wp_step ?p2 [] ?p3" by (rule wp_round) (simp_all add: wp_eval)
  have 4: "wp_step ?p3 [] ?p4" by (rule wp_round) (simp_all add: wp_eval)
  have 5: "wp_step ?p4 [sample_event] ?p5"
    using wp_try_submit [of sample_event ?p4 True ?p5] by (simp add: wp_eval)
  have 6: "wp_step ?p5 [] ?p6" by (rule wp_stop_notify) (simp add: wp_eval)
  from wp_cons [OF 1 wp_cons [OF 2 wp_cons [OF 3 wp_cons [OF 4 wp_cons [OF 5 wp_cons [OF 6 wp_nil]]]]]]
  have "wp_run (new_pool 1 0) [sample_event] ?p6" by simp
  moreover have "\<not> wp_is_running ?p6" "Stop_joined ?p6" "all_stopped ?p6" "wp_calls ?p6 = []"
    "conn_queue 5 ?p6 = [sample_event]"
    by (simp_all add: wp_eval Stop_joined_def all_stopped_def conn_queue_def)
  ultimately show ?thesis by blast
qed

text \<open>the pool cannot be restarted. \<open>Stop\<close> stops every queue and nothing ever resets them, so
  once all queues are stopped no run, a successful \<open>Start\<close> included, accepts another event.\<close>

theorem WorkerPool_no_restart:
  assumes "wp_invar p" and "all_stopped p"
  shows "\<not> wp_run p (e # acc) p'"
  using wp_run_stopped [OF _ assms] by blast

theorem WorkerPool_no_restart_witness:
  "\<not> wp_run (snd (wp_Start True (Stop_notify 0 (new_pool 1 0)))) [sample_event]
     (snd (TrySubmitEvent sample_event (snd (wp_Start True (Stop_notify 0 (new_pool 1 0))))))"
proof (rule WorkerPool_no_restart)
  show "wp_invar (snd (wp_Start True (Stop_notify 0 (new_pool 1 0))))"
    by (simp add: wp_eval wp_invar_def)
  show "all_stopped (snd (wp_Start True (Stop_notify 0 (new_pool 1 0))))"
    by (simp add: wp_eval all_stopped_def)
qed

end
