(* ===== verification/SystemCalls.thy ===== *)
theory SystemCalls
  imports Prelude
begin

text \<open>
  What the system calls of the network module can answer. The kernel is outside the program: an
  operation that makes a call takes its answer as an argument.
\<close>

datatype errno = EAGAIN | EWOULDBLOCK | EINTR | ECONNRESET | ETIMEDOUT | EPIPE | ENOTCONN
  | ECONNREFUSED | EHOSTUNREACH | ENETUNREACH | ENOMEM | ENOENT | EINPROGRESS | EBADF | EFAULT | EMFILE | OtherErrno int

text \<open>\<open>send\<close>: bytes taken by the kernel, or an error.\<close>

datatype send_result = Sent nat | SendFailed errno

text \<open>\<open>recv\<close>: the bytes received (at least one), an orderly end of the stream, or an error.\<close>

datatype recv_result = Received bytes | RecvEOF | RecvFailed errno

end
