(* ===== verification/SendBuffer.thy ===== *)
theory SendBuffer
  imports SystemCalls
begin

text \<open>
  The class \<open>SendBuffer\<close> of \<^verbatim>\<open>src/darwincore/network/send_buffer.cpp\<close>: a linear buffer with a read
  and a write position. The socket is outside: the result of \<open>send\<close> is an argument of
  \<open>SendToSocket\<close>, whose documented bound (at most the bytes offered) is a hypothesis where it is used.
  The growth loop of \<open>EnsureWritableSpace\<close> doubles a capacity and does not end from capacity 0, so
  it is a partial function.
\<close>

section \<open>State and operations\<close>

record SendBuffer =
  sb_buffer :: bytes
  sb_read_pos :: nat
  sb_write_pos :: nat

definition INITIAL_CAPACITY :: nat where "INITIAL_CAPACITY = 4096"
definition HIGH_WATER_MARK :: nat where "HIGH_WATER_MARK = 8 * 1024 * 1024"
definition LOW_WATER_MARK :: nat where "LOW_WATER_MARK = 4 * 1024 * 1024"
definition MAX_CAPACITY :: nat where "MAX_CAPACITY = 32 * 1024 * 1024"

definition SendBuffer_ctor :: SendBuffer where
  "SendBuffer_ctor = \<lparr> sb_buffer = replicate INITIAL_CAPACITY 0, sb_read_pos = 0, sb_write_pos = 0 \<rparr>"

text \<open>The move constructor: the new object and the one moved from, whose vector is left empty.\<close>

definition SendBuffer_move :: "SendBuffer \<Rightarrow> SendBuffer \<times> SendBuffer" where
  "SendBuffer_move other = (other, other\<lparr>sb_buffer := [], sb_read_pos := 0, sb_write_pos := 0\<rparr>)"

definition sb_Size :: "SendBuffer \<Rightarrow> nat" where
  "sb_Size b = sb_write_pos b - sb_read_pos b"

definition sb_IsEmpty :: "SendBuffer \<Rightarrow> bool" where
  "sb_IsEmpty b \<longleftrightarrow> sb_read_pos b = sb_write_pos b"

definition Compact :: "SendBuffer \<Rightarrow> SendBuffer" where
  "Compact b =
     (if sb_read_pos b = 0 then b
      else let readable = sb_Size b;
               b = (if readable > 0
                    then b\<lparr>sb_buffer := blit (sb_buffer b) 0 (take readable (drop (sb_read_pos b) (sb_buffer b)))\<rparr>
                    else b)
      in b\<lparr>sb_read_pos := 0, sb_write_pos := readable\<rparr>)"

partial_function (option) grow_capacity :: "nat \<Rightarrow> nat \<Rightarrow> nat option" where
  "grow_capacity required new_capacity =
     (if new_capacity < required \<and> new_capacity < MAX_CAPACITY
      then grow_capacity required (new_capacity * 2) else Some new_capacity)"

definition resize :: "nat \<Rightarrow> bytes \<Rightarrow> bytes" where
  "resize n xs = take n xs @ replicate (n - length xs) 0"

text \<open>None is a call that does not return.\<close>

definition EnsureWritableSpace :: "nat \<Rightarrow> SendBuffer \<Rightarrow> (bool \<times> SendBuffer) option" where
  "EnsureWritableSpace sz b =
     (if length (sb_buffer b) - sb_write_pos b \<ge> sz then Some (True, b)
      else let b = (if sb_read_pos b > 0 then Compact b else b)
      in if length (sb_buffer b) - sb_write_pos b \<ge> sz then Some (True, b)
      else let required_size = sb_write_pos b + sz;
               b = (if required_size > MAX_CAPACITY \<and> sb_read_pos b > 0 then Compact b else b);
               required_size = sb_write_pos b + sz
      in if required_size > MAX_CAPACITY then Some (False, b)
      else case grow_capacity required_size (length (sb_buffer b)) of
          None \<Rightarrow> None
        | Some new_capacity \<Rightarrow>
            Some (True, b\<lparr>sb_buffer := resize (min new_capacity MAX_CAPACITY) (sb_buffer b)\<rparr>))"

text \<open>An empty list is the call with a null pointer or size 0.\<close>

definition Write :: "bytes \<Rightarrow> SendBuffer \<Rightarrow> (bool \<times> SendBuffer) option" where
  "Write data b =
     (if data = [] then Some (False, b)
      else case EnsureWritableSpace (length data) b of
          None \<Rightarrow> None
        | Some (False, b') \<Rightarrow> Some (False, b')
        | Some (True, b') \<Rightarrow>
            Some (True, b'\<lparr>sb_buffer := blit (sb_buffer b') (sb_write_pos b') data,
                           sb_write_pos := sb_write_pos b' + length data\<rparr>))"

text \<open>Returned: the result, the bytes handed to the socket, and the buffer.\<close>

definition SendToSocket :: "int \<Rightarrow> send_result \<Rightarrow> SendBuffer \<Rightarrow> int \<times> bytes \<times> SendBuffer" where
  "SendToSocket fd r b =
     (if fd < 0 then (-1, [], b)
      else if sb_Size b = 0 then (0, [], b)
      else case r of
        Sent n \<Rightarrow>
          (if n > 0
           then let out = take n (drop (sb_read_pos b) (sb_buffer b));
                    b = b\<lparr>sb_read_pos := sb_read_pos b + n\<rparr>
                in (int n, out,
                    if sb_read_pos b = sb_write_pos b then b\<lparr>sb_read_pos := 0, sb_write_pos := 0\<rparr>
                    else if sb_read_pos b > length (sb_buffer b) div 2 then Compact b else b)
           else (0, [], b))
      | SendFailed e \<Rightarrow>
          (if e = EAGAIN \<or> e = EWOULDBLOCK then (0, [], b)
           else if e = EINTR then (0, [], b) else (-1, [], b)))"

definition IsHighWaterMark :: "SendBuffer \<Rightarrow> bool" where
  "IsHighWaterMark b \<longleftrightarrow> sb_Size b \<ge> HIGH_WATER_MARK"

definition IsLowWaterMark :: "SendBuffer \<Rightarrow> bool" where
  "IsLowWaterMark b \<longleftrightarrow> sb_Size b < LOW_WATER_MARK"

definition Clear :: "SendBuffer \<Rightarrow> SendBuffer" where
  "Clear b = b\<lparr>sb_read_pos := 0, sb_write_pos := 0\<rparr>"

section \<open>The buffer as a byte stream\<close>

definition sb_invar :: "SendBuffer \<Rightarrow> bool" where
  "sb_invar b \<longleftrightarrow> sb_read_pos b \<le> sb_write_pos b \<and> sb_write_pos b \<le> length (sb_buffer b) \<and>
     0 < length (sb_buffer b) \<and> length (sb_buffer b) \<le> MAX_CAPACITY"

definition sb_contents :: "SendBuffer \<Rightarrow> bytes" where
  "sb_contents b = take (sb_Size b) (drop (sb_read_pos b) (sb_buffer b))"

lemma length_sb_contents: "sb_invar b \<Longrightarrow> length (sb_contents b) = sb_Size b"
  by (simp add: sb_invar_def sb_contents_def sb_Size_def diff_le_mono)

lemma Compact_facts:
  assumes "sb_invar b"
  shows "sb_invar (Compact b)" "sb_contents (Compact b) = sb_contents b"
    "sb_read_pos (Compact b) = 0" "sb_write_pos (Compact b) = sb_Size b"
    "length (sb_buffer (Compact b)) = length (sb_buffer b)"
  using assms diff_le_mono [of "sb_write_pos b" "length (sb_buffer b)" "sb_read_pos b"]
  by (auto simp: sb_invar_def sb_contents_def sb_Size_def Compact_def Let_def blit_def)

lemma grow_capacity_Some:
  "0 < c \<Longrightarrow> c \<le> MAX_CAPACITY \<Longrightarrow> required \<le> MAX_CAPACITY \<Longrightarrow>
     \<exists>n. grow_capacity required c = Some n \<and> c \<le> n \<and> required \<le> min n MAX_CAPACITY"
proof (induction "MAX_CAPACITY - c" arbitrary: c rule: less_induct)
  case less
  show ?case
  proof (cases "c < required \<and> c < MAX_CAPACITY")
    case True
    show ?thesis
    proof (cases "c * 2 \<le> MAX_CAPACITY")
      case le: True
      have "MAX_CAPACITY - c * 2 < MAX_CAPACITY - c" using True less.prems by linarith
      with le less.hyps [of "c * 2"] less.prems obtain n where
        "grow_capacity required (c * 2) = Some n" "c * 2 \<le> n" "required \<le> min n MAX_CAPACITY" by auto
      with True show ?thesis by (subst grow_capacity.simps) auto
    next
      case False
      then have "grow_capacity required (c * 2) = Some (c * 2)" by (subst grow_capacity.simps) simp
      with True False less.prems show ?thesis by (subst grow_capacity.simps) auto
    qed
  next
    case False
    with less.prems show ?thesis by (subst grow_capacity.simps) auto
  qed
qed

lemma grow_capacity_pos: "grow_capacity required c = Some n \<Longrightarrow> c = 0 \<longrightarrow> required = 0"
  by (rule grow_capacity.raw_induct [where P = "\<lambda>r c n. c = 0 \<longrightarrow> r = 0"])
    (auto simp: MAX_CAPACITY_def split: if_splits)

lemma grow_capacity_zero: "0 < required \<Longrightarrow> grow_capacity required 0 = None"
  using grow_capacity_pos [of required 0] by (cases "grow_capacity required 0") auto

lemma EnsureWritableSpace_facts:
  assumes "sb_invar b" and "0 < n"
  shows "\<exists>b'. EnsureWritableSpace n b = Some (sb_Size b + n \<le> MAX_CAPACITY, b') \<and> sb_invar b' \<and>
    sb_contents b' = sb_contents b \<and>
    (sb_Size b + n \<le> MAX_CAPACITY \<longrightarrow> sb_write_pos b' + n \<le> length (sb_buffer b'))"
proof (cases "length (sb_buffer b) - sb_write_pos b \<ge> n")
  case True
  with assms show ?thesis
    by (auto simp: EnsureWritableSpace_def sb_invar_def sb_Size_def)
next
  case False
  define c where "c = (if sb_read_pos b > 0 then Compact b else b)"
  have c: "sb_invar c" "sb_contents c = sb_contents b" "sb_read_pos c = 0"
    "sb_write_pos c = sb_Size b" "length (sb_buffer c) = length (sb_buffer b)"
    using Compact_facts [OF assms(1)] assms(1) by (auto simp: c_def sb_Size_def)
  have le: "length (sb_buffer c) \<le> MAX_CAPACITY" using c(1) by (simp add: sb_invar_def)
  show ?thesis
  proof (cases "length (sb_buffer c) - sb_write_pos c \<ge> n")
    case fits: True
    then have "EnsureWritableSpace n b = Some (True, c)"
      using False by (simp add: EnsureWritableSpace_def c_def)
    with fits c le assms show ?thesis by (auto simp: sb_invar_def)
  next
    case tight: False
    have e: "EnsureWritableSpace n b =
        (if sb_Size b + n > MAX_CAPACITY then Some (False, c)
         else case grow_capacity (sb_Size b + n) (length (sb_buffer c)) of None \<Rightarrow> None
         | Some m \<Rightarrow> Some (True, c\<lparr>sb_buffer := resize (min m MAX_CAPACITY) (sb_buffer c)\<rparr>))"
      using False tight c(3,4) unfolding EnsureWritableSpace_def Let_def c_def [symmetric] by simp
    show ?thesis
    proof (cases "sb_Size b + n > MAX_CAPACITY")
      case True
      with e c show ?thesis by simp
    next
      case room: False
      obtain m where m: "grow_capacity (sb_Size b + n) (length (sb_buffer c)) = Some m"
        "length (sb_buffer c) \<le> m" "sb_Size b + n \<le> min m MAX_CAPACITY"
        using grow_capacity_Some [of "length (sb_buffer c)" "sb_Size b + n"] c(1) room
        by (auto simp: sb_invar_def)
      let ?b = "c\<lparr>sb_buffer := resize (min m MAX_CAPACITY) (sb_buffer c)\<rparr>"
      have len: "length (sb_buffer ?b) = min m MAX_CAPACITY" using m(2) le by (simp add: resize_def)
      have "sb_invar ?b" using c(1,3,4) m(3) assms(2) len by (simp add: sb_invar_def)
      moreover have "sb_contents ?b = sb_contents c"
        using c(1,3) m(2) le by (simp add: sb_contents_def sb_Size_def resize_def sb_invar_def)
      ultimately show ?thesis
        using e m room c(2,4) len by simp
    qed
  qed
qed

lemma Write_facts:
  assumes "sb_invar b"
  shows "\<exists>b'. Write data b = Some (data \<noteq> [] \<and> sb_Size b + length data \<le> MAX_CAPACITY, b') \<and> sb_invar b' \<and>
    sb_contents b' = sb_contents b @ (if sb_Size b + length data \<le> MAX_CAPACITY then data else [])"
proof (cases "data = []")
  case True
  with assms show ?thesis by (simp add: Write_def)
next
  case False
  let ?ok = "sb_Size b + length data \<le> MAX_CAPACITY"
  obtain c where c: "EnsureWritableSpace (length data) b = Some (?ok, c)" "sb_invar c"
    "sb_contents c = sb_contents b" "?ok \<longrightarrow> sb_write_pos c + length data \<le> length (sb_buffer c)"
    using EnsureWritableSpace_facts [OF assms, of "length data"] False by auto
  show ?thesis
  proof (cases ?ok)
    case True
    let ?c = "c\<lparr>sb_buffer := blit (sb_buffer c) (sb_write_pos c) data,
                sb_write_pos := sb_write_pos c + length data\<rparr>"
    have "sb_invar ?c" using c(2,4) True by (simp add: sb_invar_def)
    moreover have "sb_contents ?c = sb_contents c @ data"
      using c(2,4) True by (auto simp: sb_contents_def sb_Size_def sb_invar_def blit_def drop_take Suc_diff_le)
    ultimately show ?thesis using c(1,3) True False by (simp add: Write_def)
  next
    case False
    with c \<open>data \<noteq> []\<close> show ?thesis by (simp add: Write_def)
  qed
qed

lemma SendToSocket_facts:
  assumes "sb_invar b" and "\<And>n. r = Sent n \<Longrightarrow> n \<le> sb_Size b"
    and "SendToSocket fd r b = (ret, out, b')"
  shows "sb_invar b' \<and> sb_contents b = out @ sb_contents b' \<and> (ret = -1 \<or> ret = int (length out))"
proof (cases "0 \<le> fd \<and> sb_Size b \<noteq> 0 \<and> (\<exists>n. r = Sent n \<and> 0 < n)")
  case False
  with assms(1,3) show ?thesis
    by (auto simp: SendToSocket_def split: send_result.splits if_splits)
next
  case True
  then obtain k where k: "r = Sent k" "0 < k" by blast
  have le: "k \<le> sb_Size b" using assms(2) [OF k(1)] .
  let ?b = "b\<lparr>sb_read_pos := sb_read_pos b + k\<rparr>"
  let ?out = "take k (drop (sb_read_pos b) (sb_buffer b))"
  have b: "sb_invar ?b" using assms(1) le by (auto simp: sb_invar_def sb_Size_def)
  have sz: "sb_Size b = k + sb_Size ?b" using le by (auto simp: sb_Size_def)
  have s: "sb_contents b = ?out @ sb_contents ?b"
    using take_add [of k "sb_Size ?b" "drop (sb_read_pos b) (sb_buffer b)"]
    by (simp add: sb_contents_def sz add.commute)
  let ?z = "?b\<lparr>sb_read_pos := 0, sb_write_pos := 0\<rparr>"
  have "sb_invar ?z" using b by (simp add: sb_invar_def)
  moreover have "sb_contents ?b = sb_contents ?z" if "sb_read_pos ?b = sb_write_pos ?b"
    using that by (simp add: sb_contents_def sb_Size_def)
  moreover have "length ?out = k" using assms(1) le by (auto simp: sb_invar_def sb_Size_def)
  moreover have "ret = int k" "out = ?out"
    "b' = (if sb_read_pos ?b = sb_write_pos ?b then ?z
           else if sb_read_pos ?b > length (sb_buffer ?b) div 2 then Compact ?b else ?b)"
    using assms(3) True k by (auto simp: SendToSocket_def Let_def split: if_splits)
  ultimately show ?thesis
    unfolding s using b Compact_facts(1,2) [OF b] by presburger
qed

section \<open>Histories\<close>

text \<open>Any history of writes, sends and compactions: the bytes accepted by \<open>Write\<close> and the bytes
  handed to the socket.\<close>

inductive sb_run :: "SendBuffer \<Rightarrow> bytes \<Rightarrow> bytes \<Rightarrow> SendBuffer \<Rightarrow> bool" where
  sb_nil: "sb_run b [] [] b"
| sb_write: "Write data b = Some (ok, b1) \<Longrightarrow> sb_run b1 acc out b2 \<Longrightarrow>
    sb_run b ((if ok then data else []) @ acc) out b2"
| sb_send: "(\<And>n. r = Sent n \<Longrightarrow> n \<le> sb_Size b) \<Longrightarrow> SendToSocket fd r b = (ret, sent, b1) \<Longrightarrow>
    sb_run b1 acc out b2 \<Longrightarrow> sb_run b acc (sent @ out) b2"
| sb_compact: "sb_run (Compact b) acc out b2 \<Longrightarrow> sb_run b acc out b2"

lemma sb_run_facts:
  "sb_run b acc out b' \<Longrightarrow> sb_invar b \<Longrightarrow> sb_invar b' \<and> sb_contents b @ acc = out @ sb_contents b'"
proof (induction rule: sb_run.induct)
  case (sb_write data b ok b1 acc out b2)
  then have "sb_invar b1" "sb_contents b1 = sb_contents b @ (if ok then data else [])"
    using Write_facts [OF sb_write.prems, of data] by auto
  with sb_write.IH show ?case by simp
next
  case (sb_send r b fd ret sent b1 acc out b2)
  from SendToSocket_facts [OF sb_send.prems sb_send.hyps(1,2)] sb_send.IH show ?case by simp
next
  case (sb_compact b acc out b2)
  then show ?case using Compact_facts by simp
qed simp

section \<open>Properties\<close>

lemma sb_invar_ctor: "sb_invar SendBuffer_ctor"
  by (simp add: sb_invar_def SendBuffer_ctor_def INITIAL_CAPACITY_def MAX_CAPACITY_def)

text \<open>C8: no byte is lost, duplicated or reordered. In any history of writes, (partial) sends and
  compactions of a fresh buffer, the bytes accepted are the bytes handed to the socket followed by
  the bytes still buffered, and the buffer never holds more than 32 MB.\<close>

theorem SendBuffer_stream:
  assumes "sb_run SendBuffer_ctor acc out b"
  shows "acc = out @ sb_contents b \<and> length (sb_buffer b) \<le> MAX_CAPACITY"
  using sb_run_facts [OF assms sb_invar_ctor]
  by (simp add: sb_invar_def SendBuffer_ctor_def sb_contents_def sb_Size_def)

theorem SendBuffer_stream_witness:
  "\<exists>b. sb_run SendBuffer_ctor [1, 2] [1] b \<and> [1, 2] = [1] @ sb_contents b"
proof -
  let ?b1 = "SendBuffer_ctor\<lparr>sb_buffer := blit (sb_buffer SendBuffer_ctor) 0 [1, 2], sb_write_pos := 2\<rparr>"
  have "Write [1, 2] SendBuffer_ctor = Some (True, ?b1)"
    by (simp add: Write_def EnsureWritableSpace_def SendBuffer_ctor_def INITIAL_CAPACITY_def)
  moreover have "SendToSocket 5 (Sent 1) ?b1 = (1, [1], ?b1\<lparr>sb_read_pos := 1\<rparr>)"
    by (simp add: SendToSocket_def sb_Size_def SendBuffer_ctor_def INITIAL_CAPACITY_def blit_def)
  ultimately have "sb_run SendBuffer_ctor ([1, 2] @ []) ([1] @ []) (?b1\<lparr>sb_read_pos := 1\<rparr>)"
    using sb_write [of "[1, 2]" SendBuffer_ctor True ?b1 "[]" "[1]"]
      sb_send [of "Sent 1" ?b1 5 1 "[1]" "?b1\<lparr>sb_read_pos := 1\<rparr>" "[]" "[]", OF _ _ sb_nil]
    by (simp add: sb_Size_def SendBuffer_ctor_def)
  then have r: "sb_run SendBuffer_ctor [1, 2] [1] (?b1\<lparr>sb_read_pos := 1\<rparr>)" by simp
  from SendBuffer_stream [OF this] r show ?thesis by blast
qed

text \<open>on a well-formed buffer \<open>Write\<close> always returns; it accepts non-empty data exactly when the
  bytes buffered and the new ones fit 32 MB together, whatever the positions, and a refused write
  leaves the buffered bytes as they were.\<close>

theorem Write_total:
  assumes "sb_invar b"
  shows "\<exists>b'. Write data b = Some (data \<noteq> [] \<and> sb_Size b + length data \<le> MAX_CAPACITY, b') \<and>
    sb_invar b' \<and>
    sb_contents b' = sb_contents b @ (if sb_Size b + length data \<le> MAX_CAPACITY then data else [])"
  using assms by (rule Write_facts)

theorem Write_total_witness:
  "\<exists>b'. Write [9] SendBuffer_ctor = Some (True, b') \<and> sb_contents b' = [9]"
  using Write_total [OF sb_invar_ctor, of "[9]"]
  by (auto simp: SendBuffer_ctor_def sb_Size_def sb_contents_def MAX_CAPACITY_def)

text \<open>a buffer that was moved from has capacity 0, which doubling never raises: a write to it
  does not return.\<close>

theorem Write_moved_from_diverges:
  assumes "data \<noteq> []" and "length data \<le> MAX_CAPACITY"
  shows "Write data (snd (SendBuffer_move b)) = None"
  using assms by (simp add: Write_def EnsureWritableSpace_def SendBuffer_move_def grow_capacity_zero)

theorem Write_moved_from_diverges_witness:
  "Write [1] (snd (SendBuffer_move SendBuffer_ctor)) = None"
  by (rule Write_moved_from_diverges) (simp_all add: MAX_CAPACITY_def)

end
