(* ===== verification/IOMonitor.thy ===== *)
theory IOMonitor
  imports SystemCalls "HOL-Library.Signed_Division"
begin

text \<open>
  The class \<open>IOMonitor\<close> of \<^verbatim>\<open>src/darwincore/network/io_monitor.cpp\<close> over the kernel's kqueue. The
  filters registered with the kqueue are part of the state; whether \<open>kevent\<close> accepts a change for a
  reason of its own is the argument \<open>ok\<close>. Deleting a filter that is not registered fails with
  \<open>ENOENT\<close>, and a change list is abandoned at its first failing entry.
\<close>

record IOMonitor =
  iom_open :: bool
  iom_reads :: "int list"
  iom_writes :: "int list"
  iom_users :: "nat list"

definition IOMonitor_ctor :: IOMonitor where
  "IOMonitor_ctor = \<lparr> iom_open = False, iom_reads = [], iom_writes = [], iom_users = [] \<rparr>"

text \<open>A new kqueue replaces the descriptor whether or not one was open.\<close>

definition iom_Initialize :: "bool \<Rightarrow> IOMonitor \<Rightarrow> bool \<times> IOMonitor" where
  "iom_Initialize ok m = (ok, m\<lparr>iom_open := ok, iom_reads := [], iom_writes := [], iom_users := []\<rparr>)"

definition iom_Close :: "IOMonitor \<Rightarrow> IOMonitor" where
  "iom_Close m =
     (if iom_open m then m\<lparr>iom_open := False, iom_reads := [], iom_writes := [], iom_users := []\<rparr> else m)"

definition StartReadMonitor :: "bool \<Rightarrow> int \<Rightarrow> IOMonitor \<Rightarrow> bool \<times> IOMonitor" where
  "StartReadMonitor ok fd m =
     (if \<not> iom_open m then (False, m)
      else if \<not> ok then (False, m)
      else (True, m\<lparr>iom_reads := List.insert fd (iom_reads m)\<rparr>))"

definition StopReadMonitor :: "bool \<Rightarrow> int \<Rightarrow> IOMonitor \<Rightarrow> bool \<times> IOMonitor" where
  "StopReadMonitor ok fd m =
     (if \<not> iom_open m then (False, m)
      else if \<not> ok \<or> fd \<notin> set (iom_reads m) then (False, m)
      else (True, m\<lparr>iom_reads := removeAll fd (iom_reads m)\<rparr>))"

definition StartWriteMonitor :: "bool \<Rightarrow> int \<Rightarrow> IOMonitor \<Rightarrow> bool \<times> IOMonitor" where
  "StartWriteMonitor ok fd m =
     (if \<not> iom_open m then (False, m)
      else if \<not> ok then (False, m)
      else (True, m\<lparr>iom_writes := List.insert fd (iom_writes m)\<rparr>))"

definition StopWriteMonitor :: "bool \<Rightarrow> int \<Rightarrow> IOMonitor \<Rightarrow> bool \<times> IOMonitor" where
  "StopWriteMonitor ok fd m =
     (if \<not> iom_open m then (False, m)
      else if \<not> ok \<or> fd \<notin> set (iom_writes m) then (False, m)
      else (True, m\<lparr>iom_writes := removeAll fd (iom_writes m)\<rparr>))"

definition StopMonitor :: "bool \<Rightarrow> int \<Rightarrow> IOMonitor \<Rightarrow> bool \<times> IOMonitor" where
  "StopMonitor ok fd m =
     (if \<not> iom_open m then (False, m)
      else if \<not> ok \<or> fd \<notin> set (iom_reads m) then (False, m)
      else let m = m\<lparr>iom_reads := removeAll fd (iom_reads m)\<rparr>
      in if fd \<notin> set (iom_writes m) then (False, m)
         else (True, m\<lparr>iom_writes := removeAll fd (iom_writes m)\<rparr>))"

definition InitializeWakeupEvent :: "bool \<Rightarrow> nat \<Rightarrow> IOMonitor \<Rightarrow> bool \<times> IOMonitor" where
  "InitializeWakeupEvent ok ident m =
     (if \<not> iom_open m then (False, m)
      else if \<not> ok then (False, m)
      else (True, m\<lparr>iom_users := List.insert ident (iom_users m)\<rparr>))"

definition TriggerWakeupEvent :: "bool \<Rightarrow> nat \<Rightarrow> IOMonitor \<Rightarrow> bool" where
  "TriggerWakeupEvent ok ident m \<longleftrightarrow> iom_open m \<and> ok \<and> ident \<in> set (iom_users m)"

text \<open>The kernel drops the filters of a descriptor that is closed.\<close>

definition forget_fd :: "int \<Rightarrow> IOMonitor \<Rightarrow> IOMonitor" where
  "forget_fd fd m = m\<lparr>iom_reads := removeAll fd (iom_reads m), iom_writes := removeAll fd (iom_writes m)\<rparr>"

text \<open>\<open>WaitEvents\<close>: the time limit it passes to \<open>kevent\<close>, in seconds and nanoseconds.\<close>

definition WaitEvents_timeout :: "int \<Rightarrow> int \<times> int" where
  "WaitEvents_timeout timeout_ms = (timeout_ms sdiv 1000, (timeout_ms smod 1000) * 1000 * 1000)"

lemma StopMonitor_close: "forget_fd fd (snd (StopMonitor ok fd m)) = forget_fd fd m"
  by (auto simp: StopMonitor_def forget_fd_def Let_def)

lemma iom_open_keeps [simp]:
  "iom_open (snd (StartReadMonitor ok fd m)) = iom_open m"
  "iom_open (snd (StopReadMonitor ok fd m)) = iom_open m"
  "iom_open (snd (StartWriteMonitor ok fd m)) = iom_open m"
  "iom_open (snd (StopWriteMonitor ok fd m)) = iom_open m"
  "iom_open (snd (StopMonitor ok fd m)) = iom_open m"
  "iom_open (forget_fd fd m) = iom_open m"
  by (auto simp: StartReadMonitor_def StopReadMonitor_def StartWriteMonitor_def StopWriteMonitor_def
      StopMonitor_def forget_fd_def Let_def)

end
