(* ===== verification/Reactor.thy ===== *)
theory Reactor
  imports Events SendBuffer IOMonitor ConnectionId ConcurrentQueue "HOL-Library.AList"
begin

text \<open>
  The class \<open>Reactor\<close> of \<^verbatim>\<open>src/darwincore/network/reactor.cpp\<close>: the connections of one event-loop
  thread, the queue of operations other threads submit, and the handlers of the kernel's events. The
  handlers run in the reactor thread only, one at a time; the answers of the kernel, of the clock and
  of the worker pool are arguments. Peer addresses are kept as the value \<open>accept\<close> delivered; how
  they print is an argument too. Three members are history and are never read by the code: the log
  of the dispatched events and silent removals, and per connection the bytes that \<open>DoSendData\<close> has
  taken over and the bytes handed to the socket.
\<close>

section \<open>State\<close>

record 'p ReactorConnection =
  rc_file_descriptor :: int
  rc_peer_address :: 'p
  rc_connection_id :: u64
  rc_send_buffer :: SendBuffer
  rc_read_paused :: bool
  rc_write_pending :: bool
  rc_last_active :: int
  rc_taken :: bytes
  rc_wire :: bytes

datatype 'p Operation =
    kAdd int 'p
  | kRemove u64
  | kSend u64 bytes
  | kGetSendBufferSize u64 nat

record Statistics =
  st_total_connections :: u64
  st_active_connections :: u64
  st_total_bytes_sent :: u64
  st_total_bytes_received :: u64
  st_total_ops_processed :: u64
  st_total_dispatch_failures :: u64
  st_total_add_requests :: u64
  st_total_add_failures :: u64
  st_total_remove_requests :: u64
  st_total_remove_failures :: u64
  st_total_send_requests :: u64
  st_total_send_failures :: u64

datatype log_entry = Dispatched NetworkEvent | RemovedByRequest u64

record 'p Reactor =
  r_reactor_id :: int
  r_worker_pool :: bool
  r_io_monitor :: IOMonitor
  r_is_running :: bool
  r_connection_seq :: u16
  r_connections :: "(u64 \<times> 'p ReactorConnection) list"
  r_fd_to_connection_id :: "(int \<times> u64) list"
  r_pending_operations :: "'p Operation ConcurrentQueue"
  r_connection_timeout :: int
  r_stats :: Statistics
  r_closed :: "int list"
  r_promises :: "(nat \<times> u64) list"
  r_log :: "log_entry list"

text \<open>The answers an invocation gets from outside: the clock, the date, whether \<open>kevent\<close> takes a
  change, whether the pool takes an event, the texts of errors and addresses, what \<open>send\<close> answers
  when it is offered some number of bytes, and the successive answers of \<open>recv\<close>.\<close>

record 'p Env =
  e_now :: int
  e_tm :: tm
  e_kevent :: bool
  e_accept :: "NetworkEvent \<Rightarrow> bool"
  e_strerror :: "errno \<Rightarrow> string"
  e_address :: "'p \<Rightarrow> string \<times> u16"
  e_is_unix :: "'p \<Rightarrow> bool"
  e_send :: "nat \<Rightarrow> send_result"
  e_recv :: "recv_result list"

abbreviation count :: "(Statistics \<Rightarrow> Statistics) \<Rightarrow> 'p Reactor \<Rightarrow> 'p Reactor" where
  "count f r \<equiv> r\<lparr>r_stats := f (r_stats r)\<rparr>"

definition zero_statistics :: Statistics where
  "zero_statistics = \<lparr> st_total_connections = 0, st_active_connections = 0, st_total_bytes_sent = 0,
     st_total_bytes_received = 0, st_total_ops_processed = 0, st_total_dispatch_failures = 0,
     st_total_add_requests = 0, st_total_add_failures = 0, st_total_remove_requests = 0,
     st_total_remove_failures = 0, st_total_send_requests = 0, st_total_send_failures = 0 \<rparr>"

definition Reactor_ctor :: "int \<Rightarrow> bool \<Rightarrow> 'p Reactor" where
  "Reactor_ctor i has_pool = \<lparr> r_reactor_id = i, r_worker_pool = has_pool, r_io_monitor = IOMonitor_ctor,
     r_is_running = False, r_connection_seq = 0, r_connections = [], r_fd_to_connection_id = [],
     r_pending_operations = ConcurrentQueue_ctor 0, r_connection_timeout = 60,
     r_stats = zero_statistics, r_closed = [], r_promises = [], r_log = [] \<rparr>"

definition ReactorConnection_ctor :: "int \<Rightarrow> int \<Rightarrow> 'p \<Rightarrow> u64 \<Rightarrow> 'p ReactorConnection" where
  "ReactorConnection_ctor now fd peer i = \<lparr> rc_file_descriptor = fd, rc_peer_address = peer,
     rc_connection_id = i, rc_send_buffer = SendBuffer_ctor, rc_read_paused = False,
     rc_write_pending = False, rc_last_active = now, rc_taken = [], rc_wire = [] \<rparr>"

definition UpdateActivity :: "int \<Rightarrow> 'p ReactorConnection \<Rightarrow> 'p ReactorConnection" where
  "UpdateActivity now conn = conn\<lparr>rc_last_active := now\<rparr>"

text \<open>The clock counts nanoseconds, the timeout seconds.\<close>

definition IsTimeout :: "int \<Rightarrow> int \<Rightarrow> 'p ReactorConnection \<Rightarrow> bool" where
  "IsTimeout now timeout conn \<longleftrightarrow> now - rc_last_active conn > timeout * 1000000000"

abbreviation find_conn :: "u64 \<Rightarrow> 'p Reactor \<Rightarrow> 'p ReactorConnection option" where
  "find_conn cid r \<equiv> map_of (r_connections r) cid"

abbreviation put_conn :: "u64 \<Rightarrow> 'p ReactorConnection \<Rightarrow> 'p Reactor \<Rightarrow> 'p Reactor" where
  "put_conn cid conn r \<equiv> r\<lparr>r_connections := AList.update cid conn (r_connections r)\<rparr>"

section \<open>Dispatching events\<close>

fun MapErrnoToNetworkError :: "errno \<Rightarrow> NetworkError" where
  "MapErrnoToNetworkError ECONNRESET = kResetByPeer"
| "MapErrnoToNetworkError ETIMEDOUT = kTimeout"
| "MapErrnoToNetworkError EPIPE = kPeerClosed"
| "MapErrnoToNetworkError ENOTCONN = kPeerClosed"
| "MapErrnoToNetworkError ECONNREFUSED = kConnectionRefused"
| "MapErrnoToNetworkError EHOSTUNREACH = kNetworkUnreachable"
| "MapErrnoToNetworkError ENETUNREACH = kNetworkUnreachable"
| "MapErrnoToNetworkError _ = kSyscallFailure"

text \<open>With a pool, a refused submission is counted; without one, the callback gets the event.\<close>

definition DispatchEvent :: "'p Env \<Rightarrow> NetworkEvent \<Rightarrow> 'p Reactor \<Rightarrow> 'p Reactor" where
  "DispatchEvent env e r =
     (let r = r\<lparr>r_log := r_log r @ [Dispatched e]\<rparr>
      in if r_worker_pool r
         then if e_accept env e then r
              else count (\<lambda>s. s\<lparr>st_total_dispatch_failures := st_total_dispatch_failures s + 1\<rparr>) r
         else r)"

definition DispatchConnectionEvent :: "'p Env \<Rightarrow> u64 \<Rightarrow> 'p \<Rightarrow> 'p Reactor \<Rightarrow> 'p Reactor" where
  "DispatchConnectionEvent env cid peer r =
     (let (ip, port) = e_address env peer
      in DispatchEvent env ((NetworkEvent_ctor kConnected cid)\<lparr>ne_connection_info :=
           Some (ConnectionInformation_ctor cid ip port (e_is_unix env peer))\<rparr>) r)"

definition DispatchDataEvent :: "'p Env \<Rightarrow> u64 \<Rightarrow> bytes \<Rightarrow> 'p Reactor \<Rightarrow> 'p Reactor" where
  "DispatchDataEvent env cid data r =
     DispatchEvent env ((NetworkEvent_ctor kData cid)\<lparr>ne_payload := data\<rparr>) r"

definition DispatchDisconnectEvent :: "'p Env \<Rightarrow> u64 \<Rightarrow> 'p Reactor \<Rightarrow> 'p Reactor" where
  "DispatchDisconnectEvent env cid r = DispatchEvent env (NetworkEvent_ctor kDisconnected cid) r"

definition DispatchErrorEvent :: "'p Env \<Rightarrow> u64 \<Rightarrow> errno \<Rightarrow> 'p Reactor \<Rightarrow> 'p Reactor" where
  "DispatchErrorEvent env cid error_code r =
     DispatchEvent env ((NetworkEvent_ctor kError cid)\<lparr>ne_error := Some (MapErrnoToNetworkError error_code),
       ne_error_message := e_strerror env error_code\<rparr>) r"

section \<open>Adding and removing connections\<close>

definition close_fd :: "int \<Rightarrow> 'p Reactor \<Rightarrow> 'p Reactor" where
  "close_fd fd r = r\<lparr>r_closed := r_closed r @ [fd], r_io_monitor := forget_fd fd (r_io_monitor r)\<rparr>"

definition DoAddConnection :: "'p Env \<Rightarrow> int \<Rightarrow> 'p \<Rightarrow> 'p Reactor \<Rightarrow> u64 \<times> 'p Reactor" where
  "DoAddConnection env fd peer r =
     (if fd < 0 \<or> \<not> r_is_running r then (0, r)
      else let seq = r_connection_seq r; r = r\<lparr>r_connection_seq := r_connection_seq r + 1\<rparr>;
               (seq, r) = (if seq = 0
                           then (r_connection_seq r, r\<lparr>r_connection_seq := r_connection_seq r + 1\<rparr>)
                           else (seq, r));
               cid = Generate (e_tm env) (word_of_int (r_reactor_id r)) (word_of_int fd) seq
      in if find_conn cid r \<noteq> None then (0, close_fd fd r)
         else let (ok, mon) = StartReadMonitor (e_kevent env) fd (r_io_monitor r);
                  r = r\<lparr>r_io_monitor := mon\<rparr>
         in if \<not> ok then (0, close_fd fd r)
            else let r = put_conn cid (ReactorConnection_ctor (e_now env) fd peer cid) r;
                     r = r\<lparr>r_fd_to_connection_id := AList.update fd cid (r_fd_to_connection_id r)\<rparr>;
                     r = count (\<lambda>s. s\<lparr>st_total_connections := st_total_connections s + 1,
                                      st_active_connections := st_active_connections s + 1\<rparr>) r
            in (cid, DispatchConnectionEvent env cid peer r))"

definition DoRemoveConnection :: "'p Env \<Rightarrow> u64 \<Rightarrow> 'p Reactor \<Rightarrow> bool \<times> 'p Reactor" where
  "DoRemoveConnection env cid r =
     (case find_conn cid r of
        None \<Rightarrow> (False, r)
      | Some conn \<Rightarrow>
          let fd = rc_file_descriptor conn;
              r = r\<lparr>r_io_monitor := snd (StopMonitor (e_kevent env) fd (r_io_monitor r))\<rparr>;
              r = close_fd fd r;
              r = r\<lparr>r_fd_to_connection_id := AList.delete fd (r_fd_to_connection_id r),
                    r_connections := AList.delete cid (r_connections r)\<rparr>
          in (True, count (\<lambda>s. s\<lparr>st_active_connections := st_active_connections s - 1\<rparr>) r))"

definition HandleConnectionClose :: "'p Env \<Rightarrow> 'p ReactorConnection \<Rightarrow> 'p Reactor \<Rightarrow> 'p Reactor" where
  "HandleConnectionClose env conn r =
     (let cid = rc_connection_id conn
      in snd (DoRemoveConnection env cid (DispatchDisconnectEvent env cid r)))"

definition HandleConnectionError ::
    "'p Env \<Rightarrow> 'p ReactorConnection \<Rightarrow> errno \<Rightarrow> 'p Reactor \<Rightarrow> 'p Reactor" where
  "HandleConnectionError env conn error_code r =
     (let cid = rc_connection_id conn
      in snd (DoRemoveConnection env cid
           (DispatchDisconnectEvent env cid (DispatchErrorEvent env cid error_code r))))"

section \<open>Sending\<close>

text \<open>What \<open>send\<close> answered to \<open>size\<close> bytes: all sent, the number sent, a real error.\<close>

definition TrySendDirect :: "send_result \<Rightarrow> nat \<Rightarrow> bool \<times> nat \<times> errno option" where
  "TrySendDirect sr n =
     (case sr of
        Sent ret \<Rightarrow> (if ret > 0 then (ret = n, ret, None) else (False, 0, None))
      | SendFailed e \<Rightarrow>
          (if e = EAGAIN \<or> e = EWOULDBLOCK then (False, 0, None)
           else if e = EINTR then (False, 0, None) else (False, 0, Some e)))"

text \<open>None: the write to the buffer does not return.\<close>

definition BufferAndMonitorWrite ::
    "'p Env \<Rightarrow> u64 \<Rightarrow> 'p ReactorConnection \<Rightarrow> bytes \<Rightarrow> 'p Reactor \<Rightarrow> (bool \<times> 'p Reactor) option" where
  "BufferAndMonitorWrite env cid conn data r =
     (case Write data (rc_send_buffer conn) of
        None \<Rightarrow> None
      | Some (False, b) \<Rightarrow>
          Some (False, HandleConnectionError env conn ENOMEM (put_conn cid (conn\<lparr>rc_send_buffer := b\<rparr>) r))
      | Some (True, b) \<Rightarrow>
          let fd = rc_file_descriptor conn;
              conn = conn\<lparr>rc_send_buffer := b, rc_taken := rc_taken conn @ data\<rparr>;
              pause = (IsHighWaterMark b \<and> \<not> rc_read_paused conn);
              r = (if pause
                   then r\<lparr>r_io_monitor := snd (StopReadMonitor (e_kevent env) fd (r_io_monitor r))\<rparr> else r);
              conn = (if pause then conn\<lparr>rc_read_paused := True\<rparr> else conn);
              r = (if \<not> rc_write_pending conn
                   then r\<lparr>r_io_monitor := snd (StartWriteMonitor (e_kevent env) fd (r_io_monitor r))\<rparr> else r);
              conn = (if \<not> rc_write_pending conn then conn\<lparr>rc_write_pending := True\<rparr> else conn)
          in Some (True, put_conn cid conn r))"

definition DoSendData ::
    "'p Env \<Rightarrow> u64 \<Rightarrow> bytes \<Rightarrow> 'p Reactor \<Rightarrow> (bool \<times> 'p Reactor) option" where
  "DoSendData env cid data r =
     (case find_conn cid r of
        None \<Rightarrow> Some (False, r)
      | Some conn \<Rightarrow>
          if \<not> sb_IsEmpty (rc_send_buffer conn) then BufferAndMonitorWrite env cid conn data r
          else let (all_sent, sent, err) = TrySendDirect (e_send env (length data)) (length data);
                   conn = conn\<lparr>rc_taken := rc_taken conn @ take sent data,
                               rc_wire := rc_wire conn @ take sent data\<rparr>;
                   r = put_conn cid conn r
          in case (all_sent, err) of
               (False, Some e) \<Rightarrow> Some (False, HandleConnectionError env conn e r)
             | _ \<Rightarrow>
               (if sent < length data
                then BufferAndMonitorWrite env cid conn (drop sent data) r
                else Some (True, count (\<lambda>s. s\<lparr>st_total_bytes_sent :=
                       st_total_bytes_sent s + word_of_nat sent\<rparr>) r)))"

section \<open>Events of the kernel\<close>

text \<open>The loop of \<open>HandleReadEvent\<close> over the answers of \<open>recv\<close>; when they are used up, the next
  answer is \<open>EAGAIN\<close>.\<close>

fun read_loop :: "'p Env \<Rightarrow> u64 \<Rightarrow> 'p ReactorConnection \<Rightarrow> recv_result list \<Rightarrow> 'p Reactor \<Rightarrow> 'p Reactor" where
  "read_loop env cid conn [] r = r"
| "read_loop env cid conn (Received data # rs) r =
     (let conn = UpdateActivity (e_now env) conn;
          r = put_conn cid conn r;
          r = count (\<lambda>s. s\<lparr>st_total_bytes_received :=
                st_total_bytes_received s + word_of_nat (length data)\<rparr>) r
      in read_loop env cid conn rs (DispatchDataEvent env cid data r))"
| "read_loop env cid conn (RecvEOF # rs) r = HandleConnectionClose env conn r"
| "read_loop env cid conn (RecvFailed e # rs) r =
     (if e = EAGAIN \<or> e = EWOULDBLOCK then r
      else if e = EINTR then read_loop env cid conn rs r
      else HandleConnectionError env conn e r)"

definition HandleReadEvent :: "'p Env \<Rightarrow> int \<Rightarrow> 'p Reactor \<Rightarrow> 'p Reactor" where
  "HandleReadEvent env fd r =
     (case map_of (r_fd_to_connection_id r) fd of
        None \<Rightarrow> r
      | Some cid \<Rightarrow> (case find_conn cid r of None \<Rightarrow> r | Some conn \<Rightarrow> read_loop env cid conn (e_recv env) r))"

definition HandleWriteEvent :: "'p Env \<Rightarrow> int \<Rightarrow> 'p Reactor \<Rightarrow> 'p Reactor" where
  "HandleWriteEvent env fd r =
     (case map_of (r_fd_to_connection_id r) fd of
        None \<Rightarrow> r
      | Some cid \<Rightarrow> (case find_conn cid r of None \<Rightarrow> r | Some conn \<Rightarrow>
          let answer = e_send env (sb_Size (rc_send_buffer conn));
              (ret, out, b) = SendToSocket fd answer (rc_send_buffer conn);
              conn = conn\<lparr>rc_send_buffer := b, rc_wire := rc_wire conn @ out\<rparr>
          in if ret < 0
             then HandleConnectionError env conn (case answer of SendFailed e \<Rightarrow> e | Sent n \<Rightarrow> OtherErrno 0)
                    (put_conn cid conn r)
             else let conn = (if ret > 0 then UpdateActivity (e_now env) conn else conn);
                      r = (if ret > 0 then count (\<lambda>s. s\<lparr>st_total_bytes_sent :=
                             st_total_bytes_sent s + word_of_int ret\<rparr>) r else r);
                      resume = (ret > 0 \<and> rc_read_paused conn \<and> IsLowWaterMark b);
                      r = (if resume then r\<lparr>r_io_monitor :=
                             snd (StartReadMonitor (e_kevent env) fd (r_io_monitor r))\<rparr> else r);
                      conn = (if resume then conn\<lparr>rc_read_paused := False\<rparr> else conn);
                      finished = (sb_IsEmpty b \<and> rc_write_pending conn);
                      r = (if finished then r\<lparr>r_io_monitor :=
                             snd (StopWriteMonitor (e_kevent env) fd (r_io_monitor r))\<rparr> else r);
                      conn = (if finished then conn\<lparr>rc_write_pending := False\<rparr> else conn)
             in put_conn cid conn r))"

datatype kfilter = EVFILT_READ | EVFILT_WRITE | EVFILT_USER

record kevent =
  ke_ident :: int
  ke_filter :: kfilter
  ke_eof :: bool
  ke_error :: bool
  ke_data :: errno

definition ProcessKqueueEvent ::
    "'p Env \<Rightarrow> kevent \<Rightarrow> 'p Reactor \<Rightarrow> 'p Reactor" where
  "ProcessKqueueEvent env ev r =
     (let fd = ke_ident ev
      in case map_of (r_fd_to_connection_id r) fd of
        None \<Rightarrow> r
      | Some cid \<Rightarrow> (case find_conn cid r of None \<Rightarrow> r | Some conn \<Rightarrow>
          if ke_eof ev then HandleConnectionClose env conn r
          else if ke_error ev then HandleConnectionError env conn (ke_data ev) r
          else if ke_filter ev = EVFILT_READ then HandleReadEvent env fd r
          else if ke_filter ev = EVFILT_WRITE then HandleWriteEvent env fd r
          else r))"

fun close_each :: "'p Env \<Rightarrow> u64 list \<Rightarrow> 'p Reactor \<Rightarrow> 'p Reactor" where
  "close_each env [] r = r"
| "close_each env (cid # cids) r = close_each env cids
     (case find_conn cid r of None \<Rightarrow> r | Some conn \<Rightarrow> HandleConnectionClose env conn r)"

definition CheckTimeouts :: "'p Env \<Rightarrow> 'p Reactor \<Rightarrow> 'p Reactor" where
  "CheckTimeouts env r =
     (if r_connection_timeout r = 0 then r
      else close_each env
        (map fst (filter (\<lambda>(cid, conn). IsTimeout (e_now env) (r_connection_timeout r) conn) (r_connections r))) r)"

section \<open>Operations submitted by other threads\<close>

definition submit_op :: "'p Operation \<Rightarrow> 'p Reactor \<Rightarrow> (bool \<times> 'p Reactor) option" where
  "submit_op op r = map_option (\<lambda>(ok, q). (ok, r\<lparr>r_pending_operations := q\<rparr>))
     (Enqueue op (r_pending_operations r))"

definition AddConnection :: "int \<Rightarrow> 'p \<Rightarrow> 'p Reactor \<Rightarrow> (bool \<times> 'p Reactor) option" where
  "AddConnection fd peer r =
     (let r = count (\<lambda>s. s\<lparr>st_total_add_requests := st_total_add_requests s + 1\<rparr>) r;
          failed = count (\<lambda>s. s\<lparr>st_total_add_failures := st_total_add_failures s + 1\<rparr>)
      in if fd < 0 then Some (False, failed r)
         else if \<not> r_is_running r then Some (False, failed r)
         else map_option (\<lambda>(ok, r'). (ok, if ok then r' else failed r')) (submit_op (kAdd fd peer) r))"

definition RemoveConnection :: "u64 \<Rightarrow> 'p Reactor \<Rightarrow> (bool \<times> 'p Reactor) option" where
  "RemoveConnection cid r =
     (let r = count (\<lambda>s. s\<lparr>st_total_remove_requests := st_total_remove_requests s + 1\<rparr>) r;
          failed = count (\<lambda>s. s\<lparr>st_total_remove_failures := st_total_remove_failures s + 1\<rparr>)
      in if \<not> r_is_running r then Some (False, failed r)
         else map_option (\<lambda>(ok, r'). (ok, if ok then r' else failed r')) (submit_op (kRemove cid) r))"

definition SendData :: "u64 \<Rightarrow> bytes \<Rightarrow> 'p Reactor \<Rightarrow> (bool \<times> 'p Reactor) option" where
  "SendData cid data r =
     (let r = count (\<lambda>s. s\<lparr>st_total_send_requests := st_total_send_requests s + 1\<rparr>) r;
          failed = count (\<lambda>s. s\<lparr>st_total_send_failures := st_total_send_failures s + 1\<rparr>)
      in if data = [] then Some (False, failed r)
         else if \<not> r_is_running r then Some (False, failed r)
         else map_option (\<lambda>(ok, r'). (ok, if ok then r' else failed r')) (submit_op (kSend cid data) r))"

text \<open>The call then waits for the promise; \<open>Some 0\<close> is the answer without one.\<close>

definition GetSendBufferSize :: "u64 \<Rightarrow> nat \<Rightarrow> 'p Reactor \<Rightarrow> (nat option \<times> 'p Reactor) option" where
  "GetSendBufferSize cid promise r =
     (if \<not> r_is_running r then Some (Some 0, r)
      else map_option (\<lambda>(ok, r'). (if ok then None else Some 0, r'))
        (submit_op (kGetSendBufferSize cid promise) r))"

definition SetConnectionTimeout :: "int \<Rightarrow> 'p Reactor \<Rightarrow> 'p Reactor" where
  "SetConnectionTimeout timeout r = r\<lparr>r_connection_timeout := timeout\<rparr>"

text \<open>The switch of \<open>ProcessPendingOperations\<close>.\<close>

fun process_operation :: "'p Env \<Rightarrow> 'p Operation \<Rightarrow> 'p Reactor \<Rightarrow> 'p Reactor option" where
  "process_operation env (kAdd fd peer) r =
     (let (cid, r) = DoAddConnection env fd peer r
      in Some (if cid = 0 then count (\<lambda>s. s\<lparr>st_total_add_failures := st_total_add_failures s + 1\<rparr>) r else r))"
| "process_operation env (kRemove cid) r =
     (let (ok, r) = DoRemoveConnection env cid r
      in Some (if ok then r\<lparr>r_log := r_log r @ [RemovedByRequest cid]\<rparr>
               else count (\<lambda>s. s\<lparr>st_total_remove_failures := st_total_remove_failures s + 1\<rparr>) r))"
| "process_operation env (kSend cid data) r =
     map_option (\<lambda>(ok, r). if ok then r
        else count (\<lambda>s. s\<lparr>st_total_send_failures := st_total_send_failures s + 1\<rparr>) r)
       (DoSendData env cid data r)"
| "process_operation env (kGetSendBufferSize cid promise) r =
     Some (r\<lparr>r_promises := r_promises r @ [(promise,
       case find_conn cid r of None \<Rightarrow> 0 | Some conn \<Rightarrow> word_of_nat (sb_Size (rc_send_buffer conn)))]\<rparr>)"

text \<open>The loop, with the remaining part of the batch of 100; one environment per operation.\<close>

fun pending_loop :: "(nat \<Rightarrow> 'p Env) \<Rightarrow> nat \<Rightarrow> nat \<Rightarrow> 'p Reactor \<Rightarrow> (nat \<times> 'p Reactor) option" where
  "pending_loop envs 0 processed r = Some (processed, r)"
| "pending_loop envs (Suc k) processed r =
     (case TryDequeue (r_pending_operations r) of
        (None, q) \<Rightarrow> Some (processed, r)
      | (Some op, q) \<Rightarrow>
          (case process_operation (envs processed) op (r\<lparr>r_pending_operations := q\<rparr>) of
             None \<Rightarrow> None
           | Some r' \<Rightarrow> pending_loop envs k (processed + 1) r'))"

definition ProcessPendingOperations :: "(nat \<Rightarrow> 'p Env) \<Rightarrow> 'p Reactor \<Rightarrow> 'p Reactor option" where
  "ProcessPendingOperations envs r =
     (case pending_loop envs 100 0 r of
        None \<Rightarrow> None
      | Some (processed, r) \<Rightarrow>
          Some (if processed > 0
                then count (\<lambda>s. s\<lparr>st_total_ops_processed := st_total_ops_processed s + word_of_nat processed\<rparr>) r
                else r))"

section \<open>Starting, stopping, one round of the loop\<close>

definition kWakeupIdent :: nat where "kWakeupIdent = 1"

definition r_Start :: "bool \<Rightarrow> bool \<Rightarrow> bool \<Rightarrow> 'p Reactor \<Rightarrow> bool \<times> 'p Reactor" where
  "r_Start kqueue_ok kevent_ok thread_ok r =
     (let (ok, mon) = iom_Initialize kqueue_ok (r_io_monitor r); r = r\<lparr>r_io_monitor := mon\<rparr>
      in if \<not> ok then (False, r)
      else let (ok, mon) = InitializeWakeupEvent kevent_ok kWakeupIdent (r_io_monitor r);
               r = r\<lparr>r_io_monitor := mon\<rparr>
      in if \<not> ok then (False, r)
      else if r_is_running r then (False, r)
      else if thread_ok then (True, r\<lparr>r_is_running := True\<rparr>)
      else (False, r\<lparr>r_is_running := False\<rparr>))"

fun cleanup_each :: "'p Env \<Rightarrow> (u64 \<times> 'p ReactorConnection) list \<Rightarrow> 'p Reactor \<Rightarrow> 'p Reactor" where
  "cleanup_each env [] r = r"
| "cleanup_each env ((cid, conn) # cs) r = cleanup_each env cs
     (close_fd (rc_file_descriptor conn)
       (r\<lparr>r_io_monitor := snd (StopMonitor (e_kevent env) (rc_file_descriptor conn) (r_io_monitor r))\<rparr>))"

definition CleanupAllConnections :: "'p Env \<Rightarrow> 'p Reactor \<Rightarrow> 'p Reactor" where
  "CleanupAllConnections env r =
     (cleanup_each env (r_connections r) r)\<lparr>r_connections := [], r_fd_to_connection_id := []\<rparr>"

text \<open>\<open>Stop\<close> up to the join of the event-loop thread, and after it.\<close>

definition r_Stop_request :: "'p Reactor \<Rightarrow> 'p Reactor" where
  "r_Stop_request r =
     (if r_is_running r
      then r\<lparr>r_is_running := False, r_pending_operations := NotifyStop (r_pending_operations r)\<rparr> else r)"

definition r_Stop_finish :: "'p Env \<Rightarrow> 'p Reactor \<Rightarrow> 'p Reactor" where
  "r_Stop_finish env r = CleanupAllConnections env (r\<lparr>r_io_monitor := iom_Close (r_io_monitor r)\<rparr>)"

text \<open>The events of one \<open>WaitEvents\<close>; the wake-up event is skipped.\<close>

fun process_events :: "('p Env \<times> kevent) list \<Rightarrow> 'p Reactor \<Rightarrow> 'p Reactor" where
  "process_events [] r = r"
| "process_events ((env, ev) # evs) r = process_events evs
     (if ke_filter ev = EVFILT_USER \<and> ke_ident ev = int kWakeupIdent then r
      else ProcessKqueueEvent env ev r)"

text \<open>One round of \<open>RunEventLoop\<close>: the time of the last timeout check goes with it.\<close>

definition RunEventLoop_round ::
    "(nat \<Rightarrow> 'p Env) \<Rightarrow> 'p Env \<Rightarrow> ('p Env \<times> kevent) list \<Rightarrow>
     (nat \<Rightarrow> 'p Env) \<Rightarrow> int \<Rightarrow> 'p Reactor \<Rightarrow> (int \<times> 'p Reactor) option" where
  "RunEventLoop_round envs1 env evs envs2 last_check r =
     (case ProcessPendingOperations envs1 r of
        None \<Rightarrow> None
      | Some r \<Rightarrow>
          let due = (e_now env - last_check \<ge> 5 * 1000000000);
              r = (if due then CheckTimeouts env r else r);
              last_check = (if due then e_now env else last_check)
          in map_option (Pair last_check) (ProcessPendingOperations envs2 (process_events evs r)))"

definition GetStatistics :: "'p Reactor \<Rightarrow> int \<times> Statistics \<times> nat" where
  "GetStatistics r = (r_reactor_id r, r_stats r, Size (r_pending_operations r))"

end
