(* ===== verification/Acceptor.thy ===== *)
theory Acceptor
  imports Reactor "HOL-Library.Multiset"
begin

text \<open>
  The class \<open>Acceptor\<close> of \<^verbatim>\<open>src/darwincore/network/acceptor.cpp\<close>: opening a listening socket and
  handing the accepted connections to the reactors in turn. The reactors belong to the server; the
  acceptor holds weak pointers, here indices into the list of the server's reactors, in which a
  destroyed reactor is None. The answers of the kernel are arguments. Creating the accept thread is
  taken to succeed.
\<close>

section \<open>State\<close>

record Acceptor =
  ac_protocol :: SocketProtocol
  ac_listen_fd :: int
  ac_unix_socket_path :: string
  ac_io_monitor :: IOMonitor
  ac_accept_thread :: bool
  ac_is_running :: bool
  ac_reactors :: "nat list"
  ac_next_reactor_index :: u64
  ac_closed :: "int list"
  ac_unlinked :: "string list"
  ac_accepted :: "int list"

definition Acceptor_ctor :: "Acceptor" where
  "Acceptor_ctor = \<lparr> ac_protocol = kIPv4, ac_listen_fd = -1, ac_unix_socket_path = [],
     ac_io_monitor = IOMonitor_ctor, ac_accept_thread = False, ac_is_running = False, ac_reactors = [],
     ac_next_reactor_index = 0, ac_closed = [], ac_unlinked = [], ac_accepted = [] \<rparr>"

abbreviation ac_close :: "int \<Rightarrow> Acceptor \<Rightarrow> Acceptor" where
  "ac_close fd a \<equiv> a\<lparr>ac_closed := ac_closed a @ [fd], ac_io_monitor := forget_fd fd (ac_io_monitor a)\<rparr>"

section \<open>Listening\<close>

record listen_answers =
  la_kqueue :: bool
  la_socket :: int
  la_nonblocking :: bool
  la_reuseaddr :: bool
  la_resolve :: bool
  la_bind :: bool
  la_listen :: bool

definition ListenGeneric :: "listen_answers \<Rightarrow> SocketProtocol \<Rightarrow> string \<Rightarrow> u16 \<Rightarrow> Acceptor \<Rightarrow> bool \<times> Acceptor" where
  "ListenGeneric la protocol host port a =
     (let (ok, mon) = iom_Initialize (la_kqueue la) (ac_io_monitor a); a = a\<lparr>ac_io_monitor := mon\<rparr>
      in if \<not> ok then (False, a)
      else let fd = la_socket la
      in if fd < 0 then (False, a)
      else if \<not> la_nonblocking la then (False, ac_close fd a)
      else if \<not> la_reuseaddr la then (False, ac_close fd a)
      else if \<not> la_resolve la then (False, ac_close fd a)
      else let a = (if protocol = kUnixDomain then a\<lparr>ac_unlinked := ac_unlinked a @ [host]\<rparr> else a)
      in if \<not> la_bind la then (False, ac_close fd a)
      else if \<not> la_listen la then (False, ac_close fd a)
      else (True, a\<lparr>ac_protocol := protocol, ac_listen_fd := fd, ac_is_running := True, ac_accept_thread := True\<rparr>))"

definition ListenIPv4 :: "listen_answers \<Rightarrow> string \<Rightarrow> u16 \<Rightarrow> Acceptor \<Rightarrow> bool \<times> Acceptor" where
  "ListenIPv4 la host port a = ListenGeneric la kIPv4 host port a"

definition ListenIPv6 :: "listen_answers \<Rightarrow> string \<Rightarrow> u16 \<Rightarrow> Acceptor \<Rightarrow> bool \<times> Acceptor" where
  "ListenIPv6 la host port a = ListenGeneric la kIPv6 host port a"

definition ListenUnixDomain :: "listen_answers \<Rightarrow> string \<Rightarrow> Acceptor \<Rightarrow> bool \<times> Acceptor" where
  "ListenUnixDomain la path a =
     (let (result, a) = ListenGeneric la kUnixDomain path 0 a
      in (result, if result then a\<lparr>ac_unix_socket_path := path\<rparr> else a))"

definition SetReactors :: "nat list \<Rightarrow> Acceptor \<Rightarrow> Acceptor" where
  "SetReactors reactors a = a\<lparr>ac_reactors := reactors\<rparr>"

text \<open>The accept thread has ended when the join returns.\<close>

definition ac_Stop :: "bool \<Rightarrow> Acceptor \<Rightarrow> Acceptor" where
  "ac_Stop kevent_ok a =
     (if \<not> ac_is_running a then a
      else let a = a\<lparr>ac_is_running := False\<rparr>;
               a = (if ac_listen_fd a \<ge> 0
                    then a\<lparr>ac_io_monitor := snd (StopMonitor kevent_ok (ac_listen_fd a) (ac_io_monitor a))\<rparr> else a);
               a = a\<lparr>ac_accept_thread := False\<rparr>;
               a = (if ac_listen_fd a \<ge> 0 then (ac_close (ac_listen_fd a) a)\<lparr>ac_listen_fd := -1\<rparr> else a)
      in if ac_unix_socket_path a \<noteq> []
         then a\<lparr>ac_unlinked := ac_unlinked a @ [ac_unix_socket_path a], ac_unix_socket_path := []\<rparr> else a)"

definition ac_IsRunning :: "Acceptor \<Rightarrow> bool" where
  "ac_IsRunning a = ac_is_running a"

section \<open>Accepting\<close>

text \<open>The server's reactors, and the acceptor: None is a call that waits forever.\<close>

type_synonym 'p accepting = "'p Reactor option list \<times> Acceptor"

definition AssignToReactor :: "int \<Rightarrow> 'p \<Rightarrow> 'p accepting \<Rightarrow> 'p accepting option" where
  "AssignToReactor fd peer s =
     (let (rs, a) = s
      in if ac_reactors a = [] then Some (rs, ac_close fd a)
         else let index = unat (ac_next_reactor_index a) mod length (ac_reactors a);
                  a = a\<lparr>ac_next_reactor_index := ac_next_reactor_index a + 1\<rparr>;
                  i = ac_reactors a ! index
         in case rs ! i of
              None \<Rightarrow> Some (rs, ac_close fd a)
            | Some reactor \<Rightarrow>
                (case AddConnection fd peer reactor of
                   None \<Rightarrow> None
                 | Some (success, reactor) \<Rightarrow>
                     Some (rs[i := Some reactor], if success then a else ac_close fd a)))"

text \<open>
  One turn of the inner loop: what the flag, \<open>accept\<close>, the non-blocking mode and the clock answer (the
  last is whether the time slice of 200 microseconds is used up). The socket options that are set
  without looking at the result change nothing in the model.
\<close>

datatype 'p accept_result = AcceptedFd int 'p | AcceptFailed errno

record 'p accept_answer =
  aa_running :: bool
  aa_accept :: "'p accept_result"
  aa_nonblocking :: bool
  aa_slice_over :: bool

partial_function (option) accept_batch :: "(nat \<Rightarrow> 'p accept_answer) \<Rightarrow> nat \<Rightarrow> 'p accepting \<Rightarrow> 'p accepting option" where
  "accept_batch ans i s =
     (if \<not> aa_running (ans i) then Some s
      else case aa_accept (ans i) of
          AcceptFailed e \<Rightarrow>
            (if e = EAGAIN \<or> e = EWOULDBLOCK then Some s else accept_batch ans (Suc i) s)
        | AcceptedFd client_fd peer_addr \<Rightarrow>
            (let s = (fst s, (snd s)\<lparr>ac_accepted := ac_accepted (snd s) @ [client_fd]\<rparr>)
             in if \<not> aa_nonblocking (ans i) then accept_batch ans (Suc i) (fst s, ac_close client_fd (snd s))
                else Option.bind (AssignToReactor client_fd peer_addr s)
                  (\<lambda>s. if aa_slice_over (ans i) then Some s else accept_batch ans (Suc i) s)))"

text \<open>What \<open>WaitEvents\<close> delivers to one round of the outer loop: the descriptors that are ready, each
  with the answers its batch will get, or an error.\<close>

datatype 'p wait_result = WaitFailed errno | Ready "(int \<times> (nat \<Rightarrow> 'p accept_answer)) list"

datatype 'p loop_outcome = Continue 'p | Leave 'p

fun accept_events :: "(int \<times> (nat \<Rightarrow> 'p accept_answer)) list \<Rightarrow> 'p accepting \<Rightarrow> 'p accepting option" where
  "accept_events [] s = Some s"
| "accept_events ((fd, ans) # evs) s =
     Option.bind (if fd = ac_listen_fd (snd s) then accept_batch ans 0 s else Some s) (accept_events evs)"

definition AcceptLoop_round :: "'p wait_result \<Rightarrow> 'p accepting \<Rightarrow> 'p accepting loop_outcome option" where
  "AcceptLoop_round w s =
     (case w of
        WaitFailed e \<Rightarrow>
          (if e = EINTR then Some (Continue s)
           else if e = EBADF \<or> e = EFAULT then Some (Leave s) else Some (Continue s))
      | Ready evs \<Rightarrow> map_option Continue (accept_events evs s))"

definition AcceptLoop_begin :: "bool \<Rightarrow> Acceptor \<Rightarrow> bool \<times> Acceptor" where
  "AcceptLoop_begin kevent_ok a =
     (let (ok, mon) = StartReadMonitor kevent_ok (ac_listen_fd a) (ac_io_monitor a) in (ok, a\<lparr>ac_io_monitor := mon\<rparr>))"

definition AcceptLoop_end :: "bool \<Rightarrow> Acceptor \<Rightarrow> Acceptor" where
  "AcceptLoop_end kevent_ok a =
     a\<lparr>ac_io_monitor := snd (StopMonitor kevent_ok (ac_listen_fd a) (ac_io_monitor a))\<rparr>"

section \<open>Who owns a descriptor\<close>

text \<open>The descriptors waiting to be added, in the operation queues of the reactors.\<close>

fun add_fd :: "'p Operation \<Rightarrow> int list" where
  "add_fd (kAdd fd peer) = [fd]"
| "add_fd _ = []"

definition queued_fds :: "'p Reactor option \<Rightarrow> int list" where
  "queued_fds ro = (case ro of None \<Rightarrow> [] | Some r \<Rightarrow> concat (map add_fd (cq_queue (r_pending_operations r))))"

definition owned :: "'p accepting \<Rightarrow> int multiset" where
  "owned s = mset (ac_closed (snd s)) + mset (concat (map queued_fds (fst s)))"

definition accepting_ok :: "'p accepting \<Rightarrow> bool" where
  "accepting_ok s \<longleftrightarrow> (\<forall>i \<in> set (ac_reactors (snd s)). i < length (fst s)) \<and>
     (\<forall>r. Some r \<in> set (fst s) \<longrightarrow> cq_max_size (r_pending_operations r) = 0)"

lemma AddConnection_queue:
  "AddConnection fd peer r = Some (ok, r') \<Longrightarrow>
     cq_queue (r_pending_operations r') = cq_queue (r_pending_operations r) @ (if ok then [kAdd fd peer] else []) \<and>
     cq_max_size (r_pending_operations r') = cq_max_size (r_pending_operations r)"
  by (auto simp: AddConnection_def submit_op_def Enqueue_def Let_def split: if_splits)

lemma AddConnection_returns:
  "cq_max_size (r_pending_operations r) = 0 \<Longrightarrow> \<exists>ok r'. AddConnection fd peer r = Some (ok, r')"
  by (auto simp: AddConnection_def submit_op_def Enqueue_def Let_def)

lemma mset_concat_update:
  "i < length xs \<Longrightarrow>
     mset (concat (map f (xs[i := y]))) + mset (f (xs ! i)) = mset (concat (map f xs)) + mset (f y)"
proof (induction xs arbitrary: i)
  case (Cons x xs)
  then show ?case by (cases i) (simp_all add: ac_simps)
qed simp

text \<open>A descriptor that is assigned is queued at one reactor or closed, once.\<close>

lemma AssignToReactor_owned:
  assumes "accepting_ok s"
  shows "\<exists>s'. AssignToReactor fd peer s = Some s' \<and> accepting_ok s' \<and> owned s' = add_mset fd (owned s) \<and>
    ac_accepted (snd s') = ac_accepted (snd s)"
proof -
  obtain rs a where s: "s = (rs, a)" by (cases s)
  show ?thesis
  proof (cases "ac_reactors a = []")
    case True
    then show ?thesis using assms by (simp add: s AssignToReactor_def accepting_ok_def owned_def)
  next
    case False
    let ?i = "ac_reactors a ! (unat (ac_next_reactor_index a) mod length (ac_reactors a))"
    have i: "?i < length rs" using assms False by (simp add: s accepting_ok_def)
    show ?thesis
    proof (cases "rs ! ?i")
      case None
      with False assms show ?thesis by (simp add: s AssignToReactor_def accepting_ok_def owned_def Let_def)
    next
      case (Some r)
      then have "Some r \<in> set rs" using i by (metis nth_mem)
      then have r0: "cq_max_size (r_pending_operations r) = 0" using assms by (simp add: s accepting_ok_def)
      obtain ok r' where r': "AddConnection fd peer r = Some (ok, r')" using AddConnection_returns [OF r0] by blast
      note q = AddConnection_queue [OF r']
      have qf: "queued_fds (Some r') = queued_fds (Some r) @ (if ok then [fd] else [])"
        using q by (simp add: queued_fds_def)
      have "mset (concat (map queued_fds (rs[?i := Some r']))) =
        mset (concat (map queued_fds rs)) + mset (if ok then [fd] else [])"
        using mset_concat_update [OF i, of queued_fds "Some r'"] Some qf by (simp add: union_assoc [symmetric])
      moreover have "cq_max_size (r_pending_operations x) = 0" if "Some x \<in> set (rs[?i := Some r'])" for x
        using that assms q r0 set_update_subset_insert [of rs ?i "Some r'"] by (auto simp: s accepting_ok_def)
      ultimately show ?thesis
        using False Some r' assms by (simp add: s AssignToReactor_def accepting_ok_def owned_def Let_def)
    qed
  qed
qed

definition conserves :: "'p accepting \<Rightarrow> 'p accepting \<Rightarrow> bool" where
  "conserves s s' \<longleftrightarrow> accepting_ok s' \<and> owned s' + mset (ac_accepted (snd s)) = owned s + mset (ac_accepted (snd s'))"

lemma conserves_trans: "conserves s t \<Longrightarrow> conserves t u \<Longrightarrow> conserves s u"
proof -
  assume st: "conserves s t" and tu: "conserves t u"
  let ?o = owned and ?a = "\<lambda>s. mset (ac_accepted (snd s))"
  have "(?o u + ?a s) + ?a t = (?o u + ?a t) + ?a s" by (simp only: ac_simps)
  also have "\<dots> = (?o t + ?a s) + ?a u" using tu by (simp add: conserves_def ac_simps)
  also have "\<dots> = (?o s + ?a u) + ?a t" using st by (simp add: conserves_def ac_simps)
  finally show ?thesis using tu by (simp add: conserves_def)
qed

lemma conserves_take:
  fixes s :: "'p accepting" and fd :: int
  assumes "accepting_ok s"
  defines "t \<equiv> (fst s, (snd s)\<lparr>ac_accepted := ac_accepted (snd s) @ [fd]\<rparr>)"
  shows "conserves s (fst t, ac_close fd (snd t))"
    and "\<exists>u. AssignToReactor fd peer t = Some u \<and> conserves s u"
proof -
  show "conserves s (fst t, ac_close fd (snd t))"
    using assms by (simp add: conserves_def accepting_ok_def owned_def)
  have "accepting_ok t" "owned t = owned s" using assms by (simp_all add: accepting_ok_def owned_def)
  with AssignToReactor_owned [of t fd peer] obtain u where
    "AssignToReactor fd peer t = Some u" "accepting_ok u" "owned u = add_mset fd (owned s)"
    "ac_accepted (snd u) = ac_accepted (snd s) @ [fd]" by (auto simp: t_def)
  then show "\<exists>u. AssignToReactor fd peer t = Some u \<and> conserves s u" by (auto simp: conserves_def)
qed

text \<open>An answer that ends the batch.\<close>

definition ends_batch :: "'p accept_answer \<Rightarrow> bool" where
  "ends_batch x \<longleftrightarrow> \<not> aa_running x \<or>
     (case aa_accept x of AcceptFailed e \<Rightarrow> e = EAGAIN \<or> e = EWOULDBLOCK
      | AcceptedFd fd p \<Rightarrow> aa_nonblocking x \<and> aa_slice_over x)"

lemma accept_batch_step:
  assumes "accepting_ok s"
  shows "\<exists>t. conserves s t \<and> accept_batch ans i s = (if ends_batch (ans i) then Some t else accept_batch ans (Suc i) t)"
proof (cases "aa_running (ans i)")
  case False
  with assms show ?thesis
    by (intro exI [of _ s]) (simp add: accept_batch.simps [of ans i] ends_batch_def conserves_def)
next
  case True
  show ?thesis
  proof (cases "aa_accept (ans i)")
    case (AcceptFailed e)
    with True assms show ?thesis
      by (intro exI [of _ s]) (auto simp: accept_batch.simps [of ans i] ends_batch_def conserves_def)
  next
    case (AcceptedFd fd p)
    let ?t = "(fst s, (snd s)\<lparr>ac_accepted := ac_accepted (snd s) @ [fd]\<rparr>)"
    show ?thesis
    proof (cases "aa_nonblocking (ans i)")
      case False
      with True AcceptedFd conserves_take(1) [OF assms, of fd] show ?thesis
        by (intro exI [of _ "(fst ?t, ac_close fd (snd ?t))"])
          (simp add: accept_batch.simps [of ans i] ends_batch_def Let_def)
    next
      case nb: True
      obtain u where "AssignToReactor fd p ?t = Some u" "conserves s u"
        using conserves_take(2) [OF assms, of fd p] by blast
      with nb True AcceptedFd show ?thesis
        by (intro exI [of _ u]) (auto simp: accept_batch.simps [of ans i] ends_batch_def Let_def)
    qed
  qed
qed

lemma accept_batch_returns:
  "accepting_ok s \<Longrightarrow> ends_batch (ans (i + n)) \<Longrightarrow> \<exists>t. accept_batch ans i s = Some t \<and> conserves s t"
proof (induction n arbitrary: i s)
  case 0
  with accept_batch_step [OF 0(1), of ans i] show ?case by auto
next
  case (Suc n)
  obtain t where t: "conserves s t"
    "accept_batch ans i s = (if ends_batch (ans i) then Some t else accept_batch ans (Suc i) t)"
    using accept_batch_step [OF Suc.prems(1)] by blast
  show ?case
  proof (cases "ends_batch (ans i)")
    case False
    have "accepting_ok t" using t(1) by (simp add: conserves_def)
    with Suc.IH [of t "Suc i"] Suc.prems(2) obtain u where "accept_batch ans (Suc i) t = Some u" "conserves t u"
      by auto
    with t False conserves_trans [OF t(1)] show ?thesis by simp
  qed (use t in auto)
qed

section \<open>Properties\<close>

text \<open>C28: a batch of the accept loop ends as soon as the kernel has no more connections, the time slice
  is over or the acceptor is stopped, and then every descriptor it accepted is either in the operation
  queue of exactly one reactor or closed, once: none is leaked, none handed out twice.\<close>

theorem Acceptor_conserves:
  assumes "accepting_ok s" and "ends_batch (ans n)"
  shows "\<exists>t. accept_batch ans 0 s = Some t \<and> accepting_ok t \<and>
    owned t + mset (ac_accepted (snd s)) = owned s + mset (ac_accepted (snd t))"
  using accept_batch_returns [of s ans 0 n] assms by (auto simp: conserves_def)

theorem Acceptor_conserves_witness:
  "\<exists>t. accept_batch (\<lambda>i. \<lparr>aa_running = True, aa_accept = (if i = 0 then AcceptedFd 5 () else AcceptFailed EAGAIN),
       aa_nonblocking = True, aa_slice_over = False\<rparr>) 0 ([], Acceptor_ctor) = Some t \<and>
     owned t + mset (ac_accepted Acceptor_ctor) = owned ([] :: unit Reactor option list, Acceptor_ctor) + mset (ac_accepted (snd t))"
proof -
  let ?ans = "\<lambda>i :: nat. \<lparr>aa_running = True, aa_accept = (if i = 0 then AcceptedFd 5 () else AcceptFailed EAGAIN),
     aa_nonblocking = True, aa_slice_over = False\<rparr>"
  have ok: "accepting_ok ([] :: unit Reactor option list, Acceptor_ctor)" by (simp add: accepting_ok_def Acceptor_ctor_def)
  have e: "ends_batch (?ans 1)" by (simp add: ends_batch_def)
  from Acceptor_conserves [where ans = ?ans, OF ok e] show ?thesis by auto
qed

text \<open>when the process is out of descriptors, \<open>accept\<close> keeps failing with \<open>EMFILE\<close>, and the accept
  loop, which continues on every error but \<open>EAGAIN\<close>, does not return from the batch.\<close>

theorem Acceptor_spins:
  assumes "\<And>i. aa_running (ans i) \<and> aa_accept (ans i) = AcceptFailed EMFILE"
  shows "accept_batch ans i s = None"
proof -
  let ?stuck = "\<lambda>ans :: nat \<Rightarrow> 'a accept_answer. \<forall>i. aa_running (ans i) \<and> aa_accept (ans i) = AcceptFailed EMFILE"
  have "\<not> ?stuck ans" if "accept_batch ans i s = Some t" for t
  proof (rule accept_batch.raw_induct [where P = "\<lambda>ans i s t. \<not> ?stuck ans", OF _ that])
    fix f and ans :: "nat \<Rightarrow> 'a accept_answer" and i s t
    assume ih: "\<And>ans i s t. f ans i s = Some t \<Longrightarrow> \<not> ?stuck ans"
      and eq: "(if \<not> aa_running (ans i) then Some s
        else case aa_accept (ans i) of
          AcceptFailed e \<Rightarrow> (if e = EAGAIN \<or> e = EWOULDBLOCK then Some s else f ans (Suc i) s)
        | AcceptedFd client_fd peer_addr \<Rightarrow>
            (let s = (fst s, (snd s)\<lparr>ac_accepted := ac_accepted (snd s) @ [client_fd]\<rparr>)
             in if \<not> aa_nonblocking (ans i) then f ans (Suc i) (fst s, ac_close client_fd (snd s))
                else Option.bind (AssignToReactor client_fd peer_addr s)
                  (\<lambda>s. if aa_slice_over (ans i) then Some s else f ans (Suc i) s))) = Some t"
    show "\<not> ?stuck ans"
    proof
      assume st: "?stuck ans"
      with eq have "f ans (Suc i) s = Some t" by simp
      from ih [OF this] st show False by blast
    qed
  qed
  with assms show ?thesis by (cases "accept_batch ans i s") auto
qed

theorem Acceptor_spins_witness:
  "accept_batch (\<lambda>i. \<lparr>aa_running = True, aa_accept = AcceptFailed EMFILE, aa_nonblocking = True,
     aa_slice_over = False\<rparr>) 0 ([] :: unit Reactor option list, Acceptor_ctor) = None"
  by (rule Acceptor_spins) simp

end
