(* ===== verification/ReactorFrame.thy ===== *)
theory ReactorFrame
  imports Reactor
begin

text \<open>
  What no handler of a reactor changes: its number, its running flag and the capacity and stop flag
  of its operation queue stay, and a connection identifier that appears in its table carries its number.
\<close>

definition kept :: "'p Reactor \<Rightarrow> 'p Reactor \<Rightarrow> bool" where
  "kept r r' \<longleftrightarrow> r_reactor_id r' = r_reactor_id r \<and> r_is_running r' = r_is_running r \<and>
     cq_is_stopped (r_pending_operations r') = cq_is_stopped (r_pending_operations r) \<and>
     cq_max_size (r_pending_operations r') = cq_max_size (r_pending_operations r) \<and>
     (\<forall>cid. find_conn cid r' \<noteq> None \<longrightarrow>
        find_conn cid r \<noteq> None \<or> GetReactorId cid = word_of_int (r_reactor_id r))"

lemma kept_refl [simp, intro]: "kept r r"
  by (simp add: kept_def)

lemma kept_trans [trans]: "kept r s \<Longrightarrow> kept s t \<Longrightarrow> kept r t"
  unfolding kept_def by metis

lemma kept_same:
  "r_reactor_id r' = r_reactor_id r \<Longrightarrow> r_is_running r' = r_is_running r \<Longrightarrow>
     r_connections r' = r_connections r \<Longrightarrow>
     cq_is_stopped (r_pending_operations r') = cq_is_stopped (r_pending_operations r) \<Longrightarrow>
     cq_max_size (r_pending_operations r') = cq_max_size (r_pending_operations r) \<Longrightarrow> kept r r'"
  by (simp add: kept_def)

lemma kept_put: "kept r s \<Longrightarrow> find_conn cid r \<noteq> None \<Longrightarrow> kept r (put_conn cid conn s)"
  by (auto simp: kept_def update_conv)

lemma kept_put_old:
  "kept r s \<Longrightarrow> find_conn cid r \<noteq> None \<Longrightarrow>
     kept r (s\<lparr>r_connections := AList.update cid conn (r_connections r)\<rparr>)"
  by (auto simp: kept_def update_conv)

lemma kept_mon: "kept r s \<Longrightarrow> kept r (s\<lparr>r_io_monitor := m\<rparr>)"
  by (simp add: kept_def)

lemma kept_count: "kept r s \<Longrightarrow> kept r (s\<lparr>r_stats := x\<rparr>)"
  by (simp add: kept_def)

lemma kept_log: "kept r s \<Longrightarrow> kept r (s\<lparr>r_log := l\<rparr>)"
  by (simp add: kept_def)

lemma kept_dispatch: "kept r s \<Longrightarrow> kept r (DispatchEvent env e s)"
  by (simp add: kept_def DispatchEvent_def Let_def)

lemma kept_close_fd: "kept r s \<Longrightarrow> kept r (close_fd fd s)"
  by (simp add: kept_def close_fd_def)

lemma kept_remove: "kept r s \<Longrightarrow> kept r (snd (DoRemoveConnection env cid s))"
  by (auto simp: kept_def DoRemoveConnection_def close_fd_def Let_def delete_conv split: option.split if_splits)

lemma kept_close: "kept r s \<Longrightarrow> kept r (HandleConnectionClose env conn s)"
  by (simp add: HandleConnectionClose_def DispatchDisconnectEvent_def kept_remove kept_dispatch Let_def)

lemma kept_error: "kept r s \<Longrightarrow> kept r (HandleConnectionError env conn e s)"
  by (simp add: HandleConnectionError_def DispatchDisconnectEvent_def DispatchErrorEvent_def
      kept_remove kept_dispatch Let_def)

lemma kept_data: "kept r s \<Longrightarrow> kept r (DispatchDataEvent env cid d s)"
  by (simp add: DispatchDataEvent_def kept_dispatch)

lemmas kept_intros = kept_put kept_mon kept_count kept_close_fd kept_remove kept_close kept_error kept_data

lemma kept_new: "kept r s \<Longrightarrow> GetReactorId cid = word_of_int (r_reactor_id r) \<Longrightarrow> kept r (put_conn cid conn s)"
  by (auto simp: kept_def update_conv)

lemma kept_add: "kept r (snd (DoAddConnection env fd peer r))"
proof (cases "fd < 0 \<or> \<not> r_is_running r")
  case True
  then show ?thesis by (auto simp: DoAddConnection_def)
next
  case False
  define seq where "seq = (if r_connection_seq r = 0 then r_connection_seq r + 1 else r_connection_seq r)"
  define s where "s = r\<lparr>r_connection_seq := seq + 1\<rparr>"
  define cid where "cid = Generate (e_tm env) (word_of_int (r_reactor_id r)) (word_of_int fd) seq"
  obtain ok mon where m: "StartReadMonitor (e_kevent env) fd (r_io_monitor r) = (ok, mon)" by (metis surj_pair)
  have s: "kept r s" by (rule kept_same) (simp_all add: s_def)
  have c: "GetReactorId cid = word_of_int (r_reactor_id r)" by (simp add: cid_def Generate_fields)
  let ?t = "put_conn cid (ReactorConnection_ctor (e_now env) fd peer cid) (s\<lparr>r_io_monitor := mon\<rparr>)"
  let ?u = "?t\<lparr>r_fd_to_connection_id := AList.update fd cid (r_fd_to_connection_id r)\<rparr>"
  have "kept ?t ?u" by (rule kept_same) simp_all
  with kept_trans [OF kept_new [OF kept_mon [OF s] c]] have u: "kept r ?u" by blast
  have "snd (DoAddConnection env fd peer r) =
    (if find_conn cid r \<noteq> None then close_fd fd s
     else if \<not> ok then close_fd fd (s\<lparr>r_io_monitor := mon\<rparr>)
     else DispatchConnectionEvent env cid peer (count (\<lambda>s. s\<lparr>st_total_connections := st_total_connections s + 1,
            st_active_connections := st_active_connections s + 1\<rparr>) ?u))"
    using False m by (cases r) (simp add: DoAddConnection_def Let_def s_def seq_def cid_def)
  also have "kept r \<dots>"
    using s u by (auto simp: DispatchConnectionEvent_def case_prod_beta
        intro!: kept_close_fd kept_mon kept_dispatch kept_count)
  finally show ?thesis .
qed

lemma kept_buffer:
  assumes "kept r s" and "find_conn cid r \<noteq> None" and "BufferAndMonitorWrite env cid conn data s = Some (ok, t)"
  shows "kept r t"
  using assms
  by (auto simp: BufferAndMonitorWrite_def Let_def split: option.splits bool.splits intro!: kept_intros)

lemma kept_send:
  assumes "DoSendData env cid data r = Some (ok, t)"
  shows "kept r t"
proof (cases "find_conn cid r")
  case None
  with assms show ?thesis by (simp add: DoSendData_def)
next
  case (Some conn)
  then have c: "find_conn cid r \<noteq> None" by simp
  show ?thesis
    using assms Some
    by (auto simp: DoSendData_def Let_def case_prod_beta split: if_splits option.splits bool.splits
        intro!: kept_intros kept_refl c elim!: kept_buffer [rotated 2])
qed

lemma kept_read_loop: "kept r s \<Longrightarrow> find_conn cid r \<noteq> None \<Longrightarrow> kept r (read_loop env cid conn rs s)"
proof (induction rs arbitrary: conn s)
  case (Cons x xs)
  then show ?case by (cases x) (simp_all add: Let_def kept_intros)
qed simp

lemma kept_read: "kept r (HandleReadEvent env fd r)"
  by (auto simp: HandleReadEvent_def split: option.split intro!: kept_read_loop)

lemma kept_write: "kept r (HandleWriteEvent env fd r)"
  by (auto simp: HandleWriteEvent_def Let_def case_prod_beta split: option.split
      intro!: kept_error kept_put_old kept_mon kept_count)

lemma kept_event: "kept r (ProcessKqueueEvent env ev r)"
  by (auto simp: ProcessKqueueEvent_def Let_def split: option.split intro!: kept_intros kept_read kept_write)

lemma kept_close_each: "kept r s \<Longrightarrow> kept r (close_each env cids s)"
  by (induction env cids s rule: close_each.induct) (simp_all add: kept_close split: option.split)

lemma kept_timeouts: "kept r (CheckTimeouts env r)"
  by (simp add: CheckTimeouts_def kept_close_each)

lemma kept_operation: "process_operation env op r = Some t \<Longrightarrow> kept r t"
  using kept_add [of r env] kept_remove [OF kept_refl, of r env]
  by (cases op) (auto simp: Let_def case_prod_beta kept_send kept_count kept_log intro: kept_same split: if_splits)

lemma kept_pending: "pending_loop envs k n r = Some (m, t) \<Longrightarrow> kept r t"
proof (induction envs k n r rule: pending_loop.induct)
  case (2 envs k processed r)
  obtain o' q where d: "TryDequeue (r_pending_operations r) = (o', q)" by (cases "TryDequeue (r_pending_operations r)")
  show ?case
  proof (cases o')
    case None
    with 2 d show ?thesis by simp
  next
    case (Some op)
    with 2 d obtain s where s: "process_operation (envs processed) op (r\<lparr>r_pending_operations := q\<rparr>) = Some s"
      by (auto split: option.splits)
    have "kept r (r\<lparr>r_pending_operations := q\<rparr>)"
      using d by (intro kept_same) (auto simp: TryDequeue_def split: list.splits)
    also note kept_operation [OF s]
    also have "kept s t" using 2 d Some s by auto
    finally show ?thesis .
  qed
qed simp

lemma kept_pending_operations: "ProcessPendingOperations envs r = Some t \<Longrightarrow> kept r t"
  by (auto simp: ProcessPendingOperations_def split: option.splits if_splits dest!: kept_pending intro!: kept_count)

lemma kept_events: "kept r s \<Longrightarrow> kept r (process_events evs s)"
  by (induction evs s rule: process_events.induct) (simp_all add: kept_trans [OF _ kept_event])

lemma kept_round:
  assumes "RunEventLoop_round envs1 env evs envs2 t r = Some (t', r')"
  shows "kept r r'"
proof -
  obtain s where s: "ProcessPendingOperations envs1 r = Some s"
    using assms by (auto simp: RunEventLoop_round_def split: option.splits)
  let ?c = "if e_now env - t \<ge> 5 * 1000000000 then CheckTimeouts env s else s"
  have "ProcessPendingOperations envs2 (process_events evs ?c) = Some r'"
    using assms s by (auto simp: RunEventLoop_round_def Let_def)
  then have "kept (process_events evs ?c) r'" by (rule kept_pending_operations)
  moreover have "kept s (process_events evs ?c)" by (intro kept_events) (simp add: kept_timeouts)
  ultimately show ?thesis using kept_pending_operations [OF s] kept_trans by blast
qed

lemma kept_submit: "submit_op op r = Some (ok, r') \<Longrightarrow> kept r r'"
  by (auto simp: submit_op_def kept_def Enqueue_def split: if_splits)

lemma kept_AddConnection: "AddConnection fd peer r = Some (ok, r') \<Longrightarrow> kept r r'"
  by (auto simp: AddConnection_def submit_op_def Enqueue_def Let_def kept_def split: if_splits)

lemma kept_SendData: "SendData cid data r = Some (ok, r') \<Longrightarrow> kept r r'"
  by (auto simp: SendData_def submit_op_def Enqueue_def Let_def kept_def split: if_splits)

end
