(* ===== verification/ReactorProperties.thy ===== *)
theory ReactorProperties
  imports Reactor
begin

text \<open>
  What the reactor guarantees in every reachable state: the events of each connection follow its life
  from \<open>kConnected\<close> to \<open>kDisconnected\<close>, the two tables of connections and descriptors agree, the
  bytes of each connection leave in the order they were taken over, and a paused connection always
  has a write event to wait for.
\<close>

section \<open>The life of a connection in the log\<close>

datatype life = Closed | Open | Failing

fun life_step :: "u64 \<Rightarrow> log_entry \<Rightarrow> life \<Rightarrow> life option" where
  "life_step c (Dispatched e) s =
     (if ne_connection_id e \<noteq> c then Some s
      else case (ne_type e, s) of
          (kConnected, Closed) \<Rightarrow> Some Open
        | (kData, Open) \<Rightarrow> Some Open
        | (kError, Open) \<Rightarrow> Some Failing
        | (kDisconnected, Open) \<Rightarrow> Some Closed
        | (kDisconnected, Failing) \<Rightarrow> Some Closed
        | _ \<Rightarrow> None)"
| "life_step c (RemovedByRequest c') s =
     (if c' \<noteq> c then Some s else if s = Open then Some Closed else None)"

fun life_run :: "u64 \<Rightarrow> log_entry list \<Rightarrow> life \<Rightarrow> life option" where
  "life_run c [] s = Some s"
| "life_run c (x # xs) s = (case life_step c x s of None \<Rightarrow> None | Some s' \<Rightarrow> life_run c xs s')"

lemma life_run_append:
  "life_run c (xs @ ys) s = (case life_run c xs s of None \<Rightarrow> None | Some s' \<Rightarrow> life_run c ys s')"
  by (induction xs arbitrary: s) (auto split: option.splits)

section \<open>The invariant\<close>

definition conn_ok :: "'p ReactorConnection \<Rightarrow> bool" where
  "conn_ok conn \<longleftrightarrow> sb_invar (rc_send_buffer conn) \<and>
     (rc_write_pending conn \<longleftrightarrow> sb_contents (rc_send_buffer conn) \<noteq> []) \<and>
     (rc_read_paused conn \<longrightarrow> LOW_WATER_MARK \<le> length (sb_contents (rc_send_buffer conn))) \<and>
     rc_taken conn = rc_wire conn @ sb_contents (rc_send_buffer conn)"

fun add_fds :: "'p Operation list \<Rightarrow> int list" where
  "add_fds [] = []"
| "add_fds (kAdd fd peer # ops) = fd # add_fds ops"
| "add_fds (op # ops) = add_fds ops"

lemma add_fds_append [simp]: "add_fds (xs @ ys) = add_fds xs @ add_fds ys"
  by (induction xs rule: add_fds.induct) simp_all

definition rinv :: "(u64 \<rightharpoonup> 'p ReactorConnection) \<Rightarrow> (int \<rightharpoonup> u64) \<Rightarrow> u64 \<Rightarrow> log_entry list \<Rightarrow>
    'p Operation ConcurrentQueue \<Rightarrow> bool" where
  "rinv M F a L Q \<longleftrightarrow>
     (\<forall>cid conn. M cid = Some conn \<longrightarrow> rc_connection_id conn = cid \<and>
        F (rc_file_descriptor conn) = Some cid \<and> conn_ok conn) \<and>
     (\<forall>fd cid. F fd = Some cid \<longrightarrow> (\<exists>conn. M cid = Some conn \<and> rc_file_descriptor conn = fd)) \<and>
     finite (dom M) \<and> a = of_nat (card (dom M)) \<and>
     (\<forall>c. life_run c L Closed = Some (if M c = None then Closed else Open)) \<and>
     cq_max_size Q = 0 \<and> distinct (add_fds (cq_queue Q)) \<and>
     (\<forall>fd \<in> set (add_fds (cq_queue Q)). F fd = None)"

definition reactor_inv :: "'p Reactor \<Rightarrow> bool" where
  "reactor_inv r \<longleftrightarrow> rinv (map_of (r_connections r)) (map_of (r_fd_to_connection_id r))
     (st_active_connections (r_stats r)) (r_log r) (r_pending_operations r)"

lemma rinvI:
  assumes "\<And>cid conn. M cid = Some conn \<Longrightarrow> rc_connection_id conn = cid \<and>
        F (rc_file_descriptor conn) = Some cid \<and> conn_ok conn"
    and "\<And>fd cid. F fd = Some cid \<Longrightarrow> \<exists>conn. M cid = Some conn \<and> rc_file_descriptor conn = fd"
    and "finite (dom M)" and "a = of_nat (card (dom M))"
    and "\<And>c. life_run c L Closed = Some (if M c = None then Closed else Open)"
    and "cq_max_size Q = 0" and "distinct (add_fds (cq_queue Q))"
    and "\<And>fd. fd \<in> set (add_fds (cq_queue Q)) \<Longrightarrow> F fd = None"
  shows "rinv M F a L Q"
  using assms unfolding rinv_def by blast

lemma rinvD:
  assumes "rinv M F a L Q"
  shows "\<And>cid conn. M cid = Some conn \<Longrightarrow> rc_connection_id conn = cid \<and>
        F (rc_file_descriptor conn) = Some cid \<and> conn_ok conn"
    and "\<And>fd cid. F fd = Some cid \<Longrightarrow> \<exists>conn. M cid = Some conn \<and> rc_file_descriptor conn = fd"
    and "finite (dom M)" and "a = of_nat (card (dom M))"
    and "\<And>c. life_run c L Closed = Some (if M c = None then Closed else Open)"
    and "cq_max_size Q = 0" and "distinct (add_fds (cq_queue Q))"
    and "\<And>fd. fd \<in> set (add_fds (cq_queue Q)) \<Longrightarrow> F fd = None"
  using assms unfolding rinv_def by blast+

lemma rinv_add:
  assumes "rinv M F a L Q" and "M cid = None" and "F fd = None" and "fd \<notin> set (add_fds (cq_queue Q))"
    and "conn_ok conn" "rc_connection_id conn = cid" "rc_file_descriptor conn = fd"
    and "ne_type e = kConnected" "ne_connection_id e = cid"
  shows "rinv (M(cid \<mapsto> conn)) (F(fd \<mapsto> cid)) (a + 1) (L @ [Dispatched e]) Q"
proof (rule rinvI)
  note D = rinvD [OF assms(1)]
  show "rc_connection_id c = i \<and> (F(fd \<mapsto> cid)) (rc_file_descriptor c) = Some i \<and> conn_ok c"
    if "(M(cid \<mapsto> conn)) i = Some c" for i c
    using that D(1) [of i c] assms(3,5-7) by (auto split: if_splits)
  show "\<exists>c. (M(cid \<mapsto> conn)) i = Some c \<and> rc_file_descriptor c = k" if "(F(fd \<mapsto> cid)) k = Some i" for k i
    using that D(2) [of k i] assms(2,3,7) by (auto split: if_splits)
  show "finite (dom (M(cid \<mapsto> conn)))" using D(3) by simp
  have "cid \<notin> dom M" using assms(2) by blast
  then show "a + 1 = of_nat (card (dom (M(cid \<mapsto> conn))))" using D(3,4) by simp
  show "life_run c (L @ [Dispatched e]) Closed = Some (if (M(cid \<mapsto> conn)) c = None then Closed else Open)" for c
    using assms(2,8,9) by (auto simp: life_run_append D(5))
  show "(F(fd \<mapsto> cid)) k = None" if "k \<in> set (add_fds (cq_queue Q))" for k
    using D(8) [OF that] that assms(4) by auto
qed (use rinvD [OF assms(1)] in simp_all)

lemma rinv_update:
  assumes "rinv M F a L Q" and "M cid = Some c0" and "conn_ok conn"
    and "rc_connection_id conn = rc_connection_id c0" "rc_file_descriptor conn = rc_file_descriptor c0"
  shows "rinv (M(cid \<mapsto> conn)) F a L Q"
proof (rule rinvI)
  note D = rinvD [OF assms(1)]
  have dom: "dom (M(cid \<mapsto> conn)) = dom M" using assms(2) by auto
  show "rc_connection_id c = i \<and> F (rc_file_descriptor c) = Some i \<and> conn_ok c"
    if "(M(cid \<mapsto> conn)) i = Some c" for i c
    using that D(1) [of i c] D(1) [OF assms(2)] assms(3-5) by (auto split: if_splits)
  show "\<exists>c. (M(cid \<mapsto> conn)) i = Some c \<and> rc_file_descriptor c = k" if "F k = Some i" for k i
    using D(2) [OF that] assms(2,5) by auto
  show "finite (dom (M(cid \<mapsto> conn)))" "a = of_nat (card (dom (M(cid \<mapsto> conn))))"
    using D(3,4) dom by simp_all
  show "life_run c L Closed = Some (if (M(cid \<mapsto> conn)) c = None then Closed else Open)" for c
    using D(5) [of c] assms(2) by auto
qed (use rinvD [OF assms(1)] in simp_all)

lemma rinv_data:
  assumes "rinv M F a L Q" and "M cid \<noteq> None" and "ne_type e = kData" "ne_connection_id e = cid"
  shows "rinv M F a (L @ [Dispatched e]) Q"
proof (rule rinvI)
  show "life_run c (L @ [Dispatched e]) Closed = Some (if M c = None then Closed else Open)" for c
    using assms(2-4) by (auto simp: life_run_append rinvD(5) [OF assms(1)])
qed (use rinvD [OF assms(1)] in simp_all)

lemma rinv_remove:
  assumes "rinv M F a L Q" and "M cid = Some conn" and "rc_file_descriptor conn = fd"
    and "life_run cid w Open = Some Closed" and "\<And>c s. c \<noteq> cid \<Longrightarrow> life_run c w s = Some s"
  shows "rinv (M(cid := None)) (F(fd := None)) (a - 1) (L @ w) Q"
proof (rule rinvI)
  note D = rinvD [OF assms(1)]
  show "rc_connection_id c = i \<and> (F(fd := None)) (rc_file_descriptor c) = Some i \<and> conn_ok c"
    if "(M(cid := None)) i = Some c" for i c
  proof -
    from that have "i \<noteq> cid" "M i = Some c" by (simp_all split: if_splits)
    with D(1) [of i c] D(1) [OF assms(2)] assms(3) show ?thesis by force
  qed
  show "\<exists>c. (M(cid := None)) i = Some c \<and> rc_file_descriptor c = k" if "(F(fd := None)) k = Some i" for k i
  proof -
    from that have "k \<noteq> fd" "F k = Some i" by (simp_all split: if_splits)
    with D(2) [of k i] obtain c where "M i = Some c" "rc_file_descriptor c = k" by blast
    moreover from this \<open>k \<noteq> fd\<close> assms(2,3) have "i \<noteq> cid" by auto
    ultimately show ?thesis by simp
  qed
  show "finite (dom (M(cid := None)))" using D(3) by simp
  have "cid \<in> dom M" using assms(2) by blast
  from card_Suc_Diff1 [OF D(3) this] have "card (dom M) = Suc (card (dom M - {cid}))" by simp
  then show "a - 1 = of_nat (card (dom (M(cid := None))))" by (simp add: D(4))
  show "life_run c (L @ w) Closed = Some (if (M(cid := None)) c = None then Closed else Open)" for c
    using assms(2,4,5) by (auto simp: life_run_append D(5))
  show "(F(fd := None)) k = None" if "k \<in> set (add_fds (cq_queue Q))" for k
    using D(8) [OF that] by simp
qed (use rinvD [OF assms(1)] in simp_all)


section \<open>The handlers keep the invariant\<close>

text \<open>\<open>send\<close> never reports more bytes than it was offered.\<close>

definition env_ok :: "'p Env \<Rightarrow> bool" where
  "env_ok env \<longleftrightarrow> (\<forall>len n. e_send env len = Sent n \<longrightarrow> n \<le> len)"

lemma conn_ok_ctor: "conn_ok (ReactorConnection_ctor now fd peer cid)"
  using sb_invar_ctor
  by (simp add: conn_ok_def ReactorConnection_ctor_def sb_contents_def sb_Size_def SendBuffer_ctor_def)

lemma sb_IsEmpty_contents: "sb_invar b \<Longrightarrow> sb_IsEmpty b \<longleftrightarrow> sb_contents b = []"
  using length_sb_contents [of b] by (auto simp: sb_IsEmpty_def sb_Size_def sb_invar_def)

lemma DispatchEvent_simps [simp]:
  "r_connections (DispatchEvent env e r) = r_connections r"
  "r_fd_to_connection_id (DispatchEvent env e r) = r_fd_to_connection_id r"
  "st_active_connections (r_stats (DispatchEvent env e r)) = st_active_connections (r_stats r)"
  "r_log (DispatchEvent env e r) = r_log r @ [Dispatched e]"
  "r_pending_operations (DispatchEvent env e r) = r_pending_operations r"
  by (simp_all add: DispatchEvent_def Let_def)

lemma close_fd_simps [simp]:
  "r_connections (close_fd fd r) = r_connections r"
  "r_fd_to_connection_id (close_fd fd r) = r_fd_to_connection_id r"
  "r_stats (close_fd fd r) = r_stats r" "r_log (close_fd fd r) = r_log r"
  "r_pending_operations (close_fd fd r) = r_pending_operations r"
  by (simp_all add: close_fd_def)

lemma DoRemoveConnection_simps:
  assumes "find_conn cid r = Some conn"
  shows "fst (DoRemoveConnection env cid r)"
    "r_connections (snd (DoRemoveConnection env cid r)) = AList.delete cid (r_connections r)"
    "r_fd_to_connection_id (snd (DoRemoveConnection env cid r)) =
       AList.delete (rc_file_descriptor conn) (r_fd_to_connection_id r)"
    "st_active_connections (r_stats (snd (DoRemoveConnection env cid r))) = st_active_connections (r_stats r) - 1"
    "r_log (snd (DoRemoveConnection env cid r)) = r_log r"
    "r_pending_operations (snd (DoRemoveConnection env cid r)) = r_pending_operations r"
  using assms by (simp_all add: DoRemoveConnection_def Let_def)

lemmas dispatch_defs = DispatchConnectionEvent_def DispatchDataEvent_def DispatchDisconnectEvent_def
  DispatchErrorEvent_def NetworkEvent_ctor_def

lemma inv_close:
  assumes "reactor_inv r" and "find_conn cid r = Some conn" and "rc_connection_id conn' = cid"
  shows "reactor_inv (HandleConnectionClose env conn' r)"
proof -
  let ?r = "DispatchDisconnectEvent env cid r"
  have "find_conn cid ?r = Some conn" using assms(2) by (simp add: dispatch_defs)
  note S = DoRemoveConnection_simps [OF this, of env]
  show ?thesis
    using rinv_remove [OF assms(1) [unfolded reactor_inv_def] assms(2) refl,
        of "[Dispatched (NetworkEvent_ctor kDisconnected cid)]"]
    by (simp add: HandleConnectionClose_def assms(3) reactor_inv_def S delete_conv' Let_def)
      (simp add: dispatch_defs)
qed

lemma inv_error:
  assumes "reactor_inv r" and "find_conn cid r = Some conn" and "rc_connection_id conn' = cid"
  shows "reactor_inv (HandleConnectionError env conn' err r)"
proof -
  let ?r = "DispatchDisconnectEvent env cid (DispatchErrorEvent env cid err r)"
  have "find_conn cid ?r = Some conn" using assms(2) by (simp add: dispatch_defs)
  note S = DoRemoveConnection_simps [OF this, of env]
  obtain w where w: "r_log ?r = r_log r @ w" "life_run cid w Open = Some Closed"
    "\<And>c s. c \<noteq> cid \<Longrightarrow> life_run c w s = Some s"
    by (simp add: dispatch_defs)
  show ?thesis
    using rinv_remove [OF assms(1) [unfolded reactor_inv_def] assms(2) refl w(2,3)]
    by (simp add: HandleConnectionError_def assms(3) reactor_inv_def S delete_conv' Let_def w(1))
      (simp add: dispatch_defs)
qed


lemma reactor_inv_cong:
  assumes "r_connections r' = r_connections r" "r_fd_to_connection_id r' = r_fd_to_connection_id r"
    "st_active_connections (r_stats r') = st_active_connections (r_stats r)" "r_log r' = r_log r"
    "r_pending_operations r' = r_pending_operations r"
  shows "reactor_inv r' = reactor_inv r"
  using assms by (simp add: reactor_inv_def)

lemma inv_put:
  assumes "reactor_inv r" and "find_conn cid r = Some c0" and "conn_ok conn"
    and "rc_connection_id conn = rc_connection_id c0" "rc_file_descriptor conn = rc_file_descriptor c0"
  shows "reactor_inv (put_conn cid conn r)"
  using rinv_update [OF assms(1) [unfolded reactor_inv_def] assms(2-5)]
  by (simp add: reactor_inv_def update_conv')

lemma inv_conn:
  assumes "reactor_inv r" and "find_conn cid r = Some conn"
  shows "conn_ok conn" and "rc_connection_id conn = cid"
    and "map_of (r_fd_to_connection_id r) (rc_file_descriptor conn) = Some cid"
  using rinvD(1) [OF assms(1) [unfolded reactor_inv_def] assms(2)] by auto

lemma find_put [simp]: "find_conn cid (put_conn cid conn r) = Some conn"
  by (simp add: update_conv')

lemma inv_buffer:
  assumes "reactor_inv r" and "find_conn cid r = Some conn"
  shows "\<exists>ok r'. BufferAndMonitorWrite env cid conn data r = Some (ok, r') \<and> reactor_inv r' \<and>
    (ok \<longrightarrow> (\<exists>conn'. find_conn cid r' = Some conn' \<and> rc_taken conn' = rc_taken conn @ data))"
proof -
  let ?b = "rc_send_buffer conn"
  have ok: "conn_ok conn" and i: "rc_connection_id conn = cid" using inv_conn [OF assms] by auto
  then have b: "sb_invar ?b" by (simp add: conn_ok_def)
  define acc where "acc = (data \<noteq> [] \<and> sb_Size ?b + length data \<le> MAX_CAPACITY)"
  obtain b' where w: "Write data ?b = Some (acc, b')" and b': "sb_invar b'"
    and c: "sb_contents b' = sb_contents ?b @ (if acc then data else [])" and ne: "acc \<longrightarrow> data \<noteq> []"
    using Write_facts [OF b, of data] by (cases "data = []") (auto simp: acc_def)
  show ?thesis
  proof (cases acc)
    case False
    let ?c = "conn\<lparr>rc_send_buffer := b'\<rparr>"
    have "conn_ok ?c" using ok c b' False by (simp add: conn_ok_def)
    then have inv: "reactor_inv (put_conn cid ?c r)" using assms by (intro inv_put) auto
    have "reactor_inv (HandleConnectionError env conn ENOMEM (put_conn cid ?c r))"
      using inv by (rule inv_error) (simp_all add: i update_conv')
    then show ?thesis using w False by (simp add: BufferAndMonitorWrite_def ex_bool_eq)
  next
    case True
    define pause where "pause = (IsHighWaterMark b' \<and> \<not> rc_read_paused conn)"
    define conn' where "conn' = conn\<lparr>rc_send_buffer := b', rc_taken := rc_taken conn @ data,
        rc_read_paused := (rc_read_paused conn \<or> pause), rc_write_pending := True\<rparr>"
    have big: "LOW_WATER_MARK \<le> length (sb_contents b')" if "IsHighWaterMark b'"
      using that length_sb_contents [OF b']
      by (simp add: IsHighWaterMark_def HIGH_WATER_MARK_def LOW_WATER_MARK_def)
    have "conn_ok conn'" using ok c b' True ne big by (auto simp: conn_ok_def conn'_def pause_def)
    then have inv: "reactor_inv (put_conn cid conn' r)" using assms by (intro inv_put) (auto simp: conn'_def)
    define m1 where "m1 = (if pause
        then snd (StopReadMonitor (e_kevent env) (rc_file_descriptor conn) (r_io_monitor r)) else r_io_monitor r)"
    define mon where "mon = (if rc_write_pending conn then m1
        else snd (StartWriteMonitor (e_kevent env) (rc_file_descriptor conn) m1))"
    have "BufferAndMonitorWrite env cid conn data r =
        Some (True, put_conn cid conn' (r\<lparr>r_io_monitor := mon\<rparr>))"
      using w True unfolding conn'_def mon_def m1_def
      by (cases pause; cases "rc_write_pending conn"; cases "rc_read_paused conn"; cases conn; cases r)
        (simp_all add: BufferAndMonitorWrite_def pause_def)
    moreover have "reactor_inv (put_conn cid conn' (r\<lparr>r_io_monitor := mon\<rparr>))" for mon
      using inv by (simp add: reactor_inv_def)
    ultimately show ?thesis by (auto simp: update_conv' conn'_def)
  qed
qed


lemma inv_DoSendData:
  assumes "reactor_inv r" and "env_ok env"
  shows "\<exists>ok r'. DoSendData env cid data r = Some (ok, r') \<and> reactor_inv r' \<and>
    (ok \<longrightarrow> (\<exists>conn conn'. find_conn cid r = Some conn \<and> find_conn cid r' = Some conn' \<and>
       rc_taken conn' = rc_taken conn @ data))"
proof (cases "find_conn cid r")
  case None
  with assms(1) show ?thesis by (simp add: DoSendData_def ex_bool_eq)
next
  case (Some conn)
  have ok: "conn_ok conn" and i: "rc_connection_id conn = cid" using inv_conn [OF assms(1) Some] by auto
  show ?thesis
  proof (cases "sb_IsEmpty (rc_send_buffer conn)")
    case False
    with Some inv_buffer [OF assms(1) Some, of env data] show ?thesis by (auto simp: DoSendData_def)
  next
    case True
    obtain full sent err where t: "TrySendDirect (e_send env (length data)) (length data) = (full, sent, err)" by (metis surj_pair)
    have f: "full \<longrightarrow> err = None \<and> sent = length data" "sent \<le> length data" "err \<noteq> None \<longrightarrow> sent = 0"
      using t assms(2) by (auto simp: TrySendDirect_def env_ok_def split: send_result.splits if_splits)
    let ?c = "conn\<lparr>rc_taken := rc_taken conn @ take sent data, rc_wire := rc_wire conn @ take sent data\<rparr>"
    let ?r = "put_conn cid ?c r"
    have "conn_ok ?c" using ok True sb_IsEmpty_contents by (auto simp: conn_ok_def)
    then have inv: "reactor_inv ?r" using assms(1) Some by (intro inv_put) auto
    have e: "DoSendData env cid data r =
      (case (full, err) of (False, Some e) \<Rightarrow> Some (False, HandleConnectionError env ?c e ?r)
       | _ \<Rightarrow> (if sent < length data then BufferAndMonitorWrite env cid ?c (drop sent data) ?r
               else Some (True, count (\<lambda>s. s\<lparr>st_total_bytes_sent := st_total_bytes_sent s + word_of_nat sent\<rparr>) ?r)))"
      using Some True t by (cases full; cases err) (simp_all add: DoSendData_def Let_def)
    show ?thesis
    proof (cases "err = None")
      case False
      then have "DoSendData env cid data r = Some (False, HandleConnectionError env ?c (the err) ?r)"
        using f(1) e by auto
      moreover have "reactor_inv (HandleConnectionError env ?c (the err) ?r)"
        using inv by (rule inv_error) (simp_all add: i update_conv')
      ultimately show ?thesis by (simp add: ex_bool_eq)
    next
      case noerr: True
      show ?thesis
      proof (cases "sent < length data")
        case True
        from inv_buffer [OF inv find_put, of env "drop sent data"] obtain ok' r' where
          "BufferAndMonitorWrite env cid ?c (drop sent data) ?r = Some (ok', r')" "reactor_inv r'"
          "ok' \<longrightarrow> (\<exists>conn'. find_conn cid r' = Some conn' \<and> rc_taken conn' = rc_taken conn @ data)"
          by auto
        with e noerr True Some show ?thesis by (cases full) auto
      next
        case False
        let ?r' = "count (\<lambda>s. s\<lparr>st_total_bytes_sent := st_total_bytes_sent s + word_of_nat sent\<rparr>) ?r"
        have "reactor_inv ?r'" using inv by (simp add: reactor_inv_def)
        moreover have "DoSendData env cid data r = Some (True, ?r')" using e noerr False by (cases full) auto
        moreover have "find_conn cid ?r' = Some ?c" by (simp add: update_conv')
        moreover have "rc_taken ?c = rc_taken conn @ data" using f(2) False by simp
        ultimately show ?thesis using Some by blast
      qed
    qed
  qed
qed


lemma inv_read_loop:
  "reactor_inv r \<Longrightarrow> find_conn cid r = Some conn \<Longrightarrow> reactor_inv (read_loop env cid conn rs r)"
proof (induction env cid conn rs r rule: read_loop.induct)
  case (2 env cid conn data rs r)
  let ?c = "UpdateActivity (e_now env) conn"
  let ?r = "count (\<lambda>s. s\<lparr>st_total_bytes_received := st_total_bytes_received s + word_of_nat (length data)\<rparr>)
      (put_conn cid ?c r)"
  have "conn_ok ?c" using inv_conn(1) [OF 2(2,3)] by (simp add: conn_ok_def UpdateActivity_def)
  then have "reactor_inv (put_conn cid ?c r)"
    using 2(2,3) by (intro inv_put) (auto simp: UpdateActivity_def)
  then have "reactor_inv (DispatchDataEvent env cid data ?r)"
    by (auto simp: reactor_inv_def dispatch_defs update_conv' intro!: rinv_data)
  moreover have "find_conn cid (DispatchDataEvent env cid data ?r) = Some ?c"
    by (simp add: dispatch_defs update_conv')
  ultimately show ?case using 2(1) by (simp add: Let_def)
next
  case (3 env cid conn rs r)
  then show ?case using inv_close inv_conn(2) by (metis read_loop.simps(3))
next
  case (4 env cid conn e rs r)
  then show ?case using inv_error inv_conn(2) by (metis read_loop.simps(4))
qed simp

lemma inv_HandleReadEvent: "reactor_inv r \<Longrightarrow> reactor_inv (HandleReadEvent env fd r)"
  by (auto simp: HandleReadEvent_def inv_read_loop split: option.splits)

text \<open>What a write event makes of its connection.\<close>

lemma conn_ok_after_send:
  assumes "conn_ok conn" and "\<And>n. sr = Sent n \<Longrightarrow> n \<le> sb_Size (rc_send_buffer conn)"
    and "SendToSocket fd sr (rc_send_buffer conn) = (ret, out, b)" and "0 \<le> ret"
  shows "conn_ok (conn\<lparr>rc_send_buffer := b, rc_wire := rc_wire conn @ out, rc_last_active := t,
     rc_read_paused := (rc_read_paused conn \<and> \<not> (ret > 0 \<and> IsLowWaterMark b)),
     rc_write_pending := (rc_write_pending conn \<and> \<not> sb_IsEmpty b)\<rparr>)"
proof -
  let ?b = "rc_send_buffer conn"
  have b: "sb_invar ?b" using assms(1) by (simp add: conn_ok_def)
  from SendToSocket_facts [OF b assms(2,3)] have b': "sb_invar b" and c: "sb_contents ?b = out @ sb_contents b"
    and ret: "ret = int (length out)" using assms(4) by auto
  have low: "IsLowWaterMark b \<longleftrightarrow> length (sb_contents b) < LOW_WATER_MARK"
    using length_sb_contents [OF b'] by (simp add: IsLowWaterMark_def)
  show ?thesis
    using assms(1) b' c sb_IsEmpty_contents [OF b'] ret by (auto simp: conn_ok_def low)
qed

lemma inv_HandleWriteEvent:
  assumes "reactor_inv r" and "env_ok env"
  shows "reactor_inv (HandleWriteEvent env fd r)"
proof (cases "map_of (r_fd_to_connection_id r) fd")
  case None
  with assms(1) show ?thesis by (simp add: HandleWriteEvent_def)
next
  case (Some cid)
  from rinvD(2) [OF assms(1) [unfolded reactor_inv_def] Some] obtain conn where
    c: "find_conn cid r = Some conn" "rc_file_descriptor conn = fd" by blast
  define sr where "sr = e_send env (sb_Size (rc_send_buffer conn))"
  obtain ret out b where s: "SendToSocket fd sr (rc_send_buffer conn) = (ret, out, b)" by (metis surj_pair)
  have ok: "conn_ok conn" and i: "rc_connection_id conn = cid" using inv_conn [OF assms(1) c(1)] by auto
  let ?c = "conn\<lparr>rc_send_buffer := b, rc_wire := rc_wire conn @ out\<rparr>"
  show ?thesis
  proof (cases "ret < 0")
    case True
    have "b = rc_send_buffer conn" "out = []"
      using s True by (auto simp: SendToSocket_def Let_def split: if_splits send_result.splits)
    then have "conn_ok ?c" using ok by (simp add: conn_ok_def)
    then have "reactor_inv (put_conn cid ?c r)" using assms(1) c by (intro inv_put) auto
    then have "reactor_inv (HandleConnectionError env ?c e (put_conn cid ?c r))" for e
      by (rule inv_error) (simp_all add: i update_conv')
    then show ?thesis using Some c s True by (simp add: HandleWriteEvent_def Let_def sr_def)
  next
    case False
    let ?t = "if ret > 0 then e_now env else rc_last_active conn"
    let ?c' = "conn\<lparr>rc_send_buffer := b, rc_wire := rc_wire conn @ out, rc_last_active := ?t,
     rc_read_paused := (rc_read_paused conn \<and> \<not> (ret > 0 \<and> IsLowWaterMark b)),
     rc_write_pending := (rc_write_pending conn \<and> \<not> sb_IsEmpty b)\<rparr>"
    have "conn_ok ?c'" using conn_ok_after_send [OF ok _ s] assms(2) False by (auto simp: sr_def env_ok_def)
    then have inv: "reactor_inv (put_conn cid ?c' r)" using assms(1) c by (intro inv_put) auto
    define st where "st = (if ret > 0 then (r_stats r)\<lparr>st_total_bytes_sent :=
        st_total_bytes_sent (r_stats r) + word_of_int ret\<rparr> else r_stats r)"
    define m1 where "m1 = (if ret > 0 \<and> rc_read_paused conn \<and> IsLowWaterMark b
        then snd (StartReadMonitor (e_kevent env) fd (r_io_monitor r)) else r_io_monitor r)"
    define m2 where "m2 = (if sb_IsEmpty b \<and> rc_write_pending conn
        then snd (StopWriteMonitor (e_kevent env) fd m1) else m1)"
    have "HandleWriteEvent env fd r = put_conn cid ?c' (r\<lparr>r_stats := st, r_io_monitor := m2\<rparr>)"
      using Some c s False unfolding st_def m2_def m1_def
      by (cases "ret > 0"; cases "rc_read_paused conn"; cases "IsLowWaterMark b"; cases "sb_IsEmpty b";
          cases "rc_write_pending conn"; cases conn; cases r)
        (simp_all add: HandleWriteEvent_def UpdateActivity_def sr_def)
    moreover have "st_active_connections st = st_active_connections (r_stats r)" by (simp add: st_def)
    ultimately show ?thesis using inv by (simp add: reactor_inv_def)
  qed
qed


lemma inv_ProcessKqueueEvent:
  assumes "reactor_inv r" and "env_ok env"
  shows "reactor_inv (ProcessKqueueEvent env ev r)"
proof (cases "map_of (r_fd_to_connection_id r) (ke_ident ev)")
  case None
  with assms(1) show ?thesis by (simp add: ProcessKqueueEvent_def)
next
  case (Some cid)
  show ?thesis
  proof (cases "find_conn cid r")
    case None
    with Some assms(1) show ?thesis by (simp add: ProcessKqueueEvent_def)
  next
    case (Some conn)
    with assms \<open>map_of (r_fd_to_connection_id r) (ke_ident ev) = Some cid\<close> show ?thesis
      using inv_close [OF assms(1) Some] inv_error [OF assms(1) Some] inv_conn(2) [OF assms(1) Some]
      by (simp add: ProcessKqueueEvent_def Let_def inv_HandleReadEvent inv_HandleWriteEvent)
  qed
qed

lemma inv_close_each: "reactor_inv r \<Longrightarrow> reactor_inv (close_each env cids r)"
proof (induction cids arbitrary: r)
  case (Cons cid cids)
  have "reactor_inv (case find_conn cid r of None \<Rightarrow> r | Some conn \<Rightarrow> HandleConnectionClose env conn r)"
    using Cons.prems by (auto split: option.splits intro: inv_close inv_conn(2))
  with Cons.IH show ?case by simp
qed simp

lemma inv_CheckTimeouts: "reactor_inv r \<Longrightarrow> reactor_inv (CheckTimeouts env r)"
  by (simp add: CheckTimeouts_def inv_close_each)

lemma inv_DoAddConnection:
  assumes "reactor_inv r" and "map_of (r_fd_to_connection_id r) fd = None"
    and "fd \<notin> set (add_fds (cq_queue (r_pending_operations r)))"
  shows "reactor_inv (snd (DoAddConnection env fd peer r))"
proof (cases "fd < 0 \<or> \<not> r_is_running r")
  case True
  with assms(1) show ?thesis by (auto simp: DoAddConnection_def)
next
  case False
  define seq where "seq = (if r_connection_seq r = 0 then r_connection_seq r + 1 else r_connection_seq r)"
  define s' where "s' = seq + 1"
  define cid where "cid = Generate (e_tm env) (word_of_int (r_reactor_id r)) (word_of_int fd) seq"
  let ?r = "r\<lparr>r_connection_seq := s'\<rparr>"
  obtain ok mon where m: "StartReadMonitor (e_kevent env) fd (r_io_monitor r) = (ok, mon)" by (metis surj_pair)
  let ?conn = "ReactorConnection_ctor (e_now env) fd peer cid"
  have e: "snd (DoAddConnection env fd peer r) =
      (if find_conn cid r \<noteq> None then close_fd fd ?r
       else if \<not> ok then close_fd fd (?r\<lparr>r_io_monitor := mon\<rparr>)
       else DispatchConnectionEvent env cid peer (count (\<lambda>s. s\<lparr>st_total_connections := st_total_connections s + 1,
               st_active_connections := st_active_connections s + 1\<rparr>)
             ((put_conn cid ?conn (?r\<lparr>r_io_monitor := mon\<rparr>))\<lparr>r_fd_to_connection_id :=
                AList.update fd cid (r_fd_to_connection_id r)\<rparr>)))"
    using False m by (cases r) (simp add: DoAddConnection_def seq_def s'_def cid_def Let_def)
  show ?thesis
  proof (cases "find_conn cid r = None \<and> ok")
    case True
    obtain ip port where "e_address env peer = (ip, port)" by (metis surj_pair)
    then show ?thesis
      using True e rinv_add [OF assms(1) [unfolded reactor_inv_def] _ assms(2,3) conn_ok_ctor]
      by (simp add: reactor_inv_def update_conv' dispatch_defs ReactorConnection_ctor_def)
  next
    case False
    with e assms(1) show ?thesis by (auto simp: reactor_inv_def)
  qed
qed


lemma inv_process_operation:
  assumes "reactor_inv r" and "env_ok env"
    and "\<And>fd peer. op = kAdd fd peer \<Longrightarrow> map_of (r_fd_to_connection_id r) fd = None \<and>
           fd \<notin> set (add_fds (cq_queue (r_pending_operations r)))"
  shows "\<exists>r'. process_operation env op r = Some r' \<and> reactor_inv r'"
proof (cases op)
  case (kAdd fd peer)
  obtain cid r' where "DoAddConnection env fd peer r = (cid, r')" by (metis surj_pair)
  with inv_DoAddConnection [of r fd env peer] assms kAdd show ?thesis
    by (auto simp: reactor_inv_def)
next
  case (kRemove cid)
  show ?thesis
  proof (cases "find_conn cid r")
    case None
    then show ?thesis using assms(1) kRemove by (simp add: DoRemoveConnection_def reactor_inv_def)
  next
    case (Some conn)
    obtain ok r' where d: "DoRemoveConnection env cid r = (ok, r')" by (metis surj_pair)
    have S: "ok" "r_connections r' = AList.delete cid (r_connections r)"
      "r_fd_to_connection_id r' = AList.delete (rc_file_descriptor conn) (r_fd_to_connection_id r)"
      "st_active_connections (r_stats r') = st_active_connections (r_stats r) - 1"
      "r_log r' = r_log r" "r_pending_operations r' = r_pending_operations r"
      using DoRemoveConnection_simps [OF Some, of env] by (simp_all add: d)
    have "reactor_inv (r'\<lparr>r_log := r_log r' @ [RemovedByRequest cid]\<rparr>)"
      using rinv_remove [OF assms(1) [unfolded reactor_inv_def] Some refl, of "[RemovedByRequest cid]"]
      by (simp add: reactor_inv_def S delete_conv')
    then show ?thesis using kRemove d S(1) by simp
  qed
next
  case (kSend cid data)
  obtain ok r' where d: "DoSendData env cid data r = Some (ok, r')" "reactor_inv r'"
    using inv_DoSendData [OF assms(1,2)] by blast
  then show ?thesis using kSend by (simp add: reactor_inv_def)
next
  case (kGetSendBufferSize cid promise)
  then show ?thesis using assms(1) by (simp add: reactor_inv_def)
qed

lemma inv_dequeue:
  assumes "reactor_inv r" and "TryDequeue (r_pending_operations r) = (Some op, q)"
  shows "reactor_inv (r\<lparr>r_pending_operations := q\<rparr>)"
    and "op = kAdd fd peer \<Longrightarrow> map_of (r_fd_to_connection_id r) fd = None \<and> fd \<notin> set (add_fds (cq_queue q))"
proof -
  let ?Q = "r_pending_operations r"
  have q: "cq_queue ?Q = op # cq_queue q" "cq_max_size q = cq_max_size ?Q"
    using assms(2) by (auto simp: TryDequeue_def split: list.splits)
  note D = rinvD [OF assms(1) [unfolded reactor_inv_def]]
  have "set (add_fds (cq_queue q)) \<subseteq> set (add_fds (cq_queue ?Q))" "distinct (add_fds (cq_queue q))"
    using D(7) q(1) by (cases op; auto)+
  then show "reactor_inv (r\<lparr>r_pending_operations := q\<rparr>)"
    unfolding reactor_inv_def by (intro rinvI) (use D q(2) in auto)
  show "map_of (r_fd_to_connection_id r) fd = None \<and> fd \<notin> set (add_fds (cq_queue q))" if "op = kAdd fd peer"
    using D(7,8) q(1) that by auto
qed

lemma inv_pending_loop:
  "reactor_inv r \<Longrightarrow> (\<forall>i. env_ok (envs i)) \<Longrightarrow>
     \<exists>n r'. pending_loop envs k processed r = Some (n, r') \<and> reactor_inv r' \<and> n \<le> processed + k"
proof (induction k arbitrary: processed r)
  case (Suc k)
  obtain o' q where t: "TryDequeue (r_pending_operations r) = (o', q)" by (metis surj_pair)
  show ?case
  proof (cases o')
    case None
    with t Suc.prems(1) show ?thesis by simp
  next
    case (Some op)
    note I = inv_dequeue [OF Suc.prems(1) t [unfolded Some]]
    obtain r' where r': "process_operation (envs processed) op (r\<lparr>r_pending_operations := q\<rparr>) = Some r'" "reactor_inv r'"
      using inv_process_operation [OF I(1), of "envs processed" op] I(2) Suc.prems(2) by auto
    from Suc.IH [OF r'(2) Suc.prems(2), of "processed + 1"] show ?thesis
      using t Some r'(1) by auto
  qed
qed simp

lemma inv_ProcessPendingOperations:
  assumes "reactor_inv r" and "\<forall>i. env_ok (envs i)"
  shows "\<exists>r'. ProcessPendingOperations envs r = Some r' \<and> reactor_inv r'"
  using inv_pending_loop [OF assms, of 100 0] by (auto simp: ProcessPendingOperations_def reactor_inv_def)

lemma inv_process_events:
  "reactor_inv r \<Longrightarrow> list_all (\<lambda>(env, ev). env_ok env) evs \<Longrightarrow> reactor_inv (process_events evs r)"
proof (induction evs r rule: process_events.induct)
  case (2 env ev evs r)
  then show ?case by (simp add: inv_ProcessKqueueEvent)
qed simp

lemma inv_RunEventLoop_round:
  assumes "reactor_inv r" and "\<forall>i. env_ok (envs1 i)" and "\<forall>i. env_ok (envs2 i)"
    and "list_all (\<lambda>(env, ev). env_ok env) evs"
  shows "\<exists>t' r'. RunEventLoop_round envs1 env evs envs2 t r = Some (t', r') \<and> reactor_inv r'"
proof -
  obtain r1 where r1: "ProcessPendingOperations envs1 r = Some r1" "reactor_inv r1"
    using inv_ProcessPendingOperations [OF assms(1,2)] by blast
  let ?r = "process_events evs (if e_now env - t \<ge> 5 * 1000000000 then CheckTimeouts env r1 else r1)"
  have "reactor_inv ?r" using r1(2) assms(4) by (intro inv_process_events) (simp_all add: inv_CheckTimeouts)
  then obtain r2 where "ProcessPendingOperations envs2 ?r = Some r2" "reactor_inv r2"
    using inv_ProcessPendingOperations [OF _ assms(3)] by blast
  with r1(1) show ?thesis by (simp add: RunEventLoop_round_def Let_def)
qed

lemma inv_submit:
  assumes "reactor_inv r"
    and "\<And>fd peer. op = kAdd fd peer \<Longrightarrow> map_of (r_fd_to_connection_id r) fd = None \<and>
           fd \<notin> set (add_fds (cq_queue (r_pending_operations r)))"
  shows "\<exists>ok r'. submit_op op r = Some (ok, r') \<and> reactor_inv r'"
proof -
  let ?Q = "r_pending_operations r"
  note D = rinvD [OF assms(1) [unfolded reactor_inv_def]]
  have "rinv (map_of (r_connections r)) (map_of (r_fd_to_connection_id r))
      (st_active_connections (r_stats r)) (r_log r) (?Q\<lparr>cq_queue := cq_queue ?Q @ [op]\<rparr>)"
  proof (rule rinvI)
    show "distinct (add_fds (cq_queue (?Q\<lparr>cq_queue := cq_queue ?Q @ [op]\<rparr>)))"
      using D(7) assms(2) by (cases op) auto
    show "map_of (r_fd_to_connection_id r) fd = None"
      if "fd \<in> set (add_fds (cq_queue (?Q\<lparr>cq_queue := cq_queue ?Q @ [op]\<rparr>)))" for fd
      using that D(8) [of fd] assms(2) by (cases op) auto
  qed (use D in simp_all)
  with D(6) assms(1) show ?thesis
    by (auto simp: submit_op_def Enqueue_def reactor_inv_def)
qed


section \<open>Runs of the reactor\<close>

text \<open>The calls of other threads and the rounds of the event loop, in any order. A descriptor that is
  handed over is not one the reactor already holds: the kernel does not give out an open descriptor
  twice.\<close>

inductive reactor_step :: "'p Reactor \<Rightarrow> 'p Reactor \<Rightarrow> bool" where
  r_add: "AddConnection fd peer r = Some (ok, r') \<Longrightarrow> map_of (r_fd_to_connection_id r) fd = None \<Longrightarrow>
    fd \<notin> set (add_fds (cq_queue (r_pending_operations r))) \<Longrightarrow> reactor_step r r'"
| r_remove: "RemoveConnection cid r = Some (ok, r') \<Longrightarrow> reactor_step r r'"
| r_send: "SendData cid data r = Some (ok, r') \<Longrightarrow> reactor_step r r'"
| r_size: "GetSendBufferSize cid promise r = Some (answer, r') \<Longrightarrow> reactor_step r r'"
| r_timeout: "reactor_step r (SetConnectionTimeout timeout r)"
| r_start: "reactor_step r (snd (r_Start kqueue_ok kevent_ok thread_ok r))"
| r_stop_request: "reactor_step r (r_Stop_request r)"
| r_round: "RunEventLoop_round envs1 env evs envs2 t r = Some (t', r') \<Longrightarrow> \<forall>i. env_ok (envs1 i) \<Longrightarrow>
    \<forall>i. env_ok (envs2 i) \<Longrightarrow> list_all (\<lambda>(env, ev). env_ok env) evs \<Longrightarrow> reactor_step r r'"

lemma inv_step: "reactor_step r r' \<Longrightarrow> reactor_inv r \<Longrightarrow> reactor_inv r'"
proof (induction rule: reactor_step.induct)
  case (r_add fd peer r ok r')
  let ?r = "count (\<lambda>s. s\<lparr>st_total_add_requests := st_total_add_requests s + 1\<rparr>) r"
  have "reactor_inv ?r" using r_add.prems by (simp add: reactor_inv_def)
  from inv_submit [OF this, of "kAdd fd peer"] r_add.hyps show ?case
    using r_add.prems by (auto simp: AddConnection_def reactor_inv_def Let_def split: if_splits)
next
  case (r_remove cid r ok r')
  let ?r = "count (\<lambda>s. s\<lparr>st_total_remove_requests := st_total_remove_requests s + 1\<rparr>) r"
  have "reactor_inv ?r" using r_remove.prems by (simp add: reactor_inv_def)
  from inv_submit [OF this, of "kRemove cid"] r_remove.hyps show ?case
    using r_remove.prems by (auto simp: RemoveConnection_def reactor_inv_def Let_def split: if_splits)
next
  case (r_send cid data r ok r')
  let ?r = "count (\<lambda>s. s\<lparr>st_total_send_requests := st_total_send_requests s + 1\<rparr>) r"
  have "reactor_inv ?r" using r_send.prems by (simp add: reactor_inv_def)
  from inv_submit [OF this, of "kSend cid data"] r_send.hyps show ?case
    using r_send.prems by (auto simp: SendData_def reactor_inv_def Let_def split: if_splits)
next
  case (r_size cid promise r answer r')
  from inv_submit [OF r_size.prems, of "kGetSendBufferSize cid promise"] r_size.hyps show ?case
    using r_size.prems by (auto simp: GetSendBufferSize_def split: if_splits)
next
  case (r_round envs1 env evs envs2 t r t' r')
  with inv_RunEventLoop_round [of r envs1 envs2 evs env t] show ?case by auto
next
  case (r_stop_request r)
  have "rinv M F a L (NotifyStop Q) = rinv M F a L Q" for M F a L and Q :: "'a Operation ConcurrentQueue"
    by (simp add: rinv_def NotifyStop_def)
  with r_stop_request show ?case by (simp add: r_Stop_request_def reactor_inv_def)
qed (auto simp: reactor_inv_def SetConnectionTimeout_def r_Start_def iom_Initialize_def
    InitializeWakeupEvent_def Let_def)

lemma inv_ctor: "reactor_inv (Reactor_ctor i pool)"
  by (simp add: reactor_inv_def rinv_def Reactor_ctor_def ConcurrentQueue_ctor_def zero_statistics_def)

interpretation reactor_sys: invariant_system "\<lambda>r. \<exists>i pool. r = Reactor_ctor i pool" reactor_step reactor_inv
  by unfold_locales (auto simp: inv_ctor intro: inv_step)


section \<open>Timeouts and shutdown\<close>

lemma find_after_close:
  assumes "reactor_inv r" and "find_conn cid r = Some conn"
  shows "map_of (r_connections (HandleConnectionClose env conn r)) = (map_of (r_connections r))(cid := None)"
proof -
  have i: "rc_connection_id conn = cid" using inv_conn(2) [OF assms] .
  have "find_conn cid (DispatchDisconnectEvent env cid r) = Some conn" using assms(2) by (simp add: dispatch_defs)
  from DoRemoveConnection_simps(2) [OF this] show ?thesis
    by (simp add: HandleConnectionClose_def i Let_def delete_conv' DispatchDisconnectEvent_def)
qed

lemma close_each_conns:
  "reactor_inv r \<Longrightarrow> map_of (r_connections (close_each env cids r)) =
     (\<lambda>c. if c \<in> set cids then None else find_conn c r)"
proof (induction cids arbitrary: r)
  case (Cons cid cids)
  let ?r = "case find_conn cid r of None \<Rightarrow> r | Some conn \<Rightarrow> HandleConnectionClose env conn r"
  have "reactor_inv ?r" using Cons.prems by (auto split: option.splits intro: inv_close inv_conn(2))
  moreover have "map_of (r_connections ?r) = (map_of (r_connections r))(cid := None)"
    using find_after_close [OF Cons.prems] by (auto split: option.splits)
  ultimately show ?case using Cons.IH [of ?r] by auto
qed simp

lemma cleanup_each_simps:
  "r_closed (cleanup_each env cs r) = r_closed r @ map (\<lambda>(cid, conn). rc_file_descriptor conn) cs"
  "r_log (cleanup_each env cs r) = r_log r" "r_stats (cleanup_each env cs r) = r_stats r"
  by (induction env cs r rule: cleanup_each.induct) (simp_all add: close_fd_def)

definition quiet_env :: "nat Env" where
  "quiet_env = \<lparr> e_now = 0, e_tm = \<lparr> tm_year = 126, tm_mon = 0, tm_mday = 1 \<rparr>, e_kevent = True,
     e_accept = (\<lambda>_. True), e_strerror = (\<lambda>_. []), e_address = (\<lambda>_. ([], 0)), e_is_unix = (\<lambda>_. False),
     e_send = Sent, e_recv = [] \<rparr>"

lemma env_ok_quiet [simp]: "env_ok quiet_env"
  by (simp add: env_ok_def quiet_env_def)

lemma pending_loop_step:
  "0 < k \<Longrightarrow> pending_loop envs k processed r =
     (case TryDequeue (r_pending_operations r) of
        (None, q) \<Rightarrow> Some (processed, r)
      | (Some op, q) \<Rightarrow>
          (case process_operation (envs processed) op (r\<lparr>r_pending_operations := q\<rparr>) of
             None \<Rightarrow> None
           | Some r' \<Rightarrow> pending_loop envs (k - 1) (processed + 1) r'))"
  using pending_loop.simps(2) [of envs "k - 1" processed r] by simp

text \<open>A reactor that was started and has taken over one connection.\<close>

definition demo_cid :: u64 where
  "demo_cid = Generate (e_tm quiet_env) 1 7 1"

lemma demo_round:
  fixes i :: int
  defines "cid \<equiv> Generate (e_tm quiet_env) (word_of_int i) 7 1"
  defines "r1 \<equiv> snd (r_Start True True True (Reactor_ctor i True :: nat Reactor))"
  shows "\<exists>r2 r3. AddConnection 7 0 r1 = Some (True, r2) \<and>
     RunEventLoop_round (\<lambda>_. quiet_env) quiet_env [] (\<lambda>_. quiet_env) 0 r2 = Some (0, r3) \<and>
     r_connections r3 = [(cid, ReactorConnection_ctor 0 7 0 cid)] \<and> r_is_running r3"
proof -
  define r0 :: "nat Reactor" where "r0 = Reactor_ctor i True"
  define r2 where "r2 = snd (the (AddConnection 7 0 r1))"
  have d1: "r1 = r0\<lparr>r_is_running := True, r_io_monitor :=
      \<lparr> iom_open = True, iom_reads = [], iom_writes = [], iom_users = [kWakeupIdent] \<rparr>\<rparr>"
    by (simp add: r1_def r0_def r_Start_def iom_Initialize_def InitializeWakeupEvent_def Reactor_ctor_def IOMonitor_ctor_def)
  have a: "AddConnection 7 0 r1 = Some (True, r2)"
    "r2 = r1\<lparr>r_stats := zero_statistics\<lparr>st_total_add_requests := 1\<rparr>,
       r_pending_operations := \<lparr> cq_queue = [kAdd 7 0], cq_max_size = 0, cq_is_stopped = False \<rparr>\<rparr>"
    by (simp_all add: r2_def d1 r0_def AddConnection_def submit_op_def Enqueue_def Reactor_ctor_def
        ConcurrentQueue_ctor_def zero_statistics_def)
  have t: "cid \<noteq> 0" unfolding cid_def by (rule Generate_nonzero) (simp add: quiet_env_def tm_ok_def)
  let ?q = "\<lparr> cq_queue = [], cq_max_size = 0, cq_is_stopped = False \<rparr>"
  obtain ra where d: "DoAddConnection quiet_env 7 0 (r2\<lparr>r_pending_operations := ?q\<rparr>) = (cid, ra)"
    and ra: "r_connections ra = [(cid, ReactorConnection_ctor 0 7 0 cid)]" "r_is_running ra"
      "r_pending_operations ra = ?q"
    by (simp add: a(2) d1 r0_def DoAddConnection_def StartReadMonitor_def Reactor_ctor_def cid_def
        Let_def) (simp add: quiet_env_def DispatchConnectionEvent_def DispatchEvent_def)
  let ?rb = "count (\<lambda>s. s\<lparr>st_total_ops_processed := st_total_ops_processed s + 1\<rparr>) ra"
  have "TryDequeue (r_pending_operations r2) = (Some (kAdd 7 0), ?q)" by (simp add: a(2) TryDequeue_def)
  then have p: "ProcessPendingOperations (\<lambda>_. quiet_env) r2 = Some ?rb"
    using t d ra(3) by (simp add: ProcessPendingOperations_def pending_loop_step TryDequeue_def)
  have "ProcessPendingOperations (\<lambda>_. quiet_env) ?rb = Some ?rb"
    using ra(3) by (simp add: ProcessPendingOperations_def pending_loop_step TryDequeue_def)
  with p have "RunEventLoop_round (\<lambda>_. quiet_env) quiet_env [] (\<lambda>_. quiet_env) 0 r2 = Some (0, ?rb)"
    by (simp add: RunEventLoop_round_def) (simp add: quiet_env_def)
  with a(1) ra show ?thesis by (intro exI [of _ r2] exI [of _ ?rb]) simp
qed

lemma demo_reachable:
  "\<exists>r :: nat Reactor. reactor_step\<^sup>*\<^sup>* (Reactor_ctor 1 True) r \<and> r_is_running r \<and>
     map_of (r_connections r) = [demo_cid \<mapsto> ReactorConnection_ctor 0 7 0 demo_cid]"
proof -
  let ?z = "Reactor_ctor 1 True :: nat Reactor"
  let ?r = "snd (r_Start True True True ?z)"
  obtain r2 r3 where r: "AddConnection 7 0 ?r = Some (True, r2)"
    "RunEventLoop_round (\<lambda>_. quiet_env) quiet_env [] (\<lambda>_. quiet_env) 0 r2 = Some (0, r3)"
    "r_connections r3 = [(demo_cid, ReactorConnection_ctor 0 7 0 demo_cid)]" "r_is_running r3"
    using demo_round [of 1] by (auto simp: demo_cid_def)
  have s1: "reactor_step ?z ?r" by (rule r_start)
  have s2: "reactor_step ?r r2"
    by (rule r_add [OF r(1)]) (simp_all add: r_Start_def Let_def case_prod_beta Reactor_ctor_def ConcurrentQueue_ctor_def)
  have s3: "reactor_step r2 r3"
    using r(2) by (intro r_round [of "\<lambda>_. quiet_env" quiet_env "[]" "\<lambda>_. quiet_env" 0 r2 0]) auto
  have "reactor_step\<^sup>*\<^sup>* ?z r3" using s1 s2 s3 by (meson converse_rtranclp_into_rtranclp rtranclp.rtrancl_refl)
  with r show ?thesis by (intro exI [of _ r3]) auto
qed

section \<open>Properties\<close>

lemma reachable_inv:
  assumes "reactor_step\<^sup>*\<^sup>* (Reactor_ctor i pool) r"
  shows "reactor_inv r"
  using reactor_sys.Inv_reachable assms by blast





text \<open>the counter of active connections is the number of connections held, in every reachable
  state (as a 64-bit number).\<close>

theorem Reactor_active_count:
  assumes "reactor_step\<^sup>*\<^sup>* (Reactor_ctor i pool) r"
  shows "st_active_connections (r_stats r) = of_nat (card (dom (map_of (r_connections r))))"
  using rinvD(4) [OF reachable_inv [OF assms, unfolded reactor_inv_def]] .

theorem Reactor_active_count_witness:
  "\<exists>r :: nat Reactor. find_conn demo_cid r \<noteq> None \<and> st_active_connections (r_stats r) = 1"
proof -
  obtain r :: "nat Reactor" where r: "reactor_step\<^sup>*\<^sup>* (Reactor_ctor 1 True) r"
    and c: "map_of (r_connections r) = [demo_cid \<mapsto> ReactorConnection_ctor 0 7 0 demo_cid]"
    using demo_reachable by blast
  have "find_conn demo_cid r \<noteq> None" by (simp add: c)
  moreover have "st_active_connections (r_stats r) = 1" using Reactor_active_count [OF r] by (simp add: c)
  ultimately show ?thesis by blast
qed



text \<open>\<open>DoSendData\<close> never loses or reorders: it returns, and when it reports success it has taken
  over exactly the given bytes, behind all those taken over before, on the wire or in the buffer.\<close>

theorem DoSendData_takes_over:
  assumes "reactor_inv r" and "env_ok env"
  shows "\<exists>ok r'. DoSendData env cid data r = Some (ok, r') \<and> reactor_inv r' \<and>
    (ok \<longrightarrow> (\<exists>conn conn'. find_conn cid r = Some conn \<and> find_conn cid r' = Some conn' \<and>
       rc_taken conn' = rc_taken conn @ data))"
  using assms by (rule inv_DoSendData)

theorem DoSendData_takes_over_witness:
  "\<exists>(r :: nat Reactor) ok r'. find_conn demo_cid r \<noteq> None \<and>
     DoSendData quiet_env demo_cid [1, 2] r = Some (ok, r') \<and> reactor_inv r'"
proof -
  obtain r :: "nat Reactor" where r: "reactor_step\<^sup>*\<^sup>* (Reactor_ctor 1 True) r"
    and c: "map_of (r_connections r) = [demo_cid \<mapsto> ReactorConnection_ctor 0 7 0 demo_cid]"
    using demo_reachable by blast
  have "find_conn demo_cid r \<noteq> None" by (simp add: c)
  with DoSendData_takes_over [OF reachable_inv [OF r] env_ok_quiet, of demo_cid "[1, 2]"]
  show ?thesis by blast
qed

text \<open>the timeout check closes exactly the connections that have been silent for longer than
  the timeout, and keeps the others as they are; a timeout of 0 switches it off.\<close>

theorem CheckTimeouts_exact:
  assumes "reactor_inv r" and "distinct (map fst (r_connections r))"
  shows "find_conn cid (CheckTimeouts env r) =
    (case find_conn cid r of None \<Rightarrow> None | Some conn \<Rightarrow>
       if r_connection_timeout r \<noteq> 0 \<and> IsTimeout (e_now env) (r_connection_timeout r) conn then None else Some conn)"
proof -
  have "cid \<in> set (map fst (filter (\<lambda>(cid, conn). P conn) (r_connections r))) \<longleftrightarrow>
      (\<exists>conn. find_conn cid r = Some conn \<and> P conn)" for P
    using assms(2) by (force simp: map_of_eq_Some_iff)
  then show ?thesis
    by (auto simp: CheckTimeouts_def close_each_conns [OF assms(1)] split: option.splits)
qed

theorem CheckTimeouts_exact_witness:
  "find_conn 3 (CheckTimeouts quiet_env (Reactor_ctor 1 True)) = None"
proof -
  have "distinct (map fst (r_connections (Reactor_ctor 1 True :: nat Reactor)))" by (simp add: Reactor_ctor_def)
  from CheckTimeouts_exact [OF inv_ctor this, where cid = 3 and env = quiet_env] show ?thesis
    by (simp add: Reactor_ctor_def)
qed

text \<open>stopping. \<open>Stop\<close> closes the descriptor of every connection once and empties both tables,
  but it announces nothing: no \<open>kDisconnected\<close> is dispatched and the counter of active connections
  keeps its value.\<close>

theorem Reactor_stop_silent:
  "r_connections (r_Stop_finish env r) = [] \<and> r_fd_to_connection_id (r_Stop_finish env r) = [] \<and>
   r_closed (r_Stop_finish env r) = r_closed r @ map (\<lambda>(cid, conn). rc_file_descriptor conn) (r_connections r) \<and>
   r_log (r_Stop_finish env r) = r_log r \<and>
   st_active_connections (r_stats (r_Stop_finish env r)) = st_active_connections (r_stats r)"
  by (simp add: r_Stop_finish_def CleanupAllConnections_def cleanup_each_simps)

text \<open>starting again. \<open>Start\<close> on a running reactor reports failure, but it has already replaced
  the kqueue, so that no connection is monitored any more; and after \<open>Stop\<close> the operation queue stays
  stopped, so that a restarted reactor refuses every connection.\<close>

theorem Reactor_restart:
  assumes "r_is_running r"
  shows "r_Start True True True r = (False, r\<lparr>r_io_monitor :=
      \<lparr> iom_open = True, iom_reads = [], iom_writes = [], iom_users = [kWakeupIdent] \<rparr>\<rparr>) \<and>
    (\<exists>r'. AddConnection fd peer (snd (r_Start True True True (r_Stop_finish env (r_Stop_request r)))) =
      Some (False, r'))"
proof -
  have p: "r_pending_operations (cleanup_each env cs r) = r_pending_operations r"
    "r_is_running (cleanup_each env cs r) = r_is_running r" for cs and r :: "'a Reactor"
    by (induction env cs r rule: cleanup_each.induct) (simp_all add: close_fd_def)
  show ?thesis
    using assms
    by (cases "r_io_monitor r")
      (simp add: r_Start_def iom_Initialize_def InitializeWakeupEvent_def r_Stop_finish_def r_Stop_request_def
        CleanupAllConnections_def AddConnection_def submit_op_def Enqueue_def NotifyStop_def p Let_def)
qed

theorem Reactor_restart_witness:
  "\<exists>r'. AddConnection 4 0 (snd (r_Start True True True (r_Stop_finish quiet_env
     (r_Stop_request (snd (r_Start True True True (Reactor_ctor 1 True))))))) = Some (False, r')"
proof -
  have "r_is_running (snd (r_Start True True True (Reactor_ctor 1 True :: nat Reactor)))"
    by (simp add: r_Start_def iom_Initialize_def InitializeWakeupEvent_def Reactor_ctor_def IOMonitor_ctor_def)
  from Reactor_restart [OF this, of 4 0 quiet_env] show ?thesis by blast
qed

text \<open>bytes that a direct send hands to the socket are counted only when it takes all of them:
  after a partial direct send the counter of sent bytes is unchanged.\<close>

theorem DoSendData_partial_uncounted:
  assumes "find_conn cid r = Some conn" and "sb_IsEmpty (rc_send_buffer conn)" and "sb_invar (rc_send_buffer conn)"
    and "e_send env (length data) = Sent n" and "0 < n" and "n < length data" and "length data \<le> MAX_CAPACITY"
  shows "\<exists>r' conn'. DoSendData env cid data r = Some (True, r') \<and> find_conn cid r' = Some conn' \<and>
    rc_wire conn' = rc_wire conn @ take n data \<and>
    st_total_bytes_sent (r_stats r') = st_total_bytes_sent (r_stats r)"
proof -
  let ?c = "conn\<lparr>rc_taken := rc_taken conn @ take n data, rc_wire := rc_wire conn @ take n data\<rparr>"
  have sz: "sb_Size (rc_send_buffer conn) = 0" using assms(2) by (simp add: sb_IsEmpty_def sb_Size_def)
  obtain b where w: "Write (drop n data) (rc_send_buffer conn) = Some (True, b)"
    using Write_facts [OF assms(3), of "drop n data"] assms(6,7) sz by auto
  have "DoSendData env cid data r = BufferAndMonitorWrite env cid ?c (drop n data) (put_conn cid ?c r)"
    using assms by (simp add: DoSendData_def TrySendDirect_def Let_def)
  then show ?thesis using w by (auto simp: BufferAndMonitorWrite_def Let_def update_conv')
qed

theorem DoSendData_partial_uncounted_witness:
  "\<exists>r' conn'. DoSendData (quiet_env\<lparr>e_send := \<lambda>_. Sent 1\<rparr>) 5 [1, 2, 3]
       ((Reactor_ctor 1 True)\<lparr>r_connections := [(5, ReactorConnection_ctor 0 7 0 5)]\<rparr>) = Some (True, r') \<and>
     find_conn 5 r' = Some conn' \<and> rc_wire conn' = [1] \<and> st_total_bytes_sent (r_stats r') = 0"
  using DoSendData_partial_uncounted [where cid = 5 and conn = "ReactorConnection_ctor 0 7 0 5" and n = 1
      and r = "(Reactor_ctor 1 True)\<lparr>r_connections := [(5, ReactorConnection_ctor 0 7 0 5)]\<rparr>"
      and env = "quiet_env\<lparr>e_send := \<lambda>_. Sent 1\<rparr>" and data = "[1, 2, 3]"]
  by (simp add: ReactorConnection_ctor_def sb_invar_ctor Reactor_ctor_def MAX_CAPACITY_def)
    (simp add: sb_IsEmpty_def SendBuffer_ctor_def zero_statistics_def)

end
