(* ===== verification/Server.thy ===== *)
theory Server
  imports WorkerPool Acceptor ReactorFrame ReactorProperties
begin

text \<open>
  The class \<open>Server\<close> of \<^verbatim>\<open>src/darwincore/network/server.cpp\<close>: it owns the worker pool, the reactors
  and the acceptors, starts and stops them, routes outgoing data to the reactor that holds the
  connection, and turns the events the pool delivers into statistics and callbacks. Its calls are taken
  as atomic; between them the reactors and acceptors make steps of their own. Which callbacks are set is
  kept as flags, and the calls they receive are recorded. A callback that throws a
  \<^verbatim>\<open>std::exception\<close> is caught by the code and changes nothing.
\<close>

section \<open>State\<close>

datatype ServerState = sv_kStopped | sv_kStarting | sv_kRunning | sv_kStopping

record Options =
  opt_reactor_count :: nat
  opt_worker_count :: nat
  opt_worker_queue_size :: nat

definition default_Options :: Options where
  "default_Options = \<lparr> opt_reactor_count = 0, opt_worker_count = 4, opt_worker_queue_size = 10000 \<rparr>"

datatype server_call =
    ClientConnected ConnectionInformation
  | Message u64 bytes
  | ClientDisconnected u64
  | ConnectionError u64 NetworkError string

record 'p Server =
  sv_worker_pool :: "WorkerPool option"
  sv_reactors :: "'p Reactor list"
  sv_acceptors :: "Acceptor list"
  sv_on_client_connected :: bool
  sv_on_message :: bool
  sv_on_client_disconnected :: bool
  sv_on_connection_error :: bool
  sv_state :: ServerState
  sv_total_connections :: u64
  sv_active_connections :: u64
  sv_total_messages_received :: u64
  sv_total_messages_sent :: u64
  sv_total_bytes_received :: u64
  sv_total_bytes_sent :: u64
  sv_total_errors :: u64
  sv_reactor_count :: nat
  sv_options :: Options
  sv_calls :: "server_call list"

definition Server_ctor :: "Options \<Rightarrow> 'p Server" where
  "Server_ctor options = \<lparr> sv_worker_pool = None, sv_reactors = [], sv_acceptors = [],
     sv_on_client_connected = False, sv_on_message = False, sv_on_client_disconnected = False,
     sv_on_connection_error = False, sv_state = sv_kStopped, sv_total_connections = 0,
     sv_active_connections = 0, sv_total_messages_received = 0, sv_total_messages_sent = 0,
     sv_total_bytes_received = 0, sv_total_bytes_sent = 0, sv_total_errors = 0, sv_reactor_count = 0,
     sv_options = options, sv_calls = [] \<rparr>"

definition TransitionState :: "ServerState \<Rightarrow> ServerState \<Rightarrow> 'p Server \<Rightarrow> bool \<times> 'p Server" where
  "TransitionState expected desired s =
     (if sv_state s = expected then (True, s\<lparr>sv_state := desired\<rparr>) else (False, s))"

definition sv_IsRunning :: "'p Server \<Rightarrow> bool" where
  "sv_IsRunning s \<longleftrightarrow> sv_state s = sv_kRunning"

section \<open>Starting\<close>

text \<open>What the system answers while the components start: whether the worker threads could be made,
  the number of cores, and per reactor whether the kqueue, the wake-up event and the thread could be.\<close>

record start_answers =
  sa_spawn :: bool
  sa_cores :: nat
  sa_reactor :: "nat \<Rightarrow> bool \<times> bool \<times> bool"

definition InitializeWorkerPool :: "start_answers \<Rightarrow> 'p Server \<Rightarrow> bool \<times> 'p Server" where
  "InitializeWorkerPool sa s =
     (if sv_worker_pool s \<noteq> None then (True, s)
      else let worker_count = (if opt_worker_count (sv_options s) = 0 then kDefaultWorkerCount
                               else opt_worker_count (sv_options s));
               (ok, p) = wp_Start (sa_spawn sa) (WorkerPool_ctor worker_count (opt_worker_queue_size (sv_options s)))
      in if \<not> ok then (False, s\<lparr>sv_worker_pool := None\<rparr>) else (True, s\<lparr>sv_worker_pool := Some p\<rparr>))"

text \<open>The loop over the reactor numbers. When one does not start, those created before are stopped and
  dropped.\<close>

fun start_reactors :: "start_answers \<Rightarrow> nat list \<Rightarrow> 'p Reactor list \<Rightarrow> bool \<times> 'p Reactor list" where
  "start_reactors sa [] rs = (True, rs)"
| "start_reactors sa (i # is) rs =
     (let (kqueue_ok, kevent_ok, thread_ok) = sa_reactor sa i;
          (ok, reactor) = r_Start kqueue_ok kevent_ok thread_ok (Reactor_ctor (int i) True)
      in if \<not> ok then (False, []) else start_reactors sa is (rs @ [reactor]))"

definition InitializeReactors :: "start_answers \<Rightarrow> 'p Server \<Rightarrow> bool \<times> 'p Server" where
  "InitializeReactors sa s =
     (if sv_reactors s \<noteq> [] then (True, s)
      else let n = (if opt_reactor_count (sv_options s) = 0 then max 1 (sa_cores sa)
                    else opt_reactor_count (sv_options s));
               (ok, rs) = start_reactors sa [0..<n] []
      in (ok, s\<lparr>sv_reactor_count := n, sv_reactors := rs\<rparr>))"

definition InitializeComponents :: "start_answers \<Rightarrow> 'p Server \<Rightarrow> bool \<times> 'p Server" where
  "InitializeComponents sa s =
     (let (ok, s) = InitializeWorkerPool sa s
      in if \<not> ok then (False, s)
      else let (ok, s) = InitializeReactors sa s
      in if \<not> ok then (False, s)
      else (True, s\<lparr>sv_worker_pool := map_option (wp_SetEventCallback True) (sv_worker_pool s)\<rparr>))"

definition CreateAndStartAcceptor :: "(Acceptor \<Rightarrow> bool \<times> Acceptor) \<Rightarrow> 'p Server \<Rightarrow> bool \<times> 'p Server" where
  "CreateAndStartAcceptor listen_func s =
     (let (ok, acceptor) = listen_func (SetReactors [0..<length (sv_reactors s)] Acceptor_ctor)
      in if \<not> ok then (False, s) else (True, s\<lparr>sv_acceptors := sv_acceptors s @ [acceptor]\<rparr>))"

definition StartInternal :: "start_answers \<Rightarrow> ('p Server \<Rightarrow> bool \<times> 'p Server) \<Rightarrow> 'p Server \<Rightarrow> bool \<times> 'p Server" where
  "StartInternal sa start_func s =
     (let (ok, s) = TransitionState sv_kStopped sv_kStarting s
      in if \<not> ok then (False, s)
      else let (ok, s) = InitializeComponents sa s
      in if \<not> ok then (False, s\<lparr>sv_state := sv_kStopped\<rparr>)
      else let (success, s) = start_func s
      in (success, s\<lparr>sv_state := (if success then sv_kRunning else sv_kStopped)\<rparr>))"

definition StartIPv4 :: "start_answers \<Rightarrow> listen_answers \<Rightarrow> string \<Rightarrow> u16 \<Rightarrow> 'p Server \<Rightarrow> bool \<times> 'p Server" where
  "StartIPv4 sa la host port s = StartInternal sa (CreateAndStartAcceptor (ListenIPv4 la host port)) s"

definition StartIPv6 :: "start_answers \<Rightarrow> listen_answers \<Rightarrow> string \<Rightarrow> u16 \<Rightarrow> 'p Server \<Rightarrow> bool \<times> 'p Server" where
  "StartIPv6 sa la host port s = StartInternal sa (CreateAndStartAcceptor (ListenIPv6 la host port)) s"

definition StartUniversalIP ::
    "start_answers \<Rightarrow> listen_answers \<Rightarrow> listen_answers \<Rightarrow> string \<Rightarrow> u16 \<Rightarrow> 'p Server \<Rightarrow> bool \<times> 'p Server" where
  "StartUniversalIP sa la4 la6 host port s = StartInternal sa
     (\<lambda>s. let (ipv4_ok, s) = CreateAndStartAcceptor (ListenIPv4 la4 host port) s;
              (ipv6_ok, s) = CreateAndStartAcceptor (ListenIPv6 la6 host port) s
          in (if \<not> ipv4_ok \<and> \<not> ipv6_ok then (False, s) else (True, s))) s"

definition StartUnixDomain :: "start_answers \<Rightarrow> listen_answers \<Rightarrow> string \<Rightarrow> 'p Server \<Rightarrow> bool \<times> 'p Server" where
  "StartUnixDomain sa la path s = StartInternal sa (CreateAndStartAcceptor (ListenUnixDomain la path)) s"

section \<open>Events, sending, stopping\<close>

definition OnNetworkEvent :: "NetworkEvent \<Rightarrow> 'p Server \<Rightarrow> 'p Server" where
  "OnNetworkEvent event s =
     (case ne_type event of
        kConnected \<Rightarrow>
          (let s = s\<lparr>sv_total_connections := sv_total_connections s + 1,
                     sv_active_connections := sv_active_connections s + 1\<rparr>
           in case ne_connection_info event of
                Some info \<Rightarrow> if sv_on_client_connected s then s\<lparr>sv_calls := sv_calls s @ [ClientConnected info]\<rparr> else s
              | None \<Rightarrow> s)
      | kData \<Rightarrow>
          (let s = s\<lparr>sv_total_messages_received := sv_total_messages_received s + 1,
                     sv_total_bytes_received := sv_total_bytes_received s + word_of_nat (length (ne_payload event))\<rparr>
           in if sv_on_message s
              then s\<lparr>sv_calls := sv_calls s @ [Message (ne_connection_id event) (ne_payload event)]\<rparr> else s)
      | kDisconnected \<Rightarrow>
          (let s = s\<lparr>sv_active_connections := sv_active_connections s - 1\<rparr>
           in if sv_on_client_disconnected s
              then s\<lparr>sv_calls := sv_calls s @ [ClientDisconnected (ne_connection_id event)]\<rparr> else s)
      | kError \<Rightarrow>
          (let s = s\<lparr>sv_total_errors := sv_total_errors s + 1\<rparr>
           in case ne_error event of
                Some e \<Rightarrow> if sv_on_connection_error s
                          then s\<lparr>sv_calls := sv_calls s @
                                 [ConnectionError (ne_connection_id event) e (ne_error_message event)]\<rparr> else s
              | None \<Rightarrow> s))"

text \<open>None: the call waits for room in the reactor's operation queue.\<close>

definition sv_SendData :: "u64 \<Rightarrow> bytes \<Rightarrow> 'p Server \<Rightarrow> (bool \<times> 'p Server) option" where
  "sv_SendData cid data s =
     (if data = [] then Some (False, s)
      else if \<not> sv_IsRunning s then Some (False, s)
      else if sv_reactors s = [] then Some (False, s)
      else let reactor_id = unat (GetReactorId cid)
      in if reactor_id \<ge> length (sv_reactors s) then Some (False, s)
      else case SendData cid data (sv_reactors s ! reactor_id) of
          None \<Rightarrow> None
        | Some (success, reactor) \<Rightarrow>
            let s = s\<lparr>sv_reactors := (sv_reactors s)[reactor_id := reactor]\<rparr>
            in Some (success,
                 if success then s\<lparr>sv_total_messages_sent := sv_total_messages_sent s + 1,
                   sv_total_bytes_sent := sv_total_bytes_sent s + word_of_nat (length data)\<rparr> else s))"

text \<open>
  \<open>Stop\<close> joins the threads of the acceptors, the reactors and the pool, in this order, and drops them.
  The events the workers still deliver before they end are an argument.
\<close>

definition sv_Stop :: "NetworkEvent list \<Rightarrow> 'p Server \<Rightarrow> 'p Server" where
  "sv_Stop delivered s =
     (let (ok, s) = TransitionState sv_kRunning sv_kStopping s
      in if \<not> ok then s
      else let s = s\<lparr>sv_acceptors := []\<rparr>;
               s = s\<lparr>sv_reactors := []\<rparr>;
               s = fold OnNetworkEvent delivered s;
               s = s\<lparr>sv_worker_pool := None\<rparr>
      in s\<lparr>sv_state := sv_kStopped\<rparr>)"

definition SetOnClientConnected :: "bool \<Rightarrow> 'p Server \<Rightarrow> 'p Server" where
  "SetOnClientConnected callback s = s\<lparr>sv_on_client_connected := callback\<rparr>"

definition SetOnMessage :: "bool \<Rightarrow> 'p Server \<Rightarrow> 'p Server" where
  "SetOnMessage callback s = s\<lparr>sv_on_message := callback\<rparr>"

definition SetOnClientDisconnected :: "bool \<Rightarrow> 'p Server \<Rightarrow> 'p Server" where
  "SetOnClientDisconnected callback s = s\<lparr>sv_on_client_disconnected := callback\<rparr>"

definition SetOnConnectionError :: "bool \<Rightarrow> 'p Server \<Rightarrow> 'p Server" where
  "SetOnConnectionError callback s = s\<lparr>sv_on_connection_error := callback\<rparr>"

record ServerStatistics =
  ss_is_running :: bool
  ss_total_connections :: u64
  ss_active_connections :: u64
  ss_total_messages_received :: u64
  ss_total_messages_sent :: u64
  ss_total_bytes_received :: u64
  ss_total_bytes_sent :: u64
  ss_total_errors :: u64
  ss_worker_submit_failures :: u64
  ss_worker_total_queue_size :: nat
  ss_reactors :: "(int \<times> Statistics \<times> nat) list"

definition sv_GetStatistics :: "'p Server \<Rightarrow> ServerStatistics" where
  "sv_GetStatistics s = \<lparr> ss_is_running = (sv_state s = sv_kRunning),
     ss_total_connections = sv_total_connections s, ss_active_connections = sv_active_connections s,
     ss_total_messages_received = sv_total_messages_received s, ss_total_messages_sent = sv_total_messages_sent s,
     ss_total_bytes_received = sv_total_bytes_received s, ss_total_bytes_sent = sv_total_bytes_sent s,
     ss_total_errors = sv_total_errors s,
     ss_worker_submit_failures = (case sv_worker_pool s of None \<Rightarrow> 0 | Some p \<Rightarrow> GetSubmitFailures p),
     ss_worker_total_queue_size = (case sv_worker_pool s of None \<Rightarrow> 0 | Some p \<Rightarrow> GetTotalQueueSize p),
     ss_reactors = map GetStatistics (sv_reactors s) \<rparr>"

section \<open>Runs of a server\<close>

text \<open>
  The calls of the user, the events delivered by the pool, the rounds of the reactors and the
  connections the acceptors hand over, in any order.
\<close>

inductive server_step :: "'p Server \<Rightarrow> 'p Server \<Rightarrow> bool" where
  sv_start4: "server_step s (snd (StartIPv4 sa la host port s))"
| sv_start6: "server_step s (snd (StartIPv6 sa la host port s))"
| sv_start46: "server_step s (snd (StartUniversalIP sa la4 la6 host port s))"
| sv_start_unix: "server_step s (snd (StartUnixDomain sa la path s))"
| sv_send: "sv_SendData cid data s = Some (ok, s') \<Longrightarrow> server_step s s'"
| sv_event: "server_step s (OnNetworkEvent event s)"
| sv_stop: "server_step s (sv_Stop delivered s)"
| sv_callbacks: "server_step s (s\<lparr>sv_on_client_connected := c1, sv_on_message := c2,
    sv_on_client_disconnected := c3, sv_on_connection_error := c4\<rparr>)"
| sv_round: "i < length (sv_reactors s) \<Longrightarrow>
    RunEventLoop_round envs1 env evs envs2 t (sv_reactors s ! i) = Some (t', r') \<Longrightarrow>
    server_step s (s\<lparr>sv_reactors := (sv_reactors s)[i := r']\<rparr>)"
| sv_accept: "j < length (sv_acceptors s) \<Longrightarrow>
    AssignToReactor fd peer (map Some (sv_reactors s), sv_acceptors s ! j) = Some (rs, a) \<Longrightarrow>
    server_step s (s\<lparr>sv_reactors := map the rs, sv_acceptors := (sv_acceptors s)[j := a]\<rparr>)"

text \<open>The i-th reactor of a server: it has number i, runs, takes operations, and holds only connections
  whose identifier carries its number.\<close>

definition nth_reactor_ok :: "nat \<Rightarrow> 'p Reactor \<Rightarrow> bool" where
  "nth_reactor_ok i r \<longleftrightarrow> r_reactor_id r = int i \<and> r_is_running r \<and>
     \<not> cq_is_stopped (r_pending_operations r) \<and> cq_max_size (r_pending_operations r) = 0 \<and>
     (\<forall>cid. find_conn cid r \<noteq> None \<longrightarrow> GetReactorId cid = word_of_nat i)"

definition reactors_ok :: "'p Reactor list \<Rightarrow> bool" where
  "reactors_ok rs \<longleftrightarrow> (\<forall>i < length rs. nth_reactor_ok i (rs ! i))"

definition server_inv :: "'p Server \<Rightarrow> bool" where
  "server_inv s \<longleftrightarrow> reactors_ok (sv_reactors s) \<and>
     (sv_state s = sv_kStopped \<and> sv_acceptors s = [] \<or>
      sv_state s = sv_kRunning \<and> sv_reactors s \<noteq> [] \<and> sv_worker_pool s \<noteq> None \<and> sv_acceptors s \<noteq> [] \<and>
        (\<forall>a \<in> set (sv_acceptors s). ac_reactors a = [0..<length (sv_reactors s)]))"

lemma nth_reactor_kept: "nth_reactor_ok i r \<Longrightarrow> kept r r' \<Longrightarrow> nth_reactor_ok i r'"
  by (auto simp: nth_reactor_ok_def kept_def)

lemma reactors_ok_update:
  assumes "reactors_ok rs" and "kept (rs ! i) r'"
  shows "reactors_ok (rs[i := r'])"
  unfolding reactors_ok_def
proof (intro allI impI)
  fix j assume "j < length (rs[i := r'])"
  with assms show "nth_reactor_ok j (rs[i := r'] ! j)"
    by (cases "i = j") (auto simp: reactors_ok_def intro: nth_reactor_kept)
qed

lemma start_reactors_ok:
  assumes "reactors_ok rs"
  shows "reactors_ok (snd (start_reactors sa [length rs..<n] rs)) \<and>
    (fst (start_reactors sa [length rs..<n] rs) \<longrightarrow> length (snd (start_reactors sa [length rs..<n] rs)) = max n (length rs))"
  using assms
proof (induction "n - length rs" arbitrary: rs)
  case 0
  then show ?case by simp
next
  case (Suc m)
  let ?i = "length rs"
  obtain a b c where abc: "sa_reactor sa ?i = (a, b, c)" by (cases "sa_reactor sa ?i")
  obtain ok r where st: "r_Start a b c (Reactor_ctor (int ?i) True :: 'a Reactor) = (ok, r)" by fastforce
  have up: "[?i..<n] = ?i # [Suc ?i..<n]" using Suc.hyps(2) by (simp add: upt_conv_Cons)
  show ?case
  proof (cases ok)
    case False
    with abc st show ?thesis by (simp add: up reactors_ok_def)
  next
    case True
    have "nth_reactor_ok ?i r"
      using st True by (auto simp: r_Start_def Let_def case_prod_beta Reactor_ctor_def nth_reactor_ok_def
          ConcurrentQueue_ctor_def split: if_splits)
    with Suc.prems have "reactors_ok (rs @ [r])" by (auto simp: reactors_ok_def nth_append less_Suc_eq)
    with Suc.hyps(1) [of "rs @ [r]"] Suc.hyps(2) abc st True show ?thesis
      by (simp add: up)
  qed
qed

lemma InitializeWorkerPool_simps:
  "sv_reactors (snd (InitializeWorkerPool sa s)) = sv_reactors s"
  "sv_acceptors (snd (InitializeWorkerPool sa s)) = sv_acceptors s"
  "fst (InitializeWorkerPool sa s) \<Longrightarrow> sv_worker_pool (snd (InitializeWorkerPool sa s)) \<noteq> None"
  by (auto simp: InitializeWorkerPool_def Let_def case_prod_beta split: if_splits)

lemma InitializeReactors_simps:
  fixes s :: "'p Server"
  assumes "reactors_ok (sv_reactors s)"
  shows "reactors_ok (sv_reactors (snd (InitializeReactors sa s)))"
    "sv_acceptors (snd (InitializeReactors sa s)) = sv_acceptors s"
    "sv_worker_pool (snd (InitializeReactors sa s)) = sv_worker_pool s"
    "fst (InitializeReactors sa s) \<Longrightarrow> sv_reactors (snd (InitializeReactors sa s)) \<noteq> []"
proof -
  have st: "reactors_ok (snd (start_reactors sa [0..<n] ([] :: 'p Reactor list)))"
    "fst (start_reactors sa [0..<n] ([] :: 'p Reactor list)) \<Longrightarrow> 0 < n \<Longrightarrow>
       snd (start_reactors sa [0..<n] ([] :: 'p Reactor list)) \<noteq> []" for n
    using start_reactors_ok [of "[] :: 'p Reactor list" sa n] by (auto simp: reactors_ok_def)
  show "reactors_ok (sv_reactors (snd (InitializeReactors sa s)))"
    "sv_acceptors (snd (InitializeReactors sa s)) = sv_acceptors s"
    "sv_worker_pool (snd (InitializeReactors sa s)) = sv_worker_pool s"
    using assms st(1) by (simp_all add: InitializeReactors_def Let_def case_prod_beta)
  show "sv_reactors (snd (InitializeReactors sa s)) \<noteq> []" if "fst (InitializeReactors sa s)"
    using that st(2) [of "if opt_reactor_count (sv_options s) = 0 then max 1 (sa_cores sa) else opt_reactor_count (sv_options s)"]
    by (auto simp: InitializeReactors_def Let_def case_prod_beta max_def split: if_splits)
qed

lemma InitializeComponents_inv:
  assumes "server_inv s" "sv_state s = sv_kStopped"
    and "InitializeComponents sa (s\<lparr>sv_state := sv_kStarting\<rparr>) = (ok, s')"
  shows "reactors_ok (sv_reactors s') \<and> sv_acceptors s' = [] \<and> (ok \<longrightarrow> sv_reactors s' \<noteq> [] \<and> sv_worker_pool s' \<noteq> None)"
proof -
  let ?s = "s\<lparr>sv_state := sv_kStarting\<rparr>"
  have a: "sv_acceptors ?s = []" "reactors_ok (sv_reactors ?s)" using assms(1,2) by (auto simp: server_inv_def)
  note w = InitializeWorkerPool_simps [of sa ?s]
  note r = InitializeReactors_simps [of "snd (InitializeWorkerPool sa ?s)" sa, unfolded w(1,2), OF a(2)]
  show ?thesis
    using assms(3) a w r by (auto simp: InitializeComponents_def Let_def case_prod_beta split: if_splits)
qed

lemma CreateAndStartAcceptor_simps:
  "sv_reactors (snd (CreateAndStartAcceptor f s)) = sv_reactors s"
  "sv_worker_pool (snd (CreateAndStartAcceptor f s)) = sv_worker_pool s"
  "\<not> fst (CreateAndStartAcceptor f s) \<Longrightarrow> snd (CreateAndStartAcceptor f s) = s"
  "fst (CreateAndStartAcceptor f s) \<Longrightarrow> sv_acceptors (snd (CreateAndStartAcceptor f s)) = sv_acceptors s @
     [snd (f (SetReactors [0..<length (sv_reactors s)] Acceptor_ctor))]"
  by (auto simp: CreateAndStartAcceptor_def Let_def case_prod_beta split: if_splits)

lemma Listen_reactors:
  "ac_reactors (snd (ListenIPv4 la host port a)) = ac_reactors a"
  "ac_reactors (snd (ListenIPv6 la host port a)) = ac_reactors a"
  "ac_reactors (snd (ListenUnixDomain la path a)) = ac_reactors a"
  by (auto simp: ListenIPv4_def ListenIPv6_def ListenUnixDomain_def ListenGeneric_def Let_def case_prod_beta)

text \<open>What the start function of each kind of server adds: nothing when it fails, acceptors that know
  all reactors when it succeeds.\<close>

definition starter_ok :: "('p Server \<Rightarrow> bool \<times> 'p Server) \<Rightarrow> bool" where
  "starter_ok f \<longleftrightarrow> (\<forall>s. sv_acceptors s = [] \<longrightarrow>
     sv_reactors (snd (f s)) = sv_reactors s \<and> sv_worker_pool (snd (f s)) = sv_worker_pool s \<and>
     (if fst (f s) then sv_acceptors (snd (f s)) \<noteq> [] \<and>
        (\<forall>a \<in> set (sv_acceptors (snd (f s))). ac_reactors a = [0..<length (sv_reactors s)])
      else sv_acceptors (snd (f s)) = []))"

lemma starter_one:
  assumes "\<And>a. ac_reactors (snd (g a)) = ac_reactors a"
  shows "starter_ok (CreateAndStartAcceptor g)"
  using assms by (auto simp: starter_ok_def CreateAndStartAcceptor_simps SetReactors_def)

lemma StartInternal_inv:
  assumes "server_inv s" and "starter_ok f"
  shows "server_inv (snd (StartInternal sa f s))"
proof (cases "sv_state s = sv_kStopped")
  case False
  with assms(1) show ?thesis by (simp add: StartInternal_def TransitionState_def)
next
  case True
  obtain ok s' where i: "InitializeComponents sa (s\<lparr>sv_state := sv_kStarting\<rparr>) = (ok, s')" by fastforce
  note c = InitializeComponents_inv [OF assms(1) True i]
  obtain ok2 s2 where f: "f s' = (ok2, s2)" by fastforce
  have "sv_reactors s2 = sv_reactors s'" "sv_worker_pool s2 = sv_worker_pool s'"
    "if ok2 then sv_acceptors s2 \<noteq> [] \<and> (\<forall>a \<in> set (sv_acceptors s2). ac_reactors a = [0..<length (sv_reactors s')])
     else sv_acceptors s2 = []"
    using assms(2) c f unfolding starter_ok_def by (metis fst_conv snd_conv)+
  with True i c f show ?thesis
    by (auto simp: StartInternal_def TransitionState_def server_inv_def split: if_splits)
qed

lemma starter_both:
  "starter_ok (\<lambda>s. let (ipv4_ok, s) = CreateAndStartAcceptor (ListenIPv4 la4 host port) s;
      (ipv6_ok, s) = CreateAndStartAcceptor (ListenIPv6 la6 host port) s
    in (if \<not> ipv4_ok \<and> \<not> ipv6_ok then (False, s) else (True, s)))" (is "starter_ok ?f")
proof -
  have "starter_ok (CreateAndStartAcceptor (ListenIPv4 la4 host port))"
    by (intro starter_one Listen_reactors)
  then have 4: "sv_acceptors s = [] \<Longrightarrow>
     \<forall>a \<in> set (sv_acceptors (snd (CreateAndStartAcceptor (ListenIPv4 la4 host port) s))).
       ac_reactors a = [0..<length (sv_reactors s)]" for s :: "'a Server"
    by (auto simp: starter_ok_def split: if_splits)
  show ?thesis
    unfolding starter_ok_def
  proof (intro allI impI)
    fix s :: "'a Server"
    assume n: "sv_acceptors s = []"
    let ?s = "snd (CreateAndStartAcceptor (ListenIPv4 la4 host port) s)"
    show "sv_reactors (snd (?f s)) = sv_reactors s \<and> sv_worker_pool (snd (?f s)) = sv_worker_pool s \<and>
     (if fst (?f s) then sv_acceptors (snd (?f s)) \<noteq> [] \<and>
        (\<forall>a \<in> set (sv_acceptors (snd (?f s))). ac_reactors a = [0..<length (sv_reactors s)])
      else sv_acceptors (snd (?f s)) = [])"
      using n 4 [OF n]
      by (cases "fst (CreateAndStartAcceptor (ListenIPv4 la4 host port) s)";
          cases "fst (CreateAndStartAcceptor (ListenIPv6 la6 host port) ?s)")
        (simp_all add: Let_def case_prod_beta CreateAndStartAcceptor_simps Listen_reactors SetReactors_def)
  qed
qed

lemma OnNetworkEvent_simps [simp]:
  "sv_reactors (OnNetworkEvent e s) = sv_reactors s" "sv_acceptors (OnNetworkEvent e s) = sv_acceptors s"
  "sv_worker_pool (OnNetworkEvent e s) = sv_worker_pool s" "sv_state (OnNetworkEvent e s) = sv_state s"
  by (auto simp: OnNetworkEvent_def Let_def split: NetworkEventType.split option.split)

lemma fold_OnNetworkEvent_simps [simp]:
  "sv_reactors (fold OnNetworkEvent es s) = sv_reactors s" "sv_acceptors (fold OnNetworkEvent es s) = sv_acceptors s"
  by (induction es arbitrary: s) simp_all

lemma sv_SendData_inv: "sv_SendData cid data s = Some (ok, s') \<Longrightarrow> server_inv s \<Longrightarrow> server_inv s'"
  by (auto simp: sv_SendData_def Let_def server_inv_def split: if_splits option.splits
      dest!: kept_SendData intro!: reactors_ok_update)

lemma AssignToReactor_server:
  assumes "reactors_ok rs" and "ac_reactors a = [0..<length rs]"
    and "AssignToReactor fd peer (map Some rs, a) = Some (rs', a')"
  shows "reactors_ok (map the rs')" "length rs' = length rs" "ac_reactors a' = ac_reactors a"
proof -
  show "length rs' = length rs" "ac_reactors a' = ac_reactors a"
    using assms(3) by (auto simp: AssignToReactor_def Let_def split: if_splits option.splits prod.splits)
  show "reactors_ok (map the rs')"
  proof (cases "rs = []")
    case True
    with assms show ?thesis by (simp add: AssignToReactor_def reactors_ok_def)
  next
    case False
    let ?i = "unat (ac_next_reactor_index a) mod length rs"
    have i: "?i < length rs" using False by simp
    obtain ok r where r: "AddConnection fd peer (rs ! ?i) = Some (ok, r)" "rs' = (map Some rs)[?i := Some r]"
      using assms(2,3) i False by (auto simp: AssignToReactor_def Let_def split: option.splits prod.splits)
    have "map the rs' = rs[?i := r]" by (simp add: r(2) map_update o_def)
    with reactors_ok_update [OF assms(1) kept_AddConnection [OF r(1)]] show ?thesis by simp
  qed
qed

lemma server_inv_simps [simp]:
  "server_inv (OnNetworkEvent e s) = server_inv s"
  "server_inv (s\<lparr>sv_on_client_connected := c1, sv_on_message := c2, sv_on_client_disconnected := c3,
     sv_on_connection_error := c4\<rparr>) = server_inv s"
  by (simp_all add: server_inv_def)

lemma server_inv_step: "server_step s t \<Longrightarrow> server_inv s \<Longrightarrow> server_inv t"
proof (induction rule: server_step.induct)
  case (sv_round i s envs1 env evs envs2 t t' r')
  with reactors_ok_update [OF _ kept_round [OF sv_round.hyps(2)]] show ?case by (auto simp: server_inv_def)
next
  case (sv_accept j s fd peer rs a)
  let ?a = "sv_acceptors s ! j"
  have "?a \<in> set (sv_acceptors s)" using sv_accept.hyps(1) by simp
  then have "ac_reactors ?a = [0..<length (sv_reactors s)]" "reactors_ok (sv_reactors s)"
    using sv_accept.prems by (auto simp: server_inv_def)
  note r = AssignToReactor_server [OF this(2,1) sv_accept.hyps(2)] this
  have "x = a \<or> x \<in> set (sv_acceptors s)" if "x \<in> set ((sv_acceptors s)[j := a])" for x
    using that set_update_subset_insert [of "sv_acceptors s" j a] by auto
  with r sv_accept.prems sv_accept.hyps(1) show ?case by (auto simp: server_inv_def)
next
  case (sv_stop s delivered)
  then show ?case
    by (auto simp: sv_Stop_def TransitionState_def server_inv_def reactors_ok_def Let_def)
next
  case (sv_start46 s sa la4 la6 host port)
  then show ?case unfolding StartUniversalIP_def by (rule StartInternal_inv [OF _ starter_both])
qed (auto simp: StartIPv4_def StartIPv6_def StartUnixDomain_def sv_SendData_inv
    intro!: StartInternal_inv starter_one Listen_reactors)

interpretation server_sys: invariant_system "\<lambda>s. \<exists>options. s = Server_ctor options" server_step server_inv
proof
  fix s :: "'p Server"
  assume "\<exists>options. s = Server_ctor options"
  then show "server_inv s" by (auto simp: Server_ctor_def server_inv_def reactors_ok_def)
qed (rule server_inv_step)

text \<open>The call an event leads to, and how often an event has a given type.\<close>

definition call_of :: "'p Server \<Rightarrow> NetworkEvent \<Rightarrow> server_call list" where
  "call_of s e = (case ne_type e of
      kConnected \<Rightarrow> (case ne_connection_info e of
         Some info \<Rightarrow> if sv_on_client_connected s then [ClientConnected info] else [] | None \<Rightarrow> [])
    | kData \<Rightarrow> if sv_on_message s then [Message (ne_connection_id e) (ne_payload e)] else []
    | kDisconnected \<Rightarrow> if sv_on_client_disconnected s then [ClientDisconnected (ne_connection_id e)] else []
    | kError \<Rightarrow> (case ne_error e of
         Some err \<Rightarrow> if sv_on_connection_error s
           then [ConnectionError (ne_connection_id e) err (ne_error_message e)] else [] | None \<Rightarrow> []))"

definition events_of :: "NetworkEventType \<Rightarrow> NetworkEvent list \<Rightarrow> NetworkEvent list" where
  "events_of t es = filter (\<lambda>e. ne_type e = t) es"

lemma OnNetworkEvent_fields:
  "sv_calls (OnNetworkEvent e s) = sv_calls s @ call_of s e"
  "call_of (OnNetworkEvent e s) = call_of s"
  "sv_total_connections (OnNetworkEvent e s) = sv_total_connections s + (if ne_type e = kConnected then 1 else 0)"
  "sv_active_connections (OnNetworkEvent e s) = sv_active_connections s +
     (if ne_type e = kConnected then 1 else if ne_type e = kDisconnected then - 1 else 0)"
  "sv_total_messages_received (OnNetworkEvent e s) = sv_total_messages_received s + (if ne_type e = kData then 1 else 0)"
  "sv_total_bytes_received (OnNetworkEvent e s) = sv_total_bytes_received s +
     (if ne_type e = kData then word_of_nat (length (ne_payload e)) else 0)"
  "sv_total_errors (OnNetworkEvent e s) = sv_total_errors s + (if ne_type e = kError then 1 else 0)"
  by (auto simp: OnNetworkEvent_def call_of_def Let_def fun_eq_iff split: NetworkEventType.split option.split)

section \<open>Properties\<close>

text \<open>C25: routing. In every reachable running server, data sent to a connection that reactor i holds
  is accepted and queued, once, at the reactor whose number is i modulo 256, and nowhere else: with at
  most 256 reactors it is the reactor that holds the connection, with more it can be another one.\<close>

theorem Server_routes:
  fixes s :: "'p Server"
  assumes "server_step\<^sup>*\<^sup>* (Server_ctor options) s" and "sv_state s = sv_kRunning"
    and "i < length (sv_reactors s)" and "find_conn cid (sv_reactors s ! i) \<noteq> None" and "data \<noteq> []"
  shows "\<exists>r'. sv_SendData cid data s = Some (True, s\<lparr>sv_reactors := (sv_reactors s)[i mod 256 := r'],
       sv_total_messages_sent := sv_total_messages_sent s + 1,
       sv_total_bytes_sent := sv_total_bytes_sent s + word_of_nat (length data)\<rparr>) \<and>
    cq_queue (r_pending_operations r') =
      cq_queue (r_pending_operations (sv_reactors s ! (i mod 256))) @ [kSend cid data]"
proof -
  have inv: "server_inv s" by (rule server_sys.Inv_reachable [OF _ assms(1)]) blast
  then have ok: "nth_reactor_ok j (sv_reactors s ! j)" if "j < length (sv_reactors s)" for j
    using that by (simp add: server_inv_def reactors_ok_def)
  have "GetReactorId cid = word_of_nat i" using ok [OF assms(3)] assms(4) by (simp add: nth_reactor_ok_def)
  then have id: "unat (GetReactorId cid) = i mod 256"
    by (simp add: unsigned_of_nat take_bit_eq_mod)
  have lt: "i mod 256 < length (sv_reactors s)" using assms(3) mod_less_eq_dividend [of i 256] by linarith
  have "\<exists>r'. SendData cid data (sv_reactors s ! (i mod 256)) = Some (True, r') \<and>
    cq_queue (r_pending_operations r') = cq_queue (r_pending_operations (sv_reactors s ! (i mod 256))) @ [kSend cid data]"
    using ok [OF lt] assms(5) by (simp add: nth_reactor_ok_def SendData_def submit_op_def Enqueue_def Let_def)
  then obtain r' where r': "SendData cid data (sv_reactors s ! (i mod 256)) = Some (True, r')"
    "cq_queue (r_pending_operations r') = cq_queue (r_pending_operations (sv_reactors s ! (i mod 256))) @ [kSend cid data]"
    by blast
  have "sv_reactors s \<noteq> []" using assms(3) by auto
  with r' id lt assms(2,5) show ?thesis by (intro exI [of _ r']) (simp add: sv_SendData_def sv_IsRunning_def Let_def)
qed

theorem Server_routes_witness:
  "\<exists>(s :: nat Server) cid r'. server_step\<^sup>*\<^sup>* (Server_ctor \<lparr> opt_reactor_count = 1, opt_worker_count = 1,
       opt_worker_queue_size = 0 \<rparr>) s \<and>
     (\<exists>s'. sv_SendData cid [1] s = Some (True, s') \<and> sv_reactors s' = (sv_reactors s)[0 := r']) \<and>
     kSend cid [1] \<in> set (cq_queue (r_pending_operations r'))"
proof -
  let ?o = "\<lparr> opt_reactor_count = 1, opt_worker_count = 1, opt_worker_queue_size = 0 \<rparr>"
  let ?z = "Server_ctor ?o :: nat Server"
  let ?sa = "\<lparr> sa_spawn = True, sa_cores = 1, sa_reactor = (\<lambda>_. (True, True, True)) \<rparr>"
  let ?la = "\<lparr> la_kqueue = True, la_socket = 5, la_nonblocking = True, la_reuseaddr = True, la_resolve = True,
    la_bind = True, la_listen = True \<rparr>"
  obtain r1 where rs: "r_Start True True True (Reactor_ctor 0 True :: nat Reactor) = (True, r1)"
    by (simp add: r_Start_def Let_def case_prod_beta iom_Initialize_def InitializeWakeupEvent_def Reactor_ctor_def)
  define s1 where "s1 = snd (StartIPv4 ?sa ?la [] 0 ?z)"
  obtain r2 r3 cid conn where r: "AddConnection 7 0 r1 = Some (True, r2)"
    "RunEventLoop_round (\<lambda>_. quiet_env) quiet_env [] (\<lambda>_. quiet_env) 0 r2 = Some (0, r3)"
    "r_connections r3 = [(cid, conn)]"
    using demo_round [of 0] by (auto simp: rs)
  have s: "sv_reactors s1 = [r1]" "sv_state s1 = sv_kRunning"
    "length (sv_acceptors s1) = 1" "ac_reactors (sv_acceptors s1 ! 0) = [0]"
    "ac_next_reactor_index (sv_acceptors s1 ! 0) = 0"
    by (simp_all add: s1_def StartIPv4_def StartInternal_def TransitionState_def InitializeComponents_def Server_ctor_def
        InitializeWorkerPool_def InitializeReactors_def CreateAndStartAcceptor_def ListenIPv4_def ListenGeneric_def
        iom_Initialize_def wp_Start_def WorkerPool_ctor_def SetReactors_def Acceptor_ctor_def rs Let_def)
  obtain a where a: "AssignToReactor 7 0 (map Some (sv_reactors s1), sv_acceptors s1 ! 0) = Some ([Some r2], a)"
    using r(1) by (simp add: AssignToReactor_def s)
  let ?t = "s1\<lparr>sv_reactors := [r2], sv_acceptors := (sv_acceptors s1)[0 := a]\<rparr>"
  let ?u = "?t\<lparr>sv_reactors := [r3]\<rparr>"
  have "server_step ?z s1" unfolding s1_def by (rule sv_start4)
  moreover have "server_step s1 ?t" using sv_accept [OF _ a] s(3) by simp
  moreover have "server_step ?t ?u" using sv_round [of 0 ?t _ _ _ _ _ _ r3] r(2) by simp
  ultimately have run: "server_step\<^sup>*\<^sup>* ?z ?u" by (meson converse_rtranclp_into_rtranclp rtranclp.rtrancl_refl)
  have c: "find_conn cid r3 = Some conn" by (simp add: r(3))
  from Server_routes [OF run, of 0 cid "[1]"] c s(2) obtain r' where
    r': "\<exists>s'. sv_SendData cid [1] ?u = Some (True, s') \<and> sv_reactors s' = (sv_reactors ?u)[0 := r']"
    "kSend cid [1] \<in> set (cq_queue (r_pending_operations r'))" by auto
  from run r' show ?thesis by blast
qed

text \<open>every delivered event is counted and passed on once, in order: the callbacks receive exactly
  the delivered events of their kind that carry the data they report, and each counter grows by what the
  events say, as 64-bit numbers.\<close>

theorem Server_events:
  "sv_calls (fold OnNetworkEvent es s) = sv_calls s @ concat (map (call_of s) es) \<and>
   sv_total_connections (fold OnNetworkEvent es s) = sv_total_connections s + word_of_nat (length (events_of kConnected es)) \<and>
   sv_active_connections (fold OnNetworkEvent es s) = sv_active_connections s +
     word_of_nat (length (events_of kConnected es)) - word_of_nat (length (events_of kDisconnected es)) \<and>
   sv_total_messages_received (fold OnNetworkEvent es s) =
     sv_total_messages_received s + word_of_nat (length (events_of kData es)) \<and>
   sv_total_bytes_received (fold OnNetworkEvent es s) =
     sv_total_bytes_received s + word_of_nat (sum_list (map (length \<circ> ne_payload) (events_of kData es))) \<and>
   sv_total_errors (fold OnNetworkEvent es s) = sv_total_errors s + word_of_nat (length (events_of kError es))"
proof (induction es arbitrary: s)
  case Nil
  then show ?case by (simp add: events_of_def)
next
  case (Cons e es)
  then show ?case
    by (cases "ne_type e") (simp_all add: OnNetworkEvent_fields events_of_def)
qed

end
