(* ===== verification/ClientReactor.thy ===== *)
theory ClientReactor
  imports ReactorProperties
begin

text \<open>
  The class \<open>ClientReactor\<close> of \<^verbatim>\<open>src/darwincore/network/client_reactor.cpp\<close>: the event loop of a client,
  with one connection at a time. The answers of the kernel and the clock come from an environment, as in
  the server's reactor. Calls of the client's threads and rounds of the loop are taken as atomic, although
  the code does not lock the connection they share. Callbacks and promises are numbered by the caller.
  Members that are history and never read by the code: the closed descriptors, the dispatched events, the
  answers given to callbacks and promises, and, each with the number of the connection that was current,
  the bytes \<open>DoSend\<close> has taken over and the bytes handed to a socket.
\<close>

section \<open>State\<close>

record 'p ClientConnection =
  cc_file_descriptor :: int
  cc_peer_address :: "'p option"
  cc_connection_id :: u64
  cc_send_buffer :: SendBuffer
  cc_write_pending :: bool
  cc_last_active :: int

datatype SendOperationType = kAsync | kSync | kAsyncCallback

record SendOperation =
  so_type :: SendOperationType
  so_data :: bytes
  so_callback :: "nat option"
  so_promise :: "nat option"

record 'p ClientReactor =
  cr_worker_pool :: bool
  cr_event_callback :: bool
  cr_io_monitor :: IOMonitor
  cr_is_running :: bool
  cr_connection :: "'p ClientConnection"
  cr_has_connection :: bool
  cr_send_operations :: "SendOperation ConcurrentQueue"
  cr_total_bytes_sent :: u64
  cr_total_bytes_received :: u64
  cr_closed :: "int list"
  cr_log :: "NetworkEvent list"
  cr_callbacks :: "(nat \<times> bool \<times> nat) list"
  cr_promises :: "(nat \<times> bool) list"
  cr_number :: nat
  cr_taken :: "(nat \<times> bytes) list"
  cr_wire :: "(nat \<times> bytes) list"

definition cr_kWakeupIdent :: nat where "cr_kWakeupIdent = 2"

definition ClientConnection_ctor :: "'p ClientConnection" where
  "ClientConnection_ctor = \<lparr> cc_file_descriptor = -1, cc_peer_address = None, cc_connection_id = 0,
     cc_send_buffer = SendBuffer_ctor, cc_write_pending = False, cc_last_active = 0 \<rparr>"

definition cc_UpdateActivity :: "int \<Rightarrow> 'p ClientConnection \<Rightarrow> 'p ClientConnection" where
  "cc_UpdateActivity now conn = conn\<lparr>cc_last_active := now\<rparr>"

definition ClientReactor_ctor :: "bool \<Rightarrow> 'p ClientReactor" where
  "ClientReactor_ctor worker_pool = \<lparr> cr_worker_pool = worker_pool, cr_event_callback = False,
     cr_io_monitor = IOMonitor_ctor, cr_is_running = False, cr_connection = ClientConnection_ctor,
     cr_has_connection = False, cr_send_operations = ConcurrentQueue_ctor 0, cr_total_bytes_sent = 0,
     cr_total_bytes_received = 0, cr_closed = [], cr_log = [], cr_callbacks = [], cr_promises = [],
     cr_number = 0, cr_taken = [], cr_wire = [] \<rparr>"

abbreviation upd_conn :: "('p ClientConnection \<Rightarrow> 'p ClientConnection) \<Rightarrow> 'p ClientReactor \<Rightarrow> 'p ClientReactor" where
  "upd_conn f r \<equiv> r\<lparr>cr_connection := f (cr_connection r)\<rparr>"

section \<open>Dispatching events\<close>

definition cr_DispatchEvent :: "NetworkEvent \<Rightarrow> 'p ClientReactor \<Rightarrow> 'p ClientReactor" where
  "cr_DispatchEvent e r =
     (if cr_worker_pool r then r\<lparr>cr_log := cr_log r @ [e]\<rparr>
      else if cr_event_callback r then r\<lparr>cr_log := cr_log r @ [e]\<rparr> else r)"

definition cr_DispatchDataEvent :: "bytes \<Rightarrow> 'p ClientReactor \<Rightarrow> 'p ClientReactor" where
  "cr_DispatchDataEvent data r =
     cr_DispatchEvent ((NetworkEvent_ctor kData (cc_connection_id (cr_connection r)))\<lparr>ne_payload := data\<rparr>) r"

definition DispatchConnectedEvent :: "'p Env \<Rightarrow> 'p \<Rightarrow> 'p ClientReactor \<Rightarrow> 'p ClientReactor" where
  "DispatchConnectedEvent env peer r =
     (let cid = cc_connection_id (cr_connection r); (ip, port) = e_address env peer
      in cr_DispatchEvent ((NetworkEvent_ctor kConnected cid)\<lparr>ne_connection_info :=
           Some (ConnectionInformation_ctor cid ip port (e_is_unix env peer))\<rparr>) r)"

definition DispatchDisconnectedEvent :: "'p ClientReactor \<Rightarrow> 'p ClientReactor" where
  "DispatchDisconnectedEvent r =
     cr_DispatchEvent (NetworkEvent_ctor kDisconnected (cc_connection_id (cr_connection r))) r"

section \<open>The connection\<close>

definition cr_close :: "int \<Rightarrow> 'p ClientReactor \<Rightarrow> 'p ClientReactor" where
  "cr_close fd r = r\<lparr>cr_closed := cr_closed r @ [fd], cr_io_monitor := forget_fd fd (cr_io_monitor r)\<rparr>"

definition cr_RemoveConnection :: "'p Env \<Rightarrow> 'p ClientReactor \<Rightarrow> 'p ClientReactor" where
  "cr_RemoveConnection env r =
     (if \<not> cr_has_connection r then r
      else let fd = cc_file_descriptor (cr_connection r);
               r = r\<lparr>cr_io_monitor := snd (StopMonitor (e_kevent env) fd (cr_io_monitor r))\<rparr>;
               r = cr_close fd r;
               r = upd_conn (\<lambda>c. c\<lparr>cc_file_descriptor := -1\<rparr>) r;
               r = r\<lparr>cr_has_connection := False\<rparr>
      in DispatchDisconnectedEvent r)"

definition SetConnection :: "'p Env \<Rightarrow> int \<Rightarrow> 'p \<Rightarrow> 'p ClientReactor \<Rightarrow> bool \<times> 'p ClientReactor" where
  "SetConnection env fd peer r =
     (if fd < 0 then (False, r)
      else if \<not> cr_is_running r then (False, r)
      else let r = (if cr_has_connection r then cr_RemoveConnection env r else r);
               (ok, mon) = StartReadMonitor (e_kevent env) fd (cr_io_monitor r);
               r = r\<lparr>cr_io_monitor := mon\<rparr>
      in if \<not> ok then (False, cr_close fd r)
         else let r = upd_conn (\<lambda>c. c\<lparr>cc_file_descriptor := fd, cc_peer_address := Some peer,
                        cc_connection_id := Generate (e_tm env) 255 (word_of_int fd) 1\<rparr>) r;
                  r = upd_conn (cc_UpdateActivity (e_now env)) r;
                  r = r\<lparr>cr_has_connection := True, cr_number := cr_number r + 1\<rparr>
         in (True, DispatchConnectedEvent env peer r))"

section \<open>Sending\<close>

definition submit_send :: "SendOperation \<Rightarrow> 'p ClientReactor \<Rightarrow> (bool \<times> 'p ClientReactor) option" where
  "submit_send op r =
     (if so_data op = [] then Some (False, r)
      else if \<not> cr_is_running r then Some (False, r)
      else map_option (\<lambda>(ok, q). (ok, r\<lparr>cr_send_operations := q\<rparr>)) (Enqueue op (cr_send_operations r)))"

definition cr_SendAsync :: "bytes \<Rightarrow> 'p ClientReactor \<Rightarrow> (bool \<times> 'p ClientReactor) option" where
  "cr_SendAsync data r =
     submit_send \<lparr> so_type = kAsync, so_data = data, so_callback = None, so_promise = None \<rparr> r"

definition SendAsyncWithCallback :: "bytes \<Rightarrow> nat option \<Rightarrow> 'p ClientReactor \<Rightarrow> (bool \<times> 'p ClientReactor) option" where
  "SendAsyncWithCallback data callback r =
     submit_send \<lparr> so_type = kAsyncCallback, so_data = data, so_callback = callback, so_promise = None \<rparr> r"

text \<open>\<open>SendSync\<close> up to its wait, and what the wait returns: None while the promise has no value and the
  time limit has not passed.\<close>

definition SendSync_submit :: "bytes \<Rightarrow> nat \<Rightarrow> 'p ClientReactor \<Rightarrow> (bool \<times> 'p ClientReactor) option" where
  "SendSync_submit data promise r =
     submit_send \<lparr> so_type = kSync, so_data = data, so_callback = None, so_promise = Some promise \<rparr> r"

definition SendSync_wait :: "nat \<Rightarrow> int \<Rightarrow> int \<Rightarrow> 'p ClientReactor \<Rightarrow> bool option" where
  "SendSync_wait promise timeout_ms elapsed r =
     (case map_of (cr_promises r) promise of
        Some success \<Rightarrow> Some success
      | None \<Rightarrow> if timeout_ms > 0 \<and> elapsed \<ge> timeout_ms then Some False else None)"

definition cr_TrySendDirect :: "'p Env \<Rightarrow> 'p ClientReactor \<Rightarrow> 'p ClientReactor" where
  "cr_TrySendDirect env r =
     (if \<not> cr_has_connection r then r
      else let fd = cc_file_descriptor (cr_connection r)
      in if fd < 0 then r
      else let b = cc_send_buffer (cr_connection r);
               (sent, out, b) = SendToSocket fd (e_send env (sb_Size b)) b;
               r = upd_conn (\<lambda>c. c\<lparr>cc_send_buffer := b\<rparr>) r;
               r = r\<lparr>cr_wire := cr_wire r @ [(cr_number r, out)]\<rparr>
      in if sent < 0 then cr_RemoveConnection env r
      else let r = (if sent > 0 then upd_conn (cc_UpdateActivity (e_now env))
                       (r\<lparr>cr_total_bytes_sent := cr_total_bytes_sent r + word_of_int sent\<rparr>) else r);
               start = (\<not> sb_IsEmpty b \<and> \<not> cc_write_pending (cr_connection r));
               r = (if start then upd_conn (\<lambda>c. c\<lparr>cc_write_pending := True\<rparr>)
                      (r\<lparr>cr_io_monitor := snd (StartWriteMonitor (e_kevent env) fd (cr_io_monitor r))\<rparr>) else r);
               stop = (sb_IsEmpty b \<and> cc_write_pending (cr_connection r))
      in (if stop then upd_conn (\<lambda>c. c\<lparr>cc_write_pending := False\<rparr>)
            (r\<lparr>cr_io_monitor := snd (StopWriteMonitor (e_kevent env) fd (cr_io_monitor r))\<rparr>) else r))"

text \<open>None: the write to the buffer does not return.\<close>

definition DoSend :: "'p Env \<Rightarrow> bytes \<Rightarrow> 'p ClientReactor \<Rightarrow> (bool \<times> 'p ClientReactor) option" where
  "DoSend env data r =
     (if \<not> cr_has_connection r then Some (False, r)
      else case Write data (cc_send_buffer (cr_connection r)) of
          None \<Rightarrow> None
        | Some (False, b) \<Rightarrow> Some (False, upd_conn (\<lambda>c. c\<lparr>cc_send_buffer := b\<rparr>) r)
        | Some (True, b) \<Rightarrow>
            let r = upd_conn (\<lambda>c. c\<lparr>cc_send_buffer := b\<rparr>) r;
                r = r\<lparr>cr_taken := cr_taken r @ [(cr_number r, data)]\<rparr>
            in Some (True, cr_TrySendDirect env r))"

text \<open>One operation of the batch: send, then answer the callback and the promise.\<close>

definition do_send_operation :: "'p Env \<Rightarrow> SendOperation \<Rightarrow> 'p ClientReactor \<Rightarrow> 'p ClientReactor option" where
  "do_send_operation env op r =
     (case DoSend env (so_data op) r of
        None \<Rightarrow> None
      | Some (success, r) \<Rightarrow>
          let r = (case so_callback op of None \<Rightarrow> r
                   | Some cb \<Rightarrow> r\<lparr>cr_callbacks := cr_callbacks r @ [(cb, success, if success then length (so_data op) else 0)]\<rparr>);
              r = (case so_promise op of None \<Rightarrow> r
                   | Some p \<Rightarrow> r\<lparr>cr_promises := cr_promises r @ [(p, success)]\<rparr>)
          in Some r)"

fun send_loop :: "(nat \<Rightarrow> 'p Env) \<Rightarrow> nat \<Rightarrow> nat \<Rightarrow> 'p ClientReactor \<Rightarrow> (nat \<times> 'p ClientReactor) option" where
  "send_loop envs 0 processed r = Some (processed, r)"
| "send_loop envs (Suc k) processed r =
     (case TryDequeue (cr_send_operations r) of
        (None, q) \<Rightarrow> Some (processed, r)
      | (Some op, q) \<Rightarrow>
          (case do_send_operation (envs processed) op (r\<lparr>cr_send_operations := q\<rparr>) of
             None \<Rightarrow> None
           | Some r' \<Rightarrow> send_loop envs k (processed + 1) r'))"

definition cr_ProcessPendingOperations :: "(nat \<Rightarrow> 'p Env) \<Rightarrow> 'p ClientReactor \<Rightarrow> 'p ClientReactor option" where
  "cr_ProcessPendingOperations envs r =
     (case send_loop envs 100 0 r of
        None \<Rightarrow> None
      | Some (processed, r) \<Rightarrow> Some (if processed > 0 then cr_TrySendDirect (envs processed) r else r))"

section \<open>Events of the kernel\<close>

fun cr_read_loop :: "'p Env \<Rightarrow> recv_result list \<Rightarrow> 'p ClientReactor \<Rightarrow> 'p ClientReactor" where
  "cr_read_loop env [] r = r"
| "cr_read_loop env (Received data # rs) r =
     (let r = upd_conn (cc_UpdateActivity (e_now env)) r;
          r = r\<lparr>cr_total_bytes_received := cr_total_bytes_received r + word_of_nat (length data)\<rparr>
      in cr_read_loop env rs (cr_DispatchDataEvent data r))"
| "cr_read_loop env (RecvEOF # rs) r = cr_RemoveConnection env r"
| "cr_read_loop env (RecvFailed e # rs) r =
     (if e = EAGAIN \<or> e = EWOULDBLOCK then r
      else if e = EINTR then cr_read_loop env rs r
      else cr_RemoveConnection env r)"

definition cr_HandleReadEvent :: "'p Env \<Rightarrow> 'p ClientReactor \<Rightarrow> 'p ClientReactor" where
  "cr_HandleReadEvent env r = (if \<not> cr_has_connection r then r else cr_read_loop env (e_recv env) r)"

definition cr_HandleWriteEvent :: "'p Env \<Rightarrow> 'p ClientReactor \<Rightarrow> 'p ClientReactor" where
  "cr_HandleWriteEvent env r = cr_TrySendDirect env r"

definition cr_ProcessKqueueEvent :: "'p Env \<Rightarrow> kevent \<Rightarrow> 'p ClientReactor \<Rightarrow> 'p ClientReactor" where
  "cr_ProcessKqueueEvent env ev r =
     (if \<not> cr_has_connection r \<or> ke_ident ev \<noteq> cc_file_descriptor (cr_connection r) then r
      else if ke_eof ev then cr_RemoveConnection env r
      else if ke_error ev then cr_RemoveConnection env r
      else if ke_filter ev = EVFILT_READ then cr_HandleReadEvent env r
      else if ke_filter ev = EVFILT_WRITE then cr_HandleWriteEvent env r else r)"

fun cr_process_events :: "('p Env \<times> kevent) list \<Rightarrow> 'p ClientReactor \<Rightarrow> 'p ClientReactor" where
  "cr_process_events [] r = r"
| "cr_process_events ((env, ev) # evs) r = cr_process_events evs
     (if ke_filter ev = EVFILT_USER \<and> ke_ident ev = int cr_kWakeupIdent then r
      else cr_ProcessKqueueEvent env ev r)"

text \<open>One round of \<open>RunEventLoop\<close>; a failed wait ends the loop and is not a round.\<close>

definition cr_RunEventLoop_round ::
    "(nat \<Rightarrow> 'p Env) \<Rightarrow> ('p Env \<times> kevent) list \<Rightarrow> 'p ClientReactor \<Rightarrow> 'p ClientReactor option" where
  "cr_RunEventLoop_round envs evs r =
     map_option (cr_process_events evs) (cr_ProcessPendingOperations envs r)"

section \<open>Starting, stopping, queries\<close>

definition cr_Start :: "bool \<Rightarrow> bool \<Rightarrow> bool \<Rightarrow> 'p ClientReactor \<Rightarrow> bool \<times> 'p ClientReactor" where
  "cr_Start kqueue_ok kevent_ok thread_ok r =
     (let (ok, mon) = iom_Initialize kqueue_ok (cr_io_monitor r); r = r\<lparr>cr_io_monitor := mon\<rparr>
      in if \<not> ok then (False, r)
      else let (ok, mon) = InitializeWakeupEvent kevent_ok cr_kWakeupIdent (cr_io_monitor r);
               r = r\<lparr>cr_io_monitor := mon\<rparr>
      in if \<not> ok then (False, r)
      else if cr_is_running r then (False, r)
      else if thread_ok then (True, r\<lparr>cr_is_running := True\<rparr>)
      else (False, r\<lparr>cr_is_running := False\<rparr>))"

text \<open>\<open>Stop\<close> up to the join of the loop thread, and after it.\<close>

definition cr_Stop_request :: "'p ClientReactor \<Rightarrow> 'p ClientReactor" where
  "cr_Stop_request r =
     (if cr_is_running r
      then r\<lparr>cr_is_running := False, cr_send_operations := NotifyStop (cr_send_operations r)\<rparr> else r)"

definition cr_Stop_finish :: "'p ClientReactor \<Rightarrow> 'p ClientReactor" where
  "cr_Stop_finish r =
     (let r = r\<lparr>cr_io_monitor := iom_Close (cr_io_monitor r)\<rparr>
      in if cr_has_connection r \<and> cc_file_descriptor (cr_connection r) \<ge> 0
         then (upd_conn (\<lambda>c. c\<lparr>cc_file_descriptor := -1\<rparr>)
                (cr_close (cc_file_descriptor (cr_connection r)) r))\<lparr>cr_has_connection := False\<rparr>
         else r)"

definition cr_GetSendBufferSize :: "'p ClientReactor \<Rightarrow> nat" where
  "cr_GetSendBufferSize r = (if \<not> cr_has_connection r then 0 else sb_Size (cc_send_buffer (cr_connection r)))"

definition cr_IsConnected :: "'p ClientReactor \<Rightarrow> bool" where
  "cr_IsConnected r \<longleftrightarrow> cr_has_connection r \<and> cc_file_descriptor (cr_connection r) \<ge> 0"

record ClientStatistics =
  cs_total_bytes_sent :: u64
  cs_total_bytes_received :: u64
  cs_pending_send_operations :: nat
  cs_send_buffer_size :: nat

definition cr_GetStatistics :: "'p ClientReactor \<Rightarrow> ClientStatistics" where
  "cr_GetStatistics r = \<lparr> cs_total_bytes_sent = cr_total_bytes_sent r,
     cs_total_bytes_received = cr_total_bytes_received r,
     cs_pending_send_operations = Size (cr_send_operations r), cs_send_buffer_size = cr_GetSendBufferSize r \<rparr>"

definition cr_SetEventCallback :: "bool \<Rightarrow> 'p ClientReactor \<Rightarrow> 'p ClientReactor" where
  "cr_SetEventCallback callback r = r\<lparr>cr_event_callback := callback\<rparr>"

section \<open>Runs of a client reactor\<close>

text \<open>The calls of the client's threads and the rounds of the loop, until \<open>Stop\<close> has joined the loop.
  The kernel never takes more bytes than it is given.\<close>

inductive client_reactor_step :: "'p ClientReactor \<Rightarrow> 'p ClientReactor \<Rightarrow> bool" where
  crs_start: "client_reactor_step r (snd (cr_Start a b c r))"
| crs_stop: "client_reactor_step r (cr_Stop_request r)"
| crs_callback: "client_reactor_step r (cr_SetEventCallback cb r)"
| crs_set: "client_reactor_step r (snd (SetConnection env fd peer r))"
| crs_remove: "client_reactor_step r (cr_RemoveConnection env r)"
| crs_async: "cr_SendAsync data r = Some (ok, r') \<Longrightarrow> client_reactor_step r r'"
| crs_cb: "SendAsyncWithCallback data f r = Some (ok, r') \<Longrightarrow> client_reactor_step r r'"
| crs_sync: "SendSync_submit data p r = Some (ok, r') \<Longrightarrow> client_reactor_step r r'"
| crs_round: "\<forall>i. env_ok (envs i) \<Longrightarrow> \<forall>(env, ev) \<in> set evs. env_ok env \<Longrightarrow>
    cr_RunEventLoop_round envs evs r = Some r' \<Longrightarrow> client_reactor_step r r'"

text \<open>The state of a client's connection as its events tell it: None is no connection. The result None
  is a sequence of events that is not a sequence of lives.\<close>

fun client_life :: "NetworkEvent list \<Rightarrow> u64 option \<Rightarrow> u64 option option" where
  "client_life [] s = Some s"
| "client_life (e # es) s =
     (case (ne_type e, s) of
        (kConnected, None) \<Rightarrow> client_life es (Some (ne_connection_id e))
      | (kData, Some c) \<Rightarrow> if ne_connection_id e = c then client_life es s else None
      | (kDisconnected, Some c) \<Rightarrow> if ne_connection_id e = c then client_life es None else None
      | _ \<Rightarrow> None)"

lemma client_life_append:
  "client_life (xs @ ys) s = (case client_life xs s of None \<Rightarrow> None | Some t \<Rightarrow> client_life ys t)"
  by (induction xs s rule: client_life.induct) (auto split: NetworkEventType.split option.split)

abbreviation cr_current :: "'p ClientReactor \<Rightarrow> u64 option" where
  "cr_current r \<equiv> (if cr_has_connection r then Some (cc_connection_id (cr_connection r)) else None)"

abbreviation cr_buffered :: "'p ClientReactor \<Rightarrow> bytes" where
  "cr_buffered r \<equiv> sb_contents (cc_send_buffer (cr_connection r))"

definition cr_inv :: "'p ClientReactor \<Rightarrow> bool" where
  "cr_inv r \<longleftrightarrow> cr_worker_pool r \<and> sb_invar (cc_send_buffer (cr_connection r)) \<and>
     (cr_has_connection r \<longleftrightarrow> 0 \<le> cc_file_descriptor (cr_connection r)) \<and>
     client_life (cr_log r) None = Some (cr_current r) \<and>
     concat (map snd (cr_taken r)) = concat (map snd (cr_wire r)) @ cr_buffered r"

text \<open>What sending and receiving leave alone: the queue and the answers given so far.\<close>

definition cr_ops :: "'p ClientReactor \<Rightarrow> SendOperation ConcurrentQueue \<times> (nat \<times> bool \<times> nat) list \<times> (nat \<times> bool) list" where
  "cr_ops r = (cr_send_operations r, cr_callbacks r, cr_promises r)"

lemmas dispatch_defs = cr_DispatchEvent_def cr_DispatchDataEvent_def DispatchConnectedEvent_def
  DispatchDisconnectedEvent_def NetworkEvent_ctor_def Let_def case_prod_beta

lemma cr_inv_ctor: "cr_inv (ClientReactor_ctor True)"
  by (simp add: cr_inv_def ClientReactor_ctor_def ClientConnection_ctor_def sb_invar_ctor)
    (simp add: sb_contents_def SendBuffer_ctor_def sb_Size_def)

lemma cr_inv_RemoveConnection:
  "cr_inv r \<Longrightarrow> cr_inv (cr_RemoveConnection env r)"
  by (auto simp: cr_inv_def cr_RemoveConnection_def cr_close_def dispatch_defs client_life_append split: if_splits)

lemma cr_RemoveConnection_simps [simp]:
  "\<not> cr_has_connection (cr_RemoveConnection env r)"
  "cr_ops (cr_RemoveConnection env r) = cr_ops r"
  by (auto simp: cr_ops_def cr_RemoveConnection_def cr_close_def dispatch_defs)

lemma cr_inv_SetConnection:
  assumes "cr_inv r"
  shows "cr_inv (snd (SetConnection env fd peer r))"
proof -
  define r1 where "r1 = (if cr_has_connection r then cr_RemoveConnection env r else r)"
  have r1: "cr_inv r1" "\<not> cr_has_connection r1"
    using assms cr_inv_RemoveConnection [OF assms, of env] by (auto simp: r1_def)
  then show ?thesis
    using assms unfolding SetConnection_def r1_def [symmetric]
    by (auto simp: cr_inv_def cr_close_def cc_UpdateActivity_def dispatch_defs client_life_append)
qed

lemma cr_inv_TrySendDirect:
  assumes "cr_inv r" and "env_ok env"
  shows "cr_inv (cr_TrySendDirect env r)"
proof -
  let ?fd = "cc_file_descriptor (cr_connection r)" and ?b = "cc_send_buffer (cr_connection r)"
  obtain sent out b where s: "SendToSocket ?fd (e_send env (sb_Size ?b)) ?b = (sent, out, b)" by (metis surj_pair)
  have f: "sb_invar b" "cr_buffered r = out @ sb_contents b"
    using SendToSocket_facts [OF _ _ s] assms by (auto simp: cr_inv_def env_ok_def)
  define r1 where "r1 = (upd_conn (\<lambda>c. c\<lparr>cc_send_buffer := b\<rparr>) r)\<lparr>cr_wire := cr_wire r @ [(cr_number r, out)]\<rparr>"
  have "cr_inv r1" using assms(1) f by (simp add: cr_inv_def r1_def)
  with cr_inv_RemoveConnection [OF this, of env] assms(1) s show ?thesis
    unfolding cr_TrySendDirect_def Let_def s prod.case
    by (simp add: r1_def [symmetric]) (auto simp: cr_inv_def cc_UpdateActivity_def r1_def)
qed

lemma cr_TrySendDirect_ops [simp]: "cr_ops (cr_TrySendDirect env r) = cr_ops r"
  using cr_RemoveConnection_simps(2)
  by (simp add: cr_TrySendDirect_def Let_def case_prod_beta) (simp add: cr_ops_def)

lemma cr_inv_DoSend:
  assumes "cr_inv r" and "env_ok env"
  shows "\<exists>r'. DoSend env data r = Some (cr_has_connection r \<and> data \<noteq> [] \<and>
      length (cr_buffered r) + length data \<le> MAX_CAPACITY, r') \<and> cr_inv r' \<and> cr_ops r' = cr_ops r"
proof (cases "cr_has_connection r")
  case False
  with assms show ?thesis by (simp add: DoSend_def)
next
  case True
  let ?b = "cc_send_buffer (cr_connection r)"
  have i: "sb_invar ?b" using assms(1) by (simp add: cr_inv_def)
  let ?ok = "data \<noteq> [] \<and> sb_Size ?b + length data \<le> MAX_CAPACITY"
  obtain b where b: "Write data ?b = Some (?ok, b)" "sb_invar b"
    "sb_contents b = sb_contents ?b @ (if sb_Size ?b + length data \<le> MAX_CAPACITY then data else [])"
    using Write_facts [OF i, of data] by blast
  define r1 where "r1 = upd_conn (\<lambda>c. c\<lparr>cc_send_buffer := b\<rparr>) r"
  define r2 where "r2 = r1\<lparr>cr_taken := cr_taken r1 @ [(cr_number r1, data)]\<rparr>"
  have eq: "DoSend env data r = Some (if ?ok then (True, cr_TrySendDirect env r2) else (False, r1))"
    using True b(1) by (simp add: DoSend_def r1_def r2_def)
  have sz: "sb_Size ?b = length (cr_buffered r)" using length_sb_contents [OF i] by simp
  have "cr_inv r1" if "\<not> ?ok" using that assms(1) b(2,3) by (auto simp: cr_inv_def r1_def)
  moreover have "cr_inv r2" if "?ok" using that assms(1) b(2,3) by (auto simp: cr_inv_def r1_def r2_def)
  moreover have "cr_ops r1 = cr_ops r" "cr_ops r2 = cr_ops r" by (simp_all add: cr_ops_def r1_def r2_def)
  ultimately show ?thesis
    using eq True cr_inv_TrySendDirect [OF _ assms(2), of r2] unfolding sz by auto
qed

text \<open>The callbacks and promises of operations, in order.\<close>

definition callbacks_of :: "SendOperation list \<Rightarrow> nat list" where
  "callbacks_of ops = List.map_filter so_callback ops"

definition promises_of :: "SendOperation list \<Rightarrow> nat list" where
  "promises_of ops = List.map_filter so_promise ops"

lemma callbacks_promises_simps [simp]:
  "callbacks_of [] = []" "promises_of [] = []"
  "callbacks_of (op # ops) = (case so_callback op of None \<Rightarrow> [] | Some c \<Rightarrow> [c]) @ callbacks_of ops"
  "promises_of (op # ops) = (case so_promise op of None \<Rightarrow> [] | Some c \<Rightarrow> [c]) @ promises_of ops"
  by (simp_all add: callbacks_of_def promises_of_def map_filter_simps split: option.split)

text \<open>Operations are answered: they have left the queue in order, and each has given its callback and
  its promise one value.\<close>

definition cr_answered :: "SendOperation list \<Rightarrow> 'p ClientReactor \<Rightarrow> 'p ClientReactor \<Rightarrow> bool" where
  "cr_answered ops r r' \<longleftrightarrow> cq_queue (cr_send_operations r) = ops @ cq_queue (cr_send_operations r') \<and>
     map fst (cr_callbacks r') = map fst (cr_callbacks r) @ callbacks_of ops \<and>
     map fst (cr_promises r') = map fst (cr_promises r) @ promises_of ops"

lemma cr_answered_Nil: "cr_ops r' = cr_ops r \<Longrightarrow> cr_answered [] r r'"
  by (simp add: cr_answered_def cr_ops_def)

lemma cr_answered_trans: "cr_answered xs r r1 \<Longrightarrow> cr_answered ys r1 r2 \<Longrightarrow> cr_answered (xs @ ys) r r2"
  by (auto simp: cr_answered_def callbacks_of_def promises_of_def map_filter_def)

lemma cr_inv_operation:
  assumes "cr_inv r" and "env_ok env" and "TryDequeue (cr_send_operations r) = (Some op, q)"
  shows "\<exists>r'. do_send_operation env op (r\<lparr>cr_send_operations := q\<rparr>) = Some r' \<and> cr_inv r' \<and> cr_answered [op] r r'"
proof -
  let ?r = "r\<lparr>cr_send_operations := q\<rparr>"
  have "cr_inv ?r" using assms(1) by (simp add: cr_inv_def)
  then obtain ok r1 where r1: "DoSend env (so_data op) ?r = Some (ok, r1)" "cr_inv r1" "cr_ops r1 = cr_ops ?r"
    using cr_inv_DoSend assms(2) by blast
  have q: "cq_queue (cr_send_operations r) = op # cq_queue q"
    using assms(3) by (auto simp: TryDequeue_def split: list.splits)
  have o: "cr_send_operations r1 = q" "cr_callbacks r1 = cr_callbacks r" "cr_promises r1 = cr_promises r"
    using r1(3) by (simp_all add: cr_ops_def)
  show ?thesis
    using r1(2)
    by (cases "so_callback op"; cases "so_promise op")
      (simp_all add: do_send_operation_def r1(1) cr_answered_def o q cr_inv_def Let_def)
qed

lemma send_loop_inv:
  assumes "cr_inv r" and "\<And>i. env_ok (envs i)"
  shows "\<exists>n' r'. send_loop envs k n r = Some (n', r') \<and> cr_inv r' \<and>
    cr_answered (take k (cq_queue (cr_send_operations r))) r r'"
  using assms(1)
proof (induction k arbitrary: n r)
  case 0
  then show ?case by (simp add: cr_answered_def)
next
  case (Suc k)
  show ?case
  proof (cases "cq_queue (cr_send_operations r)")
    case Nil
    with Suc.prems show ?thesis by (simp add: TryDequeue_def cr_answered_def)
  next
    case (Cons op ops)
    then obtain q where q: "TryDequeue (cr_send_operations r) = (Some op, q)" "cq_queue q = ops"
      by (simp add: TryDequeue_def)
    obtain r1 where r1: "do_send_operation (envs n) op (r\<lparr>cr_send_operations := q\<rparr>) = Some r1" "cr_inv r1"
      "cr_answered [op] r r1"
      using cr_inv_operation [OF Suc.prems assms(2) q(1)] by blast
    obtain n' r' where r': "send_loop envs k (n + 1) r1 = Some (n', r')" "cr_inv r'"
      "cr_answered (take k (cq_queue (cr_send_operations r1))) r1 r'"
      using Suc.IH [OF r1(2)] by blast
    have "cq_queue (cr_send_operations r1) = ops" using r1(3) Cons by (simp add: cr_answered_def)
    with cr_answered_trans [OF r1(3) r'(3)] r' r1(1) q(1) Cons show ?thesis by simp
  qed
qed

lemma cr_ProcessPendingOperations_inv:
  assumes "cr_inv r" and "\<And>i. env_ok (envs i)"
  shows "\<exists>r'. cr_ProcessPendingOperations envs r = Some r' \<and> cr_inv r' \<and>
    cr_answered (take 100 (cq_queue (cr_send_operations r))) r r'"
proof -
  obtain n r1 where r1: "send_loop envs 100 0 r = Some (n, r1)" "cr_inv r1"
    "cr_answered (take 100 (cq_queue (cr_send_operations r))) r r1"
    using send_loop_inv [OF assms(1), of envs 100 0] assms(2) by blast
  have "cr_answered [] r1 (cr_TrySendDirect (envs n) r1)" by (simp add: cr_answered_Nil)
  from cr_answered_trans [OF r1(3) this] cr_inv_TrySendDirect [OF r1(2) assms(2)] r1 show ?thesis
    by (simp add: cr_ProcessPendingOperations_def)
qed

lemma cr_read_loop_inv:
  "cr_inv r \<Longrightarrow> cr_has_connection r \<Longrightarrow> cr_inv (cr_read_loop env rs r) \<and> cr_ops (cr_read_loop env rs r) = cr_ops r"
proof (induction env rs r rule: cr_read_loop.induct)
  case (2 env data rs r)
  define r1 where "r1 = cr_DispatchDataEvent data ((upd_conn (cc_UpdateActivity (e_now env)) r)
    \<lparr>cr_total_bytes_received := cr_total_bytes_received r + word_of_nat (length data)\<rparr>)"
  have "cr_inv r1" "cr_has_connection r1" "cr_ops r1 = cr_ops r"
    using "2.prems"
    by (auto simp: r1_def cr_inv_def cc_UpdateActivity_def dispatch_defs client_life_append cr_ops_def)
  with "2.IH" show ?case by (simp add: r1_def)
qed (auto simp: cr_inv_RemoveConnection)

lemma cr_ProcessKqueueEvent_inv:
  "cr_inv r \<Longrightarrow> env_ok env \<Longrightarrow>
     cr_inv (cr_ProcessKqueueEvent env ev r) \<and> cr_ops (cr_ProcessKqueueEvent env ev r) = cr_ops r"
  by (auto simp: cr_ProcessKqueueEvent_def cr_HandleReadEvent_def cr_HandleWriteEvent_def cr_read_loop_inv
      cr_inv_RemoveConnection cr_inv_TrySendDirect)

lemma cr_process_events_inv:
  "cr_inv r \<Longrightarrow> \<forall>(env, ev) \<in> set evs. env_ok env \<Longrightarrow>
     cr_inv (cr_process_events evs r) \<and> cr_ops (cr_process_events evs r) = cr_ops r"
  by (induction evs r rule: cr_process_events.induct) (auto simp: cr_ProcessKqueueEvent_inv)

lemma cr_round_inv:
  assumes "cr_inv r" and "\<forall>i. env_ok (envs i)" and "\<forall>(env, ev) \<in> set evs. env_ok env"
  shows "\<exists>r'. cr_RunEventLoop_round envs evs r = Some r' \<and> cr_inv r' \<and>
    cr_answered (take 100 (cq_queue (cr_send_operations r))) r r'"
proof -
  obtain r1 where r1: "cr_ProcessPendingOperations envs r = Some r1" "cr_inv r1"
    "cr_answered (take 100 (cq_queue (cr_send_operations r))) r r1"
    using cr_ProcessPendingOperations_inv [OF assms(1), of envs] assms(2) by blast
  note e = cr_process_events_inv [OF r1(2) assms(3)]
  from cr_answered_trans [OF r1(3) cr_answered_Nil [OF conjunct2 [OF e]]] e r1 show ?thesis
    by (simp add: cr_RunEventLoop_round_def)
qed

lemma submit_send_inv: "submit_send op r = Some (ok, r') \<Longrightarrow> cr_inv r \<Longrightarrow> cr_inv r'"
  by (auto simp: submit_send_def cr_inv_def split: if_splits)

lemma cr_inv_simps [simp]:
  "cr_inv (snd (cr_Start a b c r)) = cr_inv r" "cr_inv (cr_Stop_request r) = cr_inv r"
  "cr_inv (cr_SetEventCallback f r) = cr_inv r"
  by (simp_all add: cr_inv_def cr_Start_def cr_Stop_request_def cr_SetEventCallback_def Let_def case_prod_beta)

lemma cr_inv_step: "client_reactor_step r r' \<Longrightarrow> cr_inv r \<Longrightarrow> cr_inv r'"
proof (induction rule: client_reactor_step.induct)
  case (crs_round envs evs r r')
  with cr_round_inv [OF crs_round.prems crs_round.hyps(1,2)] show ?case by auto
qed (simp_all add: cr_inv_SetConnection cr_inv_RemoveConnection cr_SendAsync_def SendAsyncWithCallback_def
      SendSync_submit_def submit_send_inv)

interpretation client_reactor: invariant_system "\<lambda>r. r = ClientReactor_ctor True" client_reactor_step cr_inv
  by unfold_locales (auto simp: cr_inv_ctor intro: cr_inv_step)

section \<open>Properties\<close>

lemma cr_reachable_inv: "client_reactor_step\<^sup>*\<^sup>* (ClientReactor_ctor True) r \<Longrightarrow> cr_inv r"
  by (rule client_reactor.Inv_reachable [OF refl])

lemma Write_demo: "\<exists>b. Write [1, 2] SendBuffer_ctor = Some (True, b) \<and> sb_invar b \<and> sb_Size b = 2 \<and> sb_contents b = [1, 2]"
proof -
  have z: "sb_Size SendBuffer_ctor = 0" "sb_contents SendBuffer_ctor = []" "(2 :: nat) \<le> MAX_CAPACITY"
    by (simp_all add: sb_contents_def sb_Size_def SendBuffer_ctor_def MAX_CAPACITY_def)
  obtain b where b: "Write [1, 2] SendBuffer_ctor = Some (True, b)" "sb_invar b" "sb_contents b = [1, 2]"
    using Write_facts [OF sb_invar_ctor, of "[1, 2]"] z by auto
  then have "sb_Size b = 2" using length_sb_contents [of b] by simp
  with b show ?thesis by blast
qed

definition blocked_env :: "nat Env" where
  "blocked_env = quiet_env\<lparr>e_send := (\<lambda>_. SendFailed EAGAIN)\<rparr>"

lemma send_loop_step:
  "0 < k \<Longrightarrow> send_loop envs k processed r =
     (case TryDequeue (cr_send_operations r) of
        (None, q) \<Rightarrow> Some (processed, r)
      | (Some op, q) \<Rightarrow>
          (case do_send_operation (envs processed) op (r\<lparr>cr_send_operations := q\<rparr>) of
             None \<Rightarrow> None
           | Some r' \<Rightarrow> send_loop envs (k - 1) (processed + 1) r'))"
  using send_loop.simps(2) [of envs "k - 1" processed r] by simp

text \<open>A client reactor that holds connection 7 and has two bytes the kernel has not taken.\<close>

lemma cr_demo:
  "\<exists>r :: nat ClientReactor. client_reactor_step\<^sup>*\<^sup>* (ClientReactor_ctor True) r \<and> cr_has_connection r \<and> cr_is_running r \<and>
     cr_buffered r = [1, 2] \<and> cc_write_pending (cr_connection r) \<and> cr_io_monitor r = \<lparr> iom_open = True,
       iom_reads = [7], iom_writes = [7], iom_users = [2] \<rparr> \<and> cc_file_descriptor (cr_connection r) = 7"
proof -
  let ?env = "blocked_env :: nat Env"
  define r1 where "r1 = snd (SetConnection ?env 7 0 (snd (cr_Start True True True (ClientReactor_ctor True))))"
  note defs = r1_def SetConnection_def cr_Start_def ClientReactor_ctor_def ClientConnection_ctor_def
    iom_Initialize_def InitializeWakeupEvent_def IOMonitor_ctor_def StartReadMonitor_def cc_UpdateActivity_def
    dispatch_defs blocked_env_def quiet_env_def cr_kWakeupIdent_def
  have r1: "cr_has_connection r1" "cr_is_running r1" "cc_send_buffer (cr_connection r1) = SendBuffer_ctor"
    "\<not> cc_write_pending (cr_connection r1)" "cr_send_operations r1 = ConcurrentQueue_ctor 0"
    "cr_io_monitor r1 = \<lparr> iom_open = True, iom_reads = [7], iom_writes = [], iom_users = [2] \<rparr>"
    "cc_file_descriptor (cr_connection r1) = 7"
    by (simp_all add: defs)
  obtain b where b: "Write [1, 2] SendBuffer_ctor = Some (True, b)" "sb_Size b = 2" "sb_contents b = [1, 2]"
    using Write_demo by blast
  obtain r2 where r2: "cr_SendAsync [1, 2] r1 = Some (True, r2)"
    "r2 = r1\<lparr>cr_send_operations := (ConcurrentQueue_ctor 0)\<lparr>cq_queue := [\<lparr> so_type = kAsync, so_data = [1, 2],
       so_callback = None, so_promise = None \<rparr>]\<rparr>\<rparr>"
    using r1 by (simp add: cr_SendAsync_def submit_send_def Enqueue_def ConcurrentQueue_ctor_def)
  have env: "e_send ?env n = SendFailed EAGAIN" "e_kevent ?env" for n by (simp_all add: blocked_env_def quiet_env_def)
  have ne: "\<not> sb_IsEmpty b" using b(2) by (simp add: sb_IsEmpty_def sb_Size_def)
  define r3 where "r3 = cr_TrySendDirect ?env ((upd_conn (\<lambda>c. c\<lparr>cc_send_buffer := b\<rparr>)
     (r1\<lparr>cr_send_operations := ConcurrentQueue_ctor 0\<rparr>))\<lparr>cr_taken := cr_taken r1 @ [(cr_number r1, [1, 2])]\<rparr>)"
  have r3: "cr_has_connection r3" "cr_is_running r3" "cc_send_buffer (cr_connection r3) = b" "cc_write_pending (cr_connection r3)"
    "cr_io_monitor r3 = \<lparr> iom_open = True, iom_reads = [7], iom_writes = [7], iom_users = [2] \<rparr>"
    "cc_file_descriptor (cr_connection r3) = 7" "cr_send_operations r3 = ConcurrentQueue_ctor 0"
    using r1 b(2) env ne by (simp_all add: r3_def cr_TrySendDirect_def SendToSocket_def StartWriteMonitor_def Let_def)
  define r4 where "r4 = cr_TrySendDirect ?env r3"
  have r4: "cr_has_connection r4" "cr_is_running r4" "cc_send_buffer (cr_connection r4) = b" "cc_write_pending (cr_connection r4)"
    "cr_io_monitor r4 = \<lparr> iom_open = True, iom_reads = [7], iom_writes = [7], iom_users = [2] \<rparr>"
    "cc_file_descriptor (cr_connection r4) = 7"
    using r3 b(2) env ne by (simp_all add: r4_def cr_TrySendDirect_def SendToSocket_def Let_def)
  let ?op = "\<lparr> so_type = kAsync, so_data = [1, 2], so_callback = None, so_promise = None \<rparr>"
  have "do_send_operation ?env ?op (r2\<lparr>cr_send_operations := ConcurrentQueue_ctor 0\<rparr>) = Some r3"
    using b(1) r1 by (simp add: do_send_operation_def DoSend_def r2(2) r3_def)
  moreover have "TryDequeue (cr_send_operations r2) = (Some ?op, ConcurrentQueue_ctor 0)"
    "TryDequeue (cr_send_operations r3) = (None, ConcurrentQueue_ctor 0)"
    by (simp_all add: r2(2) r3(7) TryDequeue_def ConcurrentQueue_ctor_def)
  ultimately have "cr_RunEventLoop_round (\<lambda>_. ?env) [] r2 = Some r4"
    by (simp add: cr_RunEventLoop_round_def cr_ProcessPendingOperations_def send_loop_step r4_def)
  moreover have "client_reactor_step\<^sup>*\<^sup>* (ClientReactor_ctor True) r2"
    using crs_start crs_set crs_async [OF r2(1)] unfolding r1_def
    by (meson rtranclp.rtrancl_into_rtrancl rtranclp.rtrancl_refl)
  moreover have "env_ok ?env" by (simp add: env_ok_def blocked_env_def)
  ultimately show ?thesis
    using crs_round [of "\<lambda>_. ?env" "[]" r2 r4] r4 b(3)
    by (intro exI [of _ r4]) (simp add: rtranclp.rtrancl_into_rtrancl)
qed



text \<open>bytes of a client. Over all connections of a reactor, the bytes the loop has taken over are
  the bytes handed to sockets followed by the bytes buffered, in order, and no more than 32 MB are
  buffered.\<close>

theorem ClientReactor_stream:
  assumes "client_reactor_step\<^sup>*\<^sup>* (ClientReactor_ctor True) r"
  shows "concat (map snd (cr_taken r)) = concat (map snd (cr_wire r)) @ sb_contents (cc_send_buffer (cr_connection r)) \<and>
    sb_Size (cc_send_buffer (cr_connection r)) \<le> MAX_CAPACITY"
  using cr_reachable_inv [OF assms] by (auto simp: cr_inv_def sb_invar_def sb_Size_def)

theorem ClientReactor_stream_witness:
  "\<exists>r :: nat ClientReactor. concat (map snd (cr_taken r)) = concat (map snd (cr_wire r)) @ [1, 2]"
proof -
  from cr_demo obtain r :: "nat ClientReactor" where r: "client_reactor_step\<^sup>*\<^sup>* (ClientReactor_ctor True) r"
    "cr_buffered r = [1, 2]" by auto
  from ClientReactor_stream [OF r(1)] r(2) show ?thesis by auto
qed



text \<open>a connection inherits the bytes of the one before. \<open>RemoveConnection\<close> keeps the send buffer and the
  write flag: when a connection is removed with bytes still buffered and another one is set, the first
  bytes sent on the new connection are those of the old one; and when the flag was set, what a partial
  send leaves is buffered with no write filter on the new descriptor.\<close>

theorem ClientReactor_stale_bytes:
  assumes "client_reactor_step\<^sup>*\<^sup>* (ClientReactor_ctor True) r" and "cr_has_connection r"
    and "SetConnection env2 fd peer (cr_RemoveConnection env1 r) = (True, r2)"
    and "fd \<notin> set (iom_writes (cr_io_monitor r))"
    and "e_send env3 (length xs) = Sent n" and "0 < n" and "n < length xs"
    and "sb_contents (cc_send_buffer (cr_connection r)) = xs"
  shows "cr_number r2 = cr_number r + 1 \<and>
    (let r3 = cr_TrySendDirect env3 r2 in
       cr_wire r3 = cr_wire r @ [(cr_number r2, take n xs)] \<and>
       sb_contents (cc_send_buffer (cr_connection r3)) = drop n xs \<and>
       (cc_write_pending (cr_connection r) \<longrightarrow> fd \<notin> set (iom_writes (cr_io_monitor r3))))"
proof -
  define r1 where "r1 = cr_RemoveConnection env1 r"
  let ?b = "cc_send_buffer (cr_connection r)"
  have r1: "\<not> cr_has_connection r1" "cr_connection r1 = (cr_connection r)\<lparr>cc_file_descriptor := -1\<rparr>"
    "cr_number r1 = cr_number r" "cr_wire r1 = cr_wire r" "fd \<notin> set (iom_writes (cr_io_monitor r1))"
    using assms(2,4)
    by (auto simp: r1_def cr_RemoveConnection_def cr_close_def dispatch_defs StopMonitor_def forget_fd_def)
  have r2: "cr_has_connection r2" "cc_send_buffer (cr_connection r2) = ?b" "cr_number r2 = cr_number r + 1"
    "cr_wire r2 = cr_wire r" "cc_write_pending (cr_connection r2) = cc_write_pending (cr_connection r)"
    "cc_file_descriptor (cr_connection r2) = fd" "0 \<le> fd" "fd \<notin> set (iom_writes (cr_io_monitor r2))"
    using assms(3) r1 unfolding r1_def [symmetric]
    by (auto simp: SetConnection_def cc_UpdateActivity_def dispatch_defs StartReadMonitor_def split: if_splits)
  have inv: "sb_invar ?b" using cr_reachable_inv [OF assms(1)] by (simp add: cr_inv_def)
  then have sz: "sb_Size ?b = length xs" using length_sb_contents [of ?b] assms(8) by simp
  obtain sent out b where s: "SendToSocket fd (Sent n) ?b = (sent, out, b)" by (metis surj_pair)
  have "xs \<noteq> []" using assms(7) by auto
  then have "sent = int n" using s assms(6) r2(7) sz by (auto simp: SendToSocket_def Let_def)
  moreover have f: "sb_invar b" "xs = out @ sb_contents b" "sent = -1 \<or> sent = int (length out)"
    using SendToSocket_facts [OF inv _ s] assms(7,8) sz by auto
  ultimately have len: "length out = n" "0 < sent" using assms(6) by auto
  then have out: "out = take n xs" "sb_contents b = drop n xs" using f(2) by auto
  then have "\<not> sb_IsEmpty b"
    using assms(7) length_sb_contents [OF f(1)] by (auto simp: sb_IsEmpty_def sb_Size_def)
  with r2 s sz assms(5) len out show ?thesis
    by (simp add: cr_TrySendDirect_def cc_UpdateActivity_def Let_def)
qed

theorem ClientReactor_stale_bytes_witness:
  "\<exists>(r :: nat ClientReactor) r2. SetConnection quiet_env 8 0 (cr_RemoveConnection quiet_env r) = (True, r2) \<and>
     cr_wire (cr_TrySendDirect (quiet_env\<lparr>e_send := (\<lambda>_. Sent 1)\<rparr>) r2) = cr_wire r @ [(cr_number r + 1, [1])]"
proof -
  from cr_demo obtain r :: "nat ClientReactor" where r: "client_reactor_step\<^sup>*\<^sup>* (ClientReactor_ctor True) r"
    "cr_has_connection r" "cr_is_running r" "cr_buffered r = [1, 2]" "cr_io_monitor r = \<lparr> iom_open = True,
       iom_reads = [7], iom_writes = [7], iom_users = [2] \<rparr>" by blast
  define r1 where "r1 = cr_RemoveConnection quiet_env r"
  have "cr_is_running r1" "iom_open (cr_io_monitor r1)" "\<not> cr_has_connection r1" "e_kevent quiet_env"
    using r(2,3,5) by (simp_all add: r1_def cr_RemoveConnection_def cr_close_def dispatch_defs StopMonitor_def
        forget_fd_def quiet_env_def)
  then have "fst (SetConnection quiet_env 8 0 r1)" by (simp add: SetConnection_def StartReadMonitor_def Let_def case_prod_beta)
  then obtain r2 where r2: "SetConnection quiet_env 8 0 (cr_RemoveConnection quiet_env r) = (True, r2)"
    unfolding r1_def by (metis (full_types) prod.collapse)
  have "cr_number r2 = cr_number r + 1 \<and>
    cr_wire (cr_TrySendDirect (quiet_env\<lparr>e_send := (\<lambda>_. Sent 1)\<rparr>) r2) = cr_wire r @ [(cr_number r2, take 1 [1, 2])]"
    using ClientReactor_stale_bytes [OF r(1,2) r2, of "quiet_env\<lparr>e_send := (\<lambda>_. Sent 1)\<rparr>" "[1, 2]" 1] r(4,5)
    unfolding Let_def by simp
  with r2 show ?thesis by (intro exI [of _ r] exI [of _ r2]) simp
qed

end
