(* ===== verification/SocketHelper.thy ===== *)
theory SocketHelper
  imports Events SystemCalls
begin

text \<open>
  The class \<open>SocketHelper\<close> of \<^verbatim>\<open>src/darwincore/network/socket_helper.cpp\<close>. A socket address is the byte image of
  \<open>sockaddr_storage\<close> on Darwin: the family is byte 1, the port bytes 2 and 3 in network order, an IPv4 address bytes
  4 to 7, an IPv6 address bytes 8 to 23, a Unix domain path the 104 bytes from byte 2. An argument of type
  \<open>bytes option\<close> is a pointer, None the null pointer. The answers of the system calls and the functions \<open>inet_pton\<close> and
  \<open>inet_ntop\<close> are arguments.
\<close>

section \<open>C strings and addresses in memory\<close>

definition c_str :: "string \<Rightarrow> string" where
  "c_str s = takeWhile (\<lambda>x. x \<noteq> CHR 0x00) s"

definition AF_UNIX :: u8 where "AF_UNIX = 1"
definition AF_INET :: u8 where "AF_INET = 2"
definition AF_INET6 :: u8 where "AF_INET6 = 30"

text \<open>The two bytes that storing \<open>htons(port)\<close> writes, and \<open>ntohs\<close> of the value read back from them.\<close>

definition htons_image :: "u16 \<Rightarrow> bytes" where
  "htons_image port = rev (to_le 2 port)"

definition ntohs_image :: "bytes \<Rightarrow> u16" where
  "ntohs_image bs = from_le (rev bs)"

text \<open>\<open>strncpy(dst, s.c_str(), n)\<close> writes exactly n bytes: the string cut at n and zeros behind it.\<close>

definition strncpy_image :: "nat \<Rightarrow> string \<Rightarrow> bytes" where
  "strncpy_image n s = take n (map of_char (c_str s) @ replicate n 0)"

definition string_at :: "bytes \<Rightarrow> string" where
  "string_at bs = map (\<lambda>b. char_of (unat b)) (takeWhile (\<lambda>b. b \<noteq> 0) bs)"

section \<open>Sockets\<close>

fun CreateSocket :: "(u8 \<Rightarrow> int) \<Rightarrow> SocketProtocol \<Rightarrow> int" where
  "CreateSocket socket kIPv4 = socket AF_INET"
| "CreateSocket socket kIPv6 = socket AF_INET6"
| "CreateSocket socket kUniversalIP = socket AF_INET6"
| "CreateSocket socket kUnixDomain = socket AF_UNIX"

definition O_NONBLOCK :: int where "O_NONBLOCK = 4"

text \<open>The result, and the flags passed to \<open>F_SETFL\<close> when that call is made.\<close>

definition SetNonBlocking :: "int \<Rightarrow> (int \<Rightarrow> int) \<Rightarrow> bool \<times> int option" where
  "SetNonBlocking getfl setfl =
     (let flags = getfl
      in if flags < 0 then (False, None)
         else let ret = setfl (flags OR O_NONBLOCK)
         in if ret < 0 then (False, Some (flags OR O_NONBLOCK)) else (True, Some (flags OR O_NONBLOCK)))"

definition SetSocketOption :: "int \<Rightarrow> bool" where
  "SetSocketOption ret \<longleftrightarrow> 0 \<le> ret"

section \<open>Addresses\<close>

definition ResolveAddress :: "(u8 \<Rightarrow> string \<Rightarrow> bytes option) \<Rightarrow> string \<Rightarrow> u16 \<Rightarrow> SocketProtocol \<Rightarrow> bytes option \<Rightarrow> bool \<times> bytes option" where
  "ResolveAddress inet_pton host port protocol addr =
     (case addr of None \<Rightarrow> (False, None)
      | Some _ \<Rightarrow>
        (let addr = replicate 128 0
         in if protocol = kUnixDomain then
              (True, Some (blit (addr[1 := AF_UNIX]) 2 (strncpy_image (104 - 1) host)))
            else if protocol = kIPv4 then
              (let addr = blit (addr[1 := AF_INET]) 2 (htons_image port)
               in case inet_pton AF_INET (c_str host) of None \<Rightarrow> (False, Some addr) | Some b \<Rightarrow> (True, Some (blit addr 4 b)))
            else if protocol = kIPv6 then
              (let addr = blit (addr[1 := AF_INET6]) 2 (htons_image port)
               in case inet_pton AF_INET6 (c_str host) of None \<Rightarrow> (False, Some addr) | Some b \<Rightarrow> (True, Some (blit addr 8 b)))
            else (False, Some addr)))"

text \<open>The text, and the variable \<open>port\<close> points to, when it is not null. An \<open>inet_ntop\<close> that fails leaves the buffer empty.\<close>

definition AddressToString :: "(u8 \<Rightarrow> bytes \<Rightarrow> string option) \<Rightarrow> bytes \<Rightarrow> u16 option \<Rightarrow> string \<times> u16 option" where
  "AddressToString inet_ntop addr port =
     (let text_of = (\<lambda>r. case r of None \<Rightarrow> [] | Some s \<Rightarrow> c_str s);
          port_read = map_option (\<lambda>_. ntohs_image (take 2 (drop 2 addr))) port
      in if addr ! 1 = AF_INET then (text_of (inet_ntop AF_INET (take 4 (drop 4 addr))), port_read)
         else if addr ! 1 = AF_INET6 then (text_of (inet_ntop AF_INET6 (take 16 (drop 8 addr))), port_read)
         else if addr ! 1 = AF_UNIX then (string_at (drop 2 addr), port)
         else (''unknown'', port))"

definition GetAddressFamily :: "bytes \<Rightarrow> u8" where
  "GetAddressFamily addr = addr ! 1"

definition IsIPv4MappedIPv6 :: "bytes \<Rightarrow> bool" where
  "IsIPv4MappedIPv6 addr \<longleftrightarrow>
     (if addr ! 1 \<noteq> AF_INET6 then False
      else let s6 = take 16 (drop 8 addr)
      in s6 ! 0 = 0 \<and> s6 ! 1 = 0 \<and> s6 ! 2 = 0 \<and> s6 ! 3 = 0 \<and> s6 ! 4 = 0 \<and> s6 ! 5 = 0 \<and>
         s6 ! 6 = 0 \<and> s6 ! 7 = 0 \<and> s6 ! 8 = 0 \<and> s6 ! 9 = 0 \<and> s6 ! 10 = 0xff \<and> s6 ! 11 = 0xff)"

section \<open>Unix domain sockets and errors\<close>

definition SetUnixDomainAddress :: "string \<Rightarrow> bytes option \<Rightarrow> bool \<times> bytes option" where
  "SetUnixDomainAddress path addr =
     (case addr of None \<Rightarrow> (False, None)
      | Some _ \<Rightarrow>
        (let addr = (replicate 106 0)[1 := AF_UNIX]
         in if 104 \<le> length path then (False, Some addr)
            else (True, Some (blit addr 2 (strncpy_image (104 - 1) path)))))"

datatype file_kind = SocketFile | OtherFile

definition UnlinkUnixDomainSocket :: "bool \<Rightarrow> string \<Rightarrow> (string \<rightharpoonup> file_kind) \<Rightarrow> string \<rightharpoonup> file_kind" where
  "UnlinkUnixDomainSocket unlink_ok path fs =
     (case fs (c_str path) of
        Some kind \<Rightarrow> (if kind = SocketFile then (if unlink_ok then fs(c_str path := None) else fs) else fs)
      | None \<Rightarrow> fs)"

definition IsRetryError :: "errno \<Rightarrow> bool" where
  "IsRetryError err \<longleftrightarrow> err = EAGAIN \<or> err = EWOULDBLOCK"

section \<open>Images in memory\<close>

lemma length_htons_image [simp, size_simps]: "length (htons_image port) = 2"
  by (simp add: htons_image_def)

lemma ntohs_htons [simp]: "ntohs_image (htons_image port) = port"
  by (simp add: ntohs_image_def htons_image_def)

lemma length_strncpy_image [simp, size_simps]: "length (strncpy_image n s) = n"
  by (simp add: strncpy_image_def)

lemma nth_blit_before: "i < pos \<Longrightarrow> pos \<le> length buf \<Longrightarrow> blit buf pos ys ! i = buf ! i"
  by (simp add: blit_def nth_append)

text \<open>A field written before another one that lies behind it is read back unchanged.\<close>

lemma window_blit_before: "p + n \<le> pos \<Longrightarrow> pos \<le> length buf \<Longrightarrow> take n (drop p (blit buf pos ys)) = take n (drop p buf)"
  by (simp add: blit_def drop_take)

lemma unat_of_char_byte: "unat (of_char c :: u8) = of_char c"
proof -
  have "unat (word_of_nat (of_char c) :: u8) = of_char c"
    by (rule unat_word_of_nat) (use nat_of_char_less_256 [of c] in simp)
  then show ?thesis by (simp only: of_nat_of_char)
qed

lemma of_char_byte_zero: "(of_char c :: u8) = 0 \<longleftrightarrow> c = CHR 0x00"
proof
  assume "(of_char c :: u8) = 0"
  then have "(of_char c :: nat) = of_char CHR 0x00" by (simp flip: unat_of_char_byte)
  then show "c = CHR 0x00" by (simp only: of_char_eq_iff)
qed simp

lemma c_str_no_nul: "x \<in> set (c_str s) \<Longrightarrow> x \<noteq> CHR 0x00"
  by (auto simp: c_str_def dest: set_takeWhileD)

lemma c_str_idem [simp]: "c_str (c_str s) = c_str s"
  unfolding c_str_def by (simp only: takeWhile_idem)

lemma string_at_strncpy: "string_at (strncpy_image n s @ 0 # rest) = take n (c_str s)"
proof -
  have nz: "\<forall>b\<in>set (map of_char (take n (c_str s)) :: bytes). b \<noteq> 0"
    using c_str_no_nul [of _ s] by (auto simp: of_char_byte_zero dest: in_set_takeD)
  have "strncpy_image n s = map of_char (take n (c_str s)) @ replicate (n - length (c_str s)) 0"
    by (simp add: strncpy_image_def take_map)
  moreover have "takeWhile (\<lambda>b. b \<noteq> 0) (replicate k 0 @ 0 # rest) = []" for k by (cases k) simp_all
  moreover have "takeWhile (\<lambda>b. b \<noteq> 0) (map of_char (take n (c_str s)) @ ys) =
      map of_char (take n (c_str s)) @ takeWhile (\<lambda>b. b \<noteq> 0) ys" for ys :: bytes
    by (rule takeWhile_append2) (use nz in blast)
  ultimately have "takeWhile (\<lambda>b. b \<noteq> 0) (strncpy_image n s @ 0 # rest) = map of_char (take n (c_str s))" by simp
  then show ?thesis by (simp add: string_at_def unat_of_char_byte o_def)
qed

text \<open>The head of an address: the length byte that no operation writes, the family, and the rest from byte 2.\<close>

lemma zeroed_head: "replicate (Suc (Suc n)) 0 = 0 # 0 # replicate n 0"
  by simp

lemma address_image:
  assumes "length ys \<le> n"
  shows "blit ((replicate (Suc (Suc n)) 0)[1 := f]) 2 ys = 0 # f # ys @ replicate (n - length ys) 0"
  using assms by (simp add: zeroed_head blit_def del: replicate_Suc)

lemma storage_image:
  "length ys \<le> 126 \<Longrightarrow> blit ((replicate 128 0)[Suc 0 := f]) 2 ys = 0 # f # ys @ replicate (126 - length ys) 0"
  using address_image [of ys 126 f] by simp

lemma blit_at: "pos = length xs \<Longrightarrow> blit (xs @ ys) pos zs = xs @ zs @ drop (length zs) ys"
  by (simp add: blit_def)

text \<open>What \<open>ResolveAddress\<close> and \<open>SetUnixDomainAddress\<close> leave in memory when they succeed.\<close>

lemma resolve_unix_image:
  "ResolveAddress pton path port kUnixDomain (Some a0) = (True, Some (0 # AF_UNIX # strncpy_image 103 path @ replicate 23 0))"
  by (simp add: ResolveAddress_def storage_image)

lemma set_unix_image:
  "length path < 104 \<Longrightarrow> SetUnixDomainAddress path (Some a0) = (True, Some (0 # AF_UNIX # strncpy_image 103 path @ [0]))"
  using address_image [of "strncpy_image 103 path" 104 AF_UNIX] by (simp add: SetUnixDomainAddress_def)

lemma resolve_ipv4_image:
  assumes "pton AF_INET (c_str host) = Some b" "length b = 4"
  shows "ResolveAddress pton host port kIPv4 (Some a0) = (True, Some (0 # AF_INET # htons_image port @ b @ replicate 120 0))"
  using assms blit_at [of 4 "0 # AF_INET # htons_image port" "replicate 124 0" b]
  by (simp add: ResolveAddress_def storage_image)

lemma resolve_ipv6_image:
  assumes "pton AF_INET6 (c_str host) = Some b" "length b = 16"
  shows "ResolveAddress pton host port kIPv6 (Some a0) =
    (True, Some (0 # AF_INET6 # htons_image port @ replicate 4 0 @ b @ replicate 104 0))"
  using assms blit_at [of 8 "0 # AF_INET6 # htons_image port @ replicate 4 0" "replicate 120 0" b]
  by (simp add: ResolveAddress_def storage_image flip: replicate_add)

lemma family_distinct [simp]: "AF_INET \<noteq> AF_INET6" "AF_INET6 \<noteq> AF_INET" "AF_UNIX \<noteq> AF_INET" "AF_UNIX \<noteq> AF_INET6"
  by (simp_all add: AF_INET_def AF_INET6_def AF_UNIX_def)

lemma mapped_prefix:
  assumes "length b = 16"
  shows "take 12 b = replicate 10 0 @ [0xff, 0xff] \<longleftrightarrow>
    b ! 0 = 0 \<and> b ! 1 = 0 \<and> b ! 2 = 0 \<and> b ! 3 = 0 \<and> b ! 4 = 0 \<and> b ! 5 = 0 \<and> b ! 6 = 0 \<and> b ! 7 = 0 \<and>
    b ! 8 = 0 \<and> b ! 9 = 0 \<and> b ! 10 = 0xff \<and> b ! 11 = (0xff :: u8)"
proof -
  from assms obtain b0 b1 b2 b3 b4 b5 b6 b7 b8 b9 b10 b11 rest where
    b: "b = [b0, b1, b2, b3, b4, b5, b6, b7, b8, b9, b10, b11] @ rest"
    by (auto simp: numeral_eq_Suc length_Suc_conv)
  show ?thesis by (simp add: b numeral_eq_Suc)
qed

lemma address_ipv6_image:
  assumes "length b = 16"
  shows "take 16 (drop 8 (0 # f # htons_image port @ replicate 4 0 @ b @ rest)) = b"
  using assms by (simp add: drop_Cons')

section \<open>Properties\<close>

text \<open>
  C37: an address that \<open>inet_pton\<close> accepts resolves, and \<open>AddressToString\<close> of the result is what \<open>inet_ntop\<close> prints for
  the same bytes, with the port that was given; the family is the one asked for, and the IPv4-mapped test
  holds exactly for an IPv6 address that starts with ten zero bytes and two bytes 0xff.
\<close>

theorem SocketHelper_address_roundtrip:
  assumes "protocol = kIPv4 \<and> f = AF_INET \<and> length b = 4 \<or> protocol = kIPv6 \<and> f = AF_INET6 \<and> length b = 16"
    and "pton f (c_str host) = Some b" and "ntop f b = Some shown"
  shows "\<exists>a. ResolveAddress pton host port protocol (Some a0) = (True, Some a) \<and> length a = 128 \<and>
    AddressToString ntop a (Some p0) = (c_str shown, Some port) \<and> GetAddressFamily a = f \<and>
    (IsIPv4MappedIPv6 a \<longleftrightarrow> protocol = kIPv6 \<and> take 12 b = replicate 10 0 @ [0xff, 0xff])"
  using assms(1)
proof
  assume four: "protocol = kIPv4 \<and> f = AF_INET \<and> length b = 4"
  with assms resolve_ipv4_image [of pton host b port a0] show ?thesis
    by (simp add: AddressToString_def GetAddressFamily_def IsIPv4MappedIPv6_def drop_Cons' Let_def)
next
  assume six: "protocol = kIPv6 \<and> f = AF_INET6 \<and> length b = 16"
  let ?a = "0 # AF_INET6 # htons_image port @ replicate 4 0 @ b @ replicate 104 0"
  have "take 16 (drop 8 ?a) = b" by (rule address_ipv6_image) (simp add: six)
  moreover have "take 2 (drop 2 ?a) = htons_image port" by (simp add: drop_Cons')
  ultimately have "AddressToString ntop ?a (Some p0) = (c_str shown, Some port)"
    "IsIPv4MappedIPv6 ?a \<longleftrightarrow> take 12 b = replicate 10 0 @ [0xff, 0xff]"
    using six assms mapped_prefix [of b] by (simp_all add: AddressToString_def IsIPv4MappedIPv6_def Let_def)
  with six assms resolve_ipv6_image [of pton host b port a0] show ?thesis by (simp add: GetAddressFamily_def)
qed

theorem SocketHelper_address_roundtrip_witness:
  "\<exists>a. ResolveAddress (\<lambda>f s. if s = ''10.0.0.1'' then Some [10, 0, 0, 1] else None) ''10.0.0.1'' 80 kIPv4 (Some []) = (True, Some a) \<and>
    AddressToString (\<lambda>f b. if b = [10, 0, 0, 1] then Some ''10.0.0.1'' else None) a (Some 0) = (''10.0.0.1'', Some 80)"
proof -
  have c: "c_str ''10.0.0.1'' = ''10.0.0.1''" by (simp add: c_str_def)
  show ?thesis
    using SocketHelper_address_roundtrip [of kIPv4 AF_INET "[10, 0, 0, 1]" "\<lambda>f s. if s = ''10.0.0.1'' then Some [10, 0, 0, 1] else None"
        "''10.0.0.1''" "\<lambda>f b. if b = [10, 0, 0, 1] then Some ''10.0.0.1'' else None" "''10.0.0.1''" 80 "[]" 0]
    by (auto simp: c)
qed



end
