(* ===== verification/Client.thy ===== *)
theory Client
  imports WorkerPool ClientReactor SocketHelper
begin

text \<open>
  The class \<open>Client\<close> of \<^verbatim>\<open>src/darwincore/network/client.cpp\<close>: it owns a worker pool of one thread and a client
  reactor, connects, sends, shuts down, and follows the connection through the events the pool delivers.
  The pool's queue is unbounded, so the events reach the client in the order the reactor dispatched them;
  how many of the current reactor's events have been delivered is kept as history, as are the calls of the
  user's callbacks and the descriptors the client itself has closed. Calls are taken as atomic.
  The conversion of hosts and paths to addresses is done by the C library and is an argument.
\<close>

section \<open>State\<close>

datatype ClientState = cl_kDisconnected | cl_kConnecting | cl_kConnected | cl_kClosing

datatype client_call =
    OnConnected ConnectionInformation
  | OnMessage bytes
  | OnDisconnected
  | OnError NetworkError string

record 'p Client =
  cl_worker_pool :: "WorkerPool option"
  cl_reactor :: "'p ClientReactor option"
  cl_connection_id :: u64
  cl_state :: ClientState
  cl_peer :: "'p option"
  cl_on_connected :: bool
  cl_on_message :: bool
  cl_on_disconnected :: bool
  cl_on_error :: bool
  cl_delivered :: nat
  cl_calls :: "client_call list"
  cl_closed :: "int list"

definition SEND_HIGH_WATER_MARK :: nat where "SEND_HIGH_WATER_MARK = 8 * 1024 * 1024"

definition Client_ctor :: "'p Client" where
  "Client_ctor = \<lparr> cl_worker_pool = None, cl_reactor = None, cl_connection_id = 0, cl_state = cl_kDisconnected,
     cl_peer = None, cl_on_connected = False, cl_on_message = False, cl_on_disconnected = False, cl_on_error = False,
     cl_delivered = 0, cl_calls = [], cl_closed = [] \<rparr>"

definition SetOnConnected :: "bool \<Rightarrow> 'p Client \<Rightarrow> 'p Client" where
  "SetOnConnected cb c = c\<lparr>cl_on_connected := cb\<rparr>"

definition cl_SetOnMessage :: "bool \<Rightarrow> 'p Client \<Rightarrow> 'p Client" where
  "cl_SetOnMessage cb c = c\<lparr>cl_on_message := cb\<rparr>"

definition SetOnDisconnected :: "bool \<Rightarrow> 'p Client \<Rightarrow> 'p Client" where
  "SetOnDisconnected cb c = c\<lparr>cl_on_disconnected := cb\<rparr>"

definition SetOnError :: "bool \<Rightarrow> 'p Client \<Rightarrow> 'p Client" where
  "SetOnError cb c = c\<lparr>cl_on_error := cb\<rparr>"

section \<open>Connecting\<close>

text \<open>
  What the system answers while a client connects: the address of a host and port (None: not an
  address), the address of a path, the new socket, the error of \<open>connect\<close> if it failed, whether the
  worker thread, the kqueue, its wake-up event and the loop thread could be made, and the environment
  in which the reactor takes the connection over.
\<close>

record 'p connect_answers =
  ca_pton :: "SocketProtocol \<Rightarrow> string \<Rightarrow> u16 \<Rightarrow> 'p option"
  ca_path :: "string \<Rightarrow> 'p"
  ca_socket :: int
  ca_connect :: "errno option"
  ca_spawn :: bool
  ca_kqueue :: bool
  ca_wakeup :: bool
  ca_thread :: bool
  ca_env :: "'p Env"

definition InitReactor :: "'p connect_answers \<Rightarrow> 'p Client \<Rightarrow> bool \<times> 'p Client" where
  "InitReactor ca c =
     (if cl_reactor c \<noteq> None then (True, c)
      else let (ok, pool) = wp_Start (ca_spawn ca) (WorkerPool_ctor 1 0); c = c\<lparr>cl_worker_pool := Some pool\<rparr>
      in if \<not> ok then (False, c)
      else let c = c\<lparr>cl_worker_pool := Some (wp_SetEventCallback True pool)\<rparr>;
               (ok, r) = cr_Start (ca_kqueue ca) (ca_wakeup ca) (ca_thread ca) (ClientReactor_ctor True)
      in (ok, c\<lparr>cl_reactor := Some r, cl_delivered := 0\<rparr>))"

text \<open>The socket options are set without looking at the result.\<close>

definition ConnectInternal :: "'p connect_answers \<Rightarrow> int \<Rightarrow> 'p \<Rightarrow> 'p Client \<Rightarrow> bool \<times> 'p Client" where
  "ConnectInternal ca fd addr c =
     (let was = cl_state c; c = c\<lparr>cl_state := cl_kConnecting\<rparr>;
          failed = (\<lambda>c. (False, c\<lparr>cl_closed := cl_closed c @ [fd], cl_state := cl_kDisconnected\<rparr>))
      in if was \<noteq> cl_kDisconnected then (False, c\<lparr>cl_closed := cl_closed c @ [fd]\<rparr>)
      else if ca_connect ca \<noteq> None \<and> ca_connect ca \<noteq> Some EINPROGRESS then failed c
      else let c = c\<lparr>cl_peer := Some addr\<rparr>; (ok, c) = InitReactor ca c
      in if \<not> ok then failed c
      else let (success, r) = SetConnection (ca_env ca) fd addr (the (cl_reactor c));
               c = c\<lparr>cl_reactor := Some r\<rparr>
      in if \<not> success then failed c else (True, c))"

definition connect_socket :: "'p connect_answers \<Rightarrow> 'p \<Rightarrow> 'p Client \<Rightarrow> bool \<times> 'p Client" where
  "connect_socket ca addr c = (if ca_socket ca \<ge> 0 then ConnectInternal ca (ca_socket ca) addr c else (False, c))"

definition ConnectIPv4 :: "'p connect_answers \<Rightarrow> string \<Rightarrow> u16 \<Rightarrow> 'p Client \<Rightarrow> bool \<times> 'p Client" where
  "ConnectIPv4 ca host port c =
     (case ca_pton ca kIPv4 (c_str host) port of None \<Rightarrow> (False, c) | Some addr \<Rightarrow> connect_socket ca addr c)"

definition ConnectIPv6 :: "'p connect_answers \<Rightarrow> string \<Rightarrow> u16 \<Rightarrow> 'p Client \<Rightarrow> bool \<times> 'p Client" where
  "ConnectIPv6 ca host port c =
     (case ca_pton ca kIPv6 (c_str host) port of None \<Rightarrow> (False, c) | Some addr \<Rightarrow> connect_socket ca addr c)"

text \<open>The field \<open>sun_path\<close> has 104 bytes, and \<open>strncpy\<close> copies at most 103.\<close>

definition ConnectUnixDomain :: "'p connect_answers \<Rightarrow> string \<Rightarrow> 'p Client \<Rightarrow> bool \<times> 'p Client" where
  "ConnectUnixDomain ca path c = connect_socket ca (ca_path ca (take 103 (c_str path))) c"

section \<open>Events\<close>

definition cl_OnNetworkEvent :: "NetworkEvent \<Rightarrow> 'p Client \<Rightarrow> 'p Client" where
  "cl_OnNetworkEvent ev c =
     (case ne_type ev of
        kConnected \<Rightarrow>
          (let c = c\<lparr>cl_state := cl_kConnected, cl_connection_id := ne_connection_id ev\<rparr>
           in case ne_connection_info ev of
                Some info \<Rightarrow> if cl_on_connected c then c\<lparr>cl_calls := cl_calls c @ [OnConnected info]\<rparr> else c
              | None \<Rightarrow> c)
      | kData \<Rightarrow> if cl_on_message c then c\<lparr>cl_calls := cl_calls c @ [OnMessage (ne_payload ev)]\<rparr> else c
      | _ \<Rightarrow>
          (let c = c\<lparr>cl_state := cl_kDisconnected, cl_connection_id := 0\<rparr>;
               c = (case ne_error ev of
                      Some e \<Rightarrow> if ne_type ev = kError \<and> cl_on_error c
                                then c\<lparr>cl_calls := cl_calls c @ [OnError e (ne_error_message ev)]\<rparr> else c
                    | None \<Rightarrow> c)
           in if cl_on_disconnected c then c\<lparr>cl_calls := cl_calls c @ [OnDisconnected]\<rparr> else c))"

text \<open>The worker delivers the next event of the reactor.\<close>

definition cl_deliver :: "'p Client \<Rightarrow> 'p Client" where
  "cl_deliver c =
     (case cl_reactor c of
        None \<Rightarrow> c
      | Some r \<Rightarrow>
          if cl_delivered c < length (cr_log r)
          then (cl_OnNetworkEvent (cr_log r ! cl_delivered c) c)\<lparr>cl_delivered := cl_delivered c + 1\<rparr>
          else c)"

section \<open>Shutting down\<close>

text \<open>
  \<open>Cleanup\<close> stops the reactor, whose loop may still finish its last round (\<open>final_round\<close>), then the pool, whose
  worker still delivers the events left in its queue (\<open>delivered\<close>), and drops both.
\<close>

definition Cleanup :: "('p ClientReactor \<Rightarrow> 'p ClientReactor) \<Rightarrow> NetworkEvent list \<Rightarrow> 'p Client \<Rightarrow> 'p Client" where
  "Cleanup final_round delivered c =
     (let c = (case cl_reactor c of
                 None \<Rightarrow> c
               | Some r \<Rightarrow>
                   let r = (if cr_is_running r then cr_Stop_finish (final_round (cr_Stop_request r)) else r)
                   in c\<lparr>cl_reactor := None, cl_closed := cl_closed c @ cr_closed r\<rparr>);
          c = (case cl_worker_pool c of
                 None \<Rightarrow> c
               | Some p \<Rightarrow> (fold cl_OnNetworkEvent delivered c)\<lparr>cl_worker_pool := None\<rparr>)
      in c\<lparr>cl_connection_id := 0, cl_delivered := 0\<rparr>)"

text \<open>The exchange at the start of \<open>GracefulShutdown\<close> and \<open>Disconnect\<close>: whether the call goes on.\<close>

definition begin_close :: "'p Client \<Rightarrow> bool \<times> 'p Client" where
  "begin_close c =
     (case cl_state c of
        cl_kConnected \<Rightarrow> (True, c\<lparr>cl_state := cl_kClosing\<rparr>)
      | cl_kConnecting \<Rightarrow> (True, c)
      | _ \<Rightarrow> (False, c))"

definition Disconnect :: "('p ClientReactor \<Rightarrow> 'p ClientReactor) \<Rightarrow> NetworkEvent list \<Rightarrow> 'p Client \<Rightarrow> 'p Client" where
  "Disconnect final_round delivered c =
     (let (ok, c) = begin_close c
      in if \<not> ok then c else (Cleanup final_round delivered c)\<lparr>cl_state := cl_kDisconnected\<rparr>)"

text \<open>
  The loop of \<open>GracefulShutdown\<close>, one element of the list per pass: the time elapsed when the pass looks
  at the clock, and what the other threads do while it sleeps. \<open>Inl\<close>: the call returns false, the wait
  has timed out. \<open>Inr\<close>: the loop is left. None: the loop is still waiting after these passes.
\<close>

fun shutdown_loop :: "int \<Rightarrow> (int \<times> ('p Client \<Rightarrow> 'p Client)) list \<Rightarrow> 'p Client \<Rightarrow> ('p Client + 'p Client) option" where
  "shutdown_loop timeout_ms passes c =
     (case cl_reactor c of
        None \<Rightarrow> Some (Inr c)
      | Some r \<Rightarrow>
          if cr_GetSendBufferSize r = 0 then Some (Inr c)
          else (case passes of
                  [] \<Rightarrow> None
                | (elapsed, meanwhile) # passes \<Rightarrow>
                    if timeout_ms > 0 \<and> elapsed \<ge> timeout_ms then Some (Inl c)
                    else shutdown_loop timeout_ms passes (meanwhile c)))"

declare shutdown_loop.simps [simp del]

definition GracefulShutdown ::
    "int \<Rightarrow> (int \<times> ('p Client \<Rightarrow> 'p Client)) list \<Rightarrow> ('p ClientReactor \<Rightarrow> 'p ClientReactor) \<Rightarrow> NetworkEvent list \<Rightarrow>
     'p Client \<Rightarrow> (bool \<times> 'p Client) option" where
  "GracefulShutdown timeout_ms passes final_round delivered c =
     (let (ok, c) = begin_close c
      in if \<not> ok then Some (False, c)
      else case shutdown_loop timeout_ms passes c of
          None \<Rightarrow> None
        | Some (Inl c) \<Rightarrow> Some (False, c)
        | Some (Inr c) \<Rightarrow> Some (True, (Cleanup final_round delivered c)\<lparr>cl_state := cl_kDisconnected\<rparr>))"

section \<open>Sending and queries\<close>

text \<open>\<open>SendData\<close> up to its wait; None: the call waits for room in the reactor's queue.\<close>

definition cl_SendData_submit :: "bytes \<Rightarrow> nat \<Rightarrow> 'p Client \<Rightarrow> (bool \<times> 'p Client) option" where
  "cl_SendData_submit data promise c =
     (case cl_reactor c of
        None \<Rightarrow> Some (False, c)
      | Some r \<Rightarrow>
          if cl_state c \<noteq> cl_kConnected then Some (False, c)
          else map_option (\<lambda>(ok, r). (ok, c\<lparr>cl_reactor := Some r\<rparr>)) (SendSync_submit data promise r))"

definition cl_SendData_wait :: "nat \<Rightarrow> int \<Rightarrow> int \<Rightarrow> 'p Client \<Rightarrow> bool option" where
  "cl_SendData_wait promise timeout_ms elapsed c =
     (case cl_reactor c of None \<Rightarrow> None | Some r \<Rightarrow> SendSync_wait promise timeout_ms elapsed r)"

text \<open>The client always passes a callback of its own, which does nothing when the user gave none.\<close>

definition cl_SendAsync :: "bytes \<Rightarrow> nat \<Rightarrow> 'p Client \<Rightarrow> (bool \<times> 'p Client) option" where
  "cl_SendAsync data callback c =
     (case cl_reactor c of
        None \<Rightarrow> Some (False, c)
      | Some r \<Rightarrow>
          if cl_state c \<noteq> cl_kConnected then Some (False, c)
          else if cr_GetSendBufferSize r > SEND_HIGH_WATER_MARK then Some (False, c)
          else map_option (\<lambda>(ok, r). (ok, c\<lparr>cl_reactor := Some r\<rparr>)) (SendAsyncWithCallback data (Some callback) r))"

definition cl_GetSendBufferSize :: "'p Client \<Rightarrow> nat" where
  "cl_GetSendBufferSize c =
     (case cl_reactor c of
        None \<Rightarrow> 0
      | Some r \<Rightarrow> if cl_state c \<noteq> cl_kConnected then 0 else cr_GetSendBufferSize r)"

definition cl_IsConnected :: "'p Client \<Rightarrow> bool" where
  "cl_IsConnected c \<longleftrightarrow> cl_state c = cl_kConnected"

section \<open>What the loop does to the log\<close>

text \<open>The loop adds events to the log, but never \<open>kConnected\<close>, and neither stops the reactor nor its queue.\<close>

definition no_connect :: "NetworkEvent list \<Rightarrow> bool" where
  "no_connect es \<longleftrightarrow> (\<forall>e \<in> set es. ne_type e \<noteq> kConnected)"

lemma no_connect_simps [simp]:
  "no_connect []" "no_connect (e # es) \<longleftrightarrow> ne_type e \<noteq> kConnected \<and> no_connect es"
  "no_connect (xs @ ys) \<longleftrightarrow> no_connect xs \<and> no_connect ys"
  by (auto simp: no_connect_def)

definition cr_takes :: "'p ClientReactor \<Rightarrow> bool" where
  "cr_takes r \<longleftrightarrow> \<not> cq_is_stopped (cr_send_operations r) \<and> cq_max_size (cr_send_operations r) = 0"

definition cr_ext :: "'p ClientReactor \<Rightarrow> 'p ClientReactor \<Rightarrow> bool" where
  "cr_ext r r' \<longleftrightarrow> cr_is_running r' = cr_is_running r \<and> cr_takes r' = cr_takes r \<and>
     (\<exists>es. cr_log r' = cr_log r @ es \<and> no_connect es)"

lemma cr_ext_refl [simp]: "cr_ext r r"
  by (simp add: cr_ext_def)

lemma cr_ext_trans: "cr_ext r r1 \<Longrightarrow> cr_ext r1 r2 \<Longrightarrow> cr_ext r r2"
  by (auto simp: cr_ext_def)

lemma cr_ext_frame [simp]:
  "cr_ext (r\<lparr>cr_connection := a\<rparr>) r' = cr_ext r r'" "cr_ext (r\<lparr>cr_wire := w\<rparr>) r' = cr_ext r r'"
  "cr_ext (r\<lparr>cr_taken := w\<rparr>) r' = cr_ext r r'" "cr_ext (r\<lparr>cr_total_bytes_sent := n\<rparr>) r' = cr_ext r r'"
  "cr_ext (r\<lparr>cr_io_monitor := mon\<rparr>) r' = cr_ext r r'" "cr_ext (r\<lparr>cr_total_bytes_received := n\<rparr>) r' = cr_ext r r'"
  "cr_ext r0 (r\<lparr>cr_connection := a\<rparr>) = cr_ext r0 r" "cr_ext r0 (r\<lparr>cr_wire := w\<rparr>) = cr_ext r0 r"
  "cr_ext r0 (r\<lparr>cr_total_bytes_sent := n\<rparr>) = cr_ext r0 r" "cr_ext r0 (r\<lparr>cr_io_monitor := mon\<rparr>) = cr_ext r0 r"
  "cr_ext r0 (r\<lparr>cr_callbacks := cs\<rparr>) = cr_ext r0 r" "cr_ext r0 (r\<lparr>cr_promises := ps\<rparr>) = cr_ext r0 r"
  by (simp_all add: cr_ext_def cr_takes_def)

lemma cr_ext_RemoveConnection [simp]: "cr_ext r (cr_RemoveConnection env r)"
  by (simp add: cr_ext_def cr_takes_def cr_RemoveConnection_def cr_close_def dispatch_defs)

lemma cr_ext_TrySendDirect [simp]: "cr_ext r (cr_TrySendDirect env r)"
proof -
  have "cr_ext r (cr_RemoveConnection env (r\<lparr>cr_connection := a, cr_wire := w\<rparr>))" for a w
    by (rule cr_ext_RemoveConnection [of "r\<lparr>cr_connection := a, cr_wire := w\<rparr>" env, unfolded cr_ext_frame])
  then show ?thesis by (simp add: cr_TrySendDirect_def Let_def case_prod_beta)
qed

lemma cr_ext_DoSend:
  assumes "DoSend env data r = Some (ok, r')"
  shows "cr_ext r r'"
proof -
  have "cr_ext r (cr_TrySendDirect env (r\<lparr>cr_connection := a, cr_taken := w\<rparr>))" for a w
    by (rule cr_ext_TrySendDirect [of "r\<lparr>cr_connection := a, cr_taken := w\<rparr>" env, unfolded cr_ext_frame])
  with assms show ?thesis by (auto simp: DoSend_def Let_def split: if_splits option.splits bool.splits)
qed

lemma cr_ext_operation: "do_send_operation env op r = Some r' \<Longrightarrow> cr_ext r r'"
  by (auto simp: do_send_operation_def Let_def split: option.splits dest: cr_ext_DoSend)

lemma cr_ext_send_loop: "send_loop envs k n r = Some (n', r') \<Longrightarrow> cr_ext r r'"
proof (induction envs k n r rule: send_loop.induct)
  case (2 envs k n r)
  obtain x q where q: "TryDequeue (cr_send_operations r) = (x, q)" by fastforce
  then have "cr_ext r (r\<lparr>cr_send_operations := q\<rparr>)"
    by (auto simp: TryDequeue_def cr_ext_def cr_takes_def split: list.splits)
  then show ?case
    using "2.IH" "2.prems" q by (auto split: option.splits) (metis cr_ext_operation cr_ext_trans)
qed simp

lemma cr_ext_read_loop [simp]: "cr_ext r (cr_read_loop env rs r)"
proof (induction env rs r rule: cr_read_loop.induct)
  case (2 env data rs r)
  have "cr_ext r (cr_DispatchDataEvent data ((upd_conn (cc_UpdateActivity (e_now env)) r)
      \<lparr>cr_total_bytes_received := cr_total_bytes_received r + word_of_nat (length data)\<rparr>))"
    by (simp add: cr_ext_def cr_takes_def dispatch_defs)
  from cr_ext_trans [OF this] 2 show ?case by simp
qed simp_all

lemma cr_ext_events [simp]: "cr_ext r (cr_process_events evs r)"
proof (induction evs r rule: cr_process_events.induct)
  case (2 env ev evs r)
  have "cr_ext r (cr_ProcessKqueueEvent env ev r)"
    by (simp add: cr_ProcessKqueueEvent_def cr_HandleReadEvent_def cr_HandleWriteEvent_def)
  with 2 show ?case by (auto intro: cr_ext_trans)
qed simp

lemma cr_ext_round: "cr_RunEventLoop_round envs evs r = Some r' \<Longrightarrow> cr_ext r r'"
  by (auto simp: cr_RunEventLoop_round_def cr_ProcessPendingOperations_def split: option.splits
      dest!: cr_ext_send_loop) (meson cr_ext_trans cr_ext_events cr_ext_TrySendDirect)+

lemma submit_send_ext: "submit_send op r = Some (ok, r') \<Longrightarrow> cr_ext r r'"
  by (auto simp: submit_send_def Enqueue_def cr_ext_def cr_takes_def split: if_splits)

section \<open>Runs of a client\<close>

text \<open>
  The calls of the user, the rounds of the reactor and the deliveries of the worker. The user connects
  only a client that is disconnected. A call of \<open>GracefulShutdown\<close> is its first exchange, then, when a pass of its
  loop finds the buffer empty, the cleanup.
\<close>

inductive client_step :: "'p Client \<Rightarrow> 'p Client \<Rightarrow> bool" where
  cls_connect4: "cl_state c = cl_kDisconnected \<Longrightarrow> client_step c (snd (ConnectIPv4 ca host port c))"
| cls_connect6: "cl_state c = cl_kDisconnected \<Longrightarrow> client_step c (snd (ConnectIPv6 ca host port c))"
| cls_connect_unix: "cl_state c = cl_kDisconnected \<Longrightarrow> client_step c (snd (ConnectUnixDomain ca path c))"
| cls_send: "cl_SendData_submit data p c = Some (ok, c') \<Longrightarrow> client_step c c'"
| cls_async: "cl_SendAsync data f c = Some (ok, c') \<Longrightarrow> client_step c c'"
| cls_round: "cl_reactor c = Some r \<Longrightarrow> cr_is_running r \<Longrightarrow>
    \<forall>i. env_ok (envs i) \<Longrightarrow> \<forall>(env, ev) \<in> set evs. env_ok env \<Longrightarrow>
    cr_RunEventLoop_round envs evs r = Some r' \<Longrightarrow> client_step c (c\<lparr>cl_reactor := Some r'\<rparr>)"
| cls_deliver: "client_step c (cl_deliver c)"
| cls_disconnect: "client_step c (Disconnect final_round delivered c)"
| cls_begin: "client_step c (snd (begin_close c))"
| cls_shutdown: "shutdown_loop timeout_ms [] c = Some (Inr c) \<Longrightarrow>
    client_step c ((Cleanup final_round delivered c)\<lparr>cl_state := cl_kDisconnected\<rparr>)"
| cls_callbacks: "client_step c (c\<lparr>cl_on_connected := f1, cl_on_message := f2, cl_on_disconnected := f3, cl_on_error := f4\<rparr>)"

lemma shutdown_loop_steps:
  "\<forall>(elapsed, meanwhile) \<in> set passes. \<forall>c. client_step\<^sup>*\<^sup>* c (meanwhile c) \<Longrightarrow>
     shutdown_loop timeout_ms passes c = Some x \<Longrightarrow>
     client_step\<^sup>*\<^sup>* c (case x of Inl c' \<Rightarrow> c' | Inr c' \<Rightarrow> c') \<and>
     (\<forall>c'. x = Inr c' \<longrightarrow> shutdown_loop timeout_ms [] c' = Some (Inr c'))"
proof (induction passes arbitrary: c)
  case Nil
  then show ?case by (auto simp: shutdown_loop.simps split: option.splits if_splits)
next
  case (Cons p passes)
  obtain elapsed meanwhile where p: "p = (elapsed, meanwhile)" by fastforce
  have "client_step\<^sup>*\<^sup>* c (meanwhile c)" using Cons.prems(1) by (auto simp: p)
  moreover have "shutdown_loop timeout_ms passes (meanwhile c) = Some x \<Longrightarrow>
     client_step\<^sup>*\<^sup>* (meanwhile c) (case x of Inl c' \<Rightarrow> c' | Inr c' \<Rightarrow> c') \<and>
     (\<forall>c'. x = Inr c' \<longrightarrow> shutdown_loop timeout_ms [] c' = Some (Inr c'))"
    by (rule Cons.IH) (use Cons.prems(1) in auto)
  ultimately show ?case
    using Cons.prems(2)
    by (auto simp: p shutdown_loop.simps [of _ "_ # _"] shutdown_loop.simps [of _ "[]"]
        split: option.splits if_splits) (metis gr_implies_not0)+
qed

text \<open>A call of \<open>GracefulShutdown\<close> that returns is a run of these steps.\<close>

lemma GracefulShutdown_steps:
  assumes "\<forall>(elapsed, meanwhile) \<in> set passes. \<forall>c. client_step\<^sup>*\<^sup>* c (meanwhile c)"
    and "GracefulShutdown timeout_ms passes final_round delivered c = Some (ok, c')"
  shows "client_step\<^sup>*\<^sup>* c c'"
proof -
  obtain go c1 where b: "begin_close c = (go, c1)" by fastforce
  have c1: "client_step c c1" using cls_begin [of c] by (simp add: b)
  show ?thesis
  proof (cases go)
    case False
    with assms(2) b c1 show ?thesis by (auto simp: GracefulShutdown_def)
  next
    case True
    then obtain x where x: "shutdown_loop timeout_ms passes c1 = Some x"
      "c' = (case x of Inl c2 \<Rightarrow> c2 | Inr c2 \<Rightarrow> (Cleanup final_round delivered c2)\<lparr>cl_state := cl_kDisconnected\<rparr>)"
      using assms(2) b by (auto simp: GracefulShutdown_def split: option.splits sum.splits)
    note l = shutdown_loop_steps [OF assms(1) x(1)]
    show ?thesis
    proof (cases x)
      case (Inl c2)
      with c1 l x(2) show ?thesis by (auto intro: converse_rtranclp_into_rtranclp)
    next
      case (Inr c2)
      with l have "client_step\<^sup>*\<^sup>* c1 c2" "shutdown_loop timeout_ms [] c2 = Some (Inr c2)" by auto
      with c1 have "client_step\<^sup>*\<^sup>* c c2" "client_step c2 c'"
        using x(2) Inr by (auto intro: converse_rtranclp_into_rtranclp cls_shutdown)
      then show ?thesis by (rule rtranclp.rtrancl_into_rtrancl)
    qed
  qed
qed

text \<open>
  The state of a client against the events of its reactor: \<open>st\<close> is what the delivered events say of the
  connection, \<open>pending\<close> are the events not yet delivered.
\<close>

definition cl_follows :: "u64 option \<Rightarrow> NetworkEvent list \<Rightarrow> 'p Client \<Rightarrow> bool" where
  "cl_follows st pending c \<longleftrightarrow>
     (case st of
        None \<Rightarrow> cl_connection_id c = 0 \<and>
          (if pending = [] then cl_state c = cl_kDisconnected
           else cl_state c = cl_kConnecting \<and> no_connect (tl pending))
      | Some i \<Rightarrow> cl_connection_id c = i \<and> (cl_state c = cl_kConnected \<or> cl_state c = cl_kClosing) \<and> no_connect pending)"

definition cl_inv :: "'p Client \<Rightarrow> bool" where
  "cl_inv c \<longleftrightarrow>
     (case cl_reactor c of
        None \<Rightarrow> cl_state c = cl_kDisconnected \<and> cl_connection_id c = 0
      | Some r \<Rightarrow> cr_inv r \<and> cr_takes r \<and> (cr_log r \<noteq> [] \<longrightarrow> cr_is_running r) \<and>
          cl_delivered c \<le> length (cr_log r) \<and>
          (\<exists>st. client_life (take (cl_delivered c) (cr_log r)) None = Some st \<and>
             cl_follows st (drop (cl_delivered c) (cr_log r)) c))"

lemma client_life_no_connect: "client_life es None = Some x \<Longrightarrow> no_connect es \<Longrightarrow> es = [] \<and> x = None"
  by (cases es) (auto split: NetworkEventType.splits)

lemma client_life_pending:
  assumes "cr_inv r" and "client_life (take d (cr_log r)) None = Some st"
  shows "client_life (drop d (cr_log r)) st = Some (cr_current r)"
  using assms client_life_append [of "take d (cr_log r)" "drop d (cr_log r)" None] by (simp add: cr_inv_def)

lemma cl_inv_cong:
  assumes "cl_inv c" and "cl_reactor c' = cl_reactor c" and "cl_delivered c' = cl_delivered c"
    and "cl_state c' = cl_state c" and "cl_connection_id c' = cl_connection_id c"
  shows "cl_inv c'"
  using assms(1) unfolding cl_inv_def cl_follows_def assms(2-5) .

lemma cl_inv_ext:
  assumes "cl_inv c" and "cl_reactor c = Some r" and "cr_ext r r'" and "cr_inv r'"
    and "cr_is_running r \<or> cr_log r' = cr_log r"
  shows "cl_inv (c\<lparr>cl_reactor := Some r'\<rparr>)"
proof -
  let ?d = "cl_delivered c"
  obtain es where es: "cr_log r' = cr_log r @ es" "no_connect es" using assms(3) by (auto simp: cr_ext_def)
  obtain st where st: "cr_inv r" "client_life (take ?d (cr_log r)) None = Some st"
    "cl_follows st (drop ?d (cr_log r)) c" "?d \<le> length (cr_log r)"
    using assms(1,2) by (auto simp: cl_inv_def)
  have p: "drop ?d (cr_log r') = drop ?d (cr_log r) @ es" "take ?d (cr_log r') = take ?d (cr_log r)"
    using st(4) by (simp_all add: es(1))
  have "es = []" if "st = None" "drop ?d (cr_log r) = []"
    using client_life_pending [OF assms(4), of ?d st] st(2) p that es(2) client_life_no_connect by auto
  then have "cl_follows st (drop ?d (cr_log r')) c"
    using st(3) es(2) by (auto simp: p cl_follows_def split: option.splits if_splits)
  with assms st p es show ?thesis
    by (auto simp: cl_inv_def cr_ext_def cl_follows_def split: option.splits)
qed

lemma cl_inv_deliver:
  assumes "cl_inv c"
  shows "cl_inv (cl_deliver c)"
proof (cases "\<exists>r. cl_reactor c = Some r \<and> cl_delivered c < length (cr_log r)")
  case False
  with assms show ?thesis by (auto simp: cl_deliver_def split: option.splits)
next
  case True
  let ?d = "cl_delivered c"
  from True obtain r where r: "cl_reactor c = Some r" "?d < length (cr_log r)" by blast
  obtain st where st: "cr_inv r" "client_life (take ?d (cr_log r)) None = Some st"
    "cl_follows st (drop ?d (cr_log r)) c"
    using assms r(1) by (auto simp: cl_inv_def)
  obtain e es where e: "drop ?d (cr_log r) = e # es" "cr_log r ! ?d = e" "drop (Suc ?d) (cr_log r) = es"
    using r(2) by (metis Cons_nth_drop_Suc)
  have l: "client_life (e # es) st = Some (cr_current r)" using client_life_pending [OF st(1,2)] by (simp add: e(1))
  have t: "take (Suc ?d) (cr_log r) = take ?d (cr_log r) @ [e]"
    using r(2) e(2) by (simp add: take_Suc_conv_app_nth)
  define c' where "c' = cl_deliver c"
  have c': "cl_reactor c' = Some r" "cl_delivered c' = Suc ?d"
    using r e(2) by (auto simp: c'_def cl_deliver_def cl_OnNetworkEvent_def Let_def split: NetworkEventType.split option.split)
  have eff: "cl_state c' = (case ne_type e of kConnected \<Rightarrow> cl_kConnected | kData \<Rightarrow> cl_state c | _ \<Rightarrow> cl_kDisconnected)"
    "cl_connection_id c' = (case ne_type e of kConnected \<Rightarrow> ne_connection_id e | kData \<Rightarrow> cl_connection_id c | _ \<Rightarrow> 0)"
    using r e(2) by (auto simp: c'_def cl_deliver_def cl_OnNetworkEvent_def Let_def split: NetworkEventType.split option.split)
  have "\<exists>st'. client_life [e] st = Some st' \<and> cl_follows st' es c'"
  proof (cases st)
    case None
    with l have "ne_type e = kConnected" by (simp split: NetworkEventType.splits)
    with None st(3) eff show ?thesis by (simp add: cl_follows_def e(1))
  next
    case (Some i)
    then have f: "cl_connection_id c = i" "cl_state c = cl_kConnected \<or> cl_state c = cl_kClosing" "no_connect (e # es)"
      using st(3) by (simp_all add: cl_follows_def e(1))
    then have "ne_connection_id e = i" "ne_type e = kData \<or> ne_type e = kDisconnected \<and> client_life es None = Some (cr_current r)"
      using l Some by (auto split: NetworkEventType.splits if_splits)
    with f Some eff show ?thesis
      using client_life_no_connect [of es] by (auto simp: cl_follows_def)
  qed
  then have "\<exists>st'. client_life (take (Suc ?d) (cr_log r)) None = Some st' \<and> cl_follows st' (drop (Suc ?d) (cr_log r)) c'"
    unfolding t e(3) client_life_append st(2) by simp
  with assms r c' show ?thesis unfolding c'_def [symmetric] by (simp add: cl_inv_def)
qed

lemma SetConnection_log:
  assumes "\<not> cr_has_connection r" and "cr_worker_pool r" and "SetConnection env fd peer r = (ok, r')"
  shows "cr_takes r' = cr_takes r" "cr_is_running r' = cr_is_running r"
    "if ok then cr_is_running r \<and> (\<exists>e. cr_log r' = cr_log r @ [e] \<and> ne_type e = kConnected) else cr_log r' = cr_log r"
  using assms by (auto simp: SetConnection_def cr_takes_def cr_close_def cc_UpdateActivity_def dispatch_defs split: if_splits)

lemma InitReactor_inv:
  assumes "cl_inv c" and "cl_state c = cl_kDisconnected" and "InitReactor ca c' = (ok, c'')"
    and "cl_reactor c' = cl_reactor c" and "cl_delivered c' = cl_delivered c" and "cl_connection_id c' = cl_connection_id c"
  shows "cl_inv (c''\<lparr>cl_state := cl_kDisconnected\<rparr>)" "ok \<Longrightarrow> cl_reactor c'' \<noteq> None"
proof -
  obtain ok1 r where st: "cr_Start (ca_kqueue ca) (ca_wakeup ca) (ca_thread ca) (ClientReactor_ctor True :: 'a ClientReactor) = (ok1, r)"
    by fastforce
  then have r: "cr_inv r" "cr_takes r" "cr_log r = []"
    using cr_inv_ctor cr_inv_simps(1) [of "ca_kqueue ca" "ca_wakeup ca" "ca_thread ca" "ClientReactor_ctor True"]
    by (auto simp: cr_Start_def ClientReactor_ctor_def cr_takes_def ConcurrentQueue_ctor_def Let_def case_prod_beta split: if_splits)
  show "cl_inv (c''\<lparr>cl_state := cl_kDisconnected\<rparr>)"
  proof (cases "cl_reactor c")
    case (Some r0)
    with assms have "c'' = c'" by (simp add: InitReactor_def)
    with assms Some show ?thesis by (intro cl_inv_cong [OF assms(1)]) simp_all
  next
    case None
    with assms st r show ?thesis
      by (auto simp: InitReactor_def cl_inv_def cl_follows_def Let_def case_prod_beta split: if_splits)
  qed
  show "cl_reactor c'' \<noteq> None" if ok
    using assms(3) that by (auto simp: InitReactor_def Let_def case_prod_beta split: if_splits)
qed

lemma ConnectInternal_inv:
  assumes "cl_inv c" and "cl_state c = cl_kDisconnected"
  shows "cl_inv (snd (ConnectInternal ca fd addr c))"
proof (cases "ca_connect ca \<noteq> None \<and> ca_connect ca \<noteq> Some EINPROGRESS")
  case True
  with assms show ?thesis
    by (intro cl_inv_cong [OF assms(1)]) (simp_all add: ConnectInternal_def Let_def)
next
  case False
  define c1 where "c1 = c\<lparr>cl_state := cl_kConnecting, cl_peer := Some addr\<rparr>"
  obtain ok c2 where i: "InitReactor ca c1 = (ok, c2)" by fastforce
  have i2: "cl_inv (c2\<lparr>cl_state := cl_kDisconnected\<rparr>)" "ok \<Longrightarrow> cl_reactor c2 \<noteq> None"
    using InitReactor_inv [OF assms i] by (simp_all add: c1_def)
  have st2: "cl_state c2 = cl_kConnecting"
    using i by (auto simp: InitReactor_def c1_def Let_def case_prod_beta split: if_splits)
  show ?thesis
  proof (cases ok)
    case no: False
    then have "snd (ConnectInternal ca fd addr c) = c2\<lparr>cl_closed := cl_closed c2 @ [fd], cl_state := cl_kDisconnected\<rparr>"
      using False assms(2) i by (auto simp: ConnectInternal_def c1_def [symmetric] Let_def)
    with cl_inv_cong [OF i2(1)] show ?thesis by simp
  next
    case True
    then obtain r where r: "cl_reactor c2 = Some r" using i2(2) by blast
    let ?d = "cl_delivered c2"
    have d: "cr_inv r" "cr_takes r" "cr_log r \<noteq> [] \<longrightarrow> cr_is_running r" "client_life (take ?d (cr_log r)) None = Some None"
      "drop ?d (cr_log r) = []" "cl_connection_id c2 = 0"
      using i2(1) by (auto simp: cl_inv_def r cl_follows_def split: option.splits if_splits)
    then have "cr_current r = None" using client_life_pending [of r ?d None] by simp
    then have nc: "\<not> cr_has_connection r" by (simp split: if_splits)
    obtain ok2 r2 where s: "SetConnection (ca_env ca) fd addr r = (ok2, r2)" by fastforce
    note l = SetConnection_log [OF nc _ s]
    have r2: "cr_inv r2" "cr_worker_pool r" using cr_inv_SetConnection [OF d(1), of "ca_env ca" fd addr] s d(1) by (simp_all add: cr_inv_def)
    have eq: "snd (ConnectInternal ca fd addr c) = (if ok2 then c2\<lparr>cl_reactor := Some r2\<rparr>
        else c2\<lparr>cl_reactor := Some r2, cl_closed := cl_closed c2 @ [fd], cl_state := cl_kDisconnected\<rparr>)"
      using False assms(2) i True s by (auto simp: ConnectInternal_def c1_def [symmetric] Let_def r)
    have "?d = length (cr_log r)" using d(5) i2(1) by (simp add: cl_inv_def r)
    with d r2 l [OF r2(2)] st2 show ?thesis
      by (auto simp: eq cl_inv_def cl_follows_def)
  qed
qed

lemma Cleanup_reactor [simp]: "cl_reactor (Cleanup final_round delivered c) = None"
proof -
  have "cl_reactor (fold cl_OnNetworkEvent es c) = cl_reactor c" for es and c :: "'a Client"
    by (induction es arbitrary: c)
      (auto simp: cl_OnNetworkEvent_def Let_def split: NetworkEventType.splits option.splits)
  then show ?thesis by (simp add: Cleanup_def Let_def split: option.split)
qed

lemma Cleanup_inv: "cl_inv ((Cleanup final_round delivered c)\<lparr>cl_state := cl_kDisconnected\<rparr>)"
proof -
  have "cl_connection_id (Cleanup final_round delivered c) = 0" by (simp add: Cleanup_def Let_def)
  then show ?thesis by (simp add: cl_inv_def)
qed

lemma begin_close_inv: "cl_inv c \<Longrightarrow> cl_inv (snd (begin_close c))"
proof -
  have "cl_follows st p (c\<lparr>cl_state := cl_kClosing\<rparr>) = cl_follows st p c" if "cl_state c = cl_kConnected" for st p
    using that by (simp add: cl_follows_def split: option.split)
  then show "cl_inv c \<Longrightarrow> cl_inv (snd (begin_close c))"
    by (cases "cl_state c"; cases "cl_reactor c") (simp_all add: begin_close_def cl_inv_def)
qed

lemma connect_socket_inv: "cl_inv c \<Longrightarrow> cl_state c = cl_kDisconnected \<Longrightarrow> cl_inv (snd (connect_socket ca addr c))"
  by (simp add: connect_socket_def ConnectInternal_inv)

lemma submit_send_client:
  assumes "cl_inv c" and "cl_reactor c = Some r" and "submit_send op r = Some (ok, r')"
  shows "cl_inv (c\<lparr>cl_reactor := Some r'\<rparr>)"
proof -
  have "cr_inv r" using assms(1,2) by (simp add: cl_inv_def)
  moreover have "cr_log r' = cr_log r" using assms(3) by (auto simp: submit_send_def split: if_splits)
  ultimately show ?thesis
    using cl_inv_ext [OF assms(1,2) submit_send_ext [OF assms(3)] submit_send_inv [OF assms(3)]] by simp
qed

lemma cl_inv_step: "client_step c c' \<Longrightarrow> cl_inv c \<Longrightarrow> cl_inv c'"
proof (induction rule: client_step.induct)
  case (cls_round c r envs evs r')
  then have "cr_inv r" by (simp add: cl_inv_def)
  from cr_round_inv [OF this cls_round.hyps(3,4)] cls_round have "cr_inv r'" by auto
  with cls_round show ?case by (intro cl_inv_ext [OF _ _ cr_ext_round]) auto
next
  case (cls_send data p c ok c')
  then show ?case
    by (auto simp: cl_SendData_submit_def SendSync_submit_def intro: submit_send_client split: option.splits if_splits)
next
  case (cls_async data f c ok c')
  then show ?case
    by (auto simp: cl_SendAsync_def SendAsyncWithCallback_def intro: submit_send_client split: option.splits if_splits)
next
  case (cls_disconnect c final_round delivered)
  then show ?case
    using begin_close_inv by (auto simp: Disconnect_def Cleanup_inv case_prod_beta Let_def)
next
  case (cls_callbacks c f1 f2 f3 f4)
  then show ?case by (rule cl_inv_cong) simp_all
qed (auto simp: ConnectIPv4_def ConnectIPv6_def ConnectUnixDomain_def connect_socket_inv cl_inv_deliver Cleanup_inv
    begin_close_inv split: option.split)

lemma cl_inv_ctor: "cl_inv Client_ctor"
  by (simp add: Client_ctor_def cl_inv_def)

interpretation client: invariant_system "\<lambda>c. c = Client_ctor" client_step cl_inv
  by unfold_locales (auto simp: cl_inv_ctor intro: cl_inv_step)

section \<open>Properties\<close>

lemma cl_reachable_inv: "client_step\<^sup>*\<^sup>* Client_ctor c \<Longrightarrow> cl_inv c"
  by (rule client.Inv_reachable [OF refl])

lemma connected_takes:
  assumes "cl_inv c" and "cl_reactor c = Some r" and "cl_state c = cl_kConnected"
  shows "cr_is_running r \<and> cr_takes r"
proof -
  obtain st where st: "client_life (take (cl_delivered c) (cr_log r)) None = Some st"
    "cl_follows st (drop (cl_delivered c) (cr_log r)) c"
    using assms by (auto simp: cl_inv_def)
  then have "st \<noteq> None" using assms(3) by (auto simp: cl_follows_def split: option.splits if_splits)
  then have "cr_log r \<noteq> []" using st(1) by auto
  with assms show ?thesis by (simp add: cl_inv_def)
qed

text \<open>A connected client with nothing buffered.\<close>

definition demo_answers :: "nat connect_answers" where
  "demo_answers = \<lparr> ca_pton = (\<lambda>_ _ _. Some 0), ca_path = (\<lambda>_. 0), ca_socket = 7, ca_connect = None, ca_spawn = True,
     ca_kqueue = True, ca_wakeup = True, ca_thread = True, ca_env = quiet_env \<rparr>"

lemma cl_demo:
  "\<exists>(c :: nat Client) r. client_step\<^sup>*\<^sup>* Client_ctor c \<and> cl_state c = cl_kConnected \<and> cl_reactor c = Some r \<and>
     cl_delivered c = length (cr_log r) \<and> cr_has_connection r \<and> cr_IsConnected r \<and> cc_send_buffer (cr_connection r) = SendBuffer_ctor"
proof -
  define r0 where "r0 = snd (cr_Start True True True (ClientReactor_ctor True :: nat ClientReactor))"
  have r0: "cr_Start True True True (ClientReactor_ctor True) = (True, r0)" "\<not> cr_has_connection r0" "cr_is_running r0"
    "iom_open (cr_io_monitor r0)" "cr_log r0 = []" "cr_worker_pool r0"
    "cr_connection r0 = ClientConnection_ctor"
    by (simp_all add: r0_def cr_Start_def ClientReactor_ctor_def iom_Initialize_def InitializeWakeupEvent_def Let_def)
  obtain r where r: "SetConnection quiet_env 7 0 r0 = (True, r)" "cr_has_connection r"
    "cc_send_buffer (cr_connection r) = SendBuffer_ctor" "cr_IsConnected r"
    "\<exists>e. cr_log r = [e] \<and> ne_type e = kConnected"
    using r0 by (simp add: SetConnection_def StartReadMonitor_def cc_UpdateActivity_def ClientConnection_ctor_def
        cr_IsConnected_def quiet_env_def dispatch_defs)
  then obtain e where e: "cr_log r = [e]" "ne_type e = kConnected" by blast
  define c1 where "c1 = snd (ConnectIPv4 demo_answers [] 0 (Client_ctor :: nat Client))"
  have c1: "cl_reactor c1 = Some r" "cl_delivered c1 = 0"
    by (simp_all add: c1_def ConnectIPv4_def demo_answers_def connect_socket_def ConnectInternal_def Client_ctor_def
        InitReactor_def wp_Start_def WorkerPool_ctor_def r0(1) r(1) Let_def)
  have "client_step Client_ctor c1" unfolding c1_def by (rule cls_connect4) (simp add: Client_ctor_def)
  then have "client_step\<^sup>*\<^sup>* Client_ctor (cl_deliver c1)"
    by (meson cls_deliver rtranclp.rtrancl_into_rtrancl rtranclp.rtrancl_refl)
  moreover have "cl_state (cl_deliver c1) = cl_kConnected" "cl_reactor (cl_deliver c1) = Some r"
    "cl_delivered (cl_deliver c1) = length (cr_log r)"
    using c1 e by (simp_all add: cl_deliver_def cl_OnNetworkEvent_def Let_def split: option.split)
  ultimately show ?thesis using r(2-4) by blast
qed



text \<open>connecting a connected client breaks it. The call returns false and closes the new socket, but it
  has already overwritten the state: the client reports that it is not connected and refuses to send,
  although the reactor still holds the old connection.\<close>

theorem Client_second_connect:
  assumes "cl_IsConnected c"
  shows "\<exists>c'. ConnectInternal ca fd addr c = (False, c') \<and> \<not> cl_IsConnected c' \<and> cl_reactor c' = cl_reactor c \<and>
    cl_closed c' = cl_closed c @ [fd] \<and>
    (\<forall>data p. cl_SendData_submit data p c' = Some (False, c') \<and> cl_SendAsync data p c' = Some (False, c'))"
  using assms by (simp add: ConnectInternal_def cl_IsConnected_def cl_SendData_submit_def cl_SendAsync_def Let_def split: option.split)

theorem Client_second_connect_witness:
  "\<exists>(c :: nat Client) r c'. cl_reactor c = Some r \<and> cr_IsConnected r \<and> ConnectInternal demo_answers 9 0 c = (False, c') \<and>
     cl_reactor c' = Some r \<and> \<not> cl_IsConnected c' \<and> cl_SendAsync [1] 5 c' = Some (False, c')"
proof -
  from cl_demo obtain c :: "nat Client" and r where c: "cl_state c = cl_kConnected"
    "cl_reactor c = Some r" "cr_IsConnected r" by blast
  then have "cl_IsConnected c" by (simp add: cl_IsConnected_def)
  from Client_second_connect [OF this, of demo_answers 9 0] obtain c' where
    "ConnectInternal demo_answers 9 0 c = (False, c')" "\<not> cl_IsConnected c'" "cl_reactor c' = Some r"
    "cl_SendAsync [1] 5 c' = Some (False, c')" using c(2) by auto
  with c(2,3) show ?thesis by blast
qed

text \<open>after \<open>GracefulShutdown\<close> has timed out, the client stays in the state \<open>kClosing\<close>: it can neither send nor be
  shut down again, and \<open>Disconnect\<close> does nothing, while the reactor keeps the connection.\<close>

theorem Client_shutdown_timeout:
  assumes "cl_state c = cl_kConnected" and "cl_reactor c = Some r" and "cr_GetSendBufferSize r > 0"
    and "timeout_ms > 0" and "elapsed \<ge> timeout_ms"
  shows "\<exists>c1. GracefulShutdown timeout_ms ((elapsed, meanwhile) # passes) final_round delivered c = Some (False, c1) \<and>
    cl_reactor c1 = Some r \<and> Disconnect final_round' delivered' c1 = c1 \<and>
    GracefulShutdown timeout_ms' passes' final_round' delivered' c1 = Some (False, c1) \<and>
    cl_SendData_submit data p c1 = Some (False, c1) \<and> cl_SendAsync data p c1 = Some (False, c1)"
proof -
  let ?c = "c\<lparr>cl_state := cl_kClosing\<rparr>"
  have "shutdown_loop timeout_ms ((elapsed, meanwhile) # passes) ?c = Some (Inl ?c)"
    using assms by (simp add: shutdown_loop.simps)
  with assms(1,2) show ?thesis
    by (intro exI [of _ ?c])
      (simp add: GracefulShutdown_def begin_close_def Disconnect_def cl_SendData_submit_def cl_SendAsync_def)
qed

theorem Client_shutdown_timeout_witness:
  "\<exists>(c :: nat Client) c1 r. GracefulShutdown 5000 [(5001, \<lambda>c. c)] (\<lambda>r. r) [] c = Some (False, c1) \<and>
     cl_reactor c1 = Some r \<and> cr_IsConnected r \<and> Disconnect (\<lambda>r. r) [] c1 = c1"
proof -
  from cr_demo obtain r :: "nat ClientReactor" where r: "client_reactor_step\<^sup>*\<^sup>* (ClientReactor_ctor True) r"
    "cr_has_connection r" "cr_buffered r = [1, 2]" "cc_file_descriptor (cr_connection r) = 7" by blast
  let ?c = "Client_ctor\<lparr>cl_state := cl_kConnected, cl_reactor := Some r\<rparr>"
  have "sb_Size (cc_send_buffer (cr_connection r)) = length (cr_buffered r)"
    using cr_reachable_inv [OF r(1)] length_sb_contents by (auto simp: cr_inv_def)
  then have "cr_GetSendBufferSize r > 0" using r(2,3) by (simp add: cr_GetSendBufferSize_def)
  from Client_shutdown_timeout [of ?c r 5000 5001 "\<lambda>c. c" "[]" "\<lambda>r. r" "[]" "\<lambda>r. r" "[]" 1 "[]" "[]" 0, OF _ _ this] obtain c1 where
    "GracefulShutdown 5000 [(5001, \<lambda>c. c)] (\<lambda>r. r) [] ?c = Some (False, c1)" "cl_reactor c1 = Some r"
    "Disconnect (\<lambda>r. r) [] c1 = c1" by auto
  moreover have "cr_IsConnected r" using r(2,4) by (simp add: cr_IsConnected_def)
  ultimately show ?thesis by blast
qed

text \<open>\<open>GracefulShutdown\<close> waits for the send buffer only. Data that a connected client has accepted but that its loop has
  not yet taken out of the queue is dropped: the call reports success, and when the reactor is gone
  nothing of the data has reached the socket and its callback was never called.\<close>

theorem Client_shutdown_drops:
  assumes "client_step\<^sup>*\<^sup>* Client_ctor c" and "cl_IsConnected c" and "cl_reactor c = Some r"
    and "cl_GetSendBufferSize c = 0" and "data \<noteq> []"
  shows "\<exists>c1 r1 c2. cl_SendAsync data callback c = Some (True, c1) \<and> cl_reactor c1 = Some r1 \<and>
    GracefulShutdown timeout_ms passes (\<lambda>r. r) delivered c1 = Some (True, c2) \<and> cl_reactor c2 = None \<and>
    cr_wire (cr_Stop_finish (cr_Stop_request r1)) = cr_wire r \<and>
    cr_callbacks (cr_Stop_finish (cr_Stop_request r1)) = cr_callbacks r"
proof -
  have s: "cl_state c = cl_kConnected" using assms(2) by (simp add: cl_IsConnected_def)
  have t: "cr_is_running r \<and> cr_takes r" by (rule connected_takes [OF cl_reachable_inv [OF assms(1)] assms(3) s])
  define r1 where "r1 = r\<lparr>cr_send_operations := (cr_send_operations r)\<lparr>cq_queue := cq_queue (cr_send_operations r) @
     [\<lparr> so_type = kAsyncCallback, so_data = data, so_callback = Some callback, so_promise = None \<rparr>]\<rparr>\<rparr>"
  have a: "cl_SendAsync data callback c = Some (True, c\<lparr>cl_reactor := Some r1\<rparr>)"
    using s t assms(3-5)
    by (simp add: cl_SendAsync_def SendAsyncWithCallback_def submit_send_def Enqueue_def cr_takes_def cl_GetSendBufferSize_def r1_def)
  have "cr_GetSendBufferSize r1 = 0"
    using s assms(3,4) by (simp add: cl_GetSendBufferSize_def cr_GetSendBufferSize_def r1_def split: if_splits)
  then have "shutdown_loop timeout_ms passes (c\<lparr>cl_reactor := Some r1, cl_state := cl_kClosing\<rparr>) =
      Some (Inr (c\<lparr>cl_reactor := Some r1, cl_state := cl_kClosing\<rparr>))"
    by (simp add: shutdown_loop.simps)
  then have g: "GracefulShutdown timeout_ms passes (\<lambda>r. r) delivered (c\<lparr>cl_reactor := Some r1\<rparr>) =
      Some (True, (Cleanup (\<lambda>r. r) delivered (c\<lparr>cl_reactor := Some r1, cl_state := cl_kClosing\<rparr>))\<lparr>cl_state := cl_kDisconnected\<rparr>)"
    using s by (simp add: GracefulShutdown_def begin_close_def)
  have w: "cr_wire (cr_Stop_finish (cr_Stop_request r1)) = cr_wire r" "cr_callbacks (cr_Stop_finish (cr_Stop_request r1)) = cr_callbacks r"
    by (simp_all add: r1_def cr_Stop_finish_def cr_Stop_request_def cr_close_def Let_def)
  have "cl_reactor ((Cleanup (\<lambda>r. r) delivered (c\<lparr>cl_reactor := Some r1, cl_state := cl_kClosing\<rparr>))\<lparr>cl_state := cl_kDisconnected\<rparr>) = None"
    by (simp add: Cleanup_reactor)
  with a g w show ?thesis by fastforce
qed

theorem Client_shutdown_drops_witness:
  "\<exists>(c :: nat Client) c1 c2. cl_SendAsync [1] 5 c = Some (True, c1) \<and>
     GracefulShutdown 5000 [] (\<lambda>r. r) [] c1 = Some (True, c2) \<and> cl_reactor c2 = None"
proof -
  from cl_demo obtain c :: "nat Client" and r where c: "client_step\<^sup>*\<^sup>* Client_ctor c" "cl_state c = cl_kConnected"
    "cl_reactor c = Some r" "cr_has_connection r" "cc_send_buffer (cr_connection r) = SendBuffer_ctor" by blast
  then have "cl_IsConnected c" "cl_GetSendBufferSize c = 0"
    by (simp_all add: cl_IsConnected_def cl_GetSendBufferSize_def cr_GetSendBufferSize_def sb_Size_def SendBuffer_ctor_def)
  from Client_shutdown_drops [OF c(1) this(1) c(3) this(2), of "[1]" 5 5000 "[]" "[]"] show ?thesis by blast
qed

text \<open>a client whose reactor once failed to start refuses every further connection, and \<open>Disconnect\<close>, which would
  drop that reactor, does nothing.\<close>

theorem Client_failed_start:
  assumes "cl_state c = cl_kDisconnected" and "cl_reactor c = Some r" and "\<not> cr_is_running r"
  shows "\<exists>c1. ConnectInternal ca fd addr c = (False, c1) \<and> cl_state c1 = cl_kDisconnected \<and> cl_reactor c1 = Some r \<and>
    Disconnect final_round delivered c1 = c1"
  using assms
  by (intro exI [of _ "snd (ConnectInternal ca fd addr c)"])
    (auto simp: ConnectInternal_def InitReactor_def SetConnection_def Disconnect_def begin_close_def Let_def)

theorem Client_failed_start_witness:
  "\<exists>(c :: nat Client) c1. client_step Client_ctor c \<and> ConnectInternal demo_answers 9 0 c = (False, c1)"
proof -
  let ?c = "snd (ConnectIPv4 (demo_answers\<lparr>ca_kqueue := False\<rparr>) [] 0 (Client_ctor :: nat Client))"
  have "cl_state ?c = cl_kDisconnected" "\<exists>r. cl_reactor ?c = Some r \<and> \<not> cr_is_running r"
    by (simp_all add: ConnectIPv4_def demo_answers_def connect_socket_def ConnectInternal_def Client_ctor_def
        InitReactor_def wp_Start_def WorkerPool_ctor_def cr_Start_def iom_Initialize_def ClientReactor_ctor_def Let_def)
  then obtain r where "cl_state ?c = cl_kDisconnected" "cl_reactor ?c = Some r" "\<not> cr_is_running r" by blast
  from Client_failed_start [OF this, of demo_answers 9 0] obtain c1 where "ConnectInternal demo_answers 9 0 ?c = (False, c1)" by blast
  moreover have "client_step Client_ctor ?c" by (rule cls_connect4) (simp add: Client_ctor_def)
  ultimately show ?thesis by blast
qed

end
