(* ===== verification/ConcurrentMap.thy ===== *)
theory ConcurrentMap
  imports LRUCache
begin

text \<open>
  The class templates \<open>ConcurrentMap\<close> and \<open>ShardedMap\<close> of \<^verbatim>\<open>include/darwincore/foundation/container/ConcurrentMap.h\<close>.
  The hash map is a list of pairs with distinct keys, whose order no operation promises. Each critical section is
  one step; \<open>getOrInsert\<close> has two, with a gap in which other threads may act. The answer of the factory, and
  the hash function, are arguments.
\<close>

section \<open>ConcurrentMap\<close>

record ('k, 'v) ConcurrentMap =
  cm_map :: "('k \<times> 'v) list"

definition cm_new :: "('k, 'v) ConcurrentMap" where
  "cm_new = \<lparr> cm_map = [] \<rparr>"

definition cm_insert :: "'k \<Rightarrow> 'v \<Rightarrow> ('k, 'v) ConcurrentMap \<Rightarrow> ('k, 'v) ConcurrentMap" where
  "cm_insert key v m = m\<lparr>cm_map := map_assign key v (cm_map m)\<rparr>"

definition cm_get :: "'k \<Rightarrow> ('k, 'v) ConcurrentMap \<Rightarrow> 'v option" where
  "cm_get key m = map_of (cm_map m) key"

definition cm_contains :: "'k \<Rightarrow> ('k, 'v) ConcurrentMap \<Rightarrow> bool" where
  "cm_contains key m \<longleftrightarrow> map_of (cm_map m) key \<noteq> None"

definition cm_erase :: "'k \<Rightarrow> ('k, 'v) ConcurrentMap \<Rightarrow> bool \<times> ('k, 'v) ConcurrentMap" where
  "cm_erase key m =
     (0 < length (cm_map m) - length (map_erase key (cm_map m)), m\<lparr>cm_map := map_erase key (cm_map m)\<rparr>)"

definition cm_clear :: "('k, 'v) ConcurrentMap \<Rightarrow> ('k, 'v) ConcurrentMap" where
  "cm_clear m = m\<lparr>cm_map := []\<rparr>"

definition cm_size :: "('k, 'v) ConcurrentMap \<Rightarrow> nat" where
  "cm_size m = length (cm_map m)"

definition cm_empty :: "('k, 'v) ConcurrentMap \<Rightarrow> bool" where
  "cm_empty m \<longleftrightarrow> cm_map m = []"

text \<open>The two critical sections of \<open>getOrInsert\<close>; the second says whether it called the factory.\<close>

definition gi_check :: "'k \<Rightarrow> ('k, 'v) ConcurrentMap \<Rightarrow> 'v option" where
  "gi_check key m = map_of (cm_map m) key"

definition gi_insert :: "'k \<Rightarrow> 'v \<Rightarrow> ('k, 'v) ConcurrentMap \<Rightarrow> 'v \<times> bool \<times> ('k, 'v) ConcurrentMap" where
  "gi_insert key made m =
     (case map_of (cm_map m) key of
        Some v \<Rightarrow> (v, False, m)
      | None \<Rightarrow> (made, True, m\<lparr>cm_map := (key, made) # cm_map m\<rparr>))"

definition cm_getOrInsert :: "'k \<Rightarrow> 'v \<Rightarrow> ('k, 'v) ConcurrentMap \<Rightarrow> 'v \<times> ('k, 'v) ConcurrentMap" where
  "cm_getOrInsert key made m =
     (case gi_check key m of
        Some v \<Rightarrow> (v, m)
      | None \<Rightarrow> (case gi_insert key made m of (v, called, m') \<Rightarrow> (v, m')))"

definition cm_forEach :: "('k \<Rightarrow> 'v \<Rightarrow> 's \<Rightarrow> 's) \<Rightarrow> ('k, 'v) ConcurrentMap \<Rightarrow> 's \<Rightarrow> 's" where
  "cm_forEach func m s = foldl (\<lambda>s (k, v). func k v s) s (cm_map m)"

definition cm_keys :: "('k, 'v) ConcurrentMap \<Rightarrow> 'k list" where
  "cm_keys m = map fst (cm_map m)"

section \<open>ShardedMap\<close>

record ('k, 'v) ShardedMap =
  shards :: "('k, 'v) ConcurrentMap list"

definition sharded_new :: "nat \<Rightarrow> ('k, 'v) ShardedMap" where
  "sharded_new ShardCount = \<lparr> shards = replicate ShardCount cm_new \<rparr>"

definition getShard :: "('k \<Rightarrow> nat) \<Rightarrow> nat \<Rightarrow> 'k \<Rightarrow> nat" where
  "getShard hash ShardCount key = hash key mod ShardCount"

definition sh_insert :: "('k \<Rightarrow> nat) \<Rightarrow> nat \<Rightarrow> 'k \<Rightarrow> 'v \<Rightarrow> ('k, 'v) ShardedMap \<Rightarrow> ('k, 'v) ShardedMap" where
  "sh_insert hash n key v m =
     (let i = getShard hash n key in m\<lparr>shards := (shards m)[i := cm_insert key v (shards m ! i)]\<rparr>)"

definition sh_get :: "('k \<Rightarrow> nat) \<Rightarrow> nat \<Rightarrow> 'k \<Rightarrow> ('k, 'v) ShardedMap \<Rightarrow> 'v option" where
  "sh_get hash n key m = cm_get key (shards m ! getShard hash n key)"

definition sh_erase :: "('k \<Rightarrow> nat) \<Rightarrow> nat \<Rightarrow> 'k \<Rightarrow> ('k, 'v) ShardedMap \<Rightarrow> bool \<times> ('k, 'v) ShardedMap" where
  "sh_erase hash n key m =
     (let i = getShard hash n key
      in case cm_erase key (shards m ! i) of (erased, shard) \<Rightarrow> (erased, m\<lparr>shards := (shards m)[i := shard]\<rparr>))"

definition sh_contains :: "('k \<Rightarrow> nat) \<Rightarrow> nat \<Rightarrow> 'k \<Rightarrow> ('k, 'v) ShardedMap \<Rightarrow> bool" where
  "sh_contains hash n key m \<longleftrightarrow> cm_contains key (shards m ! getShard hash n key)"

definition sh_size :: "('k, 'v) ShardedMap \<Rightarrow> nat" where
  "sh_size m = foldl (\<lambda>total shard. total + cm_size shard) 0 (shards m)"

section \<open>A sharded map is a map\<close>

datatype ('k, 'v) map_op = MInsert 'k 'v | MGet 'k | MErase 'k | MContains 'k | MSize

datatype 'v map_out = MDone | MValue "'v option" | MBool bool | MCount nat

fun sharded_exec :: "('k \<Rightarrow> nat) \<Rightarrow> nat \<Rightarrow> ('k, 'v) map_op \<Rightarrow> ('k, 'v) ShardedMap \<Rightarrow> ('v map_out \<times> ('k, 'v) ShardedMap) option" where
  "sharded_exec hash n (MInsert k v) m = Some (MDone, sh_insert hash n k v m)"
| "sharded_exec hash n (MGet k) m = Some (MValue (sh_get hash n k m), m)"
| "sharded_exec hash n (MErase k) m = (case sh_erase hash n k m of (b, m') \<Rightarrow> Some (MBool b, m'))"
| "sharded_exec hash n (MContains k) m = Some (MBool (sh_contains hash n k m), m)"
| "sharded_exec hash n MSize m = Some (MCount (sh_size m), m)"

fun map_spec :: "('k, 'v) map_op \<Rightarrow> ('k \<rightharpoonup> 'v) \<Rightarrow> 'v map_out \<times> ('k \<rightharpoonup> 'v)" where
  "map_spec (MInsert k v) f = (MDone, f(k \<mapsto> v))"
| "map_spec (MGet k) f = (MValue (f k), f)"
| "map_spec (MErase k) f = (MBool (k \<in> dom f), f(k := None))"
| "map_spec (MContains k) f = (MBool (k \<in> dom f), f)"
| "map_spec MSize f = (MCount (card (dom f)), f)"

definition sharded_abs :: "('k \<Rightarrow> nat) \<Rightarrow> nat \<Rightarrow> ('k, 'v) ShardedMap \<Rightarrow> 'k \<rightharpoonup> 'v" where
  "sharded_abs hash n m = (\<lambda>k. map_of (cm_map (shards m ! getShard hash n k)) k)"

definition sharded_inv :: "('k \<Rightarrow> nat) \<Rightarrow> nat \<Rightarrow> ('k, 'v) ShardedMap \<Rightarrow> bool" where
  "sharded_inv hash n m \<longleftrightarrow> 0 < n \<and> length (shards m) = n \<and>
     (\<forall>i < n. distinct (map fst (cm_map (shards m ! i))) \<and> (\<forall>k\<in>fst ` set (cm_map (shards m ! i)). getShard hash n k = i))"

lemma getShard_less: "0 < n \<Longrightarrow> getShard hash n k < n"
  by (simp add: getShard_def)

lemma shard_distinct: "sharded_inv hash n m \<Longrightarrow> i < n \<Longrightarrow> distinct (map fst (cm_map (shards m ! i)))"
  unfolding sharded_inv_def by blast

lemma distinct_assign: "distinct (map fst m) \<Longrightarrow> distinct (map fst (map_assign k v m))"
  by (auto simp: map_assign_def map_erase_def distinct_map_filter)

lemma keys_assign: "fst ` set (map_assign k v m) = insert k (fst ` set m)"
  by (auto simp: map_assign_def)

lemma erase_shorter:
  assumes "distinct (map fst m)"
  shows "0 < length m - length (map_erase k m) \<longleftrightarrow> map_of m k \<noteq> None"
proof (cases "k \<in> fst ` set m")
  case True
  then have "length (map_erase k m) < length m" by (auto simp: map_erase_def intro: length_filter_less)
  then show ?thesis using True by (simp add: map_of_eq_None_iff)
next
  case False
  then have "map_erase k m = m" unfolding map_erase_def by (intro filter_True) auto
  then show ?thesis using False by (simp add: map_of_eq_None_iff)
qed

lemma sharded_update:
  assumes inv: "sharded_inv hash n m" and i: "i = getShard hash n k"
    and d: "distinct (map fst m')" and keys: "fst ` set m' \<subseteq> insert k (fst ` set (cm_map (shards m ! i)))"
    and other: "\<And>k'. k' \<noteq> k \<Longrightarrow> map_of m' k' = map_of (cm_map (shards m ! i)) k'"
  shows "sharded_inv hash n (m\<lparr>shards := (shards m)[i := s\<lparr>cm_map := m'\<rparr>]\<rparr>)"
    "sharded_abs hash n (m\<lparr>shards := (shards m)[i := s\<lparr>cm_map := m'\<rparr>]\<rparr>) = (sharded_abs hash n m)(k := map_of m' k)"
proof -
  have n: "0 < n" "length (shards m) = n" using inv by (auto simp: sharded_inv_def)
  have lt: "i < n" using n(1) i by (simp add: getShard_less)
  have old: "getShard hash n k' = i" if "k' \<in> fst ` set (cm_map (shards m ! i))" for k'
    using inv lt that unfolding sharded_inv_def by blast
  have "getShard hash n k' = i" if "k' \<in> fst ` set m'" for k'
  proof (cases "k' = k")
    case False
    then show ?thesis using that keys old [of k'] by blast
  qed (simp add: i)
  then show "sharded_inv hash n (m\<lparr>shards := (shards m)[i := s\<lparr>cm_map := m'\<rparr>]\<rparr>)"
    using inv d n lt by (auto simp: sharded_inv_def nth_list_update)
  show "sharded_abs hash n (m\<lparr>shards := (shards m)[i := s\<lparr>cm_map := m'\<rparr>]\<rparr>) = (sharded_abs hash n m)(k := map_of m' k)"
    using n lt i other by (auto simp: sharded_abs_def fun_eq_iff nth_list_update)
qed

lemma sharded_size:
  assumes "sharded_inv hash n m"
  shows "sh_size m = card (dom (sharded_abs hash n m))"
proof -
  let ?keys = "\<lambda>i. fst ` set (cm_map (shards m ! i))"
  have n: "0 < n" "length (shards m) = n" using assms by (auto simp: sharded_inv_def)
  have sums: "foldl (\<lambda>total shard. total + cm_size shard) t ss = t + (\<Sum>s\<leftarrow>ss. cm_size s)" for t ss
    by (induction ss arbitrary: t) simp_all
  have at: "k \<in> dom (sharded_abs hash n m) \<longleftrightarrow> k \<in> ?keys (getShard hash n k)" for k
    by (simp only: sharded_abs_def domIff map_of_eq_None_iff not_not)
  have home: "getShard hash n k = i" if "i < n" "k \<in> ?keys i" for i k
    using assms that unfolding sharded_inv_def by blast
  have "dom (sharded_abs hash n m) = (\<Union>i<n. ?keys i)"
  proof (intro set_eqI iffI)
    fix k
    assume "k \<in> dom (sharded_abs hash n m)"
    then have "k \<in> ?keys (getShard hash n k)" by (rule at [THEN iffD1])
    then show "k \<in> (\<Union>i<n. ?keys i)" using getShard_less [OF n(1), of hash k] by (intro UN_I) simp_all
  next
    fix k
    assume "k \<in> (\<Union>i<n. ?keys i)"
    then obtain i where k: "i < n" "k \<in> ?keys i" by blast
    from k(2) show "k \<in> dom (sharded_abs hash n m)" unfolding at home [OF k] .
  qed
  moreover have "card (\<Union>i<n. ?keys i) = (\<Sum>i<n. card (?keys i))"
  proof (rule card_UN_disjoint)
    show "\<forall>i\<in>{..<n}. \<forall>j\<in>{..<n}. i \<noteq> j \<longrightarrow> ?keys i \<inter> ?keys j = {}"
    proof (intro ballI impI equals0I)
      fix i j k
      assume "i \<in> {..<n}" "j \<in> {..<n}" and ne: "i \<noteq> j" and k: "k \<in> ?keys i \<inter> ?keys j"
      then have "i < n" "j < n" by simp_all
      with k home [of i k] home [of j k] ne show False by (metis IntD1 IntD2)
    qed
  qed simp_all
  moreover have "card (?keys i) = cm_size (shards m ! i)" if "i < n" for i
    using assms that distinct_card [of "map fst (cm_map (shards m ! i))"] by (simp add: sharded_inv_def cm_size_def)
  moreover have "(\<Sum>s\<leftarrow>shards m. cm_size s) = (\<Sum>i<n. cm_size (shards m ! i))"
    using n(2) by (simp add: sum_list_sum_nth atLeast0LessThan)
  ultimately show ?thesis by (simp add: sh_size_def sums)
qed

interpretation sharded: object_refinement "sharded_inv hash n" "sharded_abs hash n" "sharded_exec hash n" map_spec
proof
  fix m :: "('a, 'b) ShardedMap" and op :: "('a, 'b) map_op"
  assume inv: "sharded_inv hash n m"
  let ?i = "getShard hash n"
  have n: "0 < n" "length (shards m) = n" using inv by (auto simp: sharded_inv_def)
  have d: "distinct (map fst (cm_map (shards m ! ?i k)))" for k
    by (rule shard_distinct [OF inv getShard_less [OF n(1)]])
  show "\<exists>m'. sharded_exec hash n op m = Some (fst (map_spec op (sharded_abs hash n m)), m') \<and> sharded_inv hash n m' \<and>
    sharded_abs hash n m' = snd (map_spec op (sharded_abs hash n m))"
  proof (cases op)
    case (MInsert k v)
    show ?thesis
      using sharded_update [OF inv refl, where k = k and m' = "map_assign k v (cm_map (shards m ! ?i k))"] d [of k]
      by (simp add: MInsert sh_insert_def cm_insert_def Let_def distinct_assign keys_assign)
  next
    case (MErase k)
    show ?thesis
      using sharded_update [OF inv refl, where k = k and m' = "map_erase k (cm_map (shards m ! ?i k))"] d [of k] erase_shorter [OF d, of k k]
      by (auto simp: MErase sh_erase_def cm_erase_def Let_def sharded_abs_def domIff)
  qed (use inv in \<open>auto simp: sh_get_def cm_get_def sh_contains_def cm_contains_def sharded_abs_def sharded_size domIff\<close>)
qed


section \<open>Threads in getOrInsert\<close>

text \<open>
  Threads that call \<open>getOrInsert\<close> and \<open>get\<close> on one map. A thread is idle or between the two critical sections of
  \<open>getOrInsert\<close>, having missed a key. The fields \<open>g_returned\<close> and \<open>g_created\<close> record what the calls returned and
  the keys for which the factory ran; the value of the factory is chosen freely at every call.
\<close>

datatype 'k gi_thread = GIdle | GMissed 'k

record ('k, 'v) gi_state =
  g_map :: "('k, 'v) ConcurrentMap"
  g_threads :: "'k gi_thread list"
  g_returned :: "('k \<times> 'v) list"
  g_created :: "'k list"

inductive gi_step :: "('k, 'v) gi_state \<Rightarrow> ('k, 'v) gi_state \<Rightarrow> bool" where
  gi_get: "cm_get k (g_map s) = Some v \<Longrightarrow> gi_step s (s\<lparr>g_returned := (k, v) # g_returned s\<rparr>)"
| gi_hit: "i < length (g_threads s) \<Longrightarrow> g_threads s ! i = GIdle \<Longrightarrow> gi_check k (g_map s) = Some v \<Longrightarrow>
    gi_step s (s\<lparr>g_returned := (k, v) # g_returned s\<rparr>)"
| gi_miss: "i < length (g_threads s) \<Longrightarrow> g_threads s ! i = GIdle \<Longrightarrow> gi_check k (g_map s) = None \<Longrightarrow>
    gi_step s (s\<lparr>g_threads := (g_threads s)[i := GMissed k]\<rparr>)"
| gi_second: "i < length (g_threads s) \<Longrightarrow> g_threads s ! i = GMissed k \<Longrightarrow> gi_insert k made (g_map s) = (v, called, m') \<Longrightarrow>
    gi_step s (s\<lparr>g_map := m', g_threads := (g_threads s)[i := GIdle], g_returned := (k, v) # g_returned s,
      g_created := (if called then k # g_created s else g_created s)\<rparr>)"

definition gi_init :: "('k, 'v) ConcurrentMap \<Rightarrow> nat \<Rightarrow> ('k, 'v) gi_state" where
  "gi_init m threads = \<lparr> g_map = m, g_threads = replicate threads GIdle, g_returned = [], g_created = [] \<rparr>"

definition gi_inv :: "('k, 'v) ConcurrentMap \<Rightarrow> ('k, 'v) gi_state \<Rightarrow> bool" where
  "gi_inv m s \<longleftrightarrow> (\<forall>(k, v)\<in>set (g_returned s). cm_get k (g_map s) = Some v) \<and>
     distinct (g_created s) \<and> (\<forall>k\<in>set (g_created s). cm_get k m = None) \<and>
     (\<forall>k. cm_get k (g_map s) \<noteq> None \<longleftrightarrow> cm_get k m \<noteq> None \<or> k \<in> set (g_created s)) \<and>
     (\<forall>k v. cm_get k m = Some v \<longrightarrow> cm_get k (g_map s) = Some v)"

inductive_cases gi_stepE: "gi_step s t"

lemma gi_insert_cases:
  assumes "gi_insert k made m = (v, called, m')"
  obtains (found) "cm_get k m = Some v" "\<not> called" "m' = m"
    | (made) "cm_get k m = None" "called" "v = made" "\<And>k'. cm_get k' m' = (if k' = k then Some made else cm_get k' m)"
  using assms by (auto simp: gi_insert_def cm_get_def split: option.splits)

lemma gi_inv_returned:
  assumes "gi_inv m s" "cm_get k (g_map s) = Some v"
  shows "gi_inv m (s\<lparr>g_returned := (k, v) # g_returned s\<rparr>)"
  using assms by (simp add: gi_inv_def)

interpretation gi: invariant_system "\<lambda>s. \<exists>threads. s = gi_init m threads" gi_step "gi_inv m"
proof
  fix s :: "('a, 'b) gi_state"
  assume "\<exists>threads. s = gi_init m threads"
  then show "gi_inv m s" by (auto simp: gi_inv_def gi_init_def)
next
  fix s t :: "('a, 'b) gi_state"
  assume inv: "gi_inv m s" and "gi_step s t"
  from this(2) show "gi_inv m t"
  proof cases
    case (gi_second i k made v called m')
    from gi_second(4) show ?thesis
    proof (cases rule: gi_insert_cases)
      case found
      then show ?thesis using inv by (simp add: gi_second(1) gi_inv_def)
    next
      case made
      have other: "k' \<noteq> k" if "(k', w) \<in> set (g_returned s)" for k' w using inv made(1) that by (auto simp: gi_inv_def)
      from inv have "cm_get k (g_map s) \<noteq> None \<longleftrightarrow> cm_get k m \<noteq> None \<or> k \<in> set (g_created s)"
        unfolding gi_inv_def by blast
      with made(1) have new: "k \<notin> set (g_created s)" "cm_get k m = None" by simp_all
      show ?thesis using inv made new other by (auto simp: gi_second(1) gi_inv_def)
    qed
  qed (use inv in \<open>auto intro: gi_inv_returned simp: gi_check_def cm_get_def gi_inv_def\<close>)
qed

section \<open>Properties\<close>

text \<open>
  C35: whatever the hash function and the number of shards, a sharded map answers every sequence of insert, get, erase,
  contains and size as one finite map does: splitting the keys over shards is not observable, and size counts every key
  once.
\<close>

theorem ShardedMap_refines:
  fixes hash :: "'k \<Rightarrow> nat" and ops :: "('k, 'v) map_op list"
  assumes "0 < n"
  shows "\<exists>m'. object_run (sharded_exec hash n) ops (sharded_new n) =
      Some (fst (spec_run map_spec ops (\<lambda>_. None)), m') \<and>
    sharded_abs hash n m' = snd (spec_run map_spec ops (\<lambda>_. None))"
proof -
  let ?m = "sharded_new n :: ('k, 'v) ShardedMap"
  have "sharded_inv hash n ?m" using assms by (simp add: sharded_inv_def sharded_new_def cm_new_def)
  moreover have "sharded_abs hash n ?m = (\<lambda>_. None)"
    by (simp add: sharded_abs_def sharded_new_def cm_new_def fun_eq_iff nth_replicate [OF getShard_less [OF assms]])
  ultimately show ?thesis using sharded.run_refines [of hash n ?m ops] by metis
qed

theorem ShardedMap_refines_witness:
  "\<exists>m'. object_run (sharded_exec (\<lambda>k. k) 2) [MInsert (1::nat) True, MInsert 3 False, MGet 1, MSize] (sharded_new 2) =
     Some ([MDone, MDone, MValue (Some True), MCount 2], m')"
  using ShardedMap_refines [of 2 "\<lambda>k. k" "[MInsert (1::nat) True, MInsert 3 False, MGet 1, MSize]"]
  by (auto simp: card_insert_if)


text \<open>Two threads miss the key 1 before either of them inserts it.\<close>

definition gi_raced :: "(nat, bool) gi_state" where
  "gi_raced = \<lparr> g_map = \<lparr> cm_map = [(1, True)] \<rparr>, g_threads = [GIdle, GIdle], g_returned = [(1, True), (1, True)], g_created = [1] \<rparr>"

lemma gi_raced_reachable: "gi_step\<^sup>*\<^sup>* (gi_init cm_new 2) gi_raced"
proof -
  let ?s = "\<lparr> g_map = cm_new, g_threads = [GIdle, GIdle], g_returned = [], g_created = [] \<rparr> :: (nat, bool) gi_state"
  let ?a = "?s\<lparr>g_threads := [GMissed 1, GIdle]\<rparr>" and ?b = "?s\<lparr>g_threads := [GMissed 1, GMissed 1]\<rparr>"
  let ?c = "?s\<lparr>g_map := \<lparr> cm_map = [(1, True)] \<rparr>, g_threads := [GMissed 1, GIdle], g_returned := [(1, True)], g_created := [1]\<rparr>"
  have "gi_step ?s ?a" using gi_miss [of 0 ?s 1] by (simp add: gi_check_def cm_new_def)
  moreover have "gi_step ?a ?b" using gi_miss [of 1 ?a 1] by (simp add: gi_check_def cm_new_def)
  moreover have "gi_step ?b ?c" using gi_second [of 1 ?b 1 True True True "\<lparr> cm_map = [(1, True)] \<rparr>"] by (simp add: gi_insert_def cm_new_def)
  moreover have "gi_step ?c gi_raced"
    using gi_second [of 0 ?c 1 False True False "\<lparr> cm_map = [(1, True)] \<rparr>"] by (simp add: gi_insert_def gi_raced_def)
  ultimately show ?thesis by (simp add: gi_init_def numeral_2_eq_2 converse_rtranclp_into_rtranclp)
qed


end
