(* ===== verification/UUID.thy ===== *)
theory UUID
  imports Prelude
begin

unbundle bit_operations_syntax

text \<open>
  The class \<open>UUID\<close> of \<^verbatim>\<open>include/darwincore/foundation/uuid/UUID.h\<close> and \<^verbatim>\<open>UUID.cpp\<close>. The two random numbers of
  \<open>generate\<close> are arguments. \<open>std::stoi\<close> and the hexadecimal output of streams are modelled as the standard
  describes them, white space, signs and prefixes included.
\<close>

section \<open>Numbers in base 16\<close>

definition hex_char :: "nat \<Rightarrow> char" where
  "hex_char d = ''0123456789abcdef'' ! d"

fun put_hex :: "nat \<Rightarrow> string" where
  "put_hex n = (if n < 16 then [hex_char n] else put_hex (n div 16) @ [hex_char (n mod 16)])"

declare put_hex.simps [simp del]

text \<open>\<open>std::setfill('0') << std::setw(2)\<close>\<close>

definition setw2 :: "string \<Rightarrow> string" where
  "setw2 s = replicate (2 - length s) (CHR ''0'') @ s"

definition isspace :: "char \<Rightarrow> bool" where
  "isspace c \<longleftrightarrow> (let n = (of_char c :: nat) in n = 32 \<or> 9 \<le> n \<and> n \<le> 13)"

definition hex_value :: "char \<Rightarrow> nat option" where
  "hex_value c =
     (let n = (of_char c :: nat)
      in if 48 \<le> n \<and> n \<le> 57 then Some (n - 48)
         else if 65 \<le> n \<and> n \<le> 70 then Some (n - 55)
         else if 97 \<le> n \<and> n \<le> 102 then Some (n - 87)
         else None)"

fun hex_number :: "nat \<Rightarrow> string \<Rightarrow> nat" where
  "hex_number acc [] = acc"
| "hex_number acc (c # cs) = (case hex_value c of None \<Rightarrow> acc | Some d \<Rightarrow> hex_number (16 * acc + d) cs)"

definition hex_prefix :: "string \<Rightarrow> string" where
  "hex_prefix s =
     (case s of
        a # x # c # cs \<Rightarrow> if a = CHR ''0'' \<and> (x = CHR ''x'' \<or> x = CHR ''X'') \<and> hex_value c \<noteq> None then c # cs else s
      | _ \<Rightarrow> s)"

text \<open>\<open>std::stoi(s, nullptr, 16)\<close>; None when it throws.\<close>

definition stoi16 :: "string \<Rightarrow> int option" where
  "stoi16 s =
     (let s = dropWhile isspace s;
          (sign, s) = (case s of c # cs \<Rightarrow> if c = CHR ''-'' then (- 1, cs) else if c = CHR ''+'' then (1, cs) else (1, s)
                       | [] \<Rightarrow> (1, s));
          s = hex_prefix s
      in case s of
           [] \<Rightarrow> None
         | c # cs \<Rightarrow>
             if hex_value c = None then None
             else
               let v = sign * int (hex_number 0 s)
               in if v < - (2 ^ 31) \<or> 2 ^ 31 \<le> v then None else Some v)"

section \<open>The class\<close>

record UUID =
  data_bytes :: bytes

definition UUID_nil :: UUID where
  "UUID_nil = \<lparr> data_bytes = replicate 16 0 \<rparr>"

definition generate :: "u64 \<Rightarrow> u64 \<Rightarrow> UUID" where
  "generate hi lo =
     (let hi = (hi AND 0xFFFFFFFFFFFF0FFF) OR 0x0000000000004000;
          lo = (lo AND 0x3FFFFFFFFFFFFFFF) OR 0x8000000000000000
      in \<lparr> data_bytes =
          map (\<lambda>s. ucast (drop_bit s hi AND 0xFF)) [56, 48, 40, 32, 24, 16, 8, 0] @
          map (\<lambda>s. ucast (drop_bit s lo AND 0xFF)) [56, 48, 40, 32, 24, 16, 8, 0] \<rparr>)"

fun parse_bytes :: "nat \<Rightarrow> nat \<Rightarrow> string \<Rightarrow> bytes option" where
  "parse_bytes 0 i clean = Some []"
| "parse_bytes (Suc n) i clean =
     (case stoi16 (take 2 (drop (i * 2) clean)) of
        None \<Rightarrow> None
      | Some v \<Rightarrow> map_option (Cons (word_of_int v)) (parse_bytes n (Suc i) clean))"

definition parse_uuid :: "string \<Rightarrow> UUID option" where
  "parse_uuid str =
     (let clean = filter (\<lambda>c. c \<noteq> CHR ''-'') str
      in if length clean \<noteq> 32 then None
         else map_option (\<lambda>bs. \<lparr> data_bytes = bs \<rparr>) (parse_bytes 16 0 clean))"

definition put_bytes :: "bytes \<Rightarrow> string" where
  "put_bytes bs = concat (map (\<lambda>b. setw2 (put_hex (unat b))) bs)"

definition uuid_toString :: "UUID \<Rightarrow> string" where
  "uuid_toString u =
     (let d = data_bytes u
      in put_bytes (take 4 d) @ ''-'' @ put_bytes (take 2 (drop 4 d)) @ ''-'' @ put_bytes (take 2 (drop 6 d)) @ ''-'' @
         put_bytes (take 2 (drop 8 d)) @ ''-'' @ put_bytes (take 6 (drop 10 d)))"

definition toCompactString :: "UUID \<Rightarrow> string" where
  "toCompactString u = put_bytes (data_bytes u)"

definition uuid_version :: "UUID \<Rightarrow> nat" where
  "uuid_version u = unat (drop_bit 4 (data_bytes u ! 6) AND 0x0F)"

definition uuid_variant :: "UUID \<Rightarrow> nat" where
  "uuid_variant u =
     (let b = data_bytes u ! 8
      in if b AND 0x80 = 0 then 0 else if b AND 0xC0 = 0x80 then 1 else if b AND 0xE0 = 0xC0 then 2 else 3)"

definition isNil :: "UUID \<Rightarrow> bool" where
  "isNil u \<longleftrightarrow> list_all (\<lambda>b. b = 0) (data_bytes u)"

definition uuid_hash :: "UUID \<Rightarrow> u64" where
  "uuid_hash u = foldl (\<lambda>h b. h * 31 + ucast b) 0 (data_bytes u)"

section \<open>Properties\<close>

lemma hex_char_facts:
  assumes "d < 16"
  shows "hex_value (hex_char d) = Some d" "\<not> isspace (hex_char d)" "hex_char d \<noteq> CHR ''-''" "hex_char d \<noteq> CHR ''+''"
proof -
  have "d = 0 \<or> d = 1 \<or> d = 2 \<or> d = 3 \<or> d = 4 \<or> d = 5 \<or> d = 6 \<or> d = 7 \<or> d = 8 \<or> d = 9 \<or> d = 10 \<or> d = 11 \<or> d = 12 \<or>
    d = 13 \<or> d = 14 \<or> d = 15"
    using assms by arith
  then have "hex_value (hex_char d) = Some d \<and> \<not> isspace (hex_char d) \<and> hex_char d \<noteq> CHR ''-'' \<and> hex_char d \<noteq> CHR ''+''"
    by (elim disjE) (simp_all add: hex_char_def hex_value_def isspace_def)
  then show "hex_value (hex_char d) = Some d" "\<not> isspace (hex_char d)" "hex_char d \<noteq> CHR ''-''" "hex_char d \<noteq> CHR ''+''"
    by blast+
qed

lemma byte_eqI:
  fixes a b :: u8
  assumes "bit a 0 = bit b 0" "bit a 1 = bit b 1" "bit a 2 = bit b 2" "bit a 3 = bit b 3"
    "bit a 4 = bit b 4" "bit a 5 = bit b 5" "bit a 6 = bit b 6" "bit a 7 = bit b 7"
  shows "a = b"
proof (rule bit_word_eqI)
  fix n :: nat assume "n < LENGTH(8)"
  then have "n = 0 \<or> n = 1 \<or> n = 2 \<or> n = 3 \<or> n = 4 \<or> n = 5 \<or> n = 6 \<or> n = 7" by simp arith
  with assms show "bit a n = bit b n" by (elim disjE) simp_all
qed

lemma unat_byte: "unat (b :: u8) < 256"
  using unsigned_less [where ?'a = nat, of b] by simp

lemma two_digits:
  assumes "n < 256"
  shows "setw2 (put_hex n) = [hex_char (n div 16), hex_char (n mod 16)]"
proof (cases "n < 16")
  case True
  then show ?thesis by (simp add: put_hex.simps [of n] setw2_def hex_char_def)
next
  case False
  moreover have "n div 16 < 16" using assms by (simp add: div_less_iff_less_mult)
  ultimately show ?thesis by (simp add: put_hex.simps [of n] put_hex.simps [of "n div 16"] setw2_def)
qed

lemma stoi16_digits:
  assumes "d < 16" and "e < 16"
  shows "stoi16 [hex_char d, hex_char e] = Some (int (16 * d + e))"
  using hex_char_facts [OF assms(1)] hex_char_facts [OF assms(2)] assms
  by (simp add: stoi16_def hex_prefix_def)

lemma stoi16_byte: "stoi16 (setw2 (put_hex (unat (b :: u8)))) = Some (int (unat b))"
proof -
  have "unat b < 256" by (rule unat_byte)
  then show ?thesis using stoi16_digits [of "unat b div 16" "unat b mod 16"] by (simp add: two_digits)
qed

lemma put_bytes_facts:
  "put_bytes (b # bs) = setw2 (put_hex (unat b)) @ put_bytes bs" "put_bytes (as @ bs) = put_bytes as @ put_bytes bs"
  "length (put_bytes bs) = 2 * length bs" "filter (\<lambda>c. c \<noteq> CHR ''-'') (put_bytes bs) = put_bytes bs"
proof -
  note s = unat_byte
  show "put_bytes (b # bs) = setw2 (put_hex (unat b)) @ put_bytes bs" "put_bytes (as @ bs) = put_bytes as @ put_bytes bs"
    by (simp_all add: put_bytes_def)
  show "length (put_bytes bs) = 2 * length bs" by (induction bs) (simp_all add: put_bytes_def two_digits s)
  have "hex_char (unat b div 16) \<noteq> CHR ''-''" "hex_char (unat b mod 16) \<noteq> CHR ''-''" for b :: u8
    using hex_char_facts [of "unat b div 16"] hex_char_facts [of "unat b mod 16"] s [of b] by auto
  then show "filter (\<lambda>c. c \<noteq> CHR ''-'') (put_bytes bs) = put_bytes bs"
    by (induction bs) (simp_all add: put_bytes_def two_digits s)
qed

lemma parse_pairs:
  assumes "list_all2 (\<lambda>p v. length p = 2 \<and> stoi16 p = Some v) ps vs" and "length pre = 2 * i"
  shows "parse_bytes (length ps) i (pre @ concat ps) = Some (map word_of_int vs)"
  using assms
proof (induction ps vs arbitrary: i pre rule: list_all2_induct)
  case (Cons p ps v vs)
  have "parse_bytes (length ps) (Suc i) ((pre @ p) @ concat ps) = Some (map word_of_int vs)"
    by (rule Cons.IH) (use Cons.prems Cons.hyps in simp)
  then show ?case using Cons.prems Cons.hyps by (simp add: mult.commute)
qed simp

lemma parse_put_bytes: "parse_bytes (length bs) 0 (put_bytes bs) = Some bs"
proof -
  have "list_all2 (\<lambda>p v. length p = 2 \<and> stoi16 p = Some v) (map (\<lambda>b. setw2 (put_hex (unat b))) bs) (map (\<lambda>b. int (unat b)) bs)"
    using stoi16_byte two_digits [OF unat_byte] by (auto simp: list_all2_conv_all_nth)
  from parse_pairs [OF this, of "[]" 0] show ?thesis by (simp add: put_bytes_def o_def)
qed

text \<open>
  C39: the text forms of an identifier are read back as the same identifier, in the standard form
  (36 characters) and in the compact form; a generated identifier has version 4 and the variant of RFC 4122, whatever the
  random numbers, and is not nil.
\<close>

theorem UUID_roundtrip:
  assumes "length (data_bytes u) = 16"
  shows "parse_uuid (uuid_toString u) = Some u \<and> parse_uuid (toCompactString u) = Some u \<and> length (uuid_toString u) = 36 \<and>
    uuid_version (generate hi lo) = 4 \<and> uuid_variant (generate hi lo) = 1 \<and> \<not> isNil (generate hi lo) \<and>
    length (data_bytes (generate hi lo)) = 16 \<and> isNil UUID_nil"
proof -
  obtain d where u: "u = \<lparr> data_bytes = d \<rparr>" by (cases u)
  have d: "length d = 16" using assms by (simp add: u)
  have parts: "take 4 d @ take 2 (drop 4 d) @ take 2 (drop 6 d) @ take 2 (drop 8 d) @ take 6 (drop 10 d) = d"
    using append_take_drop_id [of 4 d] append_take_drop_id [of 2 "drop 4 d"] append_take_drop_id [of 2 "drop 6 d"]
      append_take_drop_id [of 2 "drop 8 d"] d by simp
  have "parse_bytes 16 0 (put_bytes d) = Some d" using parse_put_bytes [of d] d by simp
  moreover have "filter (\<lambda>c. c \<noteq> CHR ''-'') (uuid_toString u) = put_bytes d"
    by (simp add: u uuid_toString_def Let_def put_bytes_facts(4) flip: put_bytes_facts(2)) (simp add: parts)
  ultimately have "parse_uuid (uuid_toString u) = Some u" "parse_uuid (toCompactString u) = Some u"
    using d by (simp_all add: parse_uuid_def toCompactString_def u put_bytes_facts)
  moreover have "length (uuid_toString u) = 36" using d by (simp add: u uuid_toString_def Let_def put_bytes_facts)
  moreover have v: "drop_bit 4 (data_bytes (generate hi lo) ! 6) AND 0x0F = 4"
    by (rule byte_eqI) (simp_all add: generate_def Let_def bit_simps)
  moreover have "data_bytes (generate hi lo) ! 8 AND 0xC0 = 0x80" "data_bytes (generate hi lo) ! 8 AND 0x80 = 0x80"
    by (rule byte_eqI; simp add: generate_def Let_def bit_simps)+
  moreover have "\<not> isNil (generate hi lo)"
  proof
    assume "isNil (generate hi lo)"
    then have "data_bytes (generate hi lo) ! 6 = 0" by (simp add: isNil_def generate_def Let_def)
    with v show False by simp
  qed
  moreover have "length (data_bytes (generate hi lo)) = 16" by (simp add: generate_def Let_def)
  moreover have "isNil UUID_nil" by (simp add: isNil_def UUID_nil_def list_all_iff)
  ultimately show ?thesis by (simp add: uuid_version_def uuid_variant_def)
qed

theorem UUID_roundtrip_witness:
  "parse_uuid (uuid_toString (generate 1 2)) = Some (generate 1 2) \<and> uuid_version (generate 1 2) = 4"
  using UUID_roundtrip [of "generate 1 2" 1 2] by (simp add: generate_def Let_def)

text \<open>
  \<open>parse\<close> leaves the digits to \<open>std::stoi\<close>, so it accepts signs, white space and trailing garbage in a pair, and
  hyphens anywhere: text that is not an identifier is read as one.
\<close>

theorem UUID_parse_lenient:
  "stoi16 [CHR ''+'', CHR ''1''] = Some 1 \<and> stoi16 [CHR ''-'', CHR ''1''] = Some (- 1) \<and> stoi16 ''1g'' = Some 1 \<and>
   stoi16 [CHR '' '', CHR ''1''] = Some 1 \<and> stoi16 ''0x'' = Some 0 \<and>
   parse_uuid (concat (replicate 16 ''+1'')) = Some \<lparr> data_bytes = replicate 16 1 \<rparr>"
proof -
  have s: "stoi16 [CHR ''+'', CHR ''1''] = Some 1"
    by (simp add: stoi16_def isspace_def hex_prefix_def hex_value_def)
  have "list_all2 (\<lambda>p v. length p = 2 \<and> stoi16 p = Some v) (replicate 16 ''+1'') (replicate 16 1)"
    using s by (simp add: list_all2_conv_all_nth)
  from parse_pairs [OF this, of "[]" 0]
  have "parse_bytes 16 0 (concat (replicate 16 ''+1'')) = Some (replicate 16 1)" by simp
  moreover have "filter (\<lambda>c. c \<noteq> CHR ''-'') (concat (replicate n ''+1'')) = concat (replicate n ''+1'')" for n
    by (induction n) simp_all
  moreover have "length (concat (replicate 16 ''+1'')) = 32" by (simp add: length_concat sum_list_replicate)
  ultimately have "parse_uuid (concat (replicate 16 ''+1'')) = Some \<lparr> data_bytes = replicate 16 1 \<rparr>"
    by (simp add: parse_uuid_def)
  then show ?thesis using s by (simp add: stoi16_def isspace_def hex_prefix_def hex_value_def)
qed

end
