(* ===== verification/StringUtils.thy ===== *)
theory StringUtils
  imports Prelude "HOL-Library.Sublist"
begin

unbundle bit_operations_syntax

text \<open>
  The string functions of \<^verbatim>\<open>include/darwincore/foundation/string/StringUtils.h\<close> and \<^verbatim>\<open>StringUtils.cpp\<close> and the class
  \<open>StringBuilder\<close>. Strings are lists of characters; \<open>substr\<close> beyond the end throws \<open>out_of_range\<close>. The functions
  on formats call the C library and are left out, as are the changes of case, which depend on the locale.
\<close>

section \<open>Searching in strings\<close>

datatype string_error = string_out_of_range

fun find_first_of :: "string \<Rightarrow> string \<Rightarrow> nat option" where
  "find_first_of seps [] = None"
| "find_first_of seps (c # cs) = (if c \<in> set seps then Some 0 else map_option Suc (find_first_of seps cs))"

fun find_sub :: "string \<Rightarrow> string \<Rightarrow> nat option" where
  "find_sub target s =
     (if take (length target) s = target then Some 0
      else case s of [] \<Rightarrow> None | c # cs \<Rightarrow> map_option Suc (find_sub target cs))"

declare find_sub.simps [simp del]

text \<open>\<open>str.find(target, begin)\<close>\<close>

definition find_from :: "string \<Rightarrow> string \<Rightarrow> nat \<Rightarrow> nat option" where
  "find_from str target start = map_option (\<lambda>i. start + i) (find_sub target (drop start str))"

definition substr_from :: "string \<Rightarrow> nat \<Rightarrow> string_error + string" where
  "substr_from s pos = (if length s < pos then Inl string_out_of_range else Inr (drop pos s))"

section \<open>The functions\<close>

lemma find_first_of_Some: "find_first_of seps s = Some i \<Longrightarrow> i < length s \<and> seps \<noteq> []"
  by (induction s arbitrary: i) (auto split: if_splits)

function split_loop :: "string \<Rightarrow> string \<Rightarrow> string list \<Rightarrow> string_error + string list" where
  "split_loop separator tmpStr result =
     (case find_first_of separator tmpStr of
        None \<Rightarrow> Inr (result @ [tmpStr])
      | Some iter \<Rightarrow>
          let substr = take iter tmpStr;
              result = (if substr \<noteq> [] then result @ [substr] else result)
          in case substr_from tmpStr (iter + length separator) of
               Inl e \<Rightarrow> Inl e
             | Inr rest \<Rightarrow> if rest = [] then Inr result else split_loop separator rest result)"
  by pat_completeness auto
termination
  by (relation "measure (\<lambda>(separator, tmpStr, result). length tmpStr)")
    (auto simp: substr_from_def dest: find_first_of_Some split: if_splits)

declare split_loop.simps [simp del]

definition su_split :: "string \<Rightarrow> string \<Rightarrow> string_error + string list" where
  "su_split str separator = (if separator = [] \<or> str = [] then Inr [] else split_loop separator str [])"

definition su_join :: "string list \<Rightarrow> string \<Rightarrow> string" where
  "su_join array separator =
     (if array = [] then []
      else concat (map (\<lambda>i. array ! i @ separator) [0..<length array - 1]) @ array ! (length array - 1))"

definition hasPrefix :: "string \<Rightarrow> string \<Rightarrow> bool" where
  "hasPrefix str pre \<longleftrightarrow> length pre \<le> length str \<and> take (length pre) str = pre"

definition hasSuffix :: "string \<Rightarrow> string \<Rightarrow> bool" where
  "hasSuffix str suf \<longleftrightarrow> length suf \<le> length str \<and> take (length suf) (drop (length str - length suf) str) = suf"

partial_function (option) replace_loop :: "string \<Rightarrow> string \<Rightarrow> string \<Rightarrow> nat \<Rightarrow> string \<Rightarrow> string option" where
  "replace_loop str target subst start ret =
     (case find_from str target start of
        None \<Rightarrow> Some (if start < length str then ret @ drop start str else ret)
      | Some pos \<Rightarrow>
          replace_loop str target subst (pos + length target) (ret @ take (pos - start) (drop start str) @ subst))"

definition su_replace :: "string \<Rightarrow> string \<Rightarrow> string \<Rightarrow> string option" where
  "su_replace str target subst =
     (if str = [] \<or> target = [] \<or> subst = [] then Some str else replace_loop str target subst 0 [])"

fun escape_loop :: "string \<Rightarrow> string \<Rightarrow> string" where
  "escape_loop [] result = result"
| "escape_loop (c # cs) result = escape_loop cs (if c = CHR ''%'' then result @ ''%%'' else result @ [c])"

definition escapePercent :: "string \<Rightarrow> string" where
  "escapePercent str = escape_loop str []"

function byte2utf8_loop :: "bytes \<Rightarrow> nat \<Rightarrow> bytes \<Rightarrow> bytes" where
  "byte2utf8_loop buffer i utf8 =
     (if i < length buffer then
        let ch = buffer ! i
        in if ch < 0x80 then byte2utf8_loop buffer (i + 1) (utf8 @ [ch])
           else if ch < 0xE0 then
             byte2utf8_loop buffer (i + 2)
               (if i + 1 < length buffer then utf8 @ [drop_bit 6 ch OR 0xC0, (ch AND 0x3F) OR 0x80] else utf8)
           else if ch < 0xF0 then
             byte2utf8_loop buffer (i + 3)
               (if i + 2 < length buffer
                then utf8 @ [drop_bit 12 ch OR 0xE0, (drop_bit 6 ch AND 0x3F) OR 0x80, (ch AND 0x3F) OR 0x80] else utf8)
           else byte2utf8_loop buffer (i + 1) utf8
      else utf8)"
  by pat_completeness auto
termination by (relation "measure (\<lambda>(buffer, i, utf8). length buffer - i)") auto

declare byte2utf8_loop.simps [simp del]

definition byte2utf8string :: "bytes \<Rightarrow> bytes" where
  "byte2utf8string buffer = byte2utf8_loop buffer 0 []"

section \<open>StringBuilder\<close>

record StringBuilder =
  sb_text :: string

definition sb_append :: "string \<Rightarrow> StringBuilder \<Rightarrow> StringBuilder" where
  "sb_append str b = b\<lparr>sb_text := sb_text b @ str\<rparr>"

definition sb_append_cstr :: "string option \<Rightarrow> StringBuilder \<Rightarrow> StringBuilder" where
  "sb_append_cstr str b = (case str of None \<Rightarrow> b | Some s \<Rightarrow> b\<lparr>sb_text := sb_text b @ s\<rparr>)"

definition sb_append_chars :: "char \<Rightarrow> nat \<Rightarrow> StringBuilder \<Rightarrow> StringBuilder" where
  "sb_append_chars c n b = b\<lparr>sb_text := sb_text b @ replicate n c\<rparr>"

definition sb_append_bool :: "bool \<Rightarrow> StringBuilder \<Rightarrow> StringBuilder" where
  "sb_append_bool v b = b\<lparr>sb_text := sb_text b @ (if v then ''true'' else ''false'')\<rparr>"

definition sb_appendLine :: "string \<Rightarrow> StringBuilder \<Rightarrow> StringBuilder" where
  "sb_appendLine str b = b\<lparr>sb_text := sb_text b @ str @ [CHR 0x0A]\<rparr>"

definition sb_insert :: "nat \<Rightarrow> string \<Rightarrow> StringBuilder \<Rightarrow> StringBuilder" where
  "sb_insert pos str b =
     (if pos \<le> length (sb_text b) then b\<lparr>sb_text := take pos (sb_text b) @ str @ drop pos (sb_text b)\<rparr> else b)"

definition sb_replace :: "nat \<Rightarrow> nat \<Rightarrow> string \<Rightarrow> StringBuilder \<Rightarrow> StringBuilder" where
  "sb_replace pos len str b =
     (if pos \<le> length (sb_text b) then b\<lparr>sb_text := take pos (sb_text b) @ str @ drop (pos + len) (sb_text b)\<rparr> else b)"

fun sb_join_loop :: "string list \<Rightarrow> string \<Rightarrow> bool \<Rightarrow> StringBuilder \<Rightarrow> StringBuilder" where
  "sb_join_loop [] separator first b = b"
| "sb_join_loop (item # items) separator first b =
     sb_join_loop items separator False (sb_append item (if first then b else sb_append separator b))"

definition sb_join :: "string list \<Rightarrow> string \<Rightarrow> StringBuilder \<Rightarrow> StringBuilder" where
  "sb_join items separator b = sb_join_loop items separator True b"

definition sb_clear :: "StringBuilder \<Rightarrow> StringBuilder" where
  "sb_clear b = b\<lparr>sb_text := []\<rparr>"

definition sb_removeLast :: "nat \<Rightarrow> StringBuilder \<Rightarrow> StringBuilder" where
  "sb_removeLast n b =
     (if n \<le> length (sb_text b) then b\<lparr>sb_text := take (length (sb_text b) - n) (sb_text b)\<rparr> else b)"

definition white :: "char \<Rightarrow> bool" where
  "white c \<longleftrightarrow> c \<in> {CHR '' '', CHR 0x09, CHR 0x0A, CHR 0x0D}"

definition find_first_not :: "string \<Rightarrow> nat option" where
  "find_first_not s = (let n = length (takeWhile white s) in if n = length s then None else Some n)"

definition find_last_not :: "string \<Rightarrow> nat option" where
  "find_last_not s = (let n = length (takeWhile white (rev s)) in if n = length s then None else Some (length s - 1 - n))"

definition sb_trim :: "StringBuilder \<Rightarrow> StringBuilder" where
  "sb_trim b =
     (case find_first_not (sb_text b) of
        None \<Rightarrow> b\<lparr>sb_text := []\<rparr>
      | Some start \<Rightarrow>
          (case find_last_not (sb_text b) of
             None \<Rightarrow> b
           | Some end_pos \<Rightarrow> b\<lparr>sb_text := take (end_pos - start + 1) (drop start (sb_text b))\<rparr>))"

section \<open>Splitting\<close>

text \<open>The fields of a string between the occurrences of one character.\<close>

fun split_on :: "char \<Rightarrow> string \<Rightarrow> string list" where
  "split_on c [] = [[]]"
| "split_on c (x # xs) = (if x = c then [] # split_on c xs else (x # hd (split_on c xs)) # tl (split_on c xs))"

lemma split_on_nonempty [simp]: "split_on c s \<noteq> []"
  by (cases s) auto

lemma split_on_find:
  "find_first_of [c] s = None \<Longrightarrow> split_on c s = [s]"
  "find_first_of [c] s = Some i \<Longrightarrow> split_on c s = take i s # split_on c (drop (Suc i) s)"
  by (induction s arbitrary: i) (auto split: if_splits)

lemma split_loop_on:
  "s \<noteq> [] \<Longrightarrow> split_loop [c] s result = Inr (result @ filter (\<lambda>f. f \<noteq> []) (split_on c s))"
proof (induction "[c]" s result rule: split_loop.induct)
  case (1 s result)
  show ?case
  proof (cases "find_first_of [c] s")
    case None
    then show ?thesis using 1(2) by (simp add: split_loop.simps split_on_find(1))
  next
    case (Some i)
    have i: "i < length s" using find_first_of_Some [OF Some] by simp
    let ?result = "if take i s \<noteq> [] then result @ [take i s] else result"
    have "substr_from s (i + length [c]) = Inr (drop (Suc i) s)" using i by (simp add: substr_from_def)
    then show ?thesis
      using 1(1) [OF Some refl refl, of "drop (Suc i) s"] i
      by (subst split_loop.simps) (auto simp: Some split_on_find(2) [OF Some] Let_def)
  qed
qed

lemma split_on_clean: "c \<notin> set f \<Longrightarrow> split_on c (f @ c # rest) = f # split_on c rest" "c \<notin> set f \<Longrightarrow> split_on c f = [f]"
  by (induction f) auto

lemma split_on_no_sep: "f \<in> set (split_on c s) \<Longrightarrow> c \<notin> set f"
  by (induction s arbitrary: f) (auto dest: list.set_sel(2) [OF split_on_nonempty] split: if_splits)

lemma su_join_Cons: "su_join (x # y # xs) sep = x @ sep @ su_join (y # xs) sep"
proof -
  have "[0..<length (y # xs)] = 0 # map Suc [0..<length xs]" by (simp add: upt_conv_Cons map_Suc_upt del: upt_Suc)
  then show ?thesis by (simp add: su_join_def o_def del: upt_Suc)
qed

lemma su_join_single [simp]: "su_join [x] sep = x"
  by (simp add: su_join_def)

lemma split_on_join:
  assumes "xs \<noteq> []" and "\<And>x. x \<in> set xs \<Longrightarrow> c \<notin> set x"
  shows "split_on c (su_join xs [c]) = xs"
  using assms
proof (induction xs rule: induct_list012)
  case (3 x y zs)
  then show ?case by (simp add: su_join_Cons split_on_clean)
qed (simp_all add: split_on_clean)

lemma sb_join_loop_eq:
  "sb_text (sb_join_loop items sep False b) = sb_text b @ concat (map (\<lambda>x. sep @ x) items)"
  by (induction items arbitrary: b) (simp_all add: sb_append_def)

lemma sb_join_eq: "sb_text (sb_join items sep b) = sb_text b @ su_join items sep"
proof (cases items)
  case (Cons x xs)
  have "su_join (x # xs) sep = x @ concat (map (\<lambda>x. sep @ x) xs)"
    by (induction xs arbitrary: x) (simp_all add: su_join_Cons)
  then show ?thesis by (simp add: Cons sb_join_def sb_join_loop_eq sb_append_def)
qed (simp add: sb_join_def su_join_def)

section \<open>Replacing\<close>

function replace_all :: "string \<Rightarrow> string \<Rightarrow> string \<Rightarrow> string" where
  "replace_all target subst s =
     (if s = [] \<or> target = [] then s
      else if take (length target) s = target then subst @ replace_all target subst (drop (length target) s)
      else hd s # replace_all target subst (tl s))"
  by pat_completeness auto
termination by (relation "measure (\<lambda>(target, subst, s). length s)") auto

declare replace_all.simps [simp del]

lemma find_sub_None: "find_sub target s = None \<Longrightarrow> replace_all target subst s = s"
proof (induction s)
  case Nil
  then show ?case by (simp add: replace_all.simps)
next
  case (Cons c cs)
  then show ?case by (subst replace_all.simps, subst (asm) find_sub.simps) (auto split: if_splits)
qed

lemma find_sub_Some:
  "find_sub target s = Some i \<Longrightarrow> target \<noteq> [] \<Longrightarrow> i + length target \<le> length s \<and>
     replace_all target subst s = take i s @ subst @ replace_all target subst (drop (i + length target) s)"
proof (induction s arbitrary: i)
  case Nil
  then show ?case by (simp add: find_sub.simps)
next
  case (Cons c cs)
  show ?case
  proof (cases "take (length target) (c # cs) = target")
    case True
    then have "length target \<le> length (c # cs)" by (metis length_take min.cobounded1)
    moreover have "i = 0" using Cons.prems True by (simp add: find_sub.simps)
    ultimately show ?thesis using True Cons.prems(2) by (subst replace_all.simps) simp
  next
    case False
    then obtain j where "find_sub target cs = Some j" "i = Suc j"
      using Cons.prems by (subst (asm) find_sub.simps) (auto split: if_splits)
    then show ?thesis using Cons.IH [of j] Cons.prems(2) False by (subst replace_all.simps) simp
  qed
qed

lemma replace_loop_eq:
  assumes "target \<noteq> []" and "start \<le> length str"
  shows "replace_loop str target subst start ret = Some (ret @ replace_all target subst (drop start str))"
  using assms(2)
proof (induction "length str - start" arbitrary: start ret rule: less_induct)
  case less
  show ?case
  proof (cases "find_sub target (drop start str)")
    case None
    then show ?thesis
      using less.prems by (subst replace_loop.simps) (auto simp: find_from_def find_sub_None)
  next
    case (Some i)
    note s = find_sub_Some [OF Some assms(1), of subst]
    have t: "0 < length target" using assms(1) by simp
    have b: "start + i + length target \<le> length str" using conjunct1 [OF s] less.prems by simp
    have "replace_loop str target subst (start + i + length target) (ret @ take i (drop start str) @ subst) =
        Some ((ret @ take i (drop start str) @ subst) @ replace_all target subst (drop (start + i + length target) str))"
      by (rule less.hyps) (use b t in linarith)+
    then show ?thesis
      using s by (subst replace_loop.simps) (simp add: find_from_def Some ac_simps)
  qed
qed

lemma escape_loop_eq: "escape_loop s result = result @ concat (map (\<lambda>c. if c = CHR ''%'' then ''%%'' else [c]) s)"
  by (induction s arbitrary: result) auto

lemma replace_percent: "replace_all ''%'' ''%%'' s = concat (map (\<lambda>c. if c = CHR ''%'' then ''%%'' else [c]) s)"
proof (induction s)
  case (Cons c cs)
  then show ?case by (subst replace_all.simps) simp
qed (simp add: replace_all.simps)

section \<open>Trimming\<close>

lemma trim_eq: "sb_text (sb_trim b) = rev (dropWhile white (rev (dropWhile white (sb_text b))))"
proof (cases "list_all white (sb_text b)")
  case True
  then have w: "dropWhile white (sb_text b) = []" "takeWhile white (sb_text b) = sb_text b"
    by (simp_all add: list_all_iff)
  have "find_first_not (sb_text b) = None" by (simp only: find_first_not_def w(2) Let_def if_True refl)
  then show ?thesis by (simp add: sb_trim_def w(1))
next
  case False
  define s r where "s = sb_text b" and "r = dropWhile white s"
  let ?p = "takeWhile white s" and ?n = "length (takeWhile white (rev r))"
  have s: "s = ?p @ r" by (simp add: r_def)
  obtain x where x: "x \<in> set s" "\<not> white x" using False by (auto simp: s_def list_all_iff)
  have "x \<in> set r" using x s set_takeWhileD [of x white s] by (metis Un_iff set_append)
  then have tw: "takeWhile white (rev s) = takeWhile white (rev r)"
    using x(2) by (subst s) (simp add: takeWhile_append1)
  have n: "?n < length r"
  proof -
    have "takeWhile white (rev r) \<noteq> rev r" using \<open>x \<in> set r\<close> x(2) by (metis set_rev set_takeWhileD)
    then have "?n \<noteq> length r" by (metis length_rev take_all_iff takeWhile_eq_take order_refl)
    then show ?thesis using length_takeWhile_le [of white "rev r"] by simp
  qed
  have len: "length s = length ?p + length r" using arg_cong [OF s, of length] by simp
  have "find_first_not s = Some (length ?p)" using len n by (auto simp: find_first_not_def Let_def)
  moreover have "find_last_not s = Some (length s - 1 - ?n)"
    using n len by (auto simp: find_last_not_def Let_def tw)
  moreover have "length s - 1 - ?n - length ?p + 1 = length r - ?n" using n len by simp
  moreover have "drop (length ?p) s = r" by (metis append_eq_conv_conj s)
  moreover have "rev (dropWhile white (rev r)) = take (length r - ?n) r"
    by (simp add: dropWhile_eq_drop rev_drop)
  ultimately show ?thesis by (simp add: sb_trim_def flip: s_def r_def)
qed

section \<open>Properties\<close>

text \<open>
  with a separator of one character, \<open>split\<close> returns the non-empty fields of the string, in order, so
  splitting what \<open>join\<close> put together gives the parts back; \<open>hasPrefix\<close> and \<open>hasSuffix\<close> decide what their names say. The
  builder's \<open>join\<close> appends what \<open>join\<close> returns.
\<close>

theorem StringUtils_split_join:
  assumes "\<forall>x\<in>set xs. x \<noteq> [] \<and> c \<notin> set x"
  shows "su_split (su_join xs [c]) [c] = Inr xs \<and> su_split s [c] = Inr (filter (\<lambda>f. f \<noteq> []) (split_on c s)) \<and>
    (hasPrefix s p \<longleftrightarrow> prefix p s) \<and> (hasSuffix s p \<longleftrightarrow> suffix p s) \<and>
    sb_text (sb_join xs p b) = sb_text b @ su_join xs p"
proof -
  have split: "su_split s [c] = Inr (filter (\<lambda>f. f \<noteq> []) (split_on c s))" for s
    by (cases "s = []") (simp_all add: su_split_def split_loop_on)
  have "su_split (su_join xs [c]) [c] = Inr xs"
  proof (cases "xs = []")
    case True
    then show ?thesis by (simp add: su_split_def su_join_def)
  next
    case False
    then show ?thesis using assms by (simp add: split split_on_join filter_id_conv)
  qed
  moreover have "hasPrefix s p \<longleftrightarrow> prefix p s"
    by (auto simp: hasPrefix_def prefix_def) (metis append_take_drop_id)
  moreover have "hasSuffix s p \<longleftrightarrow> suffix p s"
    by (auto simp: hasSuffix_def suffix_def) (metis append_take_drop_id)
  ultimately show ?thesis using split sb_join_eq by blast
qed

theorem StringUtils_split_join_witness:
  "su_split ''usr//lib'' ''/'' = Inr [''usr'', ''lib''] \<and> su_split (su_join [''a'', ''b''] ''/'') ''/'' = Inr [''a'', ''b'']"
  using StringUtils_split_join [of "[''a'', ''b'']" "CHR ''/''" "''usr//lib''" "[]"] by simp

text \<open>
  \<open>replace\<close> returns, with all occurrences replaced from left to right, also when the replacement contains the
  target; \<open>escapePercent\<close> is the replacement of \<open>%\<close> by \<open>%%\<close>; \<open>trim\<close> takes away the white space at both ends.
\<close>

theorem StringUtils_replace:
  assumes "target \<noteq> []" and "subst \<noteq> []"
  shows "su_replace str target subst = Some (replace_all target subst str) \<and>
    su_replace str ''%'' ''%%'' = Some (escapePercent str) \<and>
    sb_text (sb_trim b) = rev (dropWhile white (rev (dropWhile white (sb_text b))))"
proof -
  have "su_replace str t w = Some (replace_all t w str)" if "t \<noteq> []" "w \<noteq> []" for t w
    using replace_loop_eq [of t 0 str w "[]"] that replace_all.simps [of t w "[]"] by (auto simp: su_replace_def)
  then show ?thesis using assms by (simp add: trim_eq replace_percent escapePercent_def escape_loop_eq)
qed

theorem StringUtils_replace_witness:
  "su_replace ''abcab'' ''ab'' ''xab'' = Some ''xabcxab'' \<and> escapePercent ''5%'' = ''5%%''"
  using StringUtils_replace [of "''ab''" "''xab''" "''abcab''"] by (simp add: replace_all.simps escapePercent_def)

text \<open>
  \<open>split\<close> looks for any character of the separator but skips as many characters as the separator
  has, so a separator of several characters loses text and, near the end, throws; \<open>byte2utf8string\<close>
  copies ASCII but encodes the first byte of a longer character and drops the others.
\<close>

theorem StringUtils_defects:
  "su_split ''a,b'' '', '' = Inr [''a''] \<and> su_split ''a,'' '', '' = Inl string_out_of_range \<and>
   byte2utf8string [0xC3, 0xA9] = [0xC3, 0x83] \<and> byte2utf8string [0x61, 0x62] = [0x61, 0x62] \<and>
   su_replace ''ab'' ''b'' '''' = Some ''ab''"
  by (simp add: su_split_def split_loop.simps substr_from_def byte2utf8string_def byte2utf8_loop.simps su_replace_def)

end
