(* ===== verification/FilePath.thy ===== *)
theory FilePath
  imports StringUtils
begin

text \<open>
  The class \<open>FilePath\<close> of \<^verbatim>\<open>include/darwincore/foundation/file/FilePath.h\<close> and \<^verbatim>\<open>FilePath.cpp\<close>: a path as the list of
  its components, built on \<open>StringUtils::split\<close>.
\<close>

section \<open>State and operations\<close>

record FilePath =
  mPathComponents :: "string list"

fun extract_loop :: "string list \<Rightarrow> string list \<Rightarrow> string list" where
  "extract_loop [] stack = stack"
| "extract_loop (name # names) stack =
     (if name = [] then extract_loop names stack
      else if name = ''..'' \<and> stack \<noteq> [] then extract_loop names (butlast stack)
      else if name \<noteq> ''.'' then extract_loop names (stack @ [name])
      else extract_loop names stack)"

definition extractPathComponents :: "string \<Rightarrow> string_error + string list" where
  "extractPathComponents path =
     (case su_split path ''/'' of Inl e \<Rightarrow> Inl e | Inr names \<Rightarrow> Inr (extract_loop names []))"

definition FilePath_ctor :: "string \<Rightarrow> string_error + FilePath" where
  "FilePath_ctor path =
     (case extractPathComponents path of Inl e \<Rightarrow> Inl e | Inr names \<Rightarrow> Inr \<lparr> mPathComponents = names \<rparr>)"

definition assemblyPath :: "string list \<Rightarrow> string" where
  "assemblyPath components = foldl (\<lambda>path name. path @ ''/'' @ name) '''' components"

definition fp_toString :: "FilePath \<Rightarrow> string" where
  "fp_toString p = (if mPathComponents p = [] then '''' else assemblyPath (mPathComponents p))"

definition displayName :: "FilePath \<Rightarrow> string" where
  "displayName p = (if mPathComponents p = [] then '''' else last (mPathComponents p))"

definition find_last_of :: "char \<Rightarrow> string \<Rightarrow> nat option" where
  "find_last_of c s = (if c \<in> set s then Some (length s - 1 - length (takeWhile (\<lambda>x. x \<noteq> c) (rev s))) else None)"

definition extensionName :: "FilePath \<Rightarrow> string" where
  "extensionName p =
     (let fname = displayName p
      in case find_last_of (CHR ''.'') fname of
           None \<Rightarrow> ''''
         | Some iter \<Rightarrow> if iter = length fname - 1 then '''' else drop (iter + 1) fname)"

definition fp_name :: "FilePath \<Rightarrow> string" where
  "fp_name p =
     (let fname = displayName p
      in case find_last_of (CHR ''.'') fname of
           None \<Rightarrow> fname
         | Some iter \<Rightarrow> if iter = length fname - 1 then fname else take iter fname)"

definition parentDir :: "FilePath \<Rightarrow> string" where
  "parentDir p =
     (if mPathComponents p = [] then ''''
      else if length (mPathComponents p) = 1 then ''/''
      else assemblyPath (butlast (mPathComponents p)))"

definition fp_append :: "string \<Rightarrow> FilePath \<Rightarrow> string" where
  "fp_append name p = fp_toString p @ ''/'' @ name"

definition fp_parent :: "FilePath \<Rightarrow> string_error + FilePath" where
  "fp_parent p =
     (if mPathComponents p = [] then FilePath_ctor ''''
      else if length (mPathComponents p) = 1 then FilePath_ctor ''/''
      else Inr \<lparr> mPathComponents = butlast (mPathComponents p) \<rparr>)"

definition appendNode :: "string \<Rightarrow> FilePath \<Rightarrow> FilePath" where
  "appendNode name p =
     (if name \<noteq> [] then \<lparr> mPathComponents = mPathComponents p @ [name] \<rparr> else \<lparr> mPathComponents = mPathComponents p \<rparr>)"

section \<open>Normal paths\<close>

definition component :: "string \<Rightarrow> bool" where
  "component n \<longleftrightarrow> n \<noteq> [] \<and> CHR ''/'' \<notin> set n"

definition normal_path :: "string list \<Rightarrow> bool" where
  "normal_path ns \<longleftrightarrow> list_all (\<lambda>n. component n \<and> n \<noteq> ''.'') ns \<and> ''..'' \<notin> set (tl ns)"

text \<open>What a path means, from the root on.\<close>

fun resolve :: "string list \<Rightarrow> string list \<Rightarrow> string list" where
  "resolve [] at = at"
| "resolve (n # ns) at =
     resolve ns (if n = '''' \<or> n = ''.'' then at else if n = ''..'' then butlast at else at @ [n])"

lemma split_slash: "su_split path ''/'' = Inr (filter (\<lambda>n. n \<noteq> []) (split_on (CHR ''/'') path))"
  by (cases "path = []") (simp_all add: su_split_def split_loop_on)

lemma extract_components: "extractPathComponents path = Inr (extract_loop (split_on (CHR ''/'') path) [])"
proof -
  have "extract_loop (filter (\<lambda>n. n \<noteq> []) ns) st = extract_loop ns st" for ns st
    by (induction ns arbitrary: st) auto
  then show ?thesis by (simp add: extractPathComponents_def split_slash)
qed

lemma tl_butlast_set: "set (tl (butlast xs)) \<subseteq> set (tl xs)"
  by (cases xs) (auto dest: in_set_butlastD)

lemma extract_normal:
  assumes "\<And>n. n \<in> set names \<Longrightarrow> CHR ''/'' \<notin> set n" and "normal_path st"
  shows "normal_path (extract_loop names st)"
  using assms
proof (induction names arbitrary: st)
  case (Cons n ns)
  have "normal_path (butlast st)"
    using Cons.prems(2) tl_butlast_set [of st] by (auto simp: normal_path_def list_all_iff dest: in_set_butlastD)
  moreover have "normal_path (st @ [n])" if "n \<noteq> []" "n \<noteq> ''.''" "n = ''..'' \<longrightarrow> st = []"
    using that Cons.prems by (cases st) (auto simp: normal_path_def component_def)
  ultimately show ?case using Cons by auto
qed simp

lemma extract_id: "normal_path (st @ ns) \<Longrightarrow> extract_loop ns st = st @ ns"
proof (induction ns arbitrary: st)
  case (Cons n ns)
  have "n \<noteq> []" "n \<noteq> ''.''" "n = ''..'' \<longrightarrow> st = []"
    using Cons.prems by (cases st; auto simp: normal_path_def component_def)+
  then show ?case using Cons.IH [of "st @ [n]"] Cons.prems by auto
qed simp

lemma assembly_split:
  assumes "\<And>n. n \<in> set ns \<Longrightarrow> CHR ''/'' \<notin> set n"
  shows "split_on (CHR ''/'') (assemblyPath ns) = [] # ns"
proof -
  have "assemblyPath ns = concat (map (\<lambda>n. CHR ''/'' # n) ns)"
  proof -
    have "foldl (\<lambda>path name. path @ ''/'' @ name) p ns = p @ concat (map (\<lambda>n. CHR ''/'' # n) ns)" for p
      by (induction ns arbitrary: p) auto
    then show ?thesis by (simp add: assemblyPath_def)
  qed
  moreover have "split_on (CHR ''/'') (m @ concat (map (\<lambda>n. CHR ''/'' # n) ns)) = m # ns" if "CHR ''/'' \<notin> set m" for m
    using that assms by (induction ns arbitrary: m) (auto simp: split_on_clean)
  from this [of "[]"] have "split_on (CHR ''/'') (concat (map (\<lambda>n. CHR ''/'' # n) ns)) = [] # ns" by simp
  ultimately show ?thesis by simp
qed

lemma extract_resolve:
  "st = at \<or> st = ''..'' # at \<Longrightarrow>
     extract_loop ns st = resolve ns at \<or> extract_loop ns st = ''..'' # resolve ns at"
proof (induction ns arbitrary: st at)
  case (Cons n ns)
  have step: "extract_loop ns st' = resolve ns at' \<or> extract_loop ns st' = ''..'' # resolve ns at'"
    if "st' = at' \<or> st' = ''..'' # at'" for st' at'
    using Cons.IH [OF that] .
  consider "n = []" | "n = ''.''" | "n = ''..''" | "n \<noteq> []" "n \<noteq> ''.''" "n \<noteq> ''..''" by blast
  then show ?case
  proof cases
    case 1
    then show ?thesis using Cons.prems step by simp
  next
    case 2
    then show ?thesis using Cons.prems step by simp
  next
    case 3
    then show ?thesis using Cons.prems step [of "butlast st" "butlast at"] step [of "st @ [n]" "butlast at"] by (cases at) auto
  next
    case 4
    then show ?thesis using Cons.prems step [of "st @ [n]" "at @ [n]"] by auto
  qed
qed simp

lemma last_dot:
  assumes "find_last_of c s = Some i"
  shows "i < length s" "s = take i s @ c # drop (Suc i) s"
proof -
  let ?w = "takeWhile (\<lambda>x. x \<noteq> c) (rev s)" and ?d = "dropWhile (\<lambda>x. x \<noteq> c) (rev s)"
  have c: "c \<in> set (rev s)" and i: "i = length s - 1 - length ?w" using assms by (auto simp: find_last_of_def split: if_splits)
  then have "?d \<noteq> []" by auto
  then obtain r where d: "?d = c # r" using hd_dropWhile [of "\<lambda>x. x \<noteq> c" "rev s"] by (cases ?d) auto
  have "rev s = ?w @ c # r" using takeWhile_dropWhile_id [of "\<lambda>x. x \<noteq> c" "rev s"] d by simp
  then have s: "s = rev r @ c # rev ?w" by (metis append_Cons append_Nil append_assoc rev.simps(2) rev_append rev_rev_ident)
  then have "length s = length r + 1 + length ?w" by (metis One_nat_def add.commute add_Suc_right length_Cons length_append length_rev plus_1_eq_Suc add.left_commute)
  with i have il: "i = length r" by simp
  then show "i < length s" using \<open>length s = _\<close> by simp
  show "s = take i s @ c # drop (Suc i) s" using s il by (metis append_eq_conv_conj id_take_nth_drop length_rev nth_append_length \<open>i < length s\<close>)
qed

section \<open>Properties\<close>

text \<open>
  the constructor accepts every path and keeps a normal form of it: no empty component, no slash, no
  \<open>.\<close>, and \<open>..\<close> at most in front. The components are those of the place the path leads to from the root, except
  for that \<open>..\<close>; printing a path and reading it again changes nothing; the parent of a path extended by a
  name is the path, and a name with an extension is what is before and after its last dot.
\<close>

theorem FilePath_normal:
  assumes "name \<noteq> []"
  shows "\<exists>p. FilePath_ctor path = Inr p \<and> normal_path (mPathComponents p) \<and> FilePath_ctor (fp_toString p) = Inr p \<and>
    (let r = resolve (split_on (CHR ''/'') path) [] in mPathComponents p = r \<or> mPathComponents p = ''..'' # r) \<and>
    fp_parent (appendNode name p) = Inr p \<and>
    (extensionName p \<noteq> [] \<longrightarrow> displayName p = fp_name p @ ''.'' @ extensionName p)"
proof -
  define ns where "ns = extract_loop (split_on (CHR ''/'') path) []"
  let ?p = "\<lparr> mPathComponents = ns \<rparr>"
  have normal: "normal_path ns"
    unfolding ns_def by (rule extract_normal) (auto simp: normal_path_def dest: split_on_no_sep)
  have ctor: "FilePath_ctor path = Inr ?p" by (simp add: FilePath_ctor_def extract_components ns_def)
  have "FilePath_ctor (fp_toString ?p) = Inr ?p"
  proof (cases "ns = []")
    case True
    then show ?thesis by (simp add: fp_toString_def FilePath_ctor_def extract_components)
  next
    case False
    have "split_on (CHR ''/'') (assemblyPath ns) = [] # ns"
      by (rule assembly_split) (use normal in \<open>auto simp: normal_path_def component_def list_all_iff\<close>)
    then show ?thesis using False extract_id [of "[]" ns] normal by (simp add: fp_toString_def FilePath_ctor_def extract_components)
  qed
  moreover have "fp_parent (appendNode name ?p) = Inr ?p"
  proof (cases "ns = []")
    case True
    then show ?thesis using assms by (simp add: fp_parent_def appendNode_def FilePath_ctor_def extract_components)
  qed (use assms in \<open>simp add: fp_parent_def appendNode_def\<close>)
  moreover have "displayName ?p = fp_name ?p @ ''.'' @ extensionName ?p" if "extensionName ?p \<noteq> []"
    using that last_dot(2) [of "CHR ''.''" "displayName ?p"]
    by (auto simp: fp_name_def extensionName_def Let_def split: option.splits if_splits)
  moreover have "ns = resolve (split_on (CHR ''/'') path) [] \<or> ns = ''..'' # resolve (split_on (CHR ''/'') path) []"
    unfolding ns_def by (rule extract_resolve) simp
  ultimately show ?thesis using ctor normal by (intro exI [of _ ?p]) (simp add: Let_def)
qed

theorem FilePath_normal_witness:
  "\<exists>p. FilePath_ctor ''/usr/./local/../lib'' = Inr p \<and> fp_parent (appendNode ''a.txt'' p) = Inr p"
  using FilePath_normal [of "''a.txt''" "''/usr/./local/../lib''"] by blast

text \<open>
  a \<open>..\<close> above the root stays in the path, and a second one takes it away again; the root is printed as
  the empty string, and a relative path as an absolute one.
\<close>

theorem FilePath_defects:
  "FilePath_ctor ''/../a'' = Inr \<lparr> mPathComponents = [''..'', ''a''] \<rparr> \<and>
   FilePath_ctor ''../../a'' = Inr \<lparr> mPathComponents = [''a''] \<rparr> \<and>
   fp_toString \<lparr> mPathComponents = [] \<rparr> = '''' \<and>
   FilePath_ctor ''/'' = Inr \<lparr> mPathComponents = [] \<rparr> \<and>
   fp_toString \<lparr> mPathComponents = [''a'', ''b''] \<rparr> = ''/a/b'' \<and> FilePath_ctor ''a/b'' = FilePath_ctor ''/a/b''"
  by (simp add: FilePath_ctor_def extract_components fp_toString_def assemblyPath_def)

end
