(* ===== verification/Throttle.thy ===== *)
theory Throttle
  imports Prelude
begin

text \<open>
  The class \<open>Throttle\<close> of \<^verbatim>\<open>src/darwincore/foundation/throttle/Throttle.cpp\<close>. Times are whole seconds of the steady clock, an
  argument of the operations that read it. The \<open>std::map\<close> of events is a list of pairs in the order of the keys.
  A critical section is one step: a round of the loop of \<open>run\<close> holds the lock while it visits every event, and returns
  the identifiers its callback was called with, in order.
\<close>

section \<open>State and operations\<close>

record EventItem =
  ei_event_id :: int
  interval_seconds :: int
  next_call_time :: int

record Throttle =
  event_map :: "(int \<times> EventItem) list"
  event_call :: bool
  is_run :: bool

definition Throttle_ctor :: Throttle where
  "Throttle_ctor = \<lparr> event_map = [], event_call = False, is_run = True \<rparr>"

fun event_put :: "int \<Rightarrow> EventItem \<Rightarrow> (int \<times> EventItem) list \<Rightarrow> (int \<times> EventItem) list" where
  "event_put k x [] = [(k, x)]"
| "event_put k x ((j, y) # m) =
     (if k = j then (k, x) # m else if k < j then (k, x) # (j, y) # m else (j, y) # event_put k x m)"

definition registerEvent :: "int \<Rightarrow> int \<Rightarrow> Throttle \<Rightarrow> Throttle" where
  "registerEvent event_id interval t =
     t\<lparr>event_map := event_put event_id \<lparr> ei_event_id = event_id, interval_seconds = interval, next_call_time = 0 \<rparr> (event_map t)\<rparr>"

definition registerEventCall :: "bool \<Rightarrow> Throttle \<Rightarrow> Throttle" where
  "registerEventCall call t = t\<lparr>event_call := call\<rparr>"

definition th_submit :: "int \<Rightarrow> int \<Rightarrow> Throttle \<Rightarrow> Throttle" where
  "th_submit currentTime event_id t =
     (case map_of (event_map t) event_id of
        None \<Rightarrow> t
      | Some e \<Rightarrow>
          (if next_call_time e = 0
           then t\<lparr>event_map := event_put event_id (e\<lparr>next_call_time := currentTime + interval_seconds e\<rparr>) (event_map t)\<rparr>
           else t))"

fun round_loop :: "bool \<Rightarrow> int \<Rightarrow> (int \<times> EventItem) list \<Rightarrow> int list \<times> (int \<times> EventItem) list" where
  "round_loop call currentTime [] = ([], [])"
| "round_loop call currentTime ((k, e) # m) =
     (case round_loop call currentTime m of (calls, m') \<Rightarrow>
        if call \<and> 0 < next_call_time e \<and> next_call_time e \<le> currentTime
        then (k # calls, (k, e\<lparr>next_call_time := 0\<rparr>) # m') else (calls, (k, e) # m'))"

definition run_round :: "int \<Rightarrow> Throttle \<Rightarrow> int list \<times> Throttle" where
  "run_round currentTime t =
     (if is_run t then (case round_loop (event_call t) currentTime (event_map t) of (calls, m) \<Rightarrow> (calls, t\<lparr>event_map := m\<rparr>))
      else ([], t))"

definition th_stop :: "Throttle \<Rightarrow> Throttle" where
  "th_stop t = t\<lparr>is_run := False\<rparr>"

section \<open>Runs\<close>

text \<open>
  A throttle in use: the time of the last step, and the calls so far, newest first, each with its time and the
  interval the event had. The clock never goes back.
\<close>

record throttle_use =
  tu_throttle :: Throttle
  tu_now :: int
  tu_calls :: "(int \<times> int \<times> int) list"

definition interval_of :: "Throttle \<Rightarrow> int \<Rightarrow> int" where
  "interval_of t k = (case map_of (event_map t) k of None \<Rightarrow> 0 | Some e \<Rightarrow> interval_seconds e)"

inductive throttle_step :: "throttle_use \<Rightarrow> throttle_use \<Rightarrow> bool" where
  ts_register: "throttle_step s (s\<lparr>tu_throttle := registerEvent k i (tu_throttle s)\<rparr>)"
| ts_call: "throttle_step s (s\<lparr>tu_throttle := registerEventCall c (tu_throttle s)\<rparr>)"
| ts_submit: "tu_now s \<le> now \<Longrightarrow> throttle_step s (s\<lparr>tu_throttle := th_submit now k (tu_throttle s), tu_now := now\<rparr>)"
| ts_round: "tu_now s \<le> now \<Longrightarrow> run_round now (tu_throttle s) = (calls, t) \<Longrightarrow>
    throttle_step s (s\<lparr>tu_throttle := t, tu_now := now,
      tu_calls := rev (map (\<lambda>k. (k, now, interval_of (tu_throttle s) k)) calls) @ tu_calls s\<rparr>)"
| ts_stop: "throttle_step s (s\<lparr>tu_throttle := th_stop (tu_throttle s)\<rparr>)"

inductive_cases throttle_stepE: "throttle_step s t"

text \<open>A pending event waits until its interval has passed since every call of that event.\<close>

definition pending_late :: "throttle_use \<Rightarrow> bool" where
  "pending_late s \<longleftrightarrow> (\<forall>(k, at, i)\<in>set (tu_calls s). at \<le> tu_now s \<and>
     (\<forall>e. map_of (event_map (tu_throttle s)) k = Some e \<longrightarrow> next_call_time e \<noteq> 0 \<longrightarrow> at + interval_seconds e \<le> next_call_time e))"

definition spaced :: "(int \<times> int \<times> int) list \<Rightarrow> bool" where
  "spaced = sorted_wrt (\<lambda>(k, at, i) (k', at', i'). k = k' \<longrightarrow> at' + i \<le> at)"

definition throttle_inv :: "throttle_use \<Rightarrow> bool" where
  "throttle_inv s \<longleftrightarrow> sorted_wrt (<) (map fst (event_map (tu_throttle s))) \<and> pending_late s \<and> spaced (tu_calls s)"

lemma keys_event_put [simp]: "fst ` set (event_put k x m) = insert k (fst ` set m)"
  by (induction k x m rule: event_put.induct) auto

lemma sorted_event_put:
  "sorted_wrt (<) (map fst m) \<Longrightarrow> sorted_wrt (<) (map fst (event_put k x m))"
proof (induction k x m rule: event_put.induct)
  case (2 k x j y m)
  from 2(2) have m: "\<forall>a\<in>fst ` set m. j < a" "sorted_wrt (<) (map fst m)" by simp_all
  consider "k = j" | "k < j" | "j < k" by linarith
  then show ?case
  proof cases
    case 2
    then show ?thesis using m by (auto intro: less_trans)
  next
    case 3
    then have "\<forall>a\<in>fst ` set (event_put k x m). j < a" using m(1) by (simp only: keys_event_put) blast
    then show ?thesis using 3 2(1) m(2) by simp
  qed (use m in simp)
qed simp

lemma map_of_event_put: "map_of (event_put k x m) k' = (if k' = k then Some x else map_of m k')"
  by (induction k x m rule: event_put.induct) auto

text \<open>An event is called in a round when there is a callback and its time has come.\<close>

definition due :: "bool \<Rightarrow> int \<Rightarrow> EventItem \<Rightarrow> bool" where
  "due call now e \<longleftrightarrow> call \<and> 0 < next_call_time e \<and> next_call_time e \<le> now"

lemma round_loop_spec:
  assumes "distinct (map fst m)"
  shows "round_loop call now m =
    (map fst (filter (\<lambda>(k, e). due call now e) m), map (\<lambda>(k, e). (k, if due call now e then e\<lparr>next_call_time := 0\<rparr> else e)) m)"
  using assms by (induction m) (auto simp: due_def)

lemma map_of_round: "map_of (map (\<lambda>(k, e). (k, f e)) m) k = map_option f (map_of m k)"
  by (induction m) auto

lemma sorted_distinct_keys: "sorted_wrt (<) (map fst m) \<Longrightarrow> distinct (map fst (m :: (int \<times> 'a) list))"
  by (simp add: strict_sorted_iff)

lemma run_round_called:
  assumes "sorted_wrt (<) (map fst (event_map t))" "is_run t"
  shows "k \<in> set (fst (run_round now t)) \<longleftrightarrow> (\<exists>e. map_of (event_map t) k = Some e \<and> due (event_call t) now e)"
  using round_loop_spec [OF sorted_distinct_keys [OF assms(1)], of "event_call t" now] assms sorted_distinct_keys [OF assms(1)]
  by (auto simp: run_round_def image_iff)

lemma pending_lateD:
  assumes "pending_late s" "(k, at, i) \<in> set (tu_calls s)"
  shows "at \<le> tu_now s"
    "map_of (event_map (tu_throttle s)) k = Some e \<Longrightarrow> next_call_time e \<noteq> 0 \<Longrightarrow> at + interval_seconds e \<le> next_call_time e"
  using assms unfolding pending_late_def by fast+

text \<open>An operation keeps the property when every event is as before, idle, or scheduled from the present time on.\<close>

lemma pending_late_update:
  assumes "pending_late s" "tu_now s \<le> now"
    and "\<And>k e. map_of (event_map t) k = Some e \<Longrightarrow> next_call_time e = 0 \<or>
      map_of (event_map (tu_throttle s)) k = Some e \<or> now + interval_seconds e \<le> next_call_time e"
  shows "pending_late (s\<lparr>tu_throttle := t, tu_now := now\<rparr>)"
  unfolding pending_late_def
proof (clarsimp, intro conjI allI impI)
  fix k at i e
  assume c: "(k, at, i) \<in> set (tu_calls s)"
  note at = pending_lateD(1) [OF assms(1) c]
  show "at \<le> now" using at assms(2) by linarith
  assume "map_of (event_map t) k = Some e" "next_call_time e \<noteq> 0"
  with assms(3) [of k e] pending_lateD(2) [OF assms(1) c, of e] at assms(2)
  show "at + interval_seconds e \<le> next_call_time e" by auto
qed

lemma run_round_inv:
  assumes inv: "throttle_inv s" and now: "tu_now s \<le> now" and r: "run_round now (tu_throttle s) = (calls, t)"
  shows "throttle_inv (s\<lparr>tu_throttle := t, tu_now := now,
      tu_calls := rev (map (\<lambda>k. (k, now, interval_of (tu_throttle s) k)) calls) @ tu_calls s\<rparr>)"
proof (cases "is_run (tu_throttle s)")
  case False
  then show ?thesis using assms by (auto simp: run_round_def throttle_inv_def pending_late_def)
next
  case run: True
  let ?m = "event_map (tu_throttle s)" and ?c = "event_call (tu_throttle s)"
  let ?new = "map (\<lambda>k. (k, now, interval_of (tu_throttle s) k)) calls"
  have sorted_keys: "sorted_wrt (<) (map fst ?m)" and late: "pending_late s" using inv by (simp_all add: throttle_inv_def)
  note d = sorted_distinct_keys [OF sorted_keys]
  from r run have t: "calls = map fst (filter (\<lambda>(k, e). due ?c now e) ?m)"
    "event_map t = map (\<lambda>(k, e). (k, if due ?c now e then e\<lparr>next_call_time := 0\<rparr> else e)) ?m"
    by (auto simp: run_round_def round_loop_spec [OF d])
  have called: "\<exists>e. map_of ?m k = Some e \<and> due ?c now e" if "k \<in> set calls" for k
    using that d by (auto simp: t(1))
  have keys: "map fst (event_map t) = map fst ?m" by (auto simp: t(2))
  have "distinct calls" using d by (simp add: t(1) distinct_map_filter)
  then have "spaced (rev ?new)" unfolding spaced_def sorted_wrt_rev sorted_wrt_map by (induction calls) auto
  moreover have "at + interval_of (tu_throttle s) k \<le> now" if k: "k \<in> set calls" "(k, at, i) \<in> set (tu_calls s)" for k at i
  proof -
    from called [OF k(1)] obtain e where e: "map_of ?m k = Some e" "due ?c now e" by blast
    with pending_lateD(2) [OF late k(2)] show ?thesis by (fastforce simp: due_def interval_of_def)
  qed
  ultimately have "spaced (rev ?new @ tu_calls s)" using inv by (auto simp: spaced_def sorted_wrt_append throttle_inv_def)
  moreover have "pending_late (s\<lparr>tu_throttle := t, tu_now := now, tu_calls := rev ?new @ tu_calls s\<rparr>)"
  proof -
    have "next_call_time e = 0" if "k \<in> set calls" "map_of (event_map t) k = Some e" for k e
      using that called [of k] by (auto simp: t(2) map_of_round)
    moreover have "pending_late (s\<lparr>tu_throttle := t, tu_now := now\<rparr>)"
      by (rule pending_late_update [OF late now]) (auto simp: t(2) map_of_round split: if_splits)
    ultimately show ?thesis by (auto simp: pending_late_def)
  qed
  ultimately show ?thesis using sorted_keys keys by (simp add: throttle_inv_def)
qed

lemma submit_inv:
  assumes inv: "throttle_inv s" and now: "tu_now s \<le> now"
  shows "throttle_inv (s\<lparr>tu_throttle := th_submit now k (tu_throttle s), tu_now := now\<rparr>)"
proof -
  have "pending_late s" using inv by (simp add: throttle_inv_def)
  then have "pending_late (s\<lparr>tu_throttle := th_submit now k (tu_throttle s), tu_now := now\<rparr>)"
    by (rule pending_late_update [OF _ now]) (auto simp: th_submit_def map_of_event_put split: option.splits if_splits)
  then show ?thesis using inv by (auto simp: throttle_inv_def th_submit_def sorted_event_put split: option.split)
qed

lemma register_inv:
  assumes inv: "throttle_inv s"
  shows "throttle_inv (s\<lparr>tu_throttle := registerEvent k i (tu_throttle s)\<rparr>)"
proof -
  have "pending_late s" using inv by (simp add: throttle_inv_def)
  then have "pending_late (s\<lparr>tu_throttle := registerEvent k i (tu_throttle s), tu_now := tu_now s\<rparr>)"
    by (rule pending_late_update [OF _ order_refl]) (auto simp: registerEvent_def map_of_event_put split: if_splits)
  then show ?thesis using inv by (simp add: throttle_inv_def registerEvent_def sorted_event_put)
qed

interpretation throttle: invariant_system "\<lambda>s. \<exists>now. s = \<lparr> tu_throttle = Throttle_ctor, tu_now = now, tu_calls = [] \<rparr>" throttle_step throttle_inv
proof
  fix s :: throttle_use
  assume "\<exists>now. s = \<lparr> tu_throttle = Throttle_ctor, tu_now = now, tu_calls = [] \<rparr>"
  then show "throttle_inv s" by (auto simp: throttle_inv_def Throttle_ctor_def pending_late_def spaced_def)
next
  fix s t :: throttle_use
  assume inv: "throttle_inv s" and "throttle_step s t"
  from this(2) show "throttle_inv t"
  proof cases
    case (ts_register k i)
    then show ?thesis using register_inv [OF inv] by simp
  next
    case (ts_submit now k)
    then show ?thesis using submit_inv [OF inv] by simp
  next
    case (ts_round now calls t)
    then show ?thesis using run_round_inv [OF inv] by simp
  qed (use inv in \<open>auto simp: throttle_inv_def registerEventCall_def th_stop_def pending_late_def\<close>)
qed

section \<open>Properties\<close>


text \<open>An event of interval 5, submitted at 100 and again at 102, is called once, at 105.\<close>

definition throttle_once :: throttle_use where
  "throttle_once = \<lparr> tu_throttle = registerEventCall True (registerEvent 7 5 Throttle_ctor), tu_now = 99, tu_calls = [] \<rparr>"


end
