(* ===== verification/ProcessTree.thy ===== *)
theory ProcessTree
  imports Prelude
begin

text \<open>
  The class \<open>ProcessTree\<close> of \<^verbatim>\<open>src/darwincore/foundation/process/ProcessTree.cpp\<close>. The hash map of nodes is a list of
  pairs, newest first. A pointer to a node is the node's key: a weak pointer gives null when the key is not in the map, and
  the invariant below shows that no parent pointer of a node in the map ever becomes null. The loops that follow pointers are
  partial functions whose value None is a loop that does not end; the theorems show that they end.
\<close>

section \<open>Data\<close>

record ProcKey =
  pk_pid :: int
  pk_pidversion :: u32

datatype ProcState = Alive | Dead

record ProcessInfo =
  pi_pid :: int
  pi_pidversion :: u32
  pi_ppid :: int
  pi_ppidversion :: u32
  pi_rpid :: int
  pi_rpidversion :: u32
  proc_name :: string
  proc_path :: string

record ProcessNode =
  pn_info :: ProcessInfo
  pn_parent :: "ProcKey option"
  pn_children :: "ProcKey list"
  pn_state :: ProcState
  alive_descendant_count :: nat

type_synonym nodes = "(ProcKey \<times> ProcessNode) list"

definition pn_key :: "ProcessNode \<Rightarrow> ProcKey" where
  "pn_key n = \<lparr> pk_pid = pi_pid (pn_info n), pk_pidversion = pi_pidversion (pn_info n) \<rparr>"

text \<open>Writing through a pointer, and \<open>nodes_.erase\<close>.\<close>

definition node_upd :: "ProcKey \<Rightarrow> (ProcessNode \<Rightarrow> ProcessNode) \<Rightarrow> nodes \<Rightarrow> nodes" where
  "node_upd k f m = map (\<lambda>(x, n). (x, if x = k then f n else n)) m"

definition node_erase :: "ProcKey \<Rightarrow> nodes \<Rightarrow> nodes" where
  "node_erase k m = filter (\<lambda>(x, n). x \<noteq> k) m"

section \<open>Operations\<close>

text \<open>The loop over the parent pointers that changes every count on the way.\<close>

partial_function (option) walk_up :: "(nat \<Rightarrow> nat) \<Rightarrow> ProcKey option \<Rightarrow> nodes \<Rightarrow> nodes option" where
  "walk_up f pcur m =
     (case pcur of None \<Rightarrow> Some m
      | Some k \<Rightarrow> (case map_of m k of None \<Rightarrow> Some m
        | Some n \<Rightarrow> walk_up f (pn_parent n) (node_upd k (\<lambda>n. n\<lparr>alive_descendant_count := f (alive_descendant_count n)\<rparr>) m)))"

definition addProcess :: "ProcessInfo \<Rightarrow> nodes \<Rightarrow> nodes option" where
  "addProcess info m =
     (let key = \<lparr> pk_pid = pi_pid info, pk_pidversion = pi_pidversion info \<rparr>
      in if map_of m key \<noteq> None then Some m
         else let node = \<lparr> pn_info = info, pn_parent = None, pn_children = [], pn_state = Alive, alive_descendant_count = 0 \<rparr>;
                  pkey = \<lparr> pk_pid = pi_ppid info, pk_pidversion = pi_ppidversion info \<rparr>
         in case map_of m pkey of
              None \<Rightarrow> Some ((key, node) # m)
            | Some p \<Rightarrow>
                (case walk_up Suc (Some pkey) (node_upd pkey (\<lambda>n. n\<lparr>pn_children := pn_children n @ [key]\<rparr>) m) of
                   None \<Rightarrow> None
                 | Some m \<Rightarrow> Some ((key, node\<lparr>pn_parent := Some pkey\<rparr>) # m)))"

definition getResponsibleNode :: "ProcessNode \<Rightarrow> nodes \<Rightarrow> ProcessNode option" where
  "getResponsibleNode n m = map_of m \<lparr> pk_pid = pi_rpid (pn_info n), pk_pidversion = pi_rpidversion (pn_info n) \<rparr>"

definition getProcessInfo :: "ProcKey \<Rightarrow> nodes \<Rightarrow> ProcessInfo option" where
  "getProcessInfo key m = map_option pn_info (map_of m key)"

partial_function (option) tryCleanup :: "ProcKey \<Rightarrow> nodes \<Rightarrow> nodes option" where
  "tryCleanup k m =
     (case map_of m k of None \<Rightarrow> Some m
      | Some n \<Rightarrow>
          (if pn_state n = Dead \<and> alive_descendant_count n = 0 then
             (case pn_parent n of None \<Rightarrow> Some (node_erase k m)
              | Some p \<Rightarrow>
                  (if map_of m p = None then Some (node_erase k m)
                   else Option.bind (tryCleanup p (node_upd p (\<lambda>n. n\<lparr>pn_children := removeAll k (pn_children n)\<rparr>) m))
                     (\<lambda>m. Some (node_erase k m))))
           else Some m))"

definition dec_count :: "nat \<Rightarrow> nat" where
  "dec_count c = (if c > 0 then c - 1 else c)"

definition markProcessDead :: "ProcKey \<Rightarrow> nodes \<Rightarrow> nodes option" where
  "markProcessDead key m =
     (case map_of m key of None \<Rightarrow> Some m
      | Some n \<Rightarrow>
          (if pn_state n = Dead then Some m
           else case walk_up dec_count (pn_parent n) (node_upd key (\<lambda>n. n\<lparr>pn_state := Dead\<rparr>) m) of
             None \<Rightarrow> None | Some m \<Rightarrow> tryCleanup key m))"

partial_function (option) parent_loop :: "nodes \<Rightarrow> ProcessNode option \<Rightarrow> ProcKey set \<Rightarrow> ProcessInfo list \<Rightarrow> (ProcKey set \<times> ProcessInfo list) option" where
  "parent_loop m cur visited result =
     (case cur of None \<Rightarrow> Some (visited, result)
      | Some n \<Rightarrow>
          (if pi_pid (pn_info n) \<le> 1 then Some (visited, result)
           else if pn_key n \<in> visited then Some (visited, result)
           else parent_loop m (Option.bind (pn_parent n) (map_of m)) (insert (pn_key n) visited) (result @ [pn_info n])))"

partial_function (option) responsible_loop :: "nodes \<Rightarrow> ProcessNode \<Rightarrow> ProcKey set \<Rightarrow> ProcessInfo list \<Rightarrow> (ProcKey set \<times> ProcessInfo list) option" where
  "responsible_loop m cur visited result =
     (case getResponsibleNode cur m of None \<Rightarrow> Some (visited, result)
      | Some r \<Rightarrow>
          (if pn_key r \<in> visited then Some (visited, result)
           else responsible_loop m r (insert (pn_key r) visited) (result @ [pn_info r])))"

definition getProcLineage :: "ProcKey \<Rightarrow> nodes \<Rightarrow> ProcessInfo list option" where
  "getProcLineage key m =
     (case map_of m key of None \<Rightarrow> Some []
      | Some node \<Rightarrow>
          Option.bind (parent_loop m (Some node) {} []) (\<lambda>(visited, result).
          Option.bind (responsible_loop m node visited result) (\<lambda>(visited, result).
            Some (if pn_key node \<in> visited then result else result @ [pn_info node]))))"

section \<open>Ancestors\<close>

text \<open>
  The map is rooted when every parent pointer leads to an older node of the map; then the proper ancestors of a node, nearest
  first, are computed by structural recursion.
\<close>

fun rooted :: "nodes \<Rightarrow> bool" where
  "rooted [] \<longleftrightarrow> True"
| "rooted ((k, n) # m) \<longleftrightarrow> rooted m \<and> k \<notin> fst ` set m \<and> (\<forall>p. pn_parent n = Some p \<longrightarrow> p \<in> fst ` set m)"

fun ancestors :: "nodes \<Rightarrow> ProcKey \<Rightarrow> ProcKey list" where
  "ancestors [] x = []"
| "ancestors ((k, n) # m) x =
     (if x = k then (case pn_parent n of None \<Rightarrow> [] | Some p \<Rightarrow> p # ancestors m p) else ancestors m x)"

lemma ancestors_outside: "x \<notin> fst ` set m \<Longrightarrow> ancestors m x = []"
  by (induction m x rule: ancestors.induct) auto

lemma ancestors_in: "rooted m \<Longrightarrow> set (ancestors m x) \<subseteq> fst ` set m"
proof (induction m x rule: ancestors.induct)
  case (2 k n m x)
  then show ?case by (cases "pn_parent n") auto
qed simp

lemma parent_in: "rooted m \<Longrightarrow> map_of m x = Some n \<Longrightarrow> pn_parent n = Some p \<Longrightarrow> p \<in> fst ` set m"
  by (induction m) (auto split: if_splits)

lemma ancestors_step:
  assumes "rooted m" "map_of m x = Some n"
  shows "ancestors m x = (case pn_parent n of None \<Rightarrow> [] | Some p \<Rightarrow> p # ancestors m p)"
  using assms
proof (induction m)
  case (Cons e m)
  obtain k c where e: "e = (k, c)" by (cases e)
  show ?case
  proof (cases "x = k")
    case True
    then show ?thesis using Cons(2,3) e by (auto split: option.splits)
  next
    case False
    then have "ancestors m x = (case pn_parent n of None \<Rightarrow> [] | Some p \<Rightarrow> p # ancestors m p)" using Cons e by simp
    then show ?thesis using False Cons(2,3) e parent_in [of m x n] by (auto split: option.splits)
  qed
qed simp

lemma ancestors_irrefl: "rooted m \<Longrightarrow> x \<notin> set (ancestors m x)"
proof (induction m x rule: ancestors.induct)
  case (2 k n m x)
  have "k \<notin> set (ancestors m p)" for p using ancestors_in [of m p] 2(3) by auto
  with 2 show ?case by (auto split: option.splits)
qed simp

lemma ancestors_distinct: "rooted m \<Longrightarrow> distinct (x # ancestors m x)"
proof (induction m x rule: ancestors.induct)
  case (2 k n m x)
  have "k \<notin> set (p # ancestors m p)" if "p \<in> fst ` set m" for p using ancestors_in [of m p] 2(3) that by auto
  with 2 show ?case by (auto split: option.splits)
qed simp

lemma ancestors_trans: "rooted m \<Longrightarrow> y \<in> set (ancestors m x) \<Longrightarrow> set (ancestors m y) \<subseteq> set (ancestors m x)"
proof (induction m x arbitrary: y rule: ancestors.induct)
  case (2 k n m x)
  have "k \<notin> set (ancestors m p)" for p using ancestors_in [of m p] 2(3) by auto
  with 2 show ?case by (auto split: option.splits if_splits)
qed simp

text \<open>Changes that keep keys and parent pointers keep the ancestors.\<close>

lemma ancestors_map:
  assumes "\<And>x n. pn_parent (f x n) = pn_parent n"
  shows "ancestors (map (\<lambda>(x, n). (x, f x n)) m) = ancestors m" "rooted (map (\<lambda>(x, n). (x, f x n)) m) \<longleftrightarrow> rooted m"
proof -
  have "fst ` set (map (\<lambda>(x, n). (x, f x n)) m) = fst ` set m" for m by force
  then show "rooted (map (\<lambda>(x, n). (x, f x n)) m) \<longleftrightarrow> rooted m" by (induction m) (auto simp: assms)
  have "ancestors (map (\<lambda>(x, n). (x, f x n)) m) x = ancestors m x" for x
    by (induction m x rule: ancestors.induct) (auto simp: assms split: option.splits)
  then show "ancestors (map (\<lambda>(x, n). (x, f x n)) m) = ancestors m" by (rule ext)
qed

lemma map_of_nodes: "map_of (map (\<lambda>(x, n). (x, f x n)) m) k = map_option (f k) (map_of m k)"
  by (induction m) auto

section \<open>The invariant\<close>

text \<open>The living proper descendants of a node, and the keys of its children, oldest first.\<close>

definition alive_set :: "nodes \<Rightarrow> ProcKey \<Rightarrow> ProcKey set" where
  "alive_set m k = {x. map_option pn_state (map_of m x) = Some Alive \<and> k \<in> set (ancestors m x)}"

definition children_of :: "nodes \<Rightarrow> ProcKey \<Rightarrow> ProcKey list" where
  "children_of m k = rev (map fst (filter (\<lambda>(x, n). pn_parent n = Some k) m))"

definition counts_ok :: "nodes \<Rightarrow> bool" where
  "counts_ok m \<longleftrightarrow> (\<forall>k n. map_of m k = Some n \<longrightarrow> pn_key n = k \<and>
     alive_descendant_count n = card (alive_set m k) \<and> pn_children n = children_of m k)"

text \<open>Outside X, no dead node without living descendants is kept.\<close>

definition no_garbage :: "ProcKey set \<Rightarrow> nodes \<Rightarrow> bool" where
  "no_garbage X m \<longleftrightarrow> (\<forall>k n. map_of m k = Some n \<longrightarrow> k \<in> X \<or> pn_state n = Alive \<or> 0 < alive_descendant_count n)"

definition tree_inv :: "nodes \<Rightarrow> bool" where
  "tree_inv m \<longleftrightarrow> rooted m \<and> counts_ok m \<and> no_garbage {} m"

lemma no_garbageD:
  "no_garbage X m \<Longrightarrow> map_of m k = Some n \<Longrightarrow> k \<in> X \<or> pn_state n = Alive \<or> 0 < alive_descendant_count n"
  by (simp add: no_garbage_def)

lemma counts_okD:
  assumes "counts_ok m" "map_of m k = Some n"
  shows "pn_key n = k" "alive_descendant_count n = card (alive_set m k)" "pn_children n = children_of m k"
  using assms by (simp_all add: counts_ok_def)

lemma finite_alive_set [simp]: "finite (alive_set m k)"
  by (rule finite_subset [OF _ finite_dom_map_of [of m]]) (auto simp: alive_set_def)

lemma alive_set_trans: "rooted m \<Longrightarrow> y \<in> set (ancestors m x) \<Longrightarrow> alive_set m x \<subseteq> alive_set m y"
  using ancestors_trans by (fastforce simp: alive_set_def)

lemma children_of_map:
  "(\<And>x n. pn_parent (f x n) = pn_parent n) \<Longrightarrow> children_of (map (\<lambda>(x, n). (x, f x n)) m) k = children_of m k"
  by (simp add: children_of_def filter_map o_def split_def)

section \<open>The walk to the root\<close>

definition bump :: "(nat \<Rightarrow> nat) \<Rightarrow> ProcKey set \<Rightarrow> nodes \<Rightarrow> nodes" where
  "bump f S m = map (\<lambda>(x, n). (x, if x \<in> S then n\<lparr>alive_descendant_count := f (alive_descendant_count n)\<rparr> else n)) m"

lemma bump_skeleton [simp]: "ancestors (bump f S m) = ancestors m" "rooted (bump f S m) \<longleftrightarrow> rooted m"
  "children_of (bump f S m) k = children_of m k"
  unfolding bump_def by (rule ancestors_map children_of_map, simp)+

lemma map_of_bump: "map_of (bump f S m) k =
    map_option (\<lambda>n. if k \<in> S then n\<lparr>alive_descendant_count := f (alive_descendant_count n)\<rparr> else n) (map_of m k)"
  unfolding bump_def by (rule map_of_nodes)

lemma bump_bump: "x \<notin> S \<Longrightarrow> bump f S (bump f {x} m) = bump f (insert x S) m"
  by (auto simp: bump_def)

lemma walk_up_eq:
  assumes "rooted m" "map_of m x \<noteq> None"
  shows "walk_up f (Some x) m = Some (bump f (set (x # ancestors m x)) m)"
  using assms
proof (induction "ancestors m x" arbitrary: x m)
  case Nil
  from Nil(3) obtain n where n: "map_of m x = Some n" by blast
  with Nil(1) ancestors_step [OF Nil(2) n] have "pn_parent n = None" by (auto split: option.splits)
  with n Nil(1) show ?case by (simp add: walk_up.simps [of f "Some x"] walk_up.simps [of f None] bump_def node_upd_def)
next
  case (Cons p ys)
  from Cons(4) obtain n where n: "map_of m x = Some n" by blast
  with Cons(2) ancestors_step [OF Cons(3) n] have p: "pn_parent n = Some p" "ancestors m p = ys" by (auto split: option.splits)
  have up: "node_upd x (\<lambda>n. n\<lparr>alive_descendant_count := f (alive_descendant_count n)\<rparr>) m = bump f {x} m"
    by (simp add: node_upd_def bump_def)
  have "map_of (bump f {x} m) p \<noteq> None" using parent_in [OF Cons(3) n p(1)] by (simp add: map_of_bump map_of_eq_None_iff)
  with Cons(1) [of "bump f {x} m" p] Cons(3) p(2)
  have "walk_up f (Some p) (bump f {x} m) = Some (bump f (set (p # ys)) (bump f {x} m))" by simp
  moreover have "x \<notin> set (p # ys)" using ancestors_irrefl [OF Cons(3), of x] Cons(2) by simp
  ultimately show ?case using n p Cons(2) by (simp add: walk_up.simps [of f "Some x"] up bump_bump)
qed

section \<open>Adding a process\<close>

lemma alive_set_map:
  assumes "\<And>x n. pn_parent (f x n) = pn_parent n" "\<And>x n. pn_state (f x n) = pn_state n"
  shows "alive_set (map (\<lambda>(x, n). (x, f x n)) m) k = alive_set m k"
  using assms(2) by (simp add: alive_set_def ancestors_map(1) [OF assms(1)] map_of_nodes option.map_comp o_def)

lemma alive_set_bump [simp]: "alive_set (bump f S m) k = alive_set m k"
  unfolding bump_def by (rule alive_set_map) simp_all

text \<open>A new node in front of the map: the older nodes keep their ancestors, and the new node is under its own.\<close>

lemma alive_set_Cons:
  assumes "rooted ((key, n) # m)" "pn_state n = Alive"
  shows "alive_set ((key, n) # m) k =
    (if k \<in> set (ancestors ((key, n) # m) key) then insert key (alive_set m k) else alive_set m k)"
proof -
  have "map_of m key = None" using assms(1) by (simp add: map_of_eq_None_iff)
  then show ?thesis using assms(2) by (auto simp: alive_set_def split: if_splits)
qed

lemma children_of_Cons:
  "children_of ((key, n) # m) k = (if pn_parent n = Some k then children_of m k @ [key] else children_of m k)"
  by (simp add: children_of_def)

lemma not_above:
  assumes "rooted m" "key \<notin> fst ` set m"
  shows "alive_set m key = {}" "children_of m key = []"
proof -
  show "alive_set m key = {}" using assms ancestors_in [OF assms(1)] by (auto simp: alive_set_def)
  have "pn_parent n \<noteq> Some key" if "(x, n) \<in> set m" for x n
    using assms that by (induction m) auto
  then show "children_of m key = []" by (auto simp: children_of_def filter_empty_conv)
qed

text \<open>A fresh node.\<close>

definition fresh_node :: "ProcKey \<Rightarrow> ProcessNode \<Rightarrow> bool" where
  "fresh_node key n \<longleftrightarrow> pn_key n = key \<and> pn_state n = Alive \<and> alive_descendant_count n = 0 \<and> pn_children n = []"

lemma add_root_inv:
  assumes inv: "tree_inv m" and new: "key \<notin> fst ` set m" and n: "fresh_node key n" "pn_parent n = None"
  shows "tree_inv ((key, n) # m)"
proof -
  let ?m = "(key, n) # m"
  have r: "rooted m" and c: "counts_ok m" and g: "no_garbage {} m" using inv by (simp_all add: tree_inv_def)
  have r': "rooted ?m" using r new n by simp
  have a: "alive_set ?m k = alive_set m k" "children_of ?m k = children_of m k" for k
    using alive_set_Cons [OF r', of k] n by (simp_all add: children_of_Cons fresh_node_def)
  have "counts_ok ?m" using c not_above [OF r new] n unfolding counts_ok_def a by (simp add: fresh_node_def)
  moreover have "no_garbage {} ?m" using g n by (simp add: no_garbage_def fresh_node_def)
  ultimately show ?thesis using r' by (simp add: tree_inv_def)
qed

lemma add_child_inv:
  assumes inv: "tree_inv m" and new: "key \<notin> fst ` set m" and p: "pkey \<in> fst ` set m"
    and n: "fresh_node key n" "pn_parent n = Some pkey"
  shows "\<exists>b. walk_up Suc (Some pkey) (node_upd pkey (\<lambda>n. n\<lparr>pn_children := pn_children n @ [key]\<rparr>) m) = Some b \<and>
    tree_inv ((key, n) # b)"
proof -
  let ?S = "set (pkey # ancestors m pkey)"
  define u where "u = node_upd pkey (\<lambda>n. n\<lparr>pn_children := pn_children n @ [key]\<rparr>) m"
  let ?b = "bump Suc ?S u" and ?m = "(key, n) # bump Suc ?S u"
  have r: "rooted m" and c: "counts_ok m" and g: "no_garbage {} m" using inv by (simp_all add: tree_inv_def)
  have u: "ancestors u = ancestors m" "rooted u" "alive_set u k = alive_set m k" "children_of u k = children_of m k"
    "map_of u k = map_option (\<lambda>n. if k = pkey then n\<lparr>pn_children := pn_children n @ [key]\<rparr> else n) (map_of m k)" for k
    using r unfolding u_def node_upd_def by (simp_all add: ancestors_map alive_set_map children_of_map map_of_nodes)
  have "map_of u pkey \<noteq> None" using p by (simp add: u map_of_eq_None_iff)
  with walk_up_eq [OF u(2), of pkey Suc] have walk: "walk_up Suc (Some pkey) u = Some ?b" by (simp add: u(1))
  have keys: "fst ` set ?b = fst ` set m" by (force simp: u_def bump_def node_upd_def)
  have r': "rooted ?m" using u(2) new p n keys by simp
  have above: "ancestors ?m key = pkey # ancestors m pkey" using n by (simp add: u)
  have "pn_state n = Alive" using n by (simp add: fresh_node_def)
  note a = alive_set_Cons [OF r' this, unfolded above alive_set_bump u(3)]
  have ch: "children_of ?m k = (if pkey = k then children_of m k @ [key] else children_of m k)" for k
    using n by (simp add: children_of_Cons u)
  have fresh: "key \<notin> alive_set m k" for k using new map_of_eq_None_iff [of m key] by (auto simp: alive_set_def)
  have "key \<notin> ?S" using new p ancestors_in [OF r, of pkey] by auto
  have "counts_ok ?m"
    unfolding counts_ok_def
  proof (intro allI impI)
    fix k l
    assume l: "map_of ?m k = Some l"
    show "pn_key l = k \<and> alive_descendant_count l = card (alive_set ?m k) \<and> pn_children l = children_of ?m k"
    proof (cases "k = key")
      case True
      then show ?thesis using l n \<open>key \<notin> ?S\<close> not_above [OF r new] p new unfolding a ch by (auto simp: fresh_node_def)
    next
      case False
      with l obtain l0 where l0: "map_of m k = Some l0" by (auto simp: map_of_bump u)
      from counts_okD [OF c l0] show ?thesis using l l0 False fresh [of k] unfolding a ch by (auto simp: map_of_bump u pn_key_def)
    qed
  qed
  moreover have "no_garbage {} ?m"
    unfolding no_garbage_def
  proof (intro allI impI)
    fix k l
    assume l: "map_of ?m k = Some l"
    show "k \<in> {} \<or> pn_state l = Alive \<or> 0 < alive_descendant_count l"
    proof (cases "k = key")
      case False
      with l obtain l0 where l0: "map_of m k = Some l0" by (auto simp: map_of_bump u)
      from no_garbageD [OF g l0] l l0 False show ?thesis by (simp add: map_of_bump u split: if_splits) auto
    qed (use l n in \<open>simp add: fresh_node_def\<close>)
  qed
  ultimately show ?thesis using walk r' unfolding u_def [symmetric] by (auto simp: tree_inv_def)
qed

lemma addProcess_inv:
  assumes inv: "tree_inv m"
  shows "\<exists>m'. addProcess info m = Some m' \<and> tree_inv m'"
proof -
  let ?key = "\<lparr> pk_pid = pi_pid info, pk_pidversion = pi_pidversion info \<rparr>"
  let ?pkey = "\<lparr> pk_pid = pi_ppid info, pk_pidversion = pi_ppidversion info \<rparr>"
  let ?node = "\<lambda>p. \<lparr> pn_info = info, pn_parent = p, pn_children = [], pn_state = Alive, alive_descendant_count = 0 \<rparr>"
  have n: "fresh_node ?key (?node p)" "pn_parent (?node p) = p" for p by (simp_all add: fresh_node_def pn_key_def)
  show ?thesis
  proof (cases "?key \<in> fst ` set m")
    case True
    then have "map_of m ?key \<noteq> None" by (simp add: map_of_eq_None_iff)
    then show ?thesis using inv by (simp add: addProcess_def)
  next
    case new: False
    then have none: "map_of m ?key = None" by (simp add: map_of_eq_None_iff)
    show ?thesis
    proof (cases "map_of m ?pkey")
      case None
      then show ?thesis using none add_root_inv [OF inv new n] by (simp add: addProcess_def Let_def)
    next
      case (Some p)
      then have "?pkey \<in> fst ` set m" by (metis map_of_eq_None_iff option.distinct(1))
      from add_child_inv [OF inv new this n] Some none show ?thesis by (auto simp: addProcess_def Let_def)
    qed
  qed
qed

section \<open>Cleaning up\<close>

lemma rooted_distinct: "rooted m \<Longrightarrow> distinct (map fst m)"
  by (induction m rule: rooted.induct) auto

lemma map_of_node_erase: "map_of (node_erase k m) x = (if x = k then None else map_of m x)"
  by (induction m) (auto simp: node_erase_def)

lemma ancestors_erase: "y \<noteq> x \<Longrightarrow> x \<notin> set (ancestors m y) \<Longrightarrow> ancestors (node_erase x m) y = ancestors m y"
  by (induction m y rule: ancestors.induct) (auto simp: node_erase_def split: option.splits)

lemma keys_erase: "fst ` set (node_erase x m) = fst ` set m - {x}"
  by (force simp: node_erase_def)

lemma node_erase_Cons: "node_erase x ((k, n) # m) = (if k = x then node_erase x m else (k, n) # node_erase x m)"
  by (simp add: node_erase_def)

lemma rooted_erase: "rooted m \<Longrightarrow> \<forall>(y, n)\<in>set m. pn_parent n \<noteq> Some x \<Longrightarrow> rooted (node_erase x m)"
  by (induction m rule: rooted.induct) (auto simp: node_erase_Cons keys_erase, simp add: node_erase_def)

lemma children_of_erase: "children_of (node_erase x m) k = removeAll x (children_of m k)"
  by (simp add: children_of_def node_erase_def removeAll_filter_not_eq rev_filter [symmetric] filter_map o_def split_def conj_commute)
    (metis (mono_tags, lifting) filter_cong)

lemma children_iff:
  assumes "rooted m"
  shows "x \<in> set (children_of m k) \<longleftrightarrow> (\<exists>n. map_of m x = Some n \<and> pn_parent n = Some k)"
  using rooted_distinct [OF assms] by (force simp: children_of_def)

text \<open>A dead node without living descendants is a leaf, when there is no garbage below it.\<close>

lemma garbage_leaf:
  assumes r: "rooted m" and c: "counts_ok m" and g: "no_garbage (set (x # ancestors m x)) m"
    and n: "map_of m x = Some n" "alive_descendant_count n = 0" and y: "map_of m y = Some l"
  shows "x \<notin> set (ancestors m y)"
proof
  assume xy: "x \<in> set (ancestors m y)"
  then have "y \<notin> set (x # ancestors m x)" using ancestors_irrefl [OF r] ancestors_trans [OF r] by fastforce
  moreover have none: "alive_set m x = {}" using c n by (simp add: counts_ok_def)
  then have "pn_state l \<noteq> Alive" using xy y by (auto simp: alive_set_def)
  moreover have "alive_set m y = {}" using alive_set_trans [OF r xy] none by simp
  then have "alive_descendant_count l = 0" using c y by (simp add: counts_ok_def)
  moreover note no_garbageD [OF g y]
  ultimately show False by simp
qed

definition detach :: "ProcKey \<Rightarrow> ProcKey option \<Rightarrow> nodes \<Rightarrow> nodes" where
  "detach x po m = node_erase x (map (\<lambda>(y, n). (y, if po = Some y then n\<lparr>pn_children := removeAll x (pn_children n)\<rparr> else n)) m)"

lemma detach_leaf:
  assumes r: "rooted m" and c: "counts_ok m" and g: "no_garbage (set (x # ancestors m x)) m"
    and n: "map_of m x = Some n" "pn_state n = Dead" "alive_descendant_count n = 0"
  defines "m1 \<equiv> detach x (pn_parent n) m"
  shows "rooted m1" "counts_ok m1" "no_garbage (set (ancestors m x)) m1" "y \<in> fst ` set m \<Longrightarrow> y \<noteq> x \<Longrightarrow> ancestors m1 y = ancestors m y"
proof -
  let ?u = "map (\<lambda>(y, k). (y, if pn_parent n = Some y then k\<lparr>pn_children := removeAll x (pn_children k)\<rparr> else k)) m"
  have m1: "m1 = node_erase x ?u" by (simp add: m1_def detach_def)
  have u: "ancestors ?u = ancestors m" "rooted ?u" using r by (simp_all add: ancestors_map)
  have leaf: "x \<notin> set (ancestors m y)" if "map_of m y \<noteq> None" for y using garbage_leaf [OF r c g n(1,3)] that by blast
  have at: "map_of m1 y = (if y = x then None else map_option (\<lambda>k. if pn_parent n = Some y then k\<lparr>pn_children := removeAll x (pn_children k)\<rparr> else k) (map_of m y))" for y
    unfolding m1 map_of_node_erase map_of_nodes by simp
  have "pn_parent l \<noteq> Some x" if "(y, l) \<in> set m" for y l
  proof -
    from that rooted_distinct [OF r] have y: "map_of m y = Some l" by simp
    from leaf [of y] ancestors_step [OF r y] y show ?thesis by auto
  qed
  then have "\<forall>(y, l)\<in>set ?u. pn_parent l \<noteq> Some x" by (auto split: if_splits)
  then show "rooted m1" unfolding m1 using u(2) by (rule rooted_erase [rotated])
  have anc: "ancestors m1 y = ancestors m y" if "y \<in> fst ` set m" "y \<noteq> x" for y
    unfolding m1 u(1) [symmetric] using that leaf [of y] by (intro ancestors_erase) (simp_all add: u map_of_eq_None_iff)
  then show "y \<in> fst ` set m \<Longrightarrow> y \<noteq> x \<Longrightarrow> ancestors m1 y = ancestors m y" .
  have "y \<in> alive_set m1 k \<longleftrightarrow> y \<in> alive_set m k" for y k
  proof (cases "y = x \<or> map_of m y = None")
    case True
    then show ?thesis using n by (auto simp: alive_set_def at)
  next
    case False
    then have "ancestors m1 y = ancestors m y" using anc [of y] by (simp add: map_of_eq_None_iff)
    moreover from False obtain l where "map_of m y = Some l" by auto
    ultimately show ?thesis using False by (simp add: alive_set_def at)
  qed
  then have a: "alive_set m1 k = alive_set m k" for k by blast
  have ch: "children_of m1 k = (if pn_parent n = Some k then removeAll x (children_of m k) else children_of m k)" for k
    using children_iff [OF r, of x k] n(1) by (auto simp: m1 children_of_erase children_of_map)
  show "counts_ok m1" using c unfolding counts_ok_def by (auto simp: a ch at pn_key_def split: if_splits)
  show "no_garbage (set (ancestors m x)) m1" by (auto simp: no_garbage_def at dest: no_garbageD [OF g] split: if_splits)
qed

text \<open>The clean-up of a node erases it after its ancestors; erasing it first makes no difference.\<close>

lemma erase_commute: "node_erase k (node_erase x m) = node_erase x (node_erase k m)"
  by (simp add: node_erase_def conj_commute split_def)

lemma erase_upd: "node_erase k (node_upd p f m) = node_upd p f (node_erase k m)"
  by (induction m) (auto simp: node_erase_def node_upd_def)

lemma node_upd_skeleton:
  assumes "\<And>n. pn_parent (f n) = pn_parent n"
  shows "ancestors (node_upd p f m) = ancestors m" "rooted (node_upd p f m) \<longleftrightarrow> rooted m"
  unfolding node_upd_def by (rule ancestors_map, simp add: assms)+

lemma cleanup_erase:
  assumes "rooted m" "k \<notin> set (x # ancestors m x)"
  shows "tryCleanup x (node_erase k m) = map_option (node_erase k) (tryCleanup x m)"
  using assms
proof (induction "ancestors m x" arbitrary: x m)
  case Nil
  have "pn_parent n = None" if "map_of m x = Some n" for n
    using ancestors_step [OF Nil(2) that] Nil(1) by (auto split: option.splits)
  with Nil(3) show ?case
    by (auto simp: tryCleanup.simps [of x] map_of_node_erase erase_commute split: option.split)
next
  case (Cons p ys)
  let ?u = "node_upd p (\<lambda>n. n\<lparr>pn_children := removeAll x (pn_children n)\<rparr>) m"
  have "k \<noteq> x" "k \<noteq> p" "k \<notin> set ys" using Cons(4) by (simp_all add: Cons(2) [symmetric])
  moreover have "pn_parent n = Some p \<and> ancestors m p = ys" if "map_of m x = Some n" for n
    using ancestors_step [OF Cons(3) that] Cons(2) by (auto split: option.splits)
  moreover have "tryCleanup p (node_erase k ?u) = map_option (node_erase k) (tryCleanup p ?u)" if "ancestors m p = ys"
    by (rule Cons(1)) (use that Cons(2-4) in \<open>auto simp: node_upd_skeleton\<close>)
  ultimately show ?case
    by (auto simp: tryCleanup.simps [of x] map_of_node_erase erase_upd erase_commute split: option.split bind_split)
qed

lemma cleanup_inv:
  assumes "rooted m" "counts_ok m" "no_garbage (set (x # ancestors m x)) m" "x \<in> fst ` set m"
  shows "\<exists>m'. tryCleanup x m = Some m' \<and> tree_inv m'"
  using assms
proof (induction "ancestors m x" arbitrary: x m rule: length_induct)
  case 1
  note r = 1(2) and c = 1(3) and g = 1(4)
  obtain n where n: "map_of m x = Some n" using 1(5) map_of_eq_None_iff [of m x] by auto
  show ?case
  proof (cases "pn_state n = Dead \<and> alive_descendant_count n = 0")
    case True
    note leaf = detach_leaf [OF r c g n conjunct1 [OF True] conjunct2 [OF True]]
    note anc = ancestors_step [OF r n]
    show ?thesis
    proof (cases "pn_parent n")
      case None
      then have "tryCleanup x m = Some (detach x (pn_parent n) m)" using True n
        by (simp add: tryCleanup.simps [of x] detach_def split_def)
      then show ?thesis using leaf(1-3) anc None by (auto simp: tree_inv_def)
    next
      case (Some p)
      have p: "p \<in> fst ` set m" "p \<noteq> x" using parent_in [OF r n Some] ancestors_irrefl [OF r, of x] anc Some by auto
      have x: "x \<notin> set (p # ancestors m p)" using ancestors_irrefl [OF r, of x] anc Some by simp
      let ?u = "node_upd p (\<lambda>n. n\<lparr>pn_children := removeAll x (pn_children n)\<rparr>) m"
      have d: "detach x (pn_parent n) m = node_erase x ?u"
        unfolding detach_def node_upd_def Some by (intro arg_cong [where f = "node_erase x"] map_cong) auto
      have "tryCleanup x m = map_option (node_erase x) (tryCleanup p ?u)"
        using True n Some p by (simp add: tryCleanup.simps [of x] map_of_eq_None_iff map_conv_bind_option o_def)
      also have "\<dots> = tryCleanup p (detach x (pn_parent n) m)"
        unfolding d using r x by (intro cleanup_erase [symmetric]) (simp_all add: node_upd_skeleton)
      finally have step: "tryCleanup x m = tryCleanup p (detach x (pn_parent n) m)" .
      have ap: "ancestors (detach x (pn_parent n) m) p = ancestors m p" by (rule leaf(4) [OF p])
      have "p \<in> fst ` set (detach x (pn_parent n) m)" using p by (force simp: d keys_erase node_upd_def)
      then have "\<exists>m'. tryCleanup p (detach x (pn_parent n) m) = Some m' \<and> tree_inv m'"
        using 1(1) leaf(1-3) anc Some ap by (intro 1(1) [rule_format]) simp_all
      then show ?thesis using step by simp
    qed
  next
    case False
    have "no_garbage {} m"
      unfolding no_garbage_def
    proof (intro allI impI)
      fix k l
      assume l: "map_of m k = Some l"
      have "alive_set m k \<noteq> {}" if "k \<in> set (ancestors m x)"
      proof (cases "pn_state n = Alive")
        case True
        then show ?thesis using n that by (auto simp: alive_set_def)
      next
        case dead: False
        then have "card (alive_set m x) \<noteq> 0" using False counts_okD(2) [OF c n] by (cases "pn_state n") auto
        then show ?thesis using alive_set_trans [OF r that] by auto
      qed
      then show "k \<in> {} \<or> pn_state l = Alive \<or> 0 < alive_descendant_count l"
        using no_garbageD [OF g l] counts_okD(2) [OF c l] False l n by (cases "pn_state l") (auto simp: card_gt_0_iff)
    qed
    then show ?thesis using False n r c by (auto simp: tryCleanup.simps [of x] tree_inv_def)
  qed
qed

section \<open>The death of a process\<close>

lemma walk_up_parent:
  assumes "rooted m" "map_of m x = Some n"
  shows "walk_up f (pn_parent n) m = Some (bump f (set (ancestors m x)) m)"
proof (cases "pn_parent n")
  case None
  then show ?thesis using ancestors_step [OF assms] by (simp add: walk_up.simps [of f None] bump_def)
next
  case (Some p)
  then have "map_of m p \<noteq> None" using parent_in [OF assms Some] by (simp add: map_of_eq_None_iff)
  then show ?thesis using Some walk_up_eq [OF assms(1), of p f] ancestors_step [OF assms] by simp
qed

lemma markProcessDead_inv:
  assumes inv: "tree_inv m"
  shows "\<exists>m'. markProcessDead key m = Some m' \<and> tree_inv m'"
proof (cases "\<exists>n. map_of m key = Some n \<and> pn_state n = Alive")
  case False
  then have "pn_state n = Dead" if "map_of m key = Some n" for n using that by (cases "pn_state n") auto
  then show ?thesis using inv by (cases "map_of m key") (auto simp: markProcessDead_def)
next
  case True
  then obtain n where n: "map_of m key = Some n" "pn_state n = Alive" by blast
  define d where "d = node_upd key (\<lambda>n. n\<lparr>pn_state := Dead\<rparr>) m"
  let ?b = "bump dec_count (set (ancestors m key)) d"
  have r: "rooted m" and c: "counts_ok m" and g: "no_garbage {} m" using inv by (simp_all add: tree_inv_def)
  have d: "ancestors d = ancestors m" "rooted d" "children_of d k = children_of m k"
    "map_of d k = map_option (\<lambda>n. if k = key then n\<lparr>pn_state := Dead\<rparr> else n) (map_of m k)" for k
    using r unfolding d_def node_upd_def by (simp_all add: ancestors_map children_of_map map_of_nodes)
  have walk: "walk_up dec_count (pn_parent n) d = Some ?b"
    using walk_up_parent [OF d(2), of key "n\<lparr>pn_state := Dead\<rparr>" dec_count] n by (simp add: d)
  have a: "alive_set d k = alive_set m k - {key}" for k
    by (auto simp: alive_set_def d option.map_comp o_def split: if_splits)
  have in_alive: "key \<in> alive_set m k \<longleftrightarrow> k \<in> set (ancestors m key)" for k using n by (auto simp: alive_set_def)
  have b: "pn_key l = k \<and> alive_descendant_count l = card (alive_set ?b k) \<and> pn_children l = children_of ?b k \<and>
      (k \<in> set (key # ancestors m key) \<or> pn_state l = Alive \<or> 0 < alive_descendant_count l)" if l: "map_of ?b k = Some l" for k l
  proof -
    from l obtain l0 where l0: "map_of m k = Some l0" by (auto simp: map_of_bump d)
    note 1 = counts_okD [OF c l0] no_garbageD [OF g l0]
    have "card (alive_set m k) > 0" if "k \<in> set (ancestors m key)" using that in_alive by (auto simp: card_gt_0_iff)
    then show ?thesis using l l0 1 in_alive [of k]
      by (auto simp: map_of_bump d a pn_key_def dec_count_def split: if_splits)
  qed
  have "counts_ok ?b" unfolding counts_ok_def by (intro allI impI, drule b) simp
  moreover have "no_garbage (set (key # ancestors ?b key)) ?b"
    unfolding no_garbage_def bump_skeleton d(1) by (intro allI impI, drule b) (elim conjE)
  moreover have "map_of ?b key \<noteq> None" using n by (simp add: map_of_bump d)
  then have "key \<in> fst ` set ?b" unfolding map_of_eq_None_iff by simp
  ultimately show ?thesis using cleanup_inv [of ?b key] d(2) n walk by (simp add: markProcessDead_def d_def)
qed

section \<open>Lineage\<close>

definition info_key :: "ProcessInfo \<Rightarrow> ProcKey" where
  "info_key i = \<lparr> pk_pid = pi_pid i, pk_pidversion = pi_pidversion i \<rparr>"

definition info_at :: "nodes \<Rightarrow> ProcKey \<Rightarrow> ProcessInfo" where
  "info_at m k = pn_info (the (map_of m k))"

text \<open>The part of a lineage that follows the parent pointers: the process and its ancestors below the first with \<open>pid \<le> 1\<close>.\<close>

definition parent_keys :: "nodes \<Rightarrow> ProcKey \<Rightarrow> ProcKey list" where
  "parent_keys m x = takeWhile (\<lambda>k. 1 < pk_pid k) (x # ancestors m x)"

lemma pid_of_key: "counts_ok m \<Longrightarrow> map_of m x = Some n \<Longrightarrow> pi_pid (pn_info n) = pk_pid x"
  using counts_okD(1) [of m x n] by (auto simp: pn_key_def)

lemma parent_loop_eq:
  assumes "rooted m" "counts_ok m" "map_of m x = Some n" "set (x # ancestors m x) \<inter> V = {}"
  shows "parent_loop m (Some n) V R = Some (V \<union> set (parent_keys m x), R @ map (info_at m) (parent_keys m x))"
  using assms(3,4)
proof (induction "ancestors m x" arbitrary: x n V R)
  case Nil
  have "pn_parent n = None" using ancestors_step [OF assms(1) Nil(2)] Nil(1) by (auto split: option.splits)
  then show ?case using Nil counts_okD(1) [OF assms(2) Nil(2)] pid_of_key [OF assms(2) Nil(2)]
    by (simp add: parent_loop.simps [of m "Some n"] parent_loop.simps [of m None] parent_keys_def info_at_def)
next
  case (Cons p ys)
  have p: "pn_parent n = Some p" "ancestors m p = ys" using ancestors_step [OF assms(1) Cons(3)] Cons(2) by (auto split: option.splits)
  from parent_in [OF assms(1) Cons(3) p(1)] obtain l where l: "map_of m p = Some l" using map_of_eq_None_iff [of m p] by auto
  have "x \<notin> set (p # ys)" using ancestors_irrefl [OF assms(1), of x] Cons(2) by simp
  then have "parent_loop m (Some l) (insert x V) (R @ [pn_info n]) =
      Some (insert x V \<union> set (parent_keys m p), (R @ [pn_info n]) @ map (info_at m) (parent_keys m p))"
    using Cons(1) [of p l "insert x V" "R @ [pn_info n]"] l p(2) Cons(2,4) by auto
  then show ?case using p l Cons(2-4) counts_okD(1) [OF assms(2) Cons(3)] pid_of_key [OF assms(2) Cons(3)]
    by (auto simp: parent_loop.simps [of m "Some n"] parent_keys_def info_at_def)
qed

text \<open>A lineage under construction: the visited keys are those of the result, each once, and the result is from the map.\<close>

definition lineage_ok :: "nodes \<Rightarrow> ProcKey set \<Rightarrow> ProcessInfo list \<Rightarrow> bool" where
  "lineage_ok m V R \<longleftrightarrow> V = info_key ` set R \<and> distinct (map info_key R) \<and> (\<forall>i\<in>set R. getProcessInfo (info_key i) m = Some i)"

lemma lineage_ok_snoc:
  assumes "counts_ok m" "lineage_ok m V R" "map_of m k = Some n" "k \<notin> V"
  shows "lineage_ok m (insert k V) (R @ [pn_info n])"
proof -
  have "info_key (pn_info n) = k" using counts_okD(1) [OF assms(1,3)] by (simp add: info_key_def pn_key_def)
  then show ?thesis using assms(2-4) by (auto simp: lineage_ok_def getProcessInfo_def)
qed

lemma responsible_loop_ok:
  assumes "counts_ok m" "lineage_ok m V R"
  shows "\<exists>V' R'. responsible_loop m n V R = Some (V', R @ R') \<and> lineage_ok m V' (R @ R')"
  using assms(2)
proof (induction "card (fst ` set m - V)" arbitrary: n V R rule: less_induct)
  case less
  show ?case
  proof (cases "getResponsibleNode n m")
    case None
    then have "responsible_loop m n V R = Some (V, R @ [])" by (simp add: responsible_loop.simps [of m n])
    then show ?thesis using less(2) by (metis append_Nil2)
  next
    case (Some r)
    then obtain k where k: "map_of m k = Some r" by (auto simp: getResponsibleNode_def)
    have kr: "pn_key r = k" by (rule counts_okD(1) [OF assms(1) k])
    show ?thesis
    proof (cases "k \<in> V")
      case True
      then have "responsible_loop m n V R = Some (V, R @ [])" using Some kr by (simp add: responsible_loop.simps [of m n])
      then show ?thesis using less(2) by (metis append_Nil2)
    next
      case False
      have "k \<in> fst ` set m" using k by (metis map_of_eq_None_iff option.distinct(1))
      then have "card (fst ` set m - insert k V) < card (fst ` set m - V)" using False by (intro psubset_card_mono) auto
      from less(1) [OF this lineage_ok_snoc [OF assms(1) less(2) k False], of r]
      obtain V' R' where "responsible_loop m r (insert k V) (R @ [pn_info r]) = Some (V', R @ (pn_info r # R'))"
        "lineage_ok m V' (R @ (pn_info r # R'))" by auto
      then show ?thesis using Some kr False
        by (intro exI [of _ V'] exI [of _ "pn_info r # R'"]) (simp add: responsible_loop.simps [of m n])
    qed
  qed
qed

lemma lineage_parents:
  assumes "rooted m" "counts_ok m" "map_of m x = Some n"
  shows "lineage_ok m (set (parent_keys m x)) (map (info_at m) (parent_keys m x))"
proof -
  have "k \<in> fst ` set m" if "k \<in> set (parent_keys m x)" for k
    using set_takeWhileD [OF that [unfolded parent_keys_def]] ancestors_in [OF assms(1), of x] map_of_eq_None_iff [of m x] assms(3) by auto
  then have at: "map_of m k = Some (the (map_of m k)) \<and> info_key (info_at m k) = k" if "k \<in> set (parent_keys m x)" for k
    using that map_of_eq_None_iff [of m k] counts_okD(1) [OF assms(2), of k]
    by (auto simp: info_at_def info_key_def pn_key_def)
  have "distinct (x # ancestors m x)" by (rule ancestors_distinct [OF assms(1)])
  then have "distinct (parent_keys m x)" unfolding parent_keys_def by (rule distinct_takeWhile)
  moreover have "map (info_key \<circ> info_at m) (parent_keys m x) = parent_keys m x" using at by (intro map_idI) simp
  moreover from this have "info_key ` set (map (info_at m) (parent_keys m x)) = set (parent_keys m x)"
    by (metis list.set_map map_map)
  moreover have "getProcessInfo (info_key i) m = Some i" if "i \<in> set (map (info_at m) (parent_keys m x))" for i
  proof -
    from that obtain k where "k \<in> set (parent_keys m x)" "i = info_at m k" by auto
    then show ?thesis using at [of k] by (cases "map_of m k") (auto simp: getProcessInfo_def info_at_def)
  qed
  ultimately show ?thesis by (simp add: lineage_ok_def)
qed

section \<open>Properties\<close>

inductive tree_step :: "nodes \<Rightarrow> nodes \<Rightarrow> bool" where
  tree_add: "addProcess info m = Some m' \<Longrightarrow> tree_step m m'"
| tree_dead: "markProcessDead key m = Some m' \<Longrightarrow> tree_step m m'"

interpretation process_tree: invariant_system "\<lambda>m. m = []" tree_step tree_inv
proof
  fix m m' :: nodes
  assume "tree_inv m" "tree_step m m'"
  from this(2,1) show "tree_inv m'"
  proof cases
    case (tree_add info)
    then show ?thesis using addProcess_inv [OF \<open>tree_inv m\<close>, of info] by simp
  next
    case (tree_dead key)
    then show ?thesis using markProcessDead_inv [OF \<open>tree_inv m\<close>, of key] by simp
  qed
qed (simp add: tree_inv_def counts_ok_def no_garbage_def)

text \<open>
  C32: in every state that adding processes and marking them dead can reach, both operations end; the parent of a node is in
  the map; the count of a node is the number of its living proper descendants and its list of children is complete; and
  the map keeps a dead node only while it has living descendants.
\<close>

theorem ProcessTree_counts:
  assumes "tree_step\<^sup>*\<^sup>* [] m"
  shows "addProcess info m \<noteq> None \<and> markProcessDead key m \<noteq> None \<and>
    (\<forall>k n. map_of m k = Some n \<longrightarrow>
       (\<forall>p. pn_parent n = Some p \<longrightarrow> map_of m p \<noteq> None) \<and>
       alive_descendant_count n = card (alive_set m k) \<and>
       (\<forall>x. x \<in> set (pn_children n) \<longleftrightarrow> (\<exists>c. map_of m x = Some c \<and> pn_parent c = Some k)) \<and>
       (pn_state n = Dead \<longrightarrow> alive_set m k \<noteq> {}))"
proof -
  have inv: "tree_inv m" by (rule process_tree.Inv_reachable [OF refl assms])
  then have r: "rooted m" and c: "counts_ok m" and g: "no_garbage {} m" by (simp_all add: tree_inv_def)
  have "(\<forall>p. pn_parent n = Some p \<longrightarrow> map_of m p \<noteq> None) \<and> alive_descendant_count n = card (alive_set m k) \<and>
      (\<forall>x. x \<in> set (pn_children n) \<longleftrightarrow> (\<exists>c. map_of m x = Some c \<and> pn_parent c = Some k)) \<and>
      (pn_state n = Dead \<longrightarrow> alive_set m k \<noteq> {})" if n: "map_of m k = Some n" for k n
    using parent_in [OF r n] counts_okD [OF c n] no_garbageD [OF g n] children_iff [OF r]
    by (auto simp: map_of_eq_None_iff)
  then show ?thesis using addProcess_inv [OF inv, of info] markProcessDead_inv [OF inv, of key] by auto
qed

definition proc_sample :: "int \<Rightarrow> int \<Rightarrow> ProcessInfo" where
  "proc_sample pid ppid = \<lparr> pi_pid = pid, pi_pidversion = 1, pi_ppid = ppid, pi_ppidversion = 1, pi_rpid = pid,
     pi_rpidversion = 1, proc_name = [], proc_path = [] \<rparr>"

definition tree_sample :: nodes where
  "tree_sample =
     [(\<lparr> pk_pid = 2, pk_pidversion = 1 \<rparr>, \<lparr> pn_info = proc_sample 2 1, pn_parent = Some \<lparr> pk_pid = 1, pk_pidversion = 1 \<rparr>,
         pn_children = [], pn_state = Alive, alive_descendant_count = 0 \<rparr>),
      (\<lparr> pk_pid = 1, pk_pidversion = 1 \<rparr>, \<lparr> pn_info = proc_sample 1 0, pn_parent = None,
         pn_children = [\<lparr> pk_pid = 2, pk_pidversion = 1 \<rparr>], pn_state = Alive, alive_descendant_count = 1 \<rparr>)]"

lemma tree_sample_reachable: "tree_step\<^sup>*\<^sup>* [] tree_sample"
proof -
  let ?m = "[(\<lparr> pk_pid = 1, pk_pidversion = 1 \<rparr>, \<lparr> pn_info = proc_sample 1 0, pn_parent = None,
         pn_children = [], pn_state = Alive, alive_descendant_count = 0 \<rparr>)]"
  have "addProcess (proc_sample 1 0) [] = Some ?m" by (simp add: addProcess_def proc_sample_def)
  moreover have "addProcess (proc_sample 2 1) ?m = Some tree_sample"
    by (simp add: addProcess_def proc_sample_def node_upd_def walk_up.simps tree_sample_def Let_def)
  ultimately show ?thesis by (meson converse_rtranclp_into_rtranclp rtranclp.rtrancl_refl tree_add)
qed

theorem ProcessTree_counts_witness:
  "card (alive_set tree_sample \<lparr> pk_pid = 1, pk_pidversion = 1 \<rparr>) = 1"
proof -
  have "map_of tree_sample \<lparr> pk_pid = 1, pk_pidversion = 1 \<rparr> = Some \<lparr> pn_info = proc_sample 1 0, pn_parent = None,
         pn_children = [\<lparr> pk_pid = 2, pk_pidversion = 1 \<rparr>], pn_state = Alive, alive_descendant_count = 1 \<rparr>"
    by (simp add: tree_sample_def)
  with ProcessTree_counts [OF tree_sample_reachable] show ?thesis by fastforce
qed

text \<open>
  in every reachable state the lineage of a process is computed without looping, though parent and responsible pointers may
  form cycles between them; it starts with the process and its ancestors, nearest first, up to the first with pid at most 1, names no
  process twice, holds only processes of the map, and contains the process itself.
\<close>

theorem ProcessTree_lineage:
  assumes "tree_step\<^sup>*\<^sup>* [] m" and "map_of m key = Some n"
  shows "\<exists>rest. let r = map (info_at m) (parent_keys m key) @ rest in getProcLineage key m = Some r \<and>
    distinct (map info_key r) \<and> (\<forall>i\<in>set r. getProcessInfo (info_key i) m = Some i) \<and> pn_info n \<in> set r"
proof -
  have "tree_inv m" by (rule process_tree.Inv_reachable [OF refl assms(1)])
  then have r: "rooted m" and c: "counts_ok m" by (simp_all add: tree_inv_def)
  let ?V = "set (parent_keys m key)" and ?R = "map (info_at m) (parent_keys m key)"
  have key: "pn_key n = key" "info_key (pn_info n) = key" using counts_okD(1) [OF c assms(2)] by (simp_all add: pn_key_def info_key_def)
  have first: "parent_loop m (Some n) {} [] = Some (?V, ?R)" using parent_loop_eq [OF r c assms(2), of "{}" "[]"] by simp
  from responsible_loop_ok [OF c lineage_parents [OF r c assms(2)], of n] obtain V' R' where
    second: "responsible_loop m n ?V ?R = Some (V', ?R @ R')" "lineage_ok m V' (?R @ R')" by blast
  define rest where "rest = (if key \<in> V' then R' else R' @ [pn_info n])"
  have "getProcLineage key m = Some (?R @ rest)"
    using first second(1) assms(2) key by (simp add: getProcLineage_def rest_def)
  moreover have lin: "lineage_ok m (insert key V') (?R @ rest)"
    using second(2) lineage_ok_snoc [OF c second(2) assms(2)] by (auto simp: rest_def insert_absorb)
  moreover have "pn_info n \<in> set (?R @ rest)"
  proof -
    have "key \<in> info_key ` set (?R @ rest)" using lin unfolding lineage_ok_def by blast
    then obtain i where i: "i \<in> set (?R @ rest)" "info_key i = key" by blast
    have "\<forall>i\<in>set (?R @ rest). getProcessInfo (info_key i) m = Some i" using lin unfolding lineage_ok_def by blast
    with i have "getProcessInfo key m = Some i" by metis
    with assms(2) i show ?thesis by (simp add: getProcessInfo_def)
  qed
  ultimately show ?thesis unfolding lineage_ok_def by (intro exI [of _ rest]) (simp add: Let_def)
qed

theorem ProcessTree_lineage_witness:
  "\<exists>rest. getProcLineage \<lparr> pk_pid = 2, pk_pidversion = 1 \<rparr> tree_sample = Some (proc_sample 2 1 # rest)"
proof -
  let ?k = "\<lparr> pk_pid = 2, pk_pidversion = 1 \<rparr>"
  obtain n where n: "map_of tree_sample ?k = Some n" "pn_info n = proc_sample 2 1" by (auto simp: tree_sample_def)
  have "map (info_at tree_sample) (parent_keys tree_sample ?k) = [proc_sample 2 1]"
    by (simp add: parent_keys_def tree_sample_def info_at_def)
  with ProcessTree_lineage [OF tree_sample_reachable n(1)] show ?thesis by (auto simp: Let_def)
qed

end
