(* ===== verification/LogRotate.thy ===== *)
theory LogRotate
  imports Prelude
begin

text \<open>
  Log rotation: \<open>LogRotate\<close> of \<^verbatim>\<open>src/darwincore/foundation/logger/LogRotate.cpp\<close>, the operations of \<open>FileManager\<close> it
  calls (\<^verbatim>\<open>foundation/file/FileManager.cpp\<close>) and \<open>FileSink\<close> of \<^verbatim>\<open>LogSink.cpp\<close>. The files are a map from path to
  contents; the paths it names are regular files. Whether \<open>remove\<close> and \<open>rename\<close> succeed, the effect of \<open>gzip\<close>, the clock
  and the text of a formatted entry are arguments. Sizes count characters without bound.
\<close>

section \<open>Files\<close>

type_synonym files = "string \<rightharpoonup> string"

record fs_answers =
  fa_remove :: "string \<Rightarrow> bool"
  fa_rename :: "string \<Rightarrow> string \<Rightarrow> bool"

definition isItemExistsAtPath :: "string \<Rightarrow> files \<Rightarrow> bool" where
  "isItemExistsAtPath path fs \<longleftrightarrow> fs path \<noteq> None"

definition removeItemAtPath :: "fs_answers \<Rightarrow> string \<Rightarrow> files \<Rightarrow> bool \<times> files" where
  "removeItemAtPath fa path fs =
     (if \<not> isItemExistsAtPath path fs then (False, fs)
      else if fa_remove fa path then (True, fs(path := None)) else (False, fs))"

definition renameItem :: "fs_answers \<Rightarrow> string \<Rightarrow> string \<Rightarrow> files \<Rightarrow> bool \<times> files" where
  "renameItem fa fromPath toPath fs =
     (if fromPath = [] \<or> toPath = [] then (False, fs)
      else if \<not> isItemExistsAtPath fromPath fs then (False, fs)
      else if isItemExistsAtPath toPath fs then (False, fs)
      else if fa_rename fa fromPath toPath then (True, fs(toPath := fs fromPath, fromPath := None)) else (False, fs))"

definition moveItem :: "fs_answers \<Rightarrow> string \<Rightarrow> string \<Rightarrow> bool \<Rightarrow> files \<Rightarrow> bool \<times> files" where
  "moveItem fa fromPath toPath cover fs =
     (if isItemExistsAtPath toPath fs then
        (if \<not> cover then (False, fs)
         else case removeItemAtPath fa toPath fs of (ok, fs) \<Rightarrow>
           if \<not> ok then (False, fs) else renameItem fa fromPath toPath fs)
      else renameItem fa fromPath toPath fs)"

section \<open>LogRotate\<close>

datatype RotatePolicy = RotateSize | RotateDaily | RotateHourly | RotateNever

record RotateConfig =
  policy :: RotatePolicy
  maxFileSize :: nat
  maxFiles :: int
  rc_compress :: bool

definition RotateConfig_default :: RotateConfig where
  "RotateConfig_default = \<lparr> policy = RotateSize, maxFileSize = 10 * 1024 * 1024, maxFiles = 5, rc_compress = False \<rparr>"

record LogRotate =
  logPath :: string
  config :: RotateConfig
  currentSize :: nat
  lastRotateTime :: int

fun to_string_nat :: "nat \<Rightarrow> string" where
  "to_string_nat n = (if n < 10 then [char_of (48 + n)] else to_string_nat (n div 10) @ [char_of (48 + n mod 10)])"

declare to_string_nat.simps [simp del]

definition to_string_int :: "int \<Rightarrow> string" where
  "to_string_int i = (if i < 0 then ''-'' @ to_string_nat (nat (- i)) else to_string_nat (nat i))"

definition getRotatedPath :: "int \<Rightarrow> LogRotate \<Rightarrow> string" where
  "getRotatedPath index r = logPath r @ ''.'' @ to_string_int index"

definition LogRotate_ctor :: "string \<Rightarrow> RotateConfig \<Rightarrow> int \<Rightarrow> files \<Rightarrow> LogRotate" where
  "LogRotate_ctor path c now fs =
     \<lparr> logPath = path, config = c, currentSize = (case fs path of Some s \<Rightarrow> length s | None \<Rightarrow> 0), lastRotateTime = now \<rparr>"

text \<open>Times in seconds; \<open>mtime\<close> is the time of the last modification of the log, when it exists.\<close>

definition shouldRotateByTime :: "int \<Rightarrow> int \<Rightarrow> int option \<Rightarrow> bool" where
  "shouldRotateByTime period now mtime = (case mtime of None \<Rightarrow> False | Some lastWrite \<Rightarrow> period \<le> now - lastWrite)"

definition shouldRotate :: "int \<Rightarrow> int option \<Rightarrow> LogRotate \<Rightarrow> bool" where
  "shouldRotate now mtime r =
     (if policy (config r) = RotateNever then False
      else if policy (config r) = RotateSize then maxFileSize (config r) \<le> currentSize r
      else if policy (config r) = RotateDaily then shouldRotateByTime (24 * 3600) now mtime
      else if policy (config r) = RotateHourly then shouldRotateByTime 3600 now mtime
      else False)"

primrec rotate_loop :: "fs_answers \<Rightarrow> LogRotate \<Rightarrow> nat \<Rightarrow> files \<Rightarrow> files" where
  "rotate_loop fa r 0 fs = fs"
| "rotate_loop fa r (Suc j) fs =
     (let i = int (Suc j); from_path = getRotatedPath i r; to_path = getRotatedPath (i + 1) r
      in rotate_loop fa r j
           (if isItemExistsAtPath from_path fs then
              (if i + 1 > maxFiles (config r) then snd (removeItemAtPath fa from_path fs)
               else snd (moveItem fa from_path to_path True fs))
            else fs))"

definition rotate_log :: "fs_answers \<Rightarrow> (string \<Rightarrow> files \<Rightarrow> files) \<Rightarrow> int \<Rightarrow> files \<Rightarrow> LogRotate \<Rightarrow> bool \<times> files \<times> LogRotate" where
  "rotate_log fa gzip now fs r =
     (if \<not> isItemExistsAtPath (logPath r) fs then (True, fs, r)
      else let fs = rotate_loop fa r (nat (maxFiles (config r) - 1)) fs; rotatedPath = getRotatedPath 1 r
      in case moveItem fa (logPath r) rotatedPath True fs of (ok, fs) \<Rightarrow>
           if \<not> ok then (False, fs, r)
           else let fs = (if rc_compress (config r) then gzip rotatedPath fs else fs)
           in (True, fs, r\<lparr>currentSize := 0, lastRotateTime := now\<rparr>))"

definition recordWrite :: "nat \<Rightarrow> LogRotate \<Rightarrow> LogRotate" where
  "recordWrite n r = r\<lparr>currentSize := currentSize r + n\<rparr>"

definition setConfig :: "RotateConfig \<Rightarrow> LogRotate \<Rightarrow> LogRotate" where
  "setConfig c r = r\<lparr>config := c\<rparr>"

partial_function (option) log_cleanup_loop :: "fs_answers \<Rightarrow> LogRotate \<Rightarrow> int \<Rightarrow> files \<Rightarrow> files option" where
  "log_cleanup_loop fa r i fs =
     (if isItemExistsAtPath (getRotatedPath i r) fs
      then log_cleanup_loop fa r (i + 1) (if i > maxFiles (config r) then snd (removeItemAtPath fa (getRotatedPath i r) fs) else fs)
      else Some fs)"

definition log_cleanup :: "fs_answers \<Rightarrow> LogRotate \<Rightarrow> files \<Rightarrow> files option" where
  "log_cleanup fa r fs = log_cleanup_loop fa r 1 fs"

section \<open>FileSink\<close>

text \<open>Opening a file for appending creates it; the stream stays open on the path until the next rotation.\<close>

record FileSink =
  fk_path :: string
  fk_rotator :: "LogRotate option"
  fk_minLevel :: nat

definition open_append :: "string \<Rightarrow> files \<Rightarrow> files" where
  "open_append path fs = (case fs path of None \<Rightarrow> fs(path \<mapsto> []) | Some s \<Rightarrow> fs)"

definition FileSink_rotating :: "string \<Rightarrow> RotateConfig \<Rightarrow> int \<Rightarrow> files \<Rightarrow> FileSink \<times> files" where
  "FileSink_rotating path c now fs =
     (\<lparr> fk_path = path, fk_rotator = Some (LogRotate_ctor path c now fs), fk_minLevel = 0 \<rparr>, open_append path fs)"

definition FileSink_write :: "fs_answers \<Rightarrow> (string \<Rightarrow> files \<Rightarrow> files) \<Rightarrow> int \<Rightarrow> int option \<Rightarrow> nat \<Rightarrow> string \<Rightarrow>
    FileSink \<times> files \<Rightarrow> FileSink \<times> files" where
  "FileSink_write fa gzip now mtime level formatted s =
     (let (k, fs) = s
      in if level < fk_minLevel k then (k, fs)
      else let (k, fs) =
             (case fk_rotator k of None \<Rightarrow> (k, fs)
              | Some r \<Rightarrow>
                  (if shouldRotate now mtime r
                   then (case rotate_log fa gzip now fs r of (ok, fs, r) \<Rightarrow> (k\<lparr>fk_rotator := Some r\<rparr>, open_append (fk_path k) fs))
                   else (k, fs)));
               fs = fs(fk_path k := map_option (\<lambda>s. s @ formatted @ [CHR 0x0A]) (fs (fk_path k)))
      in (k\<lparr>fk_rotator := map_option (recordWrite (length formatted + 1)) (fk_rotator k)\<rparr>, fs))"

section \<open>Paths\<close>

lemma dec_value_to_string: "foldl (\<lambda>n c. 10 * n + (of_char c - 48)) 0 (to_string_nat n) = n"
proof (induction n rule: to_string_nat.induct)
  case (1 n)
  show ?case
  proof (cases "n < 10")
    case True
    then show ?thesis by (simp add: to_string_nat.simps [of n])
  next
    case False
    with 1 have "foldl (\<lambda>n c. 10 * n + (of_char c - 48)) 0 (to_string_nat (n div 10)) = n div 10" by blast
    then show ?thesis using False by (simp add: to_string_nat.simps [of n])
  qed
qed

lemma to_string_nat_inject: "to_string_nat m = to_string_nat n \<longleftrightarrow> m = n"
  using dec_value_to_string by metis

text \<open>The log is file 0, its rotated copies are the files 1, 2 and so on.\<close>

definition log_name :: "LogRotate \<Rightarrow> nat \<Rightarrow> string" where
  "log_name r i = (if i = 0 then logPath r else getRotatedPath (int i) r)"

lemma log_name_inject [simp]: "log_name r i = log_name r j \<longleftrightarrow> i = j"
  by (simp add: log_name_def getRotatedPath_def to_string_int_def to_string_nat_inject)

lemma rotated_name: "getRotatedPath (int (Suc j)) r = log_name r (Suc j)" "getRotatedPath (int (Suc j) + 1) r = log_name r (Suc (Suc j))"
  by (simp_all add: log_name_def add.commute)

lemma log_name_nonempty: "logPath r \<noteq> [] \<Longrightarrow> log_name r i \<noteq> []"
  by (simp add: log_name_def getRotatedPath_def)

section \<open>Rotation when the system calls succeed\<close>

definition all_succeed :: "fs_answers \<Rightarrow> bool" where
  "all_succeed fa \<longleftrightarrow> (\<forall>p. fa_remove fa p) \<and> (\<forall>p q. fa_rename fa p q)"

lemma moveItem_ok:
  assumes "all_succeed fa" "a \<noteq> []" "b \<noteq> []" "a \<noteq> b" "fs a \<noteq> None"
  shows "moveItem fa a b True fs = (True, fs(b := fs a, a := None))"
  using assms by (auto simp: moveItem_def removeItemAtPath_def renameItem_def isItemExistsAtPath_def all_succeed_def fun_eq_iff)

lemma rotate_loop_spec:
  assumes "all_succeed fa" "logPath r \<noteq> []" "int j < maxFiles (config r)"
  shows "rotate_loop fa r j fs (log_name r k) =
    (if k = 0 \<or> j = 0 \<or> Suc j < k then fs (log_name r k)
     else if k = 1 then None
     else if k = Suc j \<and> fs (log_name r j) = None then fs (log_name r k)
     else fs (log_name r (k - 1)))"
  using assms(3)
proof (induction j arbitrary: fs)
  case (Suc j)
  let ?fs = "if fs (log_name r (Suc j)) \<noteq> None then fs(log_name r (Suc (Suc j)) := fs (log_name r (Suc j)), log_name r (Suc j) := None) else fs"
  have "rotate_loop fa r (Suc j) fs = rotate_loop fa r j ?fs"
    using Suc(2) moveItem_ok [OF assms(1) log_name_nonempty [OF assms(2)] log_name_nonempty [OF assms(2)],
      of "Suc j" "Suc (Suc j)" fs]
    unfolding rotate_loop.simps Let_def rotated_name by (simp add: isItemExistsAtPath_def)
  moreover have "int j < maxFiles (config r)" using Suc(2) by simp
  note Suc(1) [OF this, of ?fs]
  ultimately show ?case by (auto split: if_splits)
qed simp

lemma rotate_log_spec:
  assumes ok: "all_succeed fa" and path: "logPath r \<noteq> []" "fs (logPath r) = Some text" and r: "maxFiles (config r) = int M" "1 \<le> M"
    "\<not> rc_compress (config r)"
    and packed: "\<And>i. i < M \<Longrightarrow> fs (log_name r i) = None \<Longrightarrow> fs (log_name r (Suc i)) = None"
  shows "\<exists>fs'. rotate_log fa gzip now fs r = (True, fs', r\<lparr>currentSize := 0, lastRotateTime := now\<rparr>) \<and>
    fs' (logPath r) = None \<and> (\<forall>k. 1 \<le> k \<and> k \<le> M \<longrightarrow> fs' (log_name r k) = fs (log_name r (k - 1)))"
proof -
  obtain j where M: "M = Suc j" using r(2) by (cases M) auto
  let ?f = "rotate_loop fa r j fs"
  have loop: "?f (log_name r k) = (if k = 0 \<or> j = 0 \<or> Suc j < k then fs (log_name r k) else if k = 1 then None
     else if k = Suc j \<and> fs (log_name r j) = None then fs (log_name r k) else fs (log_name r (k - 1)))" for k
    by (rule rotate_loop_spec [OF ok path(1)]) (simp add: r(1) M)
  have zero: "log_name r 0 = logPath r" and one: "getRotatedPath 1 r = log_name r 1" by (simp_all add: log_name_def)
  have log: "?f (log_name r 0) = Some text" using loop [of 0] path(2) zero by simp
  then have "moveItem fa (log_name r 0) (log_name r 1) True ?f = (True, ?f(log_name r 1 := Some text, log_name r 0 := None))"
    by (subst moveItem_ok [OF ok log_name_nonempty [OF path(1)] log_name_nonempty [OF path(1)]]) simp_all
  then have "rotate_log fa gzip now fs r =
      (True, ?f(log_name r 1 := Some text, log_name r 0 := None), r\<lparr>currentSize := 0, lastRotateTime := now\<rparr>)"
    using path(2) r M by (simp add: rotate_log_def isItemExistsAtPath_def one zero [symmetric])
  moreover have "(?f(log_name r 1 := Some text, log_name r 0 := None)) (log_name r k) = fs (log_name r (k - 1))"
    if k: "1 \<le> k" "k \<le> M" for k
  proof (cases "k = 1")
    case True
    then show ?thesis using path(2) by (simp flip: zero)
  next
    case False
    with k obtain i where i: "k = Suc (Suc i)" "i < j" by (metis M One_nat_def Suc_le_D Suc_le_mono le_less_Suc_eq less_Suc_eq_le not_less_eq_eq)
    show ?thesis using loop [of k] i packed [of "Suc i"] M by (auto split: if_splits)
  qed
  ultimately show ?thesis by (simp add: zero)
qed

section \<open>What a rotating sink keeps\<close>

text \<open>
  The specification: the text written so far, cut into segments, newest first. A write starts a new segment when the
  newest one has reached the limit.
\<close>

definition sink_spec :: "nat \<Rightarrow> string list \<Rightarrow> string \<Rightarrow> string list" where
  "sink_spec limit segs line =
     (let segs = (if limit \<le> length (hd segs) then [] # segs else segs)
      in (hd segs @ line @ [CHR 0x0A]) # tl segs)"

definition sink_inv :: "nat \<Rightarrow> FileSink \<times> files \<Rightarrow> string list \<Rightarrow> bool" where
  "sink_inv M s segs \<longleftrightarrow>
     (case fk_rotator (fst s) of None \<Rightarrow> False
      | Some r \<Rightarrow> logPath r = fk_path (fst s) \<and> logPath r \<noteq> [] \<and> currentSize r = length (hd segs) \<and>
          policy (config r) = RotateSize \<and> \<not> rc_compress (config r) \<and> maxFiles (config r) = int M \<and>
          fk_minLevel (fst s) = 0 \<and> segs \<noteq> [] \<and> (\<forall>seg\<in>set (tl segs). maxFileSize (config r) \<le> length seg) \<and>
          (\<forall>i\<le>M. snd s (log_name r i) = (if i < length segs then Some (segs ! i) else None)))"

lemma log_name_update: "log_name (r\<lparr>currentSize := n, lastRotateTime := t\<rparr>) = log_name r" "log_name (r\<lparr>currentSize := n\<rparr>) = log_name r"
  by (simp_all add: log_name_def getRotatedPath_def fun_eq_iff)

text \<open>The second half of a write: one line more at the end of the newest segment.\<close>

lemma append_line:
  assumes r: "fk_rotator k = Some r" "currentSize r = length (hd segs)" and "segs \<noteq> []"
    and inv: "sink_inv M (k, fs) segs"
  shows "sink_inv M (k\<lparr>fk_rotator := Some (recordWrite (length line + 1) r)\<rparr>,
      fs(fk_path k := map_option (\<lambda>s. s @ line @ [CHR 0x0A]) (fs (fk_path k)))) ((hd segs @ line @ [CHR 0x0A]) # tl segs)"
proof -
  have zero: "log_name r 0 = fk_path k" using inv r by (simp add: sink_inv_def log_name_def)
  have at: "fs (log_name r i) = (if i < length segs then Some (segs ! i) else None)" if "i \<le> M" for i
    using inv r that by (simp add: sink_inv_def)
  obtain h t where segs: "segs = h # t" using assms(3) by (cases segs) auto
  show ?thesis using inv r unfolding zero [symmetric] segs
    by (auto simp: sink_inv_def recordWrite_def log_name_update nth_Cons')
qed

lemma sink_write_inv:
  assumes ok: "all_succeed fa" and M: "1 \<le> M" and inv: "sink_inv M (k, fs) segs" and r: "fk_rotator k = Some r"
  shows "\<exists>r'. sink_inv M (FileSink_write fa gzip now mtime level line (k, fs)) (sink_spec (maxFileSize (config r)) segs line) \<and>
    fk_rotator (fst (FileSink_write fa gzip now mtime level line (k, fs))) = Some r' \<and> config r' = config r \<and> logPath r' = logPath r"
proof -
  have i: "logPath r = fk_path k" "logPath r \<noteq> []" "currentSize r = length (hd segs)" "policy (config r) = RotateSize"
    "\<not> rc_compress (config r)" "maxFiles (config r) = int M" "fk_minLevel k = 0" "segs \<noteq> []"
    "\<forall>seg\<in>set (tl segs). maxFileSize (config r) \<le> length seg"
    and at: "\<And>i. i \<le> M \<Longrightarrow> fs (log_name r i) = (if i < length segs then Some (segs ! i) else None)"
    using inv r by (auto simp: sink_inv_def)
  show ?thesis
  proof (cases "maxFileSize (config r) \<le> length (hd segs)")
    case False
    then show ?thesis using append_line [OF r i(3,8) inv, of line] r i
      by (simp add: FileSink_write_def shouldRotate_def sink_spec_def recordWrite_def)
  next
    case True
    let ?r = "r\<lparr>currentSize := 0, lastRotateTime := now\<rparr>"
    have "fs (logPath r) = Some (hd segs)" using at [of 0] i(8) by (simp add: log_name_def hd_conv_nth)
    from rotate_log_spec [where fs = fs and r = r and gzip = gzip and now = now, OF ok i(2) this i(6) M i(5)] at obtain fs' where
      rot: "rotate_log fa gzip now fs r = (True, fs', ?r)" "fs' (logPath r) = None"
        "\<And>k. 1 \<le> k \<Longrightarrow> k \<le> M \<Longrightarrow> fs' (log_name r k) = fs (log_name r (k - 1))" by (force split: if_splits)
    let ?k = "k\<lparr>fk_rotator := Some ?r\<rparr>" and ?fs = "fs'(logPath r \<mapsto> [])"
    have "?fs (log_name r i) = (if i < length ([] # segs) then Some (([] # segs) ! i) else None)" if "i \<le> M" for i
    proof (cases i)
      case (Suc j)
      then have "log_name r i \<noteq> logPath r" using log_name_inject [of r i 0] by (simp add: log_name_def [of r 0])
      then show ?thesis using rot(3) [of i] at [of j] that Suc by simp
    qed (simp add: log_name_def)
    then have inv': "sink_inv M (?k, ?fs) ([] # segs)"
      using i True by (cases segs) (auto simp: sink_inv_def log_name_update)
    have "FileSink_write fa gzip now mtime level line (k, fs) =
        (?k\<lparr>fk_rotator := Some (recordWrite (length line + 1) ?r)\<rparr>,
         ?fs(fk_path ?k := map_option (\<lambda>s. s @ line @ [CHR 0x0A]) (?fs (fk_path ?k))))"
      using r i True rot(1,2) by (simp add: FileSink_write_def shouldRotate_def open_append_def)
    then show ?thesis using append_line [OF _ _ _ inv', of ?r line] True by (simp add: sink_spec_def recordWrite_def)
  qed
qed

definition sink_write_all :: "fs_answers \<Rightarrow> (string \<Rightarrow> files \<Rightarrow> files) \<Rightarrow> (int \<times> int option \<times> nat \<times> string) list \<Rightarrow>
    FileSink \<times> files \<Rightarrow> FileSink \<times> files" where
  "sink_write_all fa gzip ws s = foldl (\<lambda>s (now, mtime, level, line). FileSink_write fa gzip now mtime level line s) s ws"

definition written :: "(int \<times> int option \<times> nat \<times> string) list \<Rightarrow> string" where
  "written ws = concat (map (\<lambda>(now, mtime, level, line). line @ [CHR 0x0A]) ws)"

lemma sink_spec_text: "segs \<noteq> [] \<Longrightarrow> concat (rev (sink_spec limit segs line)) = concat (rev segs) @ line @ [CHR 0x0A] \<and> sink_spec limit segs line \<noteq> []"
  by (cases segs) (simp_all add: sink_spec_def)

lemma sink_run:
  assumes "all_succeed fa" "1 \<le> M" "sink_inv M s segs" "fk_rotator (fst s) = Some r"
  shows "\<exists>r' segs'. sink_inv M (sink_write_all fa gzip ws s) segs' \<and> concat (rev segs') = concat (rev segs) @ written ws \<and>
    fk_rotator (fst (sink_write_all fa gzip ws s)) = Some r' \<and> config r' = config r \<and> logPath r' = logPath r"
  using assms(3,4)
proof (induction ws arbitrary: s segs r)
  case Nil
  then show ?case by (auto simp: sink_write_all_def written_def)
next
  case (Cons w ws)
  obtain now mtime level line where w: "w = (now, mtime, level, line)" by (cases w) auto
  obtain k fs where s: "s = (k, fs)" by (cases s)
  let ?s = "FileSink_write fa gzip now mtime level line s" and ?segs = "sink_spec (maxFileSize (config r)) segs line"
  have "segs \<noteq> []" using Cons(2,3) by (simp add: sink_inv_def)
  note text_of = sink_spec_text [OF this, of "maxFileSize (config r)" line]
  from sink_write_inv [OF assms(1,2), of k fs segs r gzip now mtime level line] Cons(2,3) obtain r1 where
    r1: "sink_inv M ?s ?segs" "fk_rotator (fst ?s) = Some r1" "config r1 = config r" "logPath r1 = logPath r" by (auto simp: s)
  from Cons(1) [OF r1(1,2)] r1(3,4) text_of show ?case by (auto simp: sink_write_all_def written_def w)
qed

section \<open>Properties\<close>

text \<open>
  C33: with the size policy and no compression, on files that do not exist yet and while removing and renaming succeed, a
  rotating sink loses nothing but the oldest segments: the text written is cut into consecutive segments, the log holds the newest,
  the file with number i the i-th newest before it, for every i up to \<open>maxFiles\<close>, and every segment that has been rotated away
  has reached the size limit.
\<close>

theorem FileSink_history:
  assumes ok: "all_succeed fa" and c: "policy c = RotateSize" "\<not> rc_compress c" "maxFiles c = int M" "1 \<le> M"
    and path: "path \<noteq> []" and new: "\<forall>i\<le>M. fs (log_name (LogRotate_ctor path c now fs) i) = None"
  shows "\<exists>segs. concat (rev segs) = written ws \<and> (\<forall>seg\<in>set (tl segs). maxFileSize c \<le> length seg) \<and>
    (\<forall>i\<le>M. snd (sink_write_all fa gzip ws (FileSink_rotating path c now fs)) (log_name (LogRotate_ctor path c now fs) i) =
       (if i < length segs then Some (segs ! i) else None))"
proof -
  let ?r = "LogRotate_ctor path c now fs" and ?s = "FileSink_rotating path c now fs"
  have p: "logPath ?r = path" "config ?r = c" "fk_rotator (fst ?s) = Some ?r" by (simp_all add: LogRotate_ctor_def FileSink_rotating_def)
  have none: "fs path = None" using new p(1) by (auto simp: log_name_def)
  have "log_name ?r i \<noteq> path" if "i \<noteq> 0" for i
    using log_name_inject [of ?r i 0] that unfolding log_name_def [of ?r 0] by (simp add: p(1))
  then have "sink_inv M ?s [[]]"
    using c path new none by (auto simp: sink_inv_def FileSink_rotating_def LogRotate_ctor_def open_append_def log_name_def)
  from sink_run [OF ok c(4) this p(3), of gzip ws] obtain r' segs' where
    run: "sink_inv M (sink_write_all fa gzip ws ?s) segs'" "concat (rev segs') = written ws"
      "fk_rotator (fst (sink_write_all fa gzip ws ?s)) = Some r'" "config r' = c" "logPath r' = path"
    by (auto simp: p)
  have "log_name r' = log_name ?r" by (simp add: log_name_def getRotatedPath_def run(5) p(1) fun_eq_iff)
  with run show ?thesis by (intro exI [of _ segs']) (simp add: sink_inv_def)
qed

text \<open>A limit of 2 characters and two writes: the second one rotates the first line away.\<close>

theorem FileSink_history_witness:
  "\<exists>segs. concat (rev segs) = ''aaa'' @ [CHR 0x0A] @ ''bb'' @ [CHR 0x0A] \<and> list_all (\<lambda>seg. 2 \<le> length seg) (tl segs) \<and>
    map (\<lambda>i. snd (sink_write_all \<lparr> fa_remove = (\<lambda>_. True), fa_rename = (\<lambda>_ _. True) \<rparr> (\<lambda>_ fs. fs)
        [(0, None, 2, ''aaa''), (1, Some 0, 2, ''bb'')]
        (FileSink_rotating ''log'' \<lparr> policy = RotateSize, maxFileSize = 2, maxFiles = 5, rc_compress = False \<rparr> 0 Map.empty))
      (log_name (LogRotate_ctor ''log'' \<lparr> policy = RotateSize, maxFileSize = 2, maxFiles = 5, rc_compress = False \<rparr> 0 Map.empty) i)) [0, 1, 2] =
    map (\<lambda>i. if i < length segs then Some (segs ! i) else None) [0, 1, 2]"
proof -
  let ?c = "\<lparr> policy = RotateSize, maxFileSize = 2, maxFiles = 5, rc_compress = False \<rparr>"
  let ?ws = "[(0, None, 2, ''aaa''), (1, Some 0, 2, ''bb'')]"
  have "\<exists>segs. concat (rev segs) = written ?ws \<and> (\<forall>seg\<in>set (tl segs). maxFileSize ?c \<le> length seg) \<and>
    (\<forall>i\<le>5. snd (sink_write_all \<lparr> fa_remove = (\<lambda>_. True), fa_rename = (\<lambda>_ _. True) \<rparr> (\<lambda>_ fs. fs) ?ws
       (FileSink_rotating ''log'' ?c 0 Map.empty)) (log_name (LogRotate_ctor ''log'' ?c 0 Map.empty) i) =
       (if i < length segs then Some (segs ! i) else None))"
    by (rule FileSink_history) (simp_all add: all_succeed_def)
  then obtain segs where segs: "concat (rev segs) = written ?ws" "\<forall>seg\<in>set (tl segs). maxFileSize ?c \<le> length seg"
    "\<And>i. i \<le> 5 \<Longrightarrow> snd (sink_write_all \<lparr> fa_remove = (\<lambda>_. True), fa_rename = (\<lambda>_ _. True) \<rparr> (\<lambda>_ fs. fs) ?ws
       (FileSink_rotating ''log'' ?c 0 Map.empty)) (log_name (LogRotate_ctor ''log'' ?c 0 Map.empty) i) =
       (if i < length segs then Some (segs ! i) else None)" by blast
  show ?thesis
    by (rule exI [of _ segs]) (use segs(1,2) segs(3) [of 0] segs(3) [of 1] segs(3) [of 2] in \<open>simp add: written_def list_all_iff\<close>)
qed

text \<open>What the command \<open>gzip -f\<close> does to the files: the compressed file, with the suffix \<open>.gz\<close>, takes the place of the original.\<close>

definition gzip_f :: "(string \<Rightarrow> string) \<Rightarrow> string \<Rightarrow> files \<Rightarrow> files" where
  "gzip_f deflate path fs = (case fs path of None \<Rightarrow> fs | Some s \<Rightarrow> fs(path := None, path @ ''.gz'' := Some (deflate s)))"

definition compressing :: LogRotate where
  "compressing = \<lparr> logPath = ''log'', config = \<lparr> policy = RotateSize, maxFileSize = 10, maxFiles = 3, rc_compress = True \<rparr>,
     currentSize = 0, lastRotateTime = 0 \<rparr>"

definition succeeding :: fs_answers where
  "succeeding = \<lparr> fa_remove = (\<lambda>_. True), fa_rename = (\<lambda>_ _. True) \<rparr>"

text \<open>
  with compression only one rotated log is ever kept, whatever \<open>maxFiles\<close>: the loop looks for the names without the suffix
  \<open>.gz\<close>, so that the second rotation overwrites the first compressed log; and the daily policy looks at the last write
  instead of the last rotation, so that a log that is written at least once a day is never rotated.
\<close>

theorem LogRotate_defects:
  "(let (ok1, fs1, r1) = rotate_log succeeding (gzip_f deflate) 1 [''log'' \<mapsto> first] compressing;
        (ok2, fs2, r2) = rotate_log succeeding (gzip_f deflate) 2 (fs1(''log'' \<mapsto> second)) r1
    in ok1 \<and> ok2 \<and> fs2 = [''log.1.gz'' \<mapsto> deflate second]) \<and>
   (shouldRotate now (Some lastWrite) (r'\<lparr>config := c\<lparr>policy := RotateDaily\<rparr>\<rparr>) \<longleftrightarrow> 24 * 3600 \<le> now - lastWrite)"
proof -
  have p: "getRotatedPath 1 compressing = ''log.1''" "getRotatedPath 2 compressing = ''log.2''" "getRotatedPath 3 compressing = ''log.3''"
    "getRotatedPath i (compressing\<lparr>currentSize := n, lastRotateTime := t\<rparr>) = getRotatedPath i compressing" for i n t
    by (simp_all add: compressing_def getRotatedPath_def to_string_int_def to_string_nat.simps char_of_def bit_0)
  have n: "nat (3 - 1) = Suc (Suc 0)" by simp
  have rot: "rotate_log succeeding (gzip_f deflate) now fs (compressing\<lparr>currentSize := k, lastRotateTime := t\<rparr>) =
      (True, fs(''log'' := None, ''log.1.gz'' := Some (deflate x)), compressing\<lparr>currentSize := 0, lastRotateTime := now\<rparr>)"
    if "fs ''log'' = Some x" "fs ''log.1'' = None" "fs ''log.2'' = None" for fs x k t and now :: int
  proof -
    have path: "logPath compressing = ''log''" "maxFiles (config compressing) = 3" "rc_compress (config compressing)" by (simp_all add: compressing_def)
    have "rotate_loop succeeding (compressing\<lparr>currentSize := k, lastRotateTime := t\<rparr>) (nat (3 - 1)) fs = fs"
      using that unfolding n by (simp add: p Let_def isItemExistsAtPath_def)
    moreover have "moveItem succeeding ''log'' ''log.1'' True fs = (True, fs(''log.1'' := Some x, ''log'' := None))"
      using that by (subst moveItem_ok) (simp_all add: all_succeed_def succeeding_def)
    ultimately show ?thesis using that path
      by (simp add: rotate_log_def p isItemExistsAtPath_def gzip_f_def Let_def) (auto simp: fun_eq_iff)
  qed
  have "compressing = compressing\<lparr>currentSize := 0, lastRotateTime := 0\<rparr>" by (simp add: compressing_def)
  then have "rotate_log succeeding (gzip_f deflate) 1 [''log'' \<mapsto> first] compressing =
      (True, [''log'' \<mapsto> first](''log'' := None, ''log.1.gz'' := Some (deflate first)), compressing\<lparr>currentSize := 0, lastRotateTime := 1\<rparr>)"
    using rot [of "[''log'' \<mapsto> first]" first 1 0 0] by simp
  moreover have "rotate_log succeeding (gzip_f deflate) 2 ([''log.1.gz'' \<mapsto> deflate first](''log'' \<mapsto> second)) (compressing\<lparr>currentSize := 0, lastRotateTime := 1\<rparr>) =
      (True, [''log.1.gz'' \<mapsto> deflate first](''log'' \<mapsto> second, ''log'' := None, ''log.1.gz'' := Some (deflate second)),
       compressing\<lparr>currentSize := 0, lastRotateTime := 2\<rparr>)"
    using rot [of "[''log.1.gz'' \<mapsto> deflate first](''log'' \<mapsto> second)" second 2 1 0] by simp
  ultimately show ?thesis by (simp add: fun_upd_def shouldRotate_def shouldRotateByTime_def cong: if_cong)
qed

end
