(* ===== verification/AsyncQueue.thy ===== *)
theory AsyncQueue
  imports Prelude "HOL-Library.Multiset"
begin

text \<open>
  The thread pool \<open>AsyncQueue\<close> of \<^verbatim>\<open>include/darwincore/foundation/thread/AsyncQueue.h\<close> and \<^verbatim>\<open>AsyncQueue.cpp\<close>. A worker
  waits, runs a task, or has left its loop; each critical section is one step, and the steps of the workers, of the
  submitting threads and of the destructor interleave freely. The lists of tasks accepted, started and finished are history.
\<close>

section \<open>State and steps\<close>

datatype 'a worker = Waiting | Running 'a | Left

record 'a AsyncQueue =
  isRunning :: bool
  mTaskQueue :: "'a list"
  mThreadArray :: "'a worker list"
  aq_accepted :: "'a list"
  aq_started :: "'a list"
  aq_finished :: "'a list"

definition AsyncQueue_ctor :: "nat \<Rightarrow> 'a AsyncQueue" where
  "AsyncQueue_ctor queueSize = \<lparr> isRunning = True, mTaskQueue = [], mThreadArray = replicate queueSize Waiting,
     aq_accepted = [], aq_started = [], aq_finished = [] \<rparr>"

definition aq_submit :: "'a \<Rightarrow> 'a AsyncQueue \<Rightarrow> 'a AsyncQueue" where
  "aq_submit task q =
     (if \<not> isRunning q then q
      else q\<lparr>mTaskQueue := mTaskQueue q @ [task], aq_accepted := aq_accepted q @ [task]\<rparr>)"

text \<open>The first half of the destructor; it then joins the workers.\<close>

definition aq_stop :: "'a AsyncQueue \<Rightarrow> 'a AsyncQueue" where
  "aq_stop q = q\<lparr>isRunning := False\<rparr>"

text \<open>
  One pass of a worker through its loop, in two steps: under the lock it takes a task or, when there is none, finds that
  it was not given one and leaves; without the lock it runs the task. None: the worker has to wait on the condition
  variable, or has left.
\<close>

definition worker_take :: "nat \<Rightarrow> 'a AsyncQueue \<Rightarrow> 'a AsyncQueue option" where
  "worker_take i q =
     (if mThreadArray q ! i \<noteq> Waiting then None
      else if \<not> (\<not> isRunning q \<or> mTaskQueue q \<noteq> []) then None
      else case mTaskQueue q of
             [] \<Rightarrow> Some (q\<lparr>mThreadArray := (mThreadArray q)[i := Left]\<rparr>)
           | task # tasks \<Rightarrow> Some (q\<lparr>mTaskQueue := tasks, mThreadArray := (mThreadArray q)[i := Running task],
               aq_started := aq_started q @ [task]\<rparr>))"

definition worker_finish :: "nat \<Rightarrow> 'a AsyncQueue \<Rightarrow> 'a AsyncQueue option" where
  "worker_finish i q =
     (case mThreadArray q ! i of
        Running task \<Rightarrow> Some (q\<lparr>mThreadArray := (mThreadArray q)[i := Waiting], aq_finished := aq_finished q @ [task]\<rparr>)
      | _ \<Rightarrow> None)"

inductive worker_step :: "'a AsyncQueue \<Rightarrow> 'a AsyncQueue \<Rightarrow> bool" where
  ws_take: "i < length (mThreadArray q) \<Longrightarrow> worker_take i q = Some q' \<Longrightarrow> worker_step q q'"
| ws_finish: "i < length (mThreadArray q) \<Longrightarrow> worker_finish i q = Some q' \<Longrightarrow> worker_step q q'"

inductive aq_step :: "'a AsyncQueue \<Rightarrow> 'a AsyncQueue \<Rightarrow> bool" where
  aq_worker: "worker_step q q' \<Longrightarrow> aq_step q q'"
| aq_submits: "aq_step q (aq_submit task q)"
| aq_stops: "aq_step q (aq_stop q)"

section \<open>Invariant\<close>

fun in_hand :: "'a worker \<Rightarrow> 'a multiset" where
  "in_hand (Running task) = {#task#}"
| "in_hand w = {#}"

definition aq_inv :: "nat \<Rightarrow> 'a AsyncQueue \<Rightarrow> bool" where
  "aq_inv n q \<longleftrightarrow> length (mThreadArray q) = n \<and> aq_accepted q = aq_started q @ mTaskQueue q \<and>
     mset (aq_started q) = mset (aq_finished q) + (\<Sum>w\<leftarrow>mThreadArray q. in_hand w) \<and>
     (Left \<in> set (mThreadArray q) \<longrightarrow> \<not> isRunning q \<and> mTaskQueue q = [])"

lemma sum_list_update_plus:
  fixes f :: "'b \<Rightarrow> 'a :: cancel_comm_monoid_add"
  shows "i < length ws \<Longrightarrow> (\<Sum>w\<leftarrow>ws[i := v]. f w) + f (ws ! i) = (\<Sum>w\<leftarrow>ws. f w) + f v"
proof (induction ws arbitrary: i)
  case (Cons w ws)
  then show ?case by (cases i) (simp_all add: add.assoc add.commute add.left_commute)
qed simp

lemma worker_take_inv:
  assumes "aq_inv n q" "i < length (mThreadArray q)" "worker_take i q = Some q'"
  shows "aq_inv n q'"
proof -
  have w: "mThreadArray q ! i = Waiting" using assms(3) by (auto simp: worker_take_def split: if_splits)
  note sums = sum_list_update_plus [OF assms(2), where f = in_hand, unfolded w]
  show ?thesis
  proof (cases "mTaskQueue q")
    case Nil
    then have "q' = q\<lparr>mThreadArray := (mThreadArray q)[i := Left]\<rparr>" "\<not> isRunning q"
      using assms(3) w by (auto simp: worker_take_def split: if_splits)
    then show ?thesis using assms(1) Nil sums [of Left] by (simp add: aq_inv_def)
  next
    case (Cons task tasks)
    then have q': "q' = q\<lparr>mTaskQueue := tasks, mThreadArray := (mThreadArray q)[i := Running task], aq_started := aq_started q @ [task]\<rparr>"
      using assms(3) w by (auto simp: worker_take_def split: if_splits)
    have "Left \<notin> set (mThreadArray q)" using assms(1) Cons by (auto simp: aq_inv_def)
    then have "Left \<notin> set ((mThreadArray q)[i := Running task])" using set_update_subset_insert [of "mThreadArray q" i "Running task"] by auto
    then show ?thesis using assms(1) Cons sums [of "Running task"] by (simp add: aq_inv_def q')
  qed
qed

lemma worker_finish_inv:
  assumes "aq_inv n q" "i < length (mThreadArray q)" "worker_finish i q = Some q'"
  shows "aq_inv n q'"
proof -
  from assms(3) obtain task where w: "mThreadArray q ! i = Running task"
    "q' = q\<lparr>mThreadArray := (mThreadArray q)[i := Waiting], aq_finished := aq_finished q @ [task]\<rparr>"
    by (auto simp: worker_finish_def split: worker.splits)
  have "Left \<in> set (mThreadArray q)" if "Left \<in> set ((mThreadArray q)[i := Waiting])"
    using that set_update_subset_insert [of "mThreadArray q" i Waiting] by auto
  then show ?thesis using assms(1) sum_list_update_plus [OF assms(2), where f = in_hand and v = Waiting] by (auto simp: aq_inv_def w)
qed

interpretation async_queue: invariant_system "\<lambda>q. q = AsyncQueue_ctor n" aq_step "aq_inv n"
proof
  fix q :: "'a AsyncQueue"
  assume "q = AsyncQueue_ctor n"
  moreover have "sum_list (replicate n {#}) = ({#} :: 'a multiset)" by (induction n) simp_all
  ultimately show "aq_inv n q" by (simp add: aq_inv_def AsyncQueue_ctor_def)
next
  fix q q' :: "'a AsyncQueue"
  assume inv: "aq_inv n q" and "aq_step q q'"
  from this(2) show "aq_inv n q'"
  proof cases
    case aq_worker
    then show ?thesis by cases (blast intro: worker_take_inv worker_finish_inv inv)+
  qed (use inv in \<open>auto simp: aq_inv_def aq_submit_def aq_stop_def\<close>)
qed

section \<open>The end of the workers\<close>

text \<open>How many steps the workers can still make after a stop: at most two for each task and one to leave for each worker.\<close>

fun worker_weight :: "'a worker \<Rightarrow> nat" where
  "worker_weight Waiting = 1"
| "worker_weight (Running task) = 2"
| "worker_weight Left = 0"

definition steps_left :: "'a AsyncQueue \<Rightarrow> nat" where
  "steps_left q = 2 * length (mTaskQueue q) + (\<Sum>w\<leftarrow>mThreadArray q. worker_weight w)"

lemma worker_step_less:
  assumes "worker_step q q'"
  shows "steps_left q' < steps_left q \<and> isRunning q' = isRunning q"
  using assms
proof cases
  case (ws_take i)
  then show ?thesis using sum_list_update_plus [OF ws_take(1), where f = worker_weight and v = Left]
      sum_list_update_plus [OF ws_take(1), where f = worker_weight and v = "Running (hd (mTaskQueue q))"]
    by (cases "mTaskQueue q") (auto simp: worker_take_def steps_left_def split: if_splits)
next
  case (ws_finish i)
  then show ?thesis using sum_list_update_plus [OF ws_finish(1), where f = worker_weight and v = Waiting]
    by (auto simp: worker_finish_def steps_left_def split: worker.splits)
qed

lemma worker_steps_bound:
  assumes "(worker_step ^^ k) q q'"
  shows "k + steps_left q' \<le> steps_left q \<and> isRunning q' = isRunning q"
  using assms by (induction k arbitrary: q') (fastforce dest: worker_step_less)+

lemma worker_progress:
  assumes "\<not> isRunning q" "w \<in> set (mThreadArray q)" "w \<noteq> Left"
  shows "\<exists>q'. worker_step q q'"
proof -
  from assms(2) obtain i where i: "i < length (mThreadArray q)" "mThreadArray q ! i = w" by (auto simp: in_set_conv_nth)
  show ?thesis
  proof (cases w)
    case Waiting
    then have "worker_take i q \<noteq> None" using assms(1) i by (auto simp: worker_take_def split: list.split)
    then show ?thesis using i ws_take by blast
  next
    case (Running task)
    then have "worker_finish i q \<noteq> None" using i by (simp add: worker_finish_def)
    then show ?thesis using i ws_finish by blast
  qed (use assms(3) in simp)
qed

section \<open>Properties\<close>

text \<open>
  C30: tasks are started in the order in which they were accepted; after a stop the workers make at most \<open>steps_left\<close> further
  steps, and while they can make none all of them have left, so that the destructor returns; and by then, if there
  is a worker at all, every task ever accepted has been run exactly once.
\<close>

theorem AsyncQueue_drains:
  assumes "aq_step\<^sup>*\<^sup>* (AsyncQueue_ctor n) q"
  shows "(\<exists>rest. aq_accepted q = aq_started q @ rest) \<and>
    (\<forall>k q'. isRunning q = False \<and> (worker_step ^^ k) q q' \<longrightarrow> k \<le> steps_left q \<and>
       ((\<nexists>q''. worker_step q' q'') \<longrightarrow> mThreadArray q' = replicate n Left \<and>
          (0 < n \<longrightarrow> mset (aq_finished q') = mset (aq_accepted q'))))"
proof -
  have inv: "aq_inv n q" by (rule async_queue.Inv_reachable [OF refl assms])
  have "mThreadArray q' = replicate n Left \<and> (0 < n \<longrightarrow> mset (aq_finished q') = mset (aq_accepted q'))"
    if k: "(worker_step ^^ k) q q'" and stopped: "\<not> isRunning q" and stuck: "\<nexists>q''. worker_step q' q''" for k q'
  proof -
    have "aq_step\<^sup>*\<^sup>* q q'" using k by (induction k arbitrary: q') (auto intro: rtranclp.rtrancl_into_rtrancl aq_worker)
    then have inv': "aq_inv n q'" by (rule async_queue.Inv_steps [OF _ inv])
    have "\<not> isRunning q'" using worker_steps_bound [OF k] stopped by simp
    then have all: "\<forall>w\<in>set (mThreadArray q'). w = Left" using worker_progress [of q'] stuck by blast
    then have left: "mThreadArray q' = replicate n Left" using inv' by (intro replicate_eqI) (auto simp: aq_inv_def)
    moreover have "sum_list (replicate n ({#} :: 'a multiset)) = {#}" by (induction n) simp_all
    ultimately show ?thesis using inv' by (auto simp: aq_inv_def)
  qed
  then show ?thesis using inv worker_steps_bound [of _ q] by (auto simp: aq_inv_def) (metis add_leD1)+
qed

text \<open>One worker, one task, and a stop before the task is taken.\<close>

definition stopped_sample :: "nat AsyncQueue" where
  "stopped_sample = aq_stop (aq_submit 7 (AsyncQueue_ctor 1))"

definition drained_sample :: "nat AsyncQueue" where
  "drained_sample = \<lparr> isRunning = False, mTaskQueue = [], mThreadArray = [Left], aq_accepted = [7], aq_started = [7], aq_finished = [7] \<rparr>"

theorem AsyncQueue_drains_witness:
  "3 \<le> steps_left stopped_sample \<and> mset (aq_finished drained_sample) = mset (aq_accepted drained_sample)"
proof -
  have r: "aq_step\<^sup>*\<^sup>* (AsyncQueue_ctor 1) stopped_sample"
    unfolding stopped_sample_def by (meson aq_submits aq_stops rtranclp.rtrancl_into_rtrancl rtranclp.rtrancl_refl)
  let ?q = "\<lparr> isRunning = False, mTaskQueue = [], mThreadArray = [Running 7], aq_accepted = [7], aq_started = [7], aq_finished = [] \<rparr> :: nat AsyncQueue"
  let ?p = "?q\<lparr>mThreadArray := [Waiting], aq_finished := [7]\<rparr>"
  have "worker_step stopped_sample ?q"
    by (rule ws_take [of 0]) (simp_all add: stopped_sample_def aq_stop_def aq_submit_def AsyncQueue_ctor_def worker_take_def)
  moreover have "worker_step ?q ?p" by (rule ws_finish [of 0]) (simp_all add: worker_finish_def)
  moreover have "worker_step ?p drained_sample" by (rule ws_take [of 0]) (simp_all add: worker_take_def drained_sample_def)
  ultimately have k: "(worker_step ^^ 3) stopped_sample drained_sample" unfolding numeral_3_eq_3 by (auto intro!: relcomppI)
  have stuck: "\<nexists>q. worker_step drained_sample q"
    by (auto elim!: worker_step.cases simp: drained_sample_def worker_take_def worker_finish_def split: if_splits)
  have "\<not> isRunning stopped_sample" by (simp add: stopped_sample_def aq_stop_def)
  with AsyncQueue_drains [OF r, THEN conjunct2, THEN spec, THEN spec, of 3 drained_sample] k stuck show ?thesis by simp
qed

end
