(* ===== verification/Timer.thy ===== *)
theory Timer
  imports Prelude
begin

text \<open>
  \<open>Timer\<close> and \<open>TimerManager\<close> of \<^verbatim>\<open>src/darwincore/foundation/timer/Timer.cpp\<close>. The loop of \<open>run\<close> makes a round under its lock and
  sleeps for a millisecond; a round is one step. The callback runs later, on a thread of \<open>AsyncQueue\<close>, and what the task
  does to the timer when the callback has returned is a step of its own. Intervals for which \<open>interval * 1000\<close> exceeds an
  int are left out. A callback is present or null; its effects are its own.
\<close>

section \<open>Timer\<close>

record Timer =
  t_callback :: bool
  t_interval :: int
  t_running :: bool
  t_repeat :: bool
  t_id :: int
  t_remainTime :: int

definition timer_start :: "Timer \<Rightarrow> Timer" where
  "timer_start t = (if t_running t then t else t\<lparr>t_running := True\<rparr>)"

definition Timer_ctor :: "int \<Rightarrow> int \<Rightarrow> bool \<Rightarrow> bool \<Rightarrow> Timer" where
  "Timer_ctor tid interval rep callback =
     timer_start \<lparr> t_callback = callback, t_interval = interval, t_running = False, t_repeat = rep, t_id = tid,
       t_remainTime = interval * 1000 \<rparr>"

definition timer_stop :: "Timer \<Rightarrow> Timer" where
  "timer_stop t = (if \<not> t_running t then t else t\<lparr>t_callback := False\<rparr>)"

text \<open>Whether a task is submitted; and the end of that task.\<close>

definition doTask :: "Timer \<Rightarrow> bool \<times> Timer" where
  "doTask t = (let t = t\<lparr>t_remainTime := -1\<rparr> in if t_callback t then (True, t) else (False, t))"

definition task_end :: "Timer \<Rightarrow> Timer" where
  "task_end t = (if \<not> t_repeat t then timer_stop t else t\<lparr>t_remainTime := t_interval t * 1000\<rparr>)"

section \<open>TimerManager\<close>

record TimerManager =
  currentId :: int
  timerMap :: "(int \<times> Timer) list"

definition TimerManager_ctor :: TimerManager where
  "TimerManager_ctor = \<lparr> currentId = 0, timerMap = [] \<rparr>"

definition tm_start :: "int \<Rightarrow> bool \<Rightarrow> bool \<Rightarrow> TimerManager \<Rightarrow> int \<times> TimerManager" where
  "tm_start interval rep callback m =
     (let tid = currentId m + 1
      in (tid, m\<lparr>currentId := tid, timerMap := timerMap m @ [(tid, Timer_ctor tid interval rep callback)]\<rparr>))"

definition tm_clean :: "int \<Rightarrow> TimerManager \<Rightarrow> TimerManager" where
  "tm_clean timerId m = m\<lparr>timerMap := filter (\<lambda>(tid, t). tid \<noteq> timerId) (timerMap m)\<rparr>"

definition tm_stop :: "int \<Rightarrow> TimerManager \<Rightarrow> TimerManager" where
  "tm_stop timerId m = tm_clean timerId m"

definition timer_tick :: "Timer \<Rightarrow> bool \<times> Timer" where
  "timer_tick t =
     (if t_remainTime t = 0 then doTask t
      else if 0 < t_remainTime t then (False, t\<lparr>t_remainTime := t_remainTime t - 1\<rparr>)
      else (False, t))"

text \<open>A round of the loop: the timers whose tasks are submitted, in order, and the map.\<close>

fun tick_loop :: "(int \<times> Timer) list \<Rightarrow> int list \<times> (int \<times> Timer) list" where
  "tick_loop [] = ([], [])"
| "tick_loop ((tid, t) # ts) =
     (case tick_loop ts of (fired, ts') \<Rightarrow>
        if \<not> t_running t then (fired, ts')
        else case timer_tick t of (f, t') \<Rightarrow> (if f then tid # fired else fired, (tid, t') # ts'))"

definition tm_round :: "TimerManager \<Rightarrow> int list \<times> TimerManager" where
  "tm_round m = (case tick_loop (timerMap m) of (fired, ts) \<Rightarrow> (fired, m\<lparr>timerMap := ts\<rparr>))"

text \<open>The end of the task of a timer; None: the timer is gone, and the task writes to freed memory.\<close>

definition tm_task_end :: "int \<Rightarrow> TimerManager \<Rightarrow> TimerManager option" where
  "tm_task_end timerId m =
     (if timerId \<in> fst ` set (timerMap m)
      then Some (m\<lparr>timerMap := map (\<lambda>(tid, t). (tid, if tid = timerId then task_end t else t)) (timerMap m)\<rparr>) else None)"

section \<open>Rounds\<close>

text \<open>A round followed by the ends of the tasks it submitted: every callback returns before the next round.\<close>

fun end_all :: "int list \<Rightarrow> TimerManager \<Rightarrow> TimerManager option" where
  "end_all [] m = Some m"
| "end_all (k # ks) m = Option.bind (tm_task_end k m) (end_all ks)"

definition prompt_round :: "TimerManager \<Rightarrow> (int list \<times> TimerManager) option" where
  "prompt_round m = (case tm_round m of (fired, m) \<Rightarrow> map_option (Pair fired) (end_all fired m))"

fun prompt_run :: "nat \<Rightarrow> TimerManager \<Rightarrow> (int list \<times> TimerManager) option" where
  "prompt_run 0 m = Some ([], m)"
| "prompt_run (Suc k) m =
     Option.bind (prompt_run k m) (\<lambda>(fired, m). map_option (\<lambda>(fired', m). (fired @ fired', m)) (prompt_round m))"

text \<open>The same for one timer.\<close>

definition timer_round :: "Timer \<Rightarrow> bool \<times> Timer" where
  "timer_round t = (case timer_tick t of (f, t) \<Rightarrow> (f, if f then task_end t else t))"

lemma tick_loop_keys: "\<forall>(tid, t)\<in>set ts. t_running t \<Longrightarrow> tick_loop ts =
    (map fst (filter (\<lambda>(tid, t). fst (timer_tick t)) ts), map (\<lambda>(tid, t). (tid, snd (timer_tick t))) ts)"
  by (induction ts rule: tick_loop.induct) (auto split: prod.split)

lemma end_all_eq:
  "set ks \<subseteq> fst ` set (timerMap m) \<Longrightarrow> distinct ks \<Longrightarrow>
   end_all ks m = Some (m\<lparr>timerMap := map (\<lambda>(tid, t). (tid, if tid \<in> set ks then task_end t else t)) (timerMap m)\<rparr>)"
proof (induction ks arbitrary: m)
  case Nil
  then show ?case by (simp add: case_prod_unfold)
next
  case (Cons k ks)
  let ?m = "m\<lparr>timerMap := map (\<lambda>(tid, t). (tid, if tid = k then task_end t else t)) (timerMap m)\<rparr>"
  have "fst ` set (timerMap ?m) = fst ` set (timerMap m)" by force
  then have "end_all ks ?m = Some (?m\<lparr>timerMap := map (\<lambda>(tid, t). (tid, if tid \<in> set ks then task_end t else t)) (timerMap ?m)\<rparr>)"
    using Cons by (intro Cons.IH) auto
  moreover have "tm_task_end k m = Some ?m" using Cons.prems by (simp add: tm_task_end_def)
  ultimately show ?case using Cons.prems(2) by (auto simp: case_prod_unfold)
qed

text \<open>Timers do not disturb each other.\<close>

lemma prompt_round_eq:
  assumes "\<forall>(tid, t)\<in>set (timerMap m). t_running t" and "distinct (map fst (timerMap m))"
  shows "prompt_round m = Some (map fst (filter (\<lambda>(tid, t). fst (timer_round t)) (timerMap m)),
    m\<lparr>timerMap := map (\<lambda>(tid, t). (tid, snd (timer_round t))) (timerMap m)\<rparr>)"
proof -
  let ?ts = "timerMap m" and ?fired = "map fst (filter (\<lambda>(tid, t). fst (timer_tick t)) (timerMap m))"
  let ?m = "m\<lparr>timerMap := map (\<lambda>(tid, t). (tid, snd (timer_tick t))) ?ts\<rparr>"
  have "tm_round m = (?fired, ?m)" by (simp add: tm_round_def tick_loop_keys assms(1))
  moreover have "set ?fired \<subseteq> fst ` set (timerMap ?m)" "distinct ?fired" using assms(2) by (force, simp add: distinct_map_filter)
  note end_all_eq [OF this]
  moreover have fired: "tid \<in> set ?fired \<longleftrightarrow> fst (timer_tick t)" if "(tid, t) \<in> set ?ts" for tid t
    using that assms(2) by (auto simp: image_iff) (metis eq_key_imp_eq_value)
  have maps: "timerMap ?m = map (\<lambda>(tid, t). (tid, snd (timer_tick t))) ?ts" by simp
  have "map (\<lambda>(tid, t). (tid, if tid \<in> set ?fired then task_end t else t)) (timerMap ?m) = map (\<lambda>(tid, t). (tid, snd (timer_round t))) ?ts"
    unfolding maps map_map
  proof (rule map_cong [OF refl])
    fix e
    assume e: "e \<in> set ?ts"
    obtain tid t where "e = (tid, t)" by (cases e)
    with e fired [of tid t] show "((\<lambda>(tid, t). (tid, if tid \<in> set ?fired then task_end t else t)) \<circ> (\<lambda>(tid, t). (tid, snd (timer_tick t)))) e =
        (case e of (tid, t) \<Rightarrow> (tid, snd (timer_round t)))"
      by (simp add: timer_round_def case_prod_unfold)
  qed
  moreover have "fst (timer_round t) = fst (timer_tick t)" for t by (simp add: timer_round_def case_prod_unfold)
  ultimately show ?thesis by (simp add: prompt_round_def)
qed

section \<open>When a timer fires\<close>

text \<open>A timer after k rounds: how often it fired, and what is left of its time.\<close>

fun timer_rounds :: "nat \<Rightarrow> Timer \<Rightarrow> nat \<times> Timer" where
  "timer_rounds 0 t = (0, t)"
| "timer_rounds (Suc k) t =
     (case timer_rounds k t of (n, t) \<Rightarrow> case timer_round t of (f, t) \<Rightarrow> (if f then Suc n else n, t))"

lemma timer_round_fresh:
  "timer_round (Timer_ctor tid (int n) rep True\<lparr>t_remainTime := int r\<rparr>) =
     (if r = 0 then (True, if rep then Timer_ctor tid (int n) rep True
                           else Timer_ctor tid (int n) rep True\<lparr>t_callback := False, t_remainTime := -1\<rparr>)
      else (False, Timer_ctor tid (int n) rep True\<lparr>t_remainTime := int (r - 1)\<rparr>))"
  by (simp add: timer_round_def timer_tick_def doTask_def task_end_def timer_stop_def Timer_ctor_def timer_start_def of_nat_diff)

text \<open>A round of \<open>n * 1000\<close> countdown steps and one that fires.\<close>

lemma repeating_rounds:
  "timer_rounds k (Timer_ctor tid (int n) True True) =
     (k div (1000 * n + 1), Timer_ctor tid (int n) True True\<lparr>t_remainTime := int (1000 * n - k mod (1000 * n + 1))\<rparr>)"
proof (induction k)
  case 0
  show ?case by (simp add: Timer_ctor_def timer_start_def)
next
  case (Suc k)
  have "k mod (1000 * n + 1) \<le> 1000 * n" using mod_less_divisor [of "1000 * n + 1" k] by linarith
  then have "1000 * n - k mod (1000 * n + 1) = 0 \<longleftrightarrow> Suc (k mod (1000 * n + 1)) = 1000 * n + 1" by linarith
  then show ?case using Suc timer_round_fresh [where tid = tid and n = n and rep = True and r = "1000 * n - k mod (1000 * n + 1)"]
    by (auto simp: div_Suc mod_Suc Timer_ctor_def timer_start_def)
qed

lemma oneshot_rounds:
  "timer_rounds k (Timer_ctor tid (int n) False True) =
     (if k \<le> 1000 * n then (0, Timer_ctor tid (int n) False True\<lparr>t_remainTime := int (1000 * n - k)\<rparr>)
      else (1, Timer_ctor tid (int n) False True\<lparr>t_callback := False, t_remainTime := -1\<rparr>))"
proof (induction k)
  case 0
  show ?case by (simp add: Timer_ctor_def timer_start_def)
next
  case (Suc k)
  have "timer_round (Timer_ctor tid (int n) False True\<lparr>t_callback := False, t_remainTime := -1\<rparr>) =
      (False, Timer_ctor tid (int n) False True\<lparr>t_callback := False, t_remainTime := -1\<rparr>)"
    by (simp add: timer_round_def timer_tick_def)
  then show ?case using Suc timer_round_fresh [where tid = tid and n = n and rep = False and r = "1000 * n - k"] by auto
qed

lemma timer_round_running: "t_running (snd (timer_round t)) = t_running t"
  by (simp add: timer_round_def timer_tick_def doTask_def task_end_def timer_stop_def Let_def)

lemma timer_rounds_running: "t_running (snd (timer_rounds k t)) = t_running t"
  by (induction k) (auto simp: case_prod_unfold timer_round_running)

lemma count_fired:
  assumes "distinct (map fst ts)" "(tid, t) \<in> set ts"
  shows "count_list (map fst (filter (\<lambda>(tid, t). P t) ts)) tid = (if P t then 1 else 0)"
proof -
  have "count_list (map fst (filter (\<lambda>(tid, t). P t) ts)) tid = 0" if "tid \<notin> fst ` set ts" for ts
    using that by (induction ts) auto
  then show ?thesis using assms by (induction ts) (auto simp: image_iff)
qed

lemma prompt_run_eq:
  assumes "\<forall>(tid, t)\<in>set (timerMap m). t_running t" "distinct (map fst (timerMap m))"
  shows "\<exists>fired. prompt_run k m = Some (fired, m\<lparr>timerMap := map (\<lambda>(tid, t). (tid, snd (timer_rounds k t))) (timerMap m)\<rparr>) \<and>
    (\<forall>(tid, t)\<in>set (timerMap m). count_list fired tid = fst (timer_rounds k t))"
proof (induction k)
  case 0
  show ?case by (simp add: case_prod_unfold)
next
  case (Suc k)
  then obtain fired where f: "prompt_run k m = Some (fired, m\<lparr>timerMap := map (\<lambda>(tid, t). (tid, snd (timer_rounds k t))) (timerMap m)\<rparr>)"
    "\<And>tid t. (tid, t) \<in> set (timerMap m) \<Longrightarrow> count_list fired tid = fst (timer_rounds k t)" by blast
  let ?ts = "map (\<lambda>(tid, t). (tid, snd (timer_rounds k t))) (timerMap m)"
  let ?more = "map fst (filter (\<lambda>(tid, t). fst (timer_round t)) ?ts)"
  have keys: "map fst ?ts = map fst (timerMap m)" by auto
  have "prompt_round (m\<lparr>timerMap := ?ts\<rparr>) = Some (?more, m\<lparr>timerMap := map (\<lambda>(tid, t). (tid, snd (timer_round t))) ?ts\<rparr>)"
  proof -
    have "\<forall>(tid, t)\<in>set ?ts. t_running t" using assms(1) by (auto simp: timer_rounds_running)
    moreover have "distinct (map fst ?ts)" unfolding keys by (rule assms(2))
    ultimately show ?thesis using prompt_round_eq [of "m\<lparr>timerMap := ?ts\<rparr>"] by (simp del: map_map)
  qed
  moreover have "map (\<lambda>(tid, t). (tid, snd (timer_round t))) ?ts = map (\<lambda>(tid, t). (tid, snd (timer_rounds (Suc k) t))) (timerMap m)"
    by (auto simp: case_prod_unfold)
  moreover have "count_list (fired @ ?more) tid = fst (timer_rounds (Suc k) t)" if "(tid, t) \<in> set (timerMap m)" for tid t
  proof -
    have "(tid, snd (timer_rounds k t)) \<in> set ?ts" using that by force
    moreover have "distinct (map fst ?ts)" unfolding keys by (rule assms(2))
    ultimately have "count_list ?more tid = (if fst (timer_round (snd (timer_rounds k t))) then 1 else 0)" by (intro count_fired)
    then show ?thesis using f(2) [OF that] by (simp add: case_prod_unfold del: map_map)
  qed
  ultimately show ?case using f(1) by auto
qed

section \<open>Properties\<close>

text \<open>
  when every callback returns before the next round, a timer of interval n fires first in round \<open>1000 n + 1\<close>, a repeating
  one again every \<open>1000 n + 1\<close> rounds and a single one never again, whatever other timers there are; the manager never
  removes a timer by itself, not even a single one that has fired.
\<close>

theorem Timer_period:
  assumes "\<forall>(tid, t)\<in>set (timerMap m). t_running t" and "distinct (map fst (timerMap m))"
    and "(tid, Timer_ctor tid (int n) rep True) \<in> set (timerMap m)"
  shows "\<exists>fired m'. prompt_run k m = Some (fired, m') \<and> map fst (timerMap m') = map fst (timerMap m) \<and>
    count_list fired tid = (if rep then k div (1000 * n + 1) else if k \<le> 1000 * n then 0 else 1)"
proof -
  from prompt_run_eq [OF assms(1,2), of k] obtain fired where
    "prompt_run k m = Some (fired, m\<lparr>timerMap := map (\<lambda>(tid, t). (tid, snd (timer_rounds k t))) (timerMap m)\<rparr>)"
    "\<forall>(tid, t)\<in>set (timerMap m). count_list fired tid = fst (timer_rounds k t)" by blast
  moreover from this(2) assms(3) have "count_list fired tid = fst (timer_rounds k (Timer_ctor tid (int n) rep True))" by blast
  ultimately show ?thesis by (cases rep) (auto simp: repeating_rounds oneshot_rounds)
qed

theorem Timer_period_witness:
  "\<exists>fired m'. prompt_run 2500 (snd (tm_start 1 True True TimerManager_ctor)) = Some (fired, m') \<and> count_list fired 1 = 2"
proof -
  let ?m = "snd (tm_start 1 True True TimerManager_ctor)"
  have m: "timerMap ?m = [(1, Timer_ctor 1 (int 1) True True)]" by (simp add: tm_start_def TimerManager_ctor_def)
  from Timer_period [of ?m 1 1 True 2500] show ?thesis unfolding m by (auto simp: Timer_ctor_def timer_start_def)
qed

end
