(* ===== verification/Spec2Isabelle.thy ===== *)
theory Spec2Isabelle
  imports ProtocolRoundtrip ConnectionId CircularBuffer LRUCache MPMCRingQueue ObjectPool Search BitSet BloomFilter
    MemoryPool CalendarProperties Encoding Server Client
    ConcurrentMap UUID FilePath Throttle ProcessTree LogRotate AsyncQueue Timer
begin

text \<open>
  \<^bold>\<open>DarwinCore\<close> is a C++ library for macOS in two parts: \<^emph>\<open>network\<close>, an event-driven server and client over
  kqueue with a framing protocol, and \<^emph>\<open>foundation\<close>, a collection of containers and wrappers of system
  services. This development models the network part, from the bytes on the wire up to the classes
  \<open>Server\<close> and \<open>Client\<close>, and the classes of the foundation with an algorithm of their own.

  \<^bold>\<open>How the parts interact.\<close> An \<open>Acceptor\<close> accepts sockets and hands each to one of several reactors. A \<open>Reactor\<close>
  owns its connections: other threads give it operations through a \<open>ConcurrentQueue\<close>; its loop takes them in batches,
  asks the \<open>IOMonitor\<close> for events of the kernel, reads, writes through a \<open>SendBuffer\<close> per connection,
  closes what is silent for too long, and submits \<open>NetworkEvent\<close>s to the \<open>WorkerPool\<close>, which calls the user from its threads.
  The \<open>Server\<close> owns these objects and routes outgoing data by the reactor number in the connection
  identifier. A \<open>Client\<close> has a pool of one thread and a \<open>ClientReactor\<close> with one connection. The framing protocol
  (\<open>Encoder\<close>, \<open>Decoder\<close>) is used by applications on top of the byte streams.

  \<^bold>\<open>Theories\<close>, with the files under \<^verbatim>\<open>src/\<close> they model:
  \<^item> \<open>Prelude\<close>: types, byte order, list and word lemmas, and the interfaces as locales: bounded FIFO queues,
    transition systems with an invariant, objects that refine a specification. Every locale is interpreted on the
    model: queues by \<open>ConcurrentQueue\<close> and \<open>SPSCRingQueue\<close>, transition systems by the ring queues, the object pool, the memory pool, the
    server, the client reactor, the client, the concurrent map, the throttle, the thread pool and the process tree among others, refinement by
    \<open>LRUCache\<close>, \<open>BitSet\<close>, \<open>MPMCRingQueue\<close> and the sharded map.
  \<^item> \<open>CRC32\<close>, \<open>ProtocolFrame\<close>, \<open>ProtocolEncoder\<close>, \<open>ProtocolDecoder\<close>, \<open>ProtocolRoundtrip\<close>
    (\<^verbatim>\<open>network/protocol.cpp\<close>, \<^verbatim>\<open>protocol.h\<close>): the table-driven CRC-32 is the bitwise one; frames and messages survive
    encoding, interleaving, any division into reads, and decoding; corrupted frames are skipped; the receive
    buffer is bounded; what goes wrong for oversized messages and inconsistent senders is stated exactly.
  \<^item> \<open>ConnectionId\<close> (\<^verbatim>\<open>connection_id_generator.cpp\<close>): packing and unpacking of identifiers.
  \<^item> \<open>ConcurrentQueue\<close> (\<^verbatim>\<open>concurrent_queue.h\<close>): operations under the lock as atomic steps; linear behaviour.
  \<^item> \<open>SystemCalls\<close>, \<open>Events\<close>, \<open>IOMonitor\<close> (\<^verbatim>\<open>event.h\<close>, \<^verbatim>\<open>configuration.h\<close>, \<^verbatim>\<open>io_monitor.cpp\<close>): the vocabulary of
    the reactors, with the registered filters as state.
  \<^item> \<open>SocketHelper\<close> (\<^verbatim>\<open>socket_helper.cpp\<close>): socket addresses as bytes in memory; addresses, ports and paths survive
    resolving and printing, up to the length of a Unix domain path.
  \<^item> \<open>SendBuffer\<close> (\<^verbatim>\<open>send_buffer.cpp\<close>): growth, compaction, partial sends; no byte lost, duplicated or reordered.
  \<^item> \<open>WorkerPool\<close> (\<^verbatim>\<open>worker_pool.cpp\<close>): workers and \<open>Stop\<close> as interleaved steps; order per connection, and what a
    concurrent stop can lose.
  \<^item> \<open>Reactor\<close>, \<open>ReactorProperties\<close>, \<open>ReactorFrame\<close> (\<^verbatim>\<open>reactor.cpp\<close>): every handler and a round of the loop; an
    invariant over all reachable states, from which the life of a connection in the events, the descriptor
    table, byte accounting and termination follow; \<open>ReactorFrame\<close> says what each handler leaves alone.
  \<^item> \<open>Acceptor\<close> (\<^verbatim>\<open>acceptor.cpp\<close>): every accepted descriptor goes to one reactor or is closed.
  \<^item> \<open>Server\<close> (\<^verbatim>\<open>server.cpp\<close>): start, stop, routing, statistics, over the models of its parts.
  \<^item> \<open>ClientReactor\<close>, \<open>Client\<close> (\<^verbatim>\<open>client_reactor.cpp\<close>, \<^verbatim>\<open>client.cpp\<close>): the client's loop and the state machine of
    the client; what its events tell, what it sends, and the ways it can be caught.
  \<^item> \<open>CircularBuffer\<close>, \<open>LRUCache\<close>, \<open>SPSCRingQueue\<close> (\<^verbatim>\<open>foundation/container\<close>): the buffer holds the last
    values, the cache refines a list in order of use (with the nodes of its linked list as addresses), the
    ring queue is a FIFO in every interleaving of its two threads.
  \<^item> \<open>MPMCRingQueue\<close>, \<open>ObjectPool\<close> (\<^verbatim>\<open>foundation/container\<close>): the queue with sequence numbers, for any number of
    producers and consumers interleaved at every access; the pool never loses or duplicates an object.
  \<^item> \<open>BitSet\<close> (\<^verbatim>\<open>foundation/container\<close>): packed bits refine a finite set of numbers.
  \<^item> \<open>Sort\<close>, \<open>Search\<close> (\<^verbatim>\<open>foundation/algorithm\<close>): the four sorting algorithms and the searches on arrays, for every strict
    weak order (a locale, interpreted on the default comparison).
  \<^item> \<open>Hash\<close>, \<open>BloomFilter\<close> (\<^verbatim>\<open>foundation/algorithm\<close>): the hash functions lose no single changed byte; the filter
    has no false negatives, and its false positives are those of its bit positions.
  \<^item> \<open>MemoryPool\<close> (\<^verbatim>\<open>foundation/memory\<close>): the free-list allocator in memory that programs overwrite; no byte
    is given twice or lost.
  \<^item> \<open>Calendar\<close>, \<open>CalendarProperties\<close> (\<^verbatim>\<open>foundation/date\<close>): the calendar arithmetic against the succession of days.
  \<^item> \<open>Encoding\<close> (\<^verbatim>\<open>foundation/string\<close>): UTF-8, UTF-16 and UTF-32 round trips; what a malformed string does.
  \<^item> \<open>ConcurrentMap\<close> (\<^verbatim>\<open>foundation/container\<close>): the sharded map refines a finite map; \<open>getOrInsert\<close> calls its factory once
    per key although it locks twice.
  \<^item> \<open>UUID\<close>, \<open>StringUtils\<close>, \<open>FilePath\<close> (\<^verbatim>\<open>foundation/uuid\<close>, \<^verbatim>\<open>string\<close>, \<^verbatim>\<open>file\<close>): the text forms of identifiers are read
    back, splitting undoes joining, replacing is exact, paths are normalised; what is accepted or lost beyond that.
  \<^item> \<open>Throttle\<close> (\<^verbatim>\<open>foundation/throttle\<close>): calls of one event keep their distance, and none that is due is missed.
  \<^item> \<open>AsyncQueue\<close>, \<open>Timer\<close> (\<^verbatim>\<open>foundation/thread\<close>, \<^verbatim>\<open>timer\<close>): the thread pool runs every task once and can be
    destroyed; the periods of the timers.
  \<^item> \<open>ProcessTree\<close> (\<^verbatim>\<open>foundation/process\<close>): the counts of living descendants, the cleaning up of the dead, and lineages
    that end although pointers may form cycles.
  \<^item> \<open>LogRotate\<close> (\<^verbatim>\<open>foundation/logger\<close>, with the operations of \<open>FileManager\<close> it calls): the files of a rotating sink hold
    the newest segments of the log.

  \<^bold>\<open>Conventions.\<close> A class is a record with the members of the code; an operation is a function that returns
  its result and the new object. Members that are only history (bytes sent, events dispatched, closed
  descriptors) are named as such in their theory and never read by an operation. Answers of the kernel, of the
  clock and of libraries are arguments, quantified over in the theorems; where a theorem needs the kernel to behave
  (\<open>send\<close> takes no more than it is given), this is a named hypothesis. Integers whose width matters are
  words. A result of type option is None when the call does not return: it waits for room in a queue, or a loop
  (a \<^theory_text>\<open>partial_function\<close>) runs for ever. No fuel is used: batches are bounded as in the code
  (100 operations), and loops over answers of the kernel recurse over the list of these answers.

  \<^bold>\<open>Not modelled.\<close> The memory model below sequential consistency, except that loads of the positions of the ring
  queues may return older values; data races between a client's caller and its loop, whose calls are taken as atomic;
  exceptions of user callbacks and of the allocator; logging; floating point (the sizing and the estimates of
  \<open>BloomFilter\<close>, the interpolation search); generic algorithms over other containers than vectors. In the foundation: regular
  expressions, formats and changes of case are the standard library's and the locale's; \<open>DateTime\<close>, \<open>Duration\<close>,
  \<open>Timestamp\<close> and \<open>TimeZone\<close> call the clock, the C library and CoreFoundation; file handles, locks, watchers, memory maps, directories,
  shared memory, commands, dispatch queues and run loops are wrappers of the operating system; SQLite is a library with a
  thin wrapper. \<open>ThreadSafeObjectPool\<close> forwards to the pool under a mutex. Loggers format and write, and never read back.
\<close>

end
